(* ===== verification/C_Prelude.thy ===== *)
theory C_Prelude
  imports Main "HOL-Library.Monad_Syntax" "HOL-Library.Word"
begin

text \<open>
  The vocabulary shared by the components.  A C function that may overflow a signed
  integer, leave an allocated block, read an uninitialised cell, abort or loop for ever is a
  function into \<open>option\<close>: \<open>None\<close> means that the call does not return with a
  defined result, and \<open>Some\<close> carries the returned value and the updated state.
  Whether an allocation succeeds is decided by a predicate on the number of bytes asked for
  (\<open>malloc_fn\<close>), an argument of every operation that allocates.
\<close>

named_theorems cmem \<open>rules for loads, stores and block copies\<close>

type_synonym malloc_fn = "int \<Rightarrow> bool"

text \<open>A block of memory: one cell per element, \<open>None\<close> for a cell that was never written.\<close>

type_synonym 'a cells = "'a option list"

section \<open>Signed integers\<close>

abbreviation INT_MAX :: int where "INT_MAX \<equiv> 2147483647"
abbreviation INT_MIN :: int where "INT_MIN \<equiv> - 2147483648"

definition c_int_ok :: "int \<Rightarrow> bool" where
  "c_int_ok x \<longleftrightarrow> INT_MIN \<le> x \<and> x \<le> INT_MAX"

definition c_assert :: "bool \<Rightarrow> unit option" where
  "c_assert b = (if b then Some () else None)"

lemma c_assert_True [simp]: "c_assert True = Some ()"
  by (simp add: c_assert_def)

lemma c_assert_False [simp]: "c_assert False = None"
  by (simp add: c_assert_def)

lemma c_assert_eq_Some [simp]: "c_assert b = Some u \<longleftrightarrow> b"
  by (simp add: c_assert_def)

lemma c_assert_bind_Some [simp]:
  "c_assert b \<bind> (\<lambda>_. f) = Some r \<longleftrightarrow> b \<and> f = Some r"
  by (simp add: c_assert_def)

section \<open>Characters and strings\<close>

abbreviation NUL :: char where "NUL \<equiv> CHR 0x00"

text \<open>C's \<open>isspace\<close> and \<open>isdigit\<close> in the C locale.\<close>

definition c_isspace :: "char \<Rightarrow> bool" where
  "c_isspace c \<longleftrightarrow> c \<in> {CHR 0x09, CHR 0x0A, CHR 0x0B, CHR 0x0C, CHR 0x0D, CHR '' ''}"

definition c_isdigit :: "char \<Rightarrow> bool" where
  "c_isdigit c \<longleftrightarrow> c \<in> set ''0123456789''"

definition c_tolower :: "char \<Rightarrow> char" where
  "c_tolower c = (if 65 \<le> (of_char c :: nat) \<and> of_char c \<le> (90 :: nat)
                  then char_of (of_char c + 32 :: nat) else c)"

section \<open>Blocks of memory\<close>

definition c_load :: "'a cells \<Rightarrow> int \<Rightarrow> 'a option" where
  "c_load m i = (if 0 \<le> i \<and> i < int (length m) then m ! nat i else None)"

definition c_store :: "'a cells \<Rightarrow> int \<Rightarrow> 'a \<Rightarrow> 'a cells option" where
  "c_store m i v = (if 0 \<le> i \<and> i < int (length m) then Some (m[nat i := Some v]) else None)"

text \<open>Write the values \<open>xs\<close> from offset \<open>off\<close> on, inside the block.\<close>

definition c_write :: "'a cells \<Rightarrow> int \<Rightarrow> 'a list \<Rightarrow> 'a cells option" where
  "c_write m off xs =
     (if 0 \<le> off \<and> off + int (length xs) \<le> int (length m)
      then Some (take (nat off) m @ map Some xs @ drop (nat off + length xs) m) else None)"

text \<open>\<open>memcpy (m + off, src, n)\<close>: \<open>n\<close> elements must be readable at the source.\<close>

definition c_memcpy :: "'a cells \<Rightarrow> int \<Rightarrow> 'a list \<Rightarrow> int \<Rightarrow> 'a cells option" where
  "c_memcpy m off src n =
     (if 0 \<le> n \<and> n \<le> int (length src) then c_write m off (take (nat n) src) else None)"

definition c_memset :: "'a cells \<Rightarrow> int \<Rightarrow> 'a \<Rightarrow> int \<Rightarrow> 'a cells option" where
  "c_memset m off v n = (if 0 \<le> n then c_write m off (replicate (nat n) v) else None)"

text \<open>
  The C string that starts at the head of a block: the characters before the first NUL,
  undefined when the block ends or is uninitialised before it.
\<close>

fun c_str :: "char cells \<Rightarrow> string option" where
  "c_str [] = None"
| "c_str (None # m) = None"
| "c_str (Some c # m) = (if c = NUL then Some [] else map_option ((#) c) (c_str m))"

subsection \<open>Facts about blocks\<close>

lemma c_load_in [cmem]: "0 \<le> i \<Longrightarrow> i < int (length m) \<Longrightarrow> c_load m i = m ! nat i"
  by (simp add: c_load_def)

lemma c_store_in [cmem]:
  "0 \<le> i \<Longrightarrow> i < int (length m) \<Longrightarrow> c_store m i v = Some (m[nat i := Some v])"
  by (simp add: c_store_def)

lemma c_write_in [cmem]:
  "0 \<le> off \<Longrightarrow> off + int (length xs) \<le> int (length m) \<Longrightarrow>
   c_write m off xs = Some (take (nat off) m @ map Some xs @ drop (nat off + length xs) m)"
  by (simp add: c_write_def)

lemma c_memcpy_in [cmem]:
  "0 \<le> n \<Longrightarrow> n \<le> int (length src) \<Longrightarrow> c_memcpy m off src n = c_write m off (take (nat n) src)"
  by (simp add: c_memcpy_def)

lemma c_memset_in [cmem]:
  "0 \<le> n \<Longrightarrow> c_memset m off v n = c_write m off (replicate (nat n) v)"
  by (simp add: c_memset_def)

lemma c_write_length: "c_write m off xs = Some m' \<Longrightarrow> length m' = length m"
  by (auto simp: c_write_def split: if_splits)

lemma c_store_length: "c_store m i v = Some m' \<Longrightarrow> length m' = length m"
  by (auto simp: c_store_def split: if_splits)

lemma c_memcpy_length: "c_memcpy m off src n = Some m' \<Longrightarrow> length m' = length m"
  by (auto simp: c_memcpy_def dest: c_write_length split: if_splits)

lemma c_memset_length: "c_memset m off v n = Some m' \<Longrightarrow> length m' = length m"
  by (auto simp: c_memset_def dest: c_write_length split: if_splits)

lemma c_write_over: "length ys = length xs \<Longrightarrow>
    c_write (map Some xs @ rest) 0 ys = Some (map Some ys @ rest)"
  by (simp add: c_write_def)

text \<open>A block that starts with initialised text is extended at its end.\<close>

lemma c_write_append:
  "length m = length xs + length ys + k \<Longrightarrow> take (length xs) m = map Some xs \<Longrightarrow>
   c_write m (int (length xs)) ys
     = Some (map Some (xs @ ys) @ drop (length xs + length ys) m)"
  by (simp add: c_write_def)

lemma c_str_text:
  "NUL \<notin> set xs \<Longrightarrow> c_str (map Some xs @ Some NUL # m) = Some xs"
  by (induction xs) auto

text \<open>With an embedded NUL the string ends early.\<close>

lemma c_str_takeWhile:
  "c_str (map Some xs @ Some NUL # m) = Some (takeWhile (\<lambda>c. c \<noteq> NUL) xs)"
  by (induction xs) auto

lemma c_str_no_NUL: "c_str m = Some s \<Longrightarrow> NUL \<notin> set s"
  by (induction m arbitrary: s rule: c_str.induct) (auto split: if_splits)

lemma c_str_length: "c_str m = Some s \<Longrightarrow> length s < length m"
  by (induction m arbitrary: s rule: c_str.induct) (auto split: if_splits)

section \<open>Loops over lists\<close>

text \<open>Run the body over the elements in order, threading a state.\<close>

primrec ofold :: "('a \<Rightarrow> 's \<Rightarrow> 's option) \<Rightarrow> 'a list \<Rightarrow> 's \<Rightarrow> 's option" where
  "ofold f [] s = Some s"
| "ofold f (x # xs) s = do { s \<leftarrow> f x s; ofold f xs s }"

lemma ofold_append [simp]: "ofold f (xs @ ys) s = ofold f xs s \<bind> ofold f ys"
  by (induction xs arbitrary: s) (auto simp: bind_assoc cong: bind_option_cong)

lemma ofold_cong:
  "(\<And>x s. x \<in> set xs \<Longrightarrow> f x s = g x s) \<Longrightarrow> ofold f xs s = ofold g xs s"
  by (induction xs arbitrary: s) (auto cong: bind_option_cong)

lemma ofold_fundef_cong [fundef_cong]:
  "xs = ys \<Longrightarrow> s = t \<Longrightarrow> (\<And>x s. x \<in> set ys \<Longrightarrow> f x s = g x s) \<Longrightarrow> ofold f xs s = ofold g ys t"
  using ofold_cong [of ys f g t] by simp

lemma ofold_map: "ofold f (map h xs) s = ofold (\<lambda>x. f (h x)) xs s"
  by (induction xs arbitrary: s) (auto cong: bind_option_cong)

text \<open>The rule for such loops: an invariant over the elements done so far.\<close>

lemma ofold_inv:
  assumes "I [] s"
    and "\<And>ys x zs s. xs = ys @ x # zs \<Longrightarrow> I ys s \<Longrightarrow> \<exists>s'. f x s = Some s' \<and> I (ys @ [x]) s'"
  shows "\<exists>s'. ofold f xs s = Some s' \<and> I xs s'"
  using assms
proof (induction xs arbitrary: s rule: rev_induct)
  case Nil
  then show ?case by simp
next
  case (snoc x xs)
  have "\<exists>s'. ofold f xs s = Some s' \<and> I xs s'"
    by (rule snoc.IH [OF snoc.prems(1)]) (use snoc.prems(2) in \<open>auto\<close>)
  with snoc.prems(2) [of xs x "[]"] show ?case by auto
qed

end
