(* ===== verification/Printbuf.thy ===== *)
theory Printbuf
  imports C_Prelude
begin

text \<open>
  The growable character buffer of \<^verbatim>\<open>json-c-0.11/printbuf.c\<close>.  \<open>pb_buf\<close> is the allocated block
  (as many cells as \<open>pb_size\<close> says), \<open>pb_bpos\<close> the number of characters written.  The
  invariant \<open>pb_inv\<close> is kept by every operation; \<open>pb_text\<close> is the text the buffer holds,
  and the operations are shown to append to, overwrite or clear that text without leaving
  the block.  The locale \<open>text_sink\<close> is the contract the serialiser relies on.
\<close>

section \<open>Operations\<close>

record printbuf =
  pb_buf :: "char cells"
  pb_bpos :: int
  pb_size :: int

text \<open>The sizes the allocator is asked for: the struct itself is 16 bytes on LP64.\<close>

definition printbuf_new :: "malloc_fn \<Rightarrow> printbuf option" where
  "printbuf_new mal =
     (if \<not> mal 16 then None
      else if \<not> mal 32 then None
      else Some \<lparr>pb_buf = replicate 32 None, pb_bpos = 0, pb_size = 32\<rparr>)"

definition printbuf_extend :: "malloc_fn \<Rightarrow> printbuf \<Rightarrow> int \<Rightarrow> (int \<times> printbuf) option" where
  "printbuf_extend mal p min_size =
     (if pb_size p \<ge> min_size then Some (0, p)
      else do {
        c_assert (c_int_ok (pb_size p * 2) \<and> c_int_ok (min_size + 8));
        let new_size = max (pb_size p * 2) (min_size + 8);
        if \<not> mal new_size then Some (-1, p)
        else Some (0, p\<lparr>pb_size := new_size,
                        pb_buf := pb_buf p @ replicate (nat new_size - length (pb_buf p)) None\<rparr>)
      })"

definition printbuf_memappend ::
  "malloc_fn \<Rightarrow> printbuf \<Rightarrow> string \<Rightarrow> int \<Rightarrow> (int \<times> printbuf) option" where
  "printbuf_memappend mal p src n = do {
     c_assert (c_int_ok (pb_bpos p + n + 1));
     (r, p) \<leftarrow> (if pb_size p \<le> pb_bpos p + n + 1
                then printbuf_extend mal p (pb_bpos p + n + 1) else Some (0, p));
     if r < 0 then Some (-1, p)
     else do {
       b \<leftarrow> c_memcpy (pb_buf p) (pb_bpos p) src n;
       b \<leftarrow> c_store b (pb_bpos p + n) NUL;
       Some (n, p\<lparr>pb_buf := b, pb_bpos := pb_bpos p + n\<rparr>)
     }
   }"

text \<open>The macro \<open>printbuf_memappend_fast\<close>; the result of the slow path is not looked at.\<close>

definition printbuf_memappend_fast ::
  "malloc_fn \<Rightarrow> printbuf \<Rightarrow> string \<Rightarrow> int \<Rightarrow> printbuf option" where
  "printbuf_memappend_fast mal p src n =
     (if pb_size p - pb_bpos p > n then do {
        b \<leftarrow> c_memcpy (pb_buf p) (pb_bpos p) src n;
        b \<leftarrow> c_store b (pb_bpos p + n) NUL;
        Some (p\<lparr>pb_buf := b, pb_bpos := pb_bpos p + n\<rparr>)
      }
      else map_option snd (printbuf_memappend mal p src n))"

definition printbuf_memset ::
  "malloc_fn \<Rightarrow> printbuf \<Rightarrow> int \<Rightarrow> char \<Rightarrow> int \<Rightarrow> (int \<times> printbuf) option" where
  "printbuf_memset mal pb offset charvalue len = do {
     let offset = (if offset = -1 then pb_bpos pb else offset);
     let size_needed = offset + len;
     c_assert (c_int_ok size_needed);
     (r, pb) \<leftarrow> (if pb_size pb < size_needed then printbuf_extend mal pb size_needed
                 else Some (0, pb));
     if r < 0 then Some (-1, pb)
     else do {
       b \<leftarrow> c_memset (pb_buf pb) offset charvalue len;
       Some (0, pb\<lparr>pb_buf := b,
                   pb_bpos := (if pb_bpos pb < size_needed then size_needed else pb_bpos pb)\<rparr>)
     }
   }"

text \<open>
  \<open>sprintbuf\<close>, given the text \<open>out\<close> that the format and its arguments produce.  A text of
  at most 127 characters goes through the stack buffer, a longer one through
  \<open>vasprintf\<close>, which allocates; the result of the append is not looked at.
\<close>

definition sprintbuf :: "malloc_fn \<Rightarrow> printbuf \<Rightarrow> string \<Rightarrow> (int \<times> printbuf) option" where
  "sprintbuf mal p out =
     (let size = int (length out)
      in if size > 127 then
           (if \<not> mal (size + 1) then Some (-1, p)
            else do { (_, p) \<leftarrow> printbuf_memappend mal p out size; Some (size, p) })
         else do { (_, p) \<leftarrow> printbuf_memappend mal p out size; Some (size, p) })"

definition printbuf_reset :: "printbuf \<Rightarrow> printbuf option" where
  "printbuf_reset p = do {
     b \<leftarrow> c_store (pb_buf p) 0 NUL;
     Some (p\<lparr>pb_buf := b, pb_bpos := 0\<rparr>)
   }"

section \<open>Invariant and abstraction\<close>

definition pb_text :: "printbuf \<Rightarrow> string" where
  "pb_text p = map the (take (nat (pb_bpos p)) (pb_buf p))"

definition pb_inv :: "printbuf \<Rightarrow> bool" where
  "pb_inv p \<longleftrightarrow> int (length (pb_buf p)) = pb_size p \<and> 0 \<le> pb_bpos p \<and> 0 < pb_size p
     \<and> pb_bpos p \<le> pb_size p \<and> pb_size p \<le> INT_MAX
     \<and> None \<notin> set (take (nat (pb_bpos p)) (pb_buf p))"

text \<open>The buffer is a C string: the cell after the text holds NUL.\<close>

definition pb_nul :: "printbuf \<Rightarrow> bool" where
  "pb_nul p \<longleftrightarrow> c_load (pb_buf p) (pb_bpos p) = Some NUL"

lemma map_Some_the: "None \<notin> set xs \<Longrightarrow> map Some (map the xs) = xs"
  by (induction xs) auto

text \<open>How to establish it: show the block of the new buffer.\<close>

lemma pb_invI:
  assumes "pb_buf p = map Some xs @ rest" "pb_bpos p = int (length xs)"
    "pb_size p = int (length xs + length rest)" "0 < pb_size p" "pb_size p \<le> INT_MAX"
  shows "pb_inv p \<and> pb_text p = xs"
  using assms by (auto simp: pb_inv_def pb_text_def comp_def)

lemma pb_invE:
  assumes "pb_inv p"
  obtains rest where "pb_buf p = map Some (pb_text p) @ rest"
    "pb_bpos p = int (length (pb_text p))"
    "pb_size p = int (length (pb_text p) + length rest)" "0 < pb_size p" "pb_size p \<le> INT_MAX"
proof (rule that)
  have n: "nat (pb_bpos p) \<le> length (pb_buf p)" "0 \<le> pb_bpos p"
    using assms by (auto simp: pb_inv_def nat_le_iff)
  then have l: "length (pb_text p) = nat (pb_bpos p)"
    by (simp add: pb_text_def)
  show "pb_buf p = map Some (pb_text p) @ drop (nat (pb_bpos p)) (pb_buf p)"
    using assms map_Some_the [of "take (nat (pb_bpos p)) (pb_buf p)"]
    by (simp add: pb_inv_def pb_text_def)
  show "pb_bpos p = int (length (pb_text p))"
    using n l by simp
  show "pb_size p = int (length (pb_text p) + length (drop (nat (pb_bpos p)) (pb_buf p)))"
    using n l assms by (simp add: pb_inv_def)
  show "0 < pb_size p" "pb_size p \<le> INT_MAX"
    using assms by (simp_all add: pb_inv_def)
qed

lemma pb_nul_append:
  "pb_buf p = map Some xs @ Some NUL # rest \<Longrightarrow> pb_bpos p = int (length xs) \<Longrightarrow> pb_nul p"
  by (simp add: pb_nul_def c_load_def nth_append)

text \<open>A NUL-terminated buffer read as a C string gives the text up to the first NUL in it.\<close>

lemma pb_c_str:
  assumes "pb_inv p" "pb_nul p"
  shows "c_str (pb_buf p) = Some (takeWhile (\<lambda>c. c \<noteq> NUL) (pb_text p))"
proof -
  from assms(1) obtain rest where r: "pb_buf p = map Some (pb_text p) @ rest"
    "pb_bpos p = int (length (pb_text p))" by (rule pb_invE)
  with assms(2) obtain rest' where "rest = Some NUL # rest'"
    by (cases rest) (auto simp: pb_nul_def c_load_def nth_append split: if_splits)
  with r show ?thesis by (metis c_str_takeWhile)
qed

section \<open>Correctness of the operations\<close>

lemma printbuf_new_inv:
  "printbuf_new mal = Some p \<Longrightarrow> pb_inv p \<and> pb_text p = []"
  by (auto simp: printbuf_new_def pb_inv_def pb_text_def split: if_splits)

lemma printbuf_new_ok: "printbuf_new (\<lambda>_. True) = Some \<lparr>pb_buf = replicate 32 None, pb_bpos = 0, pb_size = 32\<rparr>"
  by (simp add: printbuf_new_def)

text \<open>Growing keeps the text and makes the block at least as large as asked.\<close>

lemma printbuf_extend_spec:
  assumes inv: "pb_inv p" and b: "pb_size p * 2 \<le> INT_MAX" "m + 8 \<le> INT_MAX"
    and mal: "pb_size p < m \<Longrightarrow> mal (max (pb_size p * 2) (m + 8))"
  shows "\<exists>p'. printbuf_extend mal p m = Some (0, p') \<and> pb_inv p' \<and> pb_text p' = pb_text p
     \<and> pb_bpos p' = pb_bpos p \<and> m \<le> pb_size p'
     \<and> pb_size p \<le> pb_size p' \<and> pb_size p' \<le> max (pb_size p) (2 * m + 8)"
proof (cases "pb_size p \<ge> m")
  case True
  with inv show ?thesis by (simp add: printbuf_extend_def)
next
  case False
  from inv obtain rest where r: "pb_buf p = map Some (pb_text p) @ rest"
    "pb_bpos p = int (length (pb_text p))"
    "pb_size p = int (length (pb_text p) + length rest)" "0 < pb_size p" by (rule pb_invE)
  define n where "n = max (pb_size p * 2) (m + 8)"
  define fresh where "fresh = replicate (nat n - length (pb_buf p)) (None :: char option)"
  define p' where "p' = p\<lparr>pb_size := n, pb_buf := pb_buf p @ fresh\<rparr>"
  have n: "pb_size p \<le> n" "m \<le> n" "n \<le> 2 * m + 8" "n \<le> INT_MAX"
    using False b r(4) by (auto simp: n_def)
  have "printbuf_extend mal p m = Some (0, p')"
    using False b mal r(4) by (simp add: printbuf_extend_def c_int_ok_def p'_def n_def fresh_def Let_def)
  moreover have "pb_inv p' \<and> pb_text p' = pb_text p"
  proof (rule pb_invI)
    show "pb_buf p' = map Some (pb_text p) @ (rest @ fresh)"
      using r(1) by (simp add: p'_def)
    show "pb_size p' = int (length (pb_text p) + length (rest @ fresh))"
      using r n by (simp add: p'_def fresh_def)
  qed (use r n in \<open>simp_all add: p'_def\<close>)
  ultimately show ?thesis using n by (auto simp: p'_def)
qed

text \<open>Copying into a block that is large enough appends and terminates the text.\<close>

lemma pb_write_spec:
  assumes inv: "pb_inv p" and n: "0 \<le> n" "n \<le> int (length src)" "pb_bpos p + n < pb_size p"
  shows "\<exists>b. c_memcpy (pb_buf p) (pb_bpos p) src n = Some b
    \<and> (\<exists>b'. c_store b (pb_bpos p + n) NUL = Some b'
         \<and> (let p' = p\<lparr>pb_buf := b', pb_bpos := pb_bpos p + n\<rparr>
            in pb_inv p' \<and> pb_nul p' \<and> pb_text p' = pb_text p @ take (nat n) src))"
proof -
  from inv obtain rest where r: "pb_buf p = map Some (pb_text p) @ rest"
    "pb_bpos p = int (length (pb_text p))"
    "pb_size p = int (length (pb_text p) + length rest)" "0 < pb_size p" "pb_size p \<le> INT_MAX"
    by (rule pb_invE)
  define xs where "xs = take (nat n) src"
  have xs: "length xs = nat n" using n by (simp add: xs_def)
  from n r have l: "nat n < length rest" by simp
  define b where "b = map Some (pb_text p @ xs) @ drop (nat n) rest"
  define b' where "b' = map Some (pb_text p @ xs) @ Some NUL # drop (Suc (nat n)) rest"
  have cp: "c_memcpy (pb_buf p) (pb_bpos p) src n = Some b"
    using r n l xs by (simp add: c_memcpy_def c_write_def b_def xs_def)
  have "b[nat (pb_bpos p + n) := Some NUL] = b'"
    using r(2) n xs l by (simp add: b_def b'_def nat_add_distrib list_update_append
        Cons_nth_drop_Suc [symmetric])
  then have st: "c_store b (pb_bpos p + n) NUL = Some b'"
    using r(2) n xs l by (simp add: c_store_def b_def)
  define p' where "p' = p\<lparr>pb_buf := b', pb_bpos := pb_bpos p + n\<rparr>"
  have "pb_inv p' \<and> pb_text p' = pb_text p @ xs"
    by (rule pb_invI [of _ _ "Some NUL # drop (Suc (nat n)) rest"])
      (use r n xs l in \<open>simp_all add: p'_def b'_def\<close>)
  moreover have "pb_nul p'"
    by (rule pb_nul_append [of _ "pb_text p @ xs" "drop (Suc (nat n)) rest"])
      (use r n xs in \<open>simp_all add: p'_def b'_def\<close>)
  ultimately show ?thesis
    using cp st by (auto simp: p'_def xs_def Let_def)
qed

lemma printbuf_memappend_spec:
  assumes inv: "pb_inv p" and n: "0 \<le> n" "n \<le> int (length src)"
    and b: "pb_size p * 2 \<le> INT_MAX" "pb_bpos p + n + 9 \<le> INT_MAX"
    and mal: "pb_size p < pb_bpos p + n + 1 \<Longrightarrow> mal (max (pb_size p * 2) (pb_bpos p + n + 9))"
  shows "\<exists>p'. printbuf_memappend mal p src n = Some (n, p') \<and> pb_inv p' \<and> pb_nul p'
     \<and> pb_text p' = pb_text p @ take (nat n) src
     \<and> pb_size p' \<le> max (pb_size p) (2 * (pb_bpos p + n) + 10)"
proof -
  let ?m = "pb_bpos p + n + 1"
  from printbuf_extend_spec [OF inv b(1), of ?m mal] b(2) mal
  obtain q where q: "printbuf_extend mal p ?m = Some (0, q)" "pb_inv q" "pb_text q = pb_text p"
    "pb_bpos q = pb_bpos p" "?m \<le> pb_size q" "pb_size q \<le> max (pb_size p) (2 * ?m + 8)"
    by (auto simp: add.assoc)
  define q' where "q' = (if pb_size p \<le> ?m then q else p)"
  have q': "pb_inv q'" "pb_text q' = pb_text p" "pb_bpos q' = pb_bpos p"
    "pb_bpos q' + n < pb_size q'" "pb_size q' \<le> max (pb_size p) (2 * ?m + 8)"
    using q inv by (auto simp: q'_def)
  have e: "(if pb_size p \<le> ?m then printbuf_extend mal p ?m else Some (0, p)) = Some (0, q')"
    using q(1) by (simp add: q'_def)
  from pb_write_spec [OF q'(1) n q'(4)] obtain bb bb' where
    w: "c_memcpy (pb_buf q') (pb_bpos p) src n = Some bb"
       "c_store bb (pb_bpos p + n) NUL = Some bb'"
       "pb_inv (q'\<lparr>pb_buf := bb', pb_bpos := pb_bpos p + n\<rparr>)"
       "pb_nul (q'\<lparr>pb_buf := bb', pb_bpos := pb_bpos p + n\<rparr>)"
       "pb_text (q'\<lparr>pb_buf := bb', pb_bpos := pb_bpos p + n\<rparr>) = pb_text p @ take (nat n) src"
    by (auto simp: Let_def q'(2,3))
  have ok: "c_int_ok ?m"
    using b(2) n inv by (simp add: c_int_ok_def pb_inv_def)
  show ?thesis
    using w q'(5) ok by (auto simp: printbuf_memappend_def e q'(3))
qed

text \<open>When the block cannot grow, the call reports \<open>-1\<close> and leaves the buffer as it was.\<close>

lemma printbuf_memappend_nomem:
  assumes inv: "pb_inv p" and n: "0 \<le> n"
    and b: "pb_size p * 2 \<le> INT_MAX" "pb_bpos p + n + 9 \<le> INT_MAX"
    and grow: "pb_size p < pb_bpos p + n + 1"
    and mal: "\<not> mal (max (pb_size p * 2) (pb_bpos p + n + 9))"
  shows "printbuf_memappend mal p src n = Some (-1, p)"
  using assms by (simp add: printbuf_memappend_def printbuf_extend_def c_int_ok_def pb_inv_def
      Let_def add.assoc)

text \<open>The macro that skips the growth test gives the same text as the function.\<close>

lemma printbuf_memappend_fast_spec:
  assumes inv: "pb_inv p" and n: "0 \<le> n" "n \<le> int (length src)"
    and b: "pb_size p * 2 \<le> INT_MAX" "pb_bpos p + n + 9 \<le> INT_MAX"
    and mal: "pb_size p < pb_bpos p + n + 1 \<Longrightarrow> mal (max (pb_size p * 2) (pb_bpos p + n + 9))"
  shows "\<exists>p'. printbuf_memappend_fast mal p src n = Some p' \<and> pb_inv p' \<and> pb_nul p'
     \<and> pb_text p' = pb_text p @ take (nat n) src
     \<and> pb_size p' \<le> max (pb_size p) (2 * (pb_bpos p + n) + 10)"
proof (cases "pb_size p - pb_bpos p > n")
  case True
  then have "pb_bpos p + n < pb_size p" by simp
  from pb_write_spec [OF inv n this] True show ?thesis
    by (auto simp: printbuf_memappend_fast_def Let_def)
next
  case False
  then show ?thesis
    using printbuf_memappend_spec [OF inv n b, of mal] mal
    by (auto simp: printbuf_memappend_fast_def)
qed

lemma printbuf_reset_spec:
  assumes "pb_inv p"
  shows "\<exists>p'. printbuf_reset p = Some p' \<and> pb_inv p' \<and> pb_nul p' \<and> pb_text p' = []
     \<and> pb_size p' = pb_size p"
proof -
  from assms have s: "0 < pb_size p" "pb_size p = int (length (pb_buf p))" "pb_size p \<le> INT_MAX"
    by (simp_all add: pb_inv_def)
  then obtain c m where m: "pb_buf p = c # m" by (cases "pb_buf p") auto
  then show ?thesis
    using s by (auto simp: printbuf_reset_def c_store_def pb_inv_def pb_nul_def c_load_def pb_text_def)
qed

text \<open>
  Overwriting from an offset inside the text: the characters before and after the range
  are kept, and the text grows when the range passes its end.  The buffer is not
  terminated afterwards.
\<close>

lemma printbuf_memset_spec:
  assumes inv: "pb_inv p" and l: "0 \<le> len" and off: "off = -1 \<or> 0 \<le> off \<and> off \<le> pb_bpos p"
    and b: "pb_size p * 2 \<le> INT_MAX" "pb_bpos p + len + 8 \<le> INT_MAX"
    and mal: "\<And>x. mal x"
  shows "\<exists>p'. printbuf_memset mal p off c len = Some (0, p') \<and> pb_inv p'
     \<and> (let o' = nat (if off = -1 then pb_bpos p else off)
        in pb_text p' = take o' (pb_text p) @ replicate (nat len) c @ drop (o' + nat len) (pb_text p))
     \<and> pb_size p' \<le> max (pb_size p) (2 * (pb_bpos p + len) + 8)"
proof -
  define o' where "o' = (if off = -1 then pb_bpos p else off)"
  have o': "0 \<le> o'" "o' \<le> pb_bpos p" using off inv by (auto simp: o'_def pb_inv_def)
  let ?m = "o' + len"
  have bd: "?m + 8 \<le> INT_MAX" using b(2) o' by simp
  from printbuf_extend_spec [OF inv b(1) bd, of mal] mal
  obtain q where q: "printbuf_extend mal p ?m = Some (0, q)" "pb_inv q" "pb_text q = pb_text p"
    "pb_bpos q = pb_bpos p" "?m \<le> pb_size q" "pb_size q \<le> max (pb_size p) (2 * ?m + 8)"
    by auto
  define q' where "q' = (if pb_size p < ?m then q else p)"
  have q': "pb_inv q'" "pb_text q' = pb_text p" "pb_bpos q' = pb_bpos p"
    "?m \<le> pb_size q'" "pb_size q' \<le> max (pb_size p) (2 * ?m + 8)"
    using q inv by (auto simp: q'_def)
  have e: "(if pb_size p < ?m then printbuf_extend mal p ?m else Some (0, p)) = Some (0, q')"
    using q(1) by (simp add: q'_def)
  from q'(1) obtain rest where r: "pb_buf q' = map Some (pb_text p) @ rest"
    "pb_bpos p = int (length (pb_text p))"
    "pb_size q' = int (length (pb_text p) + length rest)" "0 < pb_size q'" "pb_size q' \<le> INT_MAX"
    by (rule pb_invE) (simp add: q')
  let ?k = "nat o'" and ?l = "nat len" and ?t = "pb_text p"
  have k: "?k \<le> length ?t" "?k + ?l \<le> length ?t + length rest"
    using o' r q'(4) l by auto
  define t' where "t' = take ?k ?t @ replicate ?l c @ drop (?k + ?l) ?t"
  define rest' where "rest' = drop (?k + ?l - length ?t) rest"
  have ms: "c_memset (pb_buf q') o' c len = Some (map Some t' @ rest')"
    using k l o' r(1) by (simp add: c_memset_def c_write_def t'_def rest'_def take_map drop_map)
  define p' where "p' = q'\<lparr>pb_buf := map Some t' @ rest',
       pb_bpos := (if pb_bpos q' < ?m then ?m else pb_bpos q')\<rparr>"
  have lt: "length t' = max (length ?t) (?k + ?l)"
    "length t' + length rest' = length ?t + length rest"
    using k by (cases "?k + ?l \<le> length ?t"; simp add: t'_def rest'_def max_def)+
  have "pb_inv p' \<and> pb_text p' = t'"
  proof (rule pb_invI)
    show "pb_size p' = int (length t' + length rest')" using lt(2) r(3) by (simp add: p'_def)
    show "pb_bpos p' = int (length t')" using lt(1) k l o' r(2) q'(3) by (auto simp: p'_def)
  qed (use r in \<open>simp_all add: p'_def\<close>)
  moreover have "c_int_ok ?m" using o' l bd by (simp add: c_int_ok_def)
  then have "printbuf_memset mal p off c len = Some (0, p')"
    by (simp add: printbuf_memset_def Let_def o'_def [symmetric] e ms p'_def)
  moreover have "pb_size p' \<le> max (pb_size p) (2 * (pb_bpos p + len) + 8)"
    using q'(5) o' by (auto simp: p'_def)
  ultimately show ?thesis by (auto simp: t'_def o'_def Let_def)
qed

lemma sprintbuf_spec:
  assumes inv: "pb_inv p" and b: "pb_size p * 2 \<le> INT_MAX" "pb_bpos p + int (length out) + 9 \<le> INT_MAX"
    and mal: "\<And>x. mal x"
  shows "\<exists>p'. sprintbuf mal p out = Some (int (length out), p') \<and> pb_inv p' \<and> pb_nul p'
     \<and> pb_text p' = pb_text p @ out
     \<and> pb_size p' \<le> max (pb_size p) (2 * (pb_bpos p + int (length out)) + 10)"
proof -
  from printbuf_memappend_spec [OF inv _ _ b(1), of "int (length out)" out mal] b(2) mal
  obtain p' where "printbuf_memappend mal p out (int (length out)) = Some (int (length out), p')"
    "pb_inv p'" "pb_nul p'" "pb_text p' = pb_text p @ out"
    "pb_size p' \<le> max (pb_size p) (2 * (pb_bpos p + int (length out)) + 10)"
    by auto
  then show ?thesis using mal by (auto simp: sprintbuf_def Let_def)
qed

section \<open>The interface the serialiser and the tokeniser use\<close>

text \<open>
  A sink of text: as long as the text stays within the limit \<open>L\<close>, every call succeeds and
  appends exactly what it was given.
\<close>

locale text_sink =
  fixes ok :: "nat \<Rightarrow> 'p \<Rightarrow> bool"
    and shown :: "'p \<Rightarrow> string"
    and put :: "'p \<Rightarrow> string \<Rightarrow> 'p option"
  assumes put_spec: "ok L p \<Longrightarrow> length (shown p) + length s \<le> L \<Longrightarrow>
    \<exists>p'. put p s = Some p' \<and> ok L p' \<and> shown p' = shown p @ s"
begin

primrec puts :: "'p \<Rightarrow> string list \<Rightarrow> 'p option" where
  "puts p [] = Some p"
| "puts p (s # ss) = do { p' \<leftarrow> put p s; puts p' ss }"

lemma puts_spec:
  "ok L p \<Longrightarrow> length (shown p) + length (concat ss) \<le> L \<Longrightarrow>
   \<exists>p'. puts p ss = Some p' \<and> ok L p' \<and> shown p' = shown p @ concat ss"
proof (induction ss arbitrary: p)
  case Nil
  then show ?case by simp
next
  case (Cons s ss)
  from Cons.prems put_spec [of L p s] obtain q
    where q: "put p s = Some q" "ok L q" "shown q = shown p @ s" by auto
  with Cons.IH [of q] Cons.prems show ?case by (auto simp: add.assoc)
qed

lemma puts_fail_free: "ok L p \<Longrightarrow> length (shown p) + length (concat ss) \<le> L \<Longrightarrow> puts p ss \<noteq> None"
  using puts_spec by fastforce

end

text \<open>
  The limit in terms of the buffer: the block is at most twice the limit (plus the initial
  slack), so that with a limit below a quarter of the address range no size overflows.
\<close>

definition pb_ok :: "nat \<Rightarrow> printbuf \<Rightarrow> bool" where
  "pb_ok L p \<longleftrightarrow> pb_inv p \<and> length (pb_text p) \<le> L \<and> pb_size p \<le> 2 * int L + 32
     \<and> 4 * int L + 64 \<le> INT_MAX"

definition pb_put :: "printbuf \<Rightarrow> string \<Rightarrow> printbuf option" where
  "pb_put p s = map_option snd (printbuf_memappend (\<lambda>_. True) p s (int (length s)))"

definition pb_printf :: "printbuf \<Rightarrow> string \<Rightarrow> printbuf option" where
  "pb_printf p s = map_option snd (sprintbuf (\<lambda>_. True) p s)"

definition pb_put_fast :: "printbuf \<Rightarrow> string \<Rightarrow> printbuf option" where
  "pb_put_fast p s = printbuf_memappend_fast (\<lambda>_. True) p s (int (length s))"

lemma pb_ok_room:
  assumes "pb_ok L p" "length (pb_text p) + n \<le> L"
  shows "pb_inv p" "pb_size p * 2 \<le> INT_MAX" "pb_bpos p + int n + 9 \<le> INT_MAX"
    "pb_bpos p = int (length (pb_text p))"
proof -
  show inv: "pb_inv p" using assms by (simp add: pb_ok_def)
  then show b: "pb_bpos p = int (length (pb_text p))" by (rule pb_invE)
  from assms have "int (length (pb_text p)) + int n \<le> int L" by linarith
  with assms b show "pb_size p * 2 \<le> INT_MAX" "pb_bpos p + int n + 9 \<le> INT_MAX"
    by (auto simp: pb_ok_def)
qed

lemma pb_ok_step:
  assumes "pb_ok L p" "length (pb_text p) + n \<le> L" "pb_inv p'"
    "length (pb_text p') = length (pb_text p) + n"
    "pb_size p' \<le> max (pb_size p) (2 * (pb_bpos p + int n) + 10)"
  shows "pb_ok L p'"
proof -
  have "pb_bpos p = int (length (pb_text p))" using assms(1,2) by (rule pb_ok_room)
  moreover from assms(2) have "int (length (pb_text p)) + int n \<le> int L" by linarith
  ultimately show ?thesis using assms by (auto simp: pb_ok_def)
qed

lemma pb_put_spec:
  assumes "pb_ok L p" "length (pb_text p) + length s \<le> L"
  shows "\<exists>p'. pb_put p s = Some p' \<and> pb_ok L p' \<and> pb_text p' = pb_text p @ s \<and> pb_nul p'"
proof -
  note r = pb_ok_room [OF assms]
  from printbuf_memappend_spec [OF r(1) _ _ r(2,3), of s "\<lambda>_. True"]
  show ?thesis using pb_ok_step [OF assms] by (auto simp: pb_put_def)
qed

lemma pb_printf_spec:
  assumes "pb_ok L p" "length (pb_text p) + length s \<le> L"
  shows "\<exists>p'. pb_printf p s = Some p' \<and> pb_ok L p' \<and> pb_text p' = pb_text p @ s \<and> pb_nul p'"
proof -
  note r = pb_ok_room [OF assms]
  from sprintbuf_spec [OF r(1,2,3), of "\<lambda>_. True"]
  show ?thesis using pb_ok_step [OF assms] by (auto simp: pb_printf_def)
qed

lemma pb_put_fast_spec:
  assumes "pb_ok L p" "length (pb_text p) + length s \<le> L"
  shows "\<exists>p'. pb_put_fast p s = Some p' \<and> pb_ok L p' \<and> pb_text p' = pb_text p @ s \<and> pb_nul p'"
proof -
  note r = pb_ok_room [OF assms]
  from printbuf_memappend_fast_spec [OF r(1) _ _ r(2,3), of s "\<lambda>_. True"]
  show ?thesis using pb_ok_step [OF assms] by (auto simp: pb_put_fast_def)
qed

interpretation mem_sink: text_sink pb_ok pb_text pb_put
  by unfold_locales (use pb_put_spec in blast)

interpretation fmt_sink: text_sink pb_ok pb_text pb_printf
  by unfold_locales (use pb_printf_spec in blast)

interpretation fast_sink: text_sink pb_ok pb_text pb_put_fast
  by unfold_locales (use pb_put_fast_spec in blast)

section \<open>Properties\<close>

text \<open>
  C32. \<open>printbuf_memappend\<close> on a well-formed buffer: when the block has to grow and the allocator
  refuses, it returns -1 and leaves the buffer as it was; otherwise it returns the number of bytes,
  the text grows by exactly these bytes, the buffer is well-formed, and read as a C string it
  gives the text up to its first NUL.
\<close>

theorem printbuf_memappend_correct:
  assumes inv: "pb_inv p" and n: "0 \<le> n" "n \<le> int (length src)"
    and b: "pb_size p * 2 \<le> INT_MAX" "pb_bpos p + n + 9 \<le> INT_MAX"
  shows "if pb_size p < pb_bpos p + n + 1 \<and> \<not> mal (max (pb_size p * 2) (pb_bpos p + n + 9))
     then printbuf_memappend mal p src n = Some (-1, p)
     else \<exists>p'. printbuf_memappend mal p src n = Some (n, p') \<and> pb_inv p'
            \<and> pb_text p' = pb_text p @ take (nat n) src
            \<and> c_str (pb_buf p') = Some (takeWhile (\<lambda>c. c \<noteq> NUL) (pb_text p'))"
  using printbuf_memappend_nomem [OF inv n(1) b] printbuf_memappend_spec [OF inv n b, of mal] pb_c_str
  by (auto split: if_split)

theorem printbuf_memappend_correct_witness:
  "\<exists>p'. printbuf_memappend (\<lambda>_. True) \<lparr>pb_buf = replicate 32 None, pb_bpos = 0, pb_size = 32\<rparr> ''abc'' 3 = Some (3, p')
     \<and> pb_text p' = ''abc''"
  using printbuf_memappend_correct [of "\<lparr>pb_buf = replicate 32 None, pb_bpos = 0, pb_size = 32\<rparr>" 3 "''abc''" "\<lambda>_. True"]
  by (auto simp: pb_inv_def pb_text_def)

text \<open>
  Any sequence of appends through \<open>printbuf_memappend\<close> succeeds as long as the whole text
  stays below the limit, and the buffer then holds the concatenation: nothing is lost or
  overwritten when the block moves.
\<close>

theorem printbuf_appends_concat:
  assumes "pb_ok L p" "length (pb_text p) + length (concat ss) \<le> L"
  shows "\<exists>p'. ofold (\<lambda>s p. map_option snd (printbuf_memappend (\<lambda>_. True) p s (int (length s)))) ss p = Some p'
     \<and> pb_inv p' \<and> pb_text p' = pb_text p @ concat ss"
proof -
  have "ofold (\<lambda>s p. map_option snd (printbuf_memappend (\<lambda>_. True) p s (int (length s)))) ss p = mem_sink.puts p ss" for p
    by (induction ss arbitrary: p) (auto simp: pb_put_def split: Option.bind_split)
  with mem_sink.puts_spec [OF assms] show ?thesis by (auto simp: pb_ok_def)
qed

theorem printbuf_appends_concat_witness:
  "\<exists>p'. ofold (\<lambda>s p. map_option snd (printbuf_memappend (\<lambda>_. True) p s (int (length s)))) [''ab'', '''', ''c'']
       \<lparr>pb_buf = replicate 32 None, pb_bpos = 0, pb_size = 32\<rparr> = Some p' \<and> pb_text p' = ''abc''"
  using printbuf_appends_concat [of 100 "\<lparr>pb_buf = replicate 32 None, pb_bpos = 0, pb_size = 32\<rparr>" "[''ab'', '''', ''c'']"]
  by (auto simp: pb_ok_def pb_inv_def pb_text_def)

end
