(* ===== verification/Arraylist.thy ===== *)
theory Arraylist
  imports C_Prelude "HOL-Library.Multiset"
begin

text \<open>
  The growable array of pointers of \<^verbatim>\<open>json-c-0.11/arraylist.c\<close>.  A slot is \<open>None\<close> for a null
  pointer; the destructor that the C struct stores (\<open>free_fn\<close>) acts on a state \<open>'s\<close> and is an
  argument of the operations that call it.  \<open>al_inv\<close> is the invariant, \<open>al_list\<close> the
  sequence of elements, and the locale \<open>pointer_vector\<close> the contract clients rely on.
\<close>

section \<open>Operations\<close>

abbreviation ARRAY_LIST_DEFAULT_SIZE :: int where "ARRAY_LIST_DEFAULT_SIZE \<equiv> 32"

record 'a array_list =
  al_array :: "'a option list"
  al_length :: int
  al_size :: int

type_synonym ('a, 's) free_fn = "'a \<Rightarrow> 's \<Rightarrow> 's option"

text \<open>\<open>arr->array[i]\<close>: a slot outside the block is undefined behaviour.\<close>

definition al_slot :: "'a array_list \<Rightarrow> int \<Rightarrow> 'a option option" where
  "al_slot arr i =
     (if 0 \<le> i \<and> i < int (length (al_array arr)) then Some (al_array arr ! nat i) else None)"

definition array_list_new :: "malloc_fn \<Rightarrow> 'a array_list option" where
  "array_list_new mal =
     (if \<not> mal 24 then None
      else if \<not> mal (8 * ARRAY_LIST_DEFAULT_SIZE) then None
      else Some \<lparr>al_array = replicate (nat ARRAY_LIST_DEFAULT_SIZE) None, al_length = 0,
                 al_size = ARRAY_LIST_DEFAULT_SIZE\<rparr>)"

text \<open>The loop of \<open>array_list_free\<close> over the slots \<open>i, \<dots>, i + n - 1\<close>.\<close>

fun array_list_free_loop ::
  "('a, 's) free_fn \<Rightarrow> 'a array_list \<Rightarrow> int \<Rightarrow> nat \<Rightarrow> 's \<Rightarrow> 's option" where
  "array_list_free_loop free_fn arr i 0 s = Some s"
| "array_list_free_loop free_fn arr i (Suc n) s = do {
     e \<leftarrow> al_slot arr i;
     s \<leftarrow> (case e of None \<Rightarrow> Some s | Some d \<Rightarrow> free_fn d s);
     array_list_free_loop free_fn arr (i + 1) n s
   }"

definition array_list_free :: "('a, 's) free_fn \<Rightarrow> 'a array_list \<Rightarrow> 's \<Rightarrow> 's option" where
  "array_list_free free_fn arr s = array_list_free_loop free_fn arr 0 (nat (al_length arr)) s"

definition array_list_get_idx :: "'a array_list \<Rightarrow> int \<Rightarrow> 'a option option" where
  "array_list_get_idx arr i = (if i \<ge> al_length arr then Some None else al_slot arr i)"

definition array_list_expand_internal ::
  "malloc_fn \<Rightarrow> 'a array_list \<Rightarrow> int \<Rightarrow> (int \<times> 'a array_list) option" where
  "array_list_expand_internal mal arr mx =
     (if mx < al_size arr then Some (0, arr)
      else do {
        c_assert (c_int_ok (al_size arr * 2));
        let new_size = max (al_size arr * 2) mx;
        if \<not> mal (new_size * 8) then Some (-1, arr)
        else Some (0, arr\<lparr>al_array := al_array arr @ replicate (nat new_size - length (al_array arr)) None,
                          al_size := new_size\<rparr>)
      })"

definition array_list_put_idx ::
  "malloc_fn \<Rightarrow> ('a, 's) free_fn \<Rightarrow> 'a array_list \<Rightarrow> int \<Rightarrow> 'a option \<Rightarrow> 's
     \<Rightarrow> (int \<times> 'a array_list \<times> 's) option" where
  "array_list_put_idx mal free_fn arr idx data s = do {
     c_assert (c_int_ok (idx + 1));
     (r, arr) \<leftarrow> array_list_expand_internal mal arr (idx + 1);
     if r \<noteq> 0 then Some (-1, arr, s)
     else do {
       e \<leftarrow> al_slot arr idx;
       s \<leftarrow> (case e of None \<Rightarrow> Some s | Some d \<Rightarrow> free_fn d s);
       Some (0, arr\<lparr>al_array := (al_array arr)[nat idx := data],
                    al_length := (if al_length arr \<le> idx then idx + 1 else al_length arr)\<rparr>, s)
     }
   }"

definition array_list_add ::
  "malloc_fn \<Rightarrow> ('a, 's) free_fn \<Rightarrow> 'a array_list \<Rightarrow> 'a option \<Rightarrow> 's
     \<Rightarrow> (int \<times> 'a array_list \<times> 's) option" where
  "array_list_add mal free_fn arr data s =
     array_list_put_idx mal free_fn arr (al_length arr) data s"

text \<open>
  \<open>qsort\<close> with the caller's comparison: insertion of one element after the other, before
  the first element it does not exceed.
\<close>

fun c_qsort_insert :: "('a \<Rightarrow> 'a \<Rightarrow> int) \<Rightarrow> 'a \<Rightarrow> 'a list \<Rightarrow> 'a list" where
  "c_qsort_insert cmp x [] = [x]"
| "c_qsort_insert cmp x (y # ys) =
     (if cmp x y \<le> 0 then x # y # ys else y # c_qsort_insert cmp x ys)"

definition c_qsort :: "('a \<Rightarrow> 'a \<Rightarrow> int) \<Rightarrow> 'a list \<Rightarrow> 'a list" where
  "c_qsort cmp xs = foldr (c_qsort_insert cmp) xs []"

definition array_list_sort ::
  "'a array_list \<Rightarrow> ('a option \<Rightarrow> 'a option \<Rightarrow> int) \<Rightarrow> 'a array_list option" where
  "array_list_sort arr sort_fn = do {
     c_assert (0 \<le> al_length arr \<and> al_length arr \<le> int (length (al_array arr)));
     let n = nat (al_length arr);
     Some (arr\<lparr>al_array := c_qsort sort_fn (take n (al_array arr)) @ drop n (al_array arr)\<rparr>)
   }"

definition array_list_length :: "'a array_list \<Rightarrow> int" where
  "array_list_length arr = al_length arr"

section \<open>Invariant and abstraction\<close>

definition al_list :: "'a array_list \<Rightarrow> 'a option list" where
  "al_list arr = take (nat (al_length arr)) (al_array arr)"

text \<open>Slots past the length are null, so that storing there frees nothing.\<close>

definition al_inv :: "'a array_list \<Rightarrow> bool" where
  "al_inv arr \<longleftrightarrow> int (length (al_array arr)) = al_size arr \<and> 0 \<le> al_length arr
     \<and> al_length arr \<le> al_size arr \<and> 0 < al_size arr \<and> al_size arr \<le> INT_MAX
     \<and> set (drop (nat (al_length arr)) (al_array arr)) \<subseteq> {None}"

lemma al_invE:
  assumes "al_inv arr"
  obtains k where "al_array arr = al_list arr @ replicate k None"
    "al_length arr = int (length (al_list arr))" "al_size arr = int (length (al_list arr) + k)"
    "0 < al_size arr" "al_size arr \<le> INT_MAX"
proof (rule that)
  let ?n = "nat (al_length arr)"
  from assms have n: "?n \<le> length (al_array arr)" "0 \<le> al_length arr"
    by (auto simp: al_inv_def nat_le_iff)
  then have l: "length (al_list arr) = ?n" by (simp add: al_list_def)
  have "drop ?n (al_array arr) = replicate (length (drop ?n (al_array arr))) None"
    using assms by (auto simp: al_inv_def subset_iff intro!: replicate_eqI)
  then show "al_array arr = al_list arr @ replicate (length (al_array arr) - ?n) None"
    by (metis al_list_def append_take_drop_id length_drop)
  show "al_length arr = int (length (al_list arr))" using l n by simp
  show "al_size arr = int (length (al_list arr) + (length (al_array arr) - ?n))"
    using l n assms by (simp add: al_inv_def)
  show "0 < al_size arr" "al_size arr \<le> INT_MAX" using assms by (simp_all add: al_inv_def)
qed

lemma al_invI:
  assumes "al_array arr = xs @ replicate k None" "al_length arr = int (length xs)"
    "al_size arr = int (length xs + k)" "0 < al_size arr" "al_size arr \<le> INT_MAX"
  shows "al_inv arr \<and> al_list arr = xs"
  using assms by (auto simp: al_inv_def al_list_def)

lemma array_list_new_spec:
  "array_list_new mal = Some arr \<Longrightarrow> al_inv arr \<and> al_list arr = []"
  by (auto simp: array_list_new_def al_inv_def al_list_def split: if_splits)

section \<open>Correctness of the operations\<close>

lemma array_list_get_idx_spec:
  assumes "al_inv arr" "0 \<le> i"
  shows "array_list_get_idx arr i
     = Some (if nat i < length (al_list arr) then al_list arr ! nat i else None)"
proof -
  from assms(1) obtain k where k: "al_array arr = al_list arr @ replicate k None"
    "al_length arr = int (length (al_list arr))" by (rule al_invE)
  show ?thesis
  proof (cases "i < al_length arr")
    case True
    then have "nat i < length (al_list arr)" using k(2) assms(2) by simp
    moreover from this have "al_array arr ! nat i = al_list arr ! nat i"
      "nat i < length (al_array arr)"
      unfolding k(1) by (simp_all add: nth_append)
    ultimately show ?thesis
      using True assms(2) by (simp add: array_list_get_idx_def al_slot_def)
  next
    case False
    then show ?thesis using k(2) assms(2) by (simp add: array_list_get_idx_def nat_less_iff)
  qed
qed

text \<open>A negative index below the length is not rejected: the read leaves the block.\<close>

lemma array_list_get_idx_negative:
  "al_inv arr \<Longrightarrow> i < 0 \<Longrightarrow> array_list_get_idx arr i = None"
  by (simp add: array_list_get_idx_def al_slot_def al_inv_def)

lemma array_list_expand_spec:
  assumes inv: "al_inv arr" and b: "al_size arr * 2 \<le> INT_MAX" "mx \<le> INT_MAX" and mal: "\<And>n. mal n"
  shows "\<exists>arr'. array_list_expand_internal mal arr mx = Some (0, arr') \<and> al_inv arr'
     \<and> al_list arr' = al_list arr \<and> al_length arr' = al_length arr
     \<and> mx \<le> al_size arr' \<and> al_size arr' \<le> max (al_size arr) (2 * mx)"
proof (cases "mx < al_size arr")
  case True
  with inv show ?thesis by (simp add: array_list_expand_internal_def)
next
  case False
  from inv obtain k where k: "al_array arr = al_list arr @ replicate k None"
    "al_length arr = int (length (al_list arr))" "al_size arr = int (length (al_list arr) + k)"
    "0 < al_size arr" by (rule al_invE)
  define n where "n = max (al_size arr * 2) mx"
  define z where "z = nat n - length (al_array arr)"
  define arr' where "arr' = arr\<lparr>al_array := al_array arr @ replicate z None, al_size := n\<rparr>"
  have n: "al_size arr \<le> n" "mx \<le> n" "n \<le> 2 * mx" "n \<le> INT_MAX"
    using False b k(4) by (auto simp: n_def)
  have "array_list_expand_internal mal arr mx = Some (0, arr')"
    using False b mal k(4)
    by (simp add: array_list_expand_internal_def c_int_ok_def arr'_def n_def z_def Let_def)
  moreover have "al_inv arr' \<and> al_list arr' = al_list arr"
  proof (rule al_invI)
    show "al_array arr' = al_list arr @ replicate (k + z) None"
      using k(1) by (simp add: arr'_def replicate_add)
    have "length (al_array arr) = length (al_list arr) + k"
      by (subst k(1)) simp
    then show "al_size arr' = int (length (al_list arr) + (k + z))"
      using k n by (simp add: arr'_def z_def)
  qed (use k n in \<open>simp_all add: arr'_def\<close>)
  ultimately show ?thesis using n by (auto simp: arr'_def)
qed

text \<open>The elements after storing at \<open>i\<close>: positions that did not exist become null.\<close>

definition list_put :: "nat \<Rightarrow> 'a option \<Rightarrow> 'a option list \<Rightarrow> 'a option list" where
  "list_put i v xs = (xs @ replicate (Suc i - length xs) None)[i := v]"

lemma list_put_length: "length (list_put i v xs) = max (length xs) (Suc i)"
  by (simp add: list_put_def max_def)

lemma list_put_end: "list_put (length xs) v xs = xs @ [v]"
  by (simp add: list_put_def)

lemma list_put_in: "i < length xs \<Longrightarrow> list_put i v xs = xs[i := v]"
  by (simp add: list_put_def)

lemma list_put_nth:
  "list_put i v xs ! j = (if j = i then v else if j < length xs then xs ! j else None)"
  if "j < max (length xs) (Suc i)"
  using that by (auto simp: list_put_def nth_append nth_list_update)

lemma list_put_fill:
  "i < length xs + k \<Longrightarrow>
   (xs @ replicate k None)[i := v] = list_put i v xs @ replicate (k - (Suc i - length xs)) None"
  by (rule nth_equalityI) (auto simp: list_put_def nth_append nth_list_update max_def)

text \<open>The element found at index \<open>i\<close>, if any, is handed to the destructor exactly once.\<close>

definition free_old :: "('a, 's) free_fn \<Rightarrow> 'a option list \<Rightarrow> nat \<Rightarrow> 's \<Rightarrow> 's option" where
  "free_old free_fn xs i s =
     (if i < length xs then (case xs ! i of None \<Rightarrow> Some s | Some d \<Rightarrow> free_fn d s) else Some s)"

lemma array_list_put_idx_spec:
  assumes inv: "al_inv arr" and i: "0 \<le> i" and b: "al_size arr * 2 \<le> INT_MAX" "i + 1 \<le> INT_MAX"
    and mal: "\<And>n. mal n" and fr: "free_old free_fn (al_list arr) (nat i) s = Some s'"
  shows "\<exists>arr'. array_list_put_idx mal free_fn arr i v s = Some (0, arr', s') \<and> al_inv arr'
     \<and> al_list arr' = list_put (nat i) v (al_list arr)
     \<and> al_size arr' \<le> max (al_size arr) (2 * (i + 1))"
proof -
  from array_list_expand_spec [OF inv b, of mal] mal
  obtain q where q: "array_list_expand_internal mal arr (i + 1) = Some (0, q)" "al_inv q"
    "al_list q = al_list arr" "al_length q = al_length arr" "i + 1 \<le> al_size q"
    "al_size q \<le> max (al_size arr) (2 * (i + 1))" by blast
  from q(2) obtain k where k: "al_array q = al_list arr @ replicate k None"
    "al_length q = int (length (al_list arr))" "al_size q = int (length (al_list arr) + k)"
    "0 < al_size q" "al_size q \<le> INT_MAX"
    by (rule al_invE) (simp add: q(3))
  let ?xs = "al_list arr" and ?i = "nat i"
  have ik: "?i < length ?xs + k" using q(5) k(3) i by simp
  have slot: "al_slot q i = Some (if ?i < length ?xs then ?xs ! ?i else None)"
    using ik i k(1) by (auto simp: al_slot_def nth_append)
  define arr' where "arr' = q\<lparr>al_array := (al_array q)[?i := v],
     al_length := (if al_length q \<le> i then i + 1 else al_length q)\<rparr>"
  have "array_list_put_idx mal free_fn arr i v s = Some (0, arr', s')"
    using q(1) slot fr i b by (auto simp: array_list_put_idx_def c_int_ok_def free_old_def arr'_def)
  moreover have "al_inv arr' \<and> al_list arr' = list_put ?i v ?xs"
  proof (rule al_invI)
    show "al_array arr' = list_put ?i v ?xs @ replicate (k - (Suc ?i - length ?xs)) None"
      using list_put_fill [OF ik] k(1) by (simp add: arr'_def)
    show "al_length arr' = int (length (list_put ?i v ?xs))"
      using k(2) i by (auto simp: arr'_def list_put_length)
    show "al_size arr' = int (length (list_put ?i v ?xs) + (k - (Suc ?i - length ?xs)))"
      using k(3) ik by (auto simp: arr'_def list_put_length max_def)
  qed (use k in \<open>simp_all add: arr'_def\<close>)
  ultimately show ?thesis using q(6) by (auto simp: arr'_def)
qed

lemma array_list_add_spec:
  assumes inv: "al_inv arr" and b: "al_size arr * 2 \<le> INT_MAX" "al_length arr + 1 \<le> INT_MAX"
    and mal: "\<And>n. mal n"
  shows "\<exists>arr'. array_list_add mal free_fn arr v s = Some (0, arr', s) \<and> al_inv arr'
     \<and> al_list arr' = al_list arr @ [v]
     \<and> al_size arr' \<le> max (al_size arr) (2 * (al_length arr + 1))"
proof -
  from inv have l: "al_length arr = int (length (al_list arr))" by (rule al_invE)
  from array_list_put_idx_spec [OF inv _ b, of mal free_fn s s v] mal l
  show ?thesis by (auto simp: array_list_add_def free_old_def list_put_end)
qed

text \<open>Storing fails with \<open>-1\<close>, and changes nothing, exactly when the block cannot grow.\<close>

lemma array_list_put_idx_nomem:
  assumes "al_inv arr" "al_size arr \<le> i + 1" "i + 1 \<le> INT_MAX" "al_size arr * 2 \<le> INT_MAX"
    "\<not> mal (max (al_size arr * 2) (i + 1) * 8)"
  shows "array_list_put_idx mal free_fn arr i v s = Some (-1, arr, s)"
  using assms by (simp add: array_list_put_idx_def array_list_expand_internal_def c_int_ok_def
      al_inv_def Let_def)

text \<open>Freeing hands every non-null element to the destructor, in order.\<close>

fun free_all :: "('a, 's) free_fn \<Rightarrow> 'a option list \<Rightarrow> 's \<Rightarrow> 's option" where
  "free_all free_fn [] s = Some s"
| "free_all free_fn (None # xs) s = free_all free_fn xs s"
| "free_all free_fn (Some d # xs) s = do { s \<leftarrow> free_fn d s; free_all free_fn xs s }"

lemma array_list_free_loop_eq:
  "al_array arr = ys @ xs @ zs \<Longrightarrow>
   array_list_free_loop free_fn arr (int (length ys)) (length xs) s = free_all free_fn xs s"
proof (induction xs arbitrary: ys s)
  case Nil
  then show ?case by simp
next
  case (Cons x xs)
  then have "al_array arr = (ys @ [x]) @ xs @ zs" by simp
  from Cons.IH [OF this] have IH:
    "array_list_free_loop free_fn arr (int (length ys) + 1) (length xs) s' = free_all free_fn xs s'" for s'
    by (simp add: add.commute)
  have "al_slot arr (int (length ys)) = Some x"
    using Cons.prems by (simp add: al_slot_def)
  then show ?case using IH by (cases x) (auto cong: bind_option_cong)
qed

lemma array_list_free_spec:
  assumes "al_inv arr"
  shows "array_list_free free_fn arr s = free_all free_fn (al_list arr) s"
proof -
  from assms obtain k where k: "al_array arr = al_list arr @ replicate k None"
    "al_length arr = int (length (al_list arr))" by (rule al_invE)
  then show ?thesis
    using array_list_free_loop_eq [of arr "[]" "al_list arr" "replicate k None"]
    by (simp add: array_list_free_def)
qed

subsection \<open>Sorting\<close>

lemma c_qsort_insert_mset: "mset (c_qsort_insert cmp x ys) = add_mset x (mset ys)"
  by (induction ys) auto

lemma c_qsort_mset: "mset (c_qsort cmp xs) = mset xs"
  by (induction xs) (auto simp: c_qsort_def c_qsort_insert_mset)

lemma c_qsort_length: "length (c_qsort cmp xs) = length xs"
  by (metis c_qsort_mset size_mset)

lemma c_qsort_insert_sorted:
  assumes "sorted_wrt (\<lambda>a b. cmp a b \<le> 0) ys"
    and total: "\<And>a b. cmp a b \<le> 0 \<or> cmp b a \<le> 0"
    and trans: "\<And>a b c. cmp a b \<le> 0 \<Longrightarrow> cmp b c \<le> 0 \<Longrightarrow> cmp a c \<le> 0"
  shows "sorted_wrt (\<lambda>a b. cmp a b \<le> 0) (c_qsort_insert cmp x ys)"
  using assms(1)
proof (induction ys)
  case Nil
  then show ?case by simp
next
  case (Cons y ys)
  have s: "set (c_qsort_insert cmp x ys) = insert x (set ys)"
    by (metis c_qsort_insert_mset set_mset_add_mset_insert set_mset_mset)
  show ?case
    using Cons total trans by (auto simp: s)
qed

lemma c_qsort_sorted:
  assumes "\<And>a b. cmp a b \<le> 0 \<or> cmp b a \<le> 0"
    and "\<And>a b c. cmp a b \<le> 0 \<Longrightarrow> cmp b c \<le> 0 \<Longrightarrow> cmp a c \<le> 0"
  shows "sorted_wrt (\<lambda>a b. cmp a b \<le> 0) (c_qsort cmp xs)"
proof (induction xs)
  case Nil
  then show ?case by (simp add: c_qsort_def)
next
  case (Cons x xs)
  have "c_qsort cmp (x # xs) = c_qsort_insert cmp x (c_qsort cmp xs)"
    by (simp add: c_qsort_def)
  then show ?case using c_qsort_insert_sorted [of cmp "c_qsort cmp xs" x] Cons.IH assms by auto
qed

lemma array_list_sort_spec:
  assumes "al_inv arr"
  shows "\<exists>arr'. array_list_sort arr cmp = Some arr' \<and> al_inv arr'
     \<and> al_list arr' = c_qsort cmp (al_list arr)"
proof -
  from assms obtain k where k: "al_array arr = al_list arr @ replicate k None"
    "al_length arr = int (length (al_list arr))" "al_size arr = int (length (al_list arr) + k)"
    "0 < al_size arr" "al_size arr \<le> INT_MAX" by (rule al_invE)
  define arr' where "arr' = arr\<lparr>al_array := c_qsort cmp (al_list arr) @ replicate k None\<rparr>"
  have t: "take (length (al_list arr)) (al_array arr) = al_list arr"
    "drop (length (al_list arr)) (al_array arr) = replicate k None"
    by (subst k(1), simp)+
  have "length (al_array arr) = length (al_list arr) + k" by (subst k(1)) simp
  then have "array_list_sort arr cmp = Some arr'"
    by (simp add: array_list_sort_def k(2) t arr'_def Let_def)
  moreover have "al_inv arr' \<and> al_list arr' = c_qsort cmp (al_list arr)"
    by (rule al_invI) (use k in \<open>simp_all add: arr'_def c_qsort_length\<close>)
  ultimately show ?thesis by blast
qed

section \<open>The contract of a vector of pointers\<close>

locale pointer_vector =
  fixes ok :: "nat \<Rightarrow> 'v \<Rightarrow> bool"
    and elems :: "'v \<Rightarrow> 'a option list"
    and len :: "'v \<Rightarrow> int"
    and get :: "'v \<Rightarrow> int \<Rightarrow> 'a option option"
    and add :: "'v \<Rightarrow> 'a option \<Rightarrow> 'v option"
  assumes len_spec: "ok L v \<Longrightarrow> len v = int (length (elems v))"
    and get_spec: "ok L v \<Longrightarrow> i < length (elems v) \<Longrightarrow> get v (int i) = Some (elems v ! i)"
    and add_spec: "ok L v \<Longrightarrow> length (elems v) < L \<Longrightarrow>
      \<exists>v'. add v x = Some v' \<and> ok L v' \<and> elems v' = elems v @ [x]"
begin

primrec adds :: "'v \<Rightarrow> 'a option list \<Rightarrow> 'v option" where
  "adds v [] = Some v"
| "adds v (x # xs) = do { v' \<leftarrow> add v x; adds v' xs }"

lemma adds_spec:
  "ok L v \<Longrightarrow> length (elems v) + length xs \<le> L \<Longrightarrow>
   \<exists>v'. adds v xs = Some v' \<and> ok L v' \<and> elems v' = elems v @ xs"
proof (induction xs arbitrary: v)
  case Nil
  then show ?case by simp
next
  case (Cons x xs)
  from Cons.prems add_spec [of L v x] obtain w
    where w: "add v x = Some w" "ok L w" "elems w = elems v @ [x]" by auto
  with Cons.IH [of w] Cons.prems show ?case by auto
qed

text \<open>What was added can be read back, at the position it was added at.\<close>

lemma get_adds:
  assumes "ok L v" "elems v = []" "length xs \<le> L" "i < length xs"
  shows "\<exists>v'. adds v xs = Some v' \<and> len v' = int (length xs) \<and> get v' (int i) = Some (xs ! i)"
proof -
  from adds_spec [OF assms(1), of xs] assms obtain v'
    where v': "adds v xs = Some v'" "ok L v'" "elems v' = xs" by auto
  with len_spec [OF v'(2)] get_spec [OF v'(2), of i] assms show ?thesis by auto
qed

end

definition al_ok :: "nat \<Rightarrow> 'a array_list \<Rightarrow> bool" where
  "al_ok L arr \<longleftrightarrow> al_inv arr \<and> length (al_list arr) \<le> L \<and> al_size arr \<le> 2 * int L + 32
     \<and> 4 * int L + 64 \<le> INT_MAX"

text \<open>Adding never calls the destructor, so the state it acts on can be the unit.\<close>

definition al_push :: "'a array_list \<Rightarrow> 'a option \<Rightarrow> 'a array_list option" where
  "al_push arr v =
     map_option (\<lambda>(_, arr', _). arr') (array_list_add (\<lambda>_. True) (\<lambda>_ _. None) arr v ())"

lemma al_push_spec:
  assumes "al_ok L arr" "length (al_list arr) < L"
  shows "\<exists>arr'. array_list_add (\<lambda>_. True) free_fn arr v s = Some (0, arr', s) \<and> al_ok L arr'
     \<and> al_list arr' = al_list arr @ [v]"
proof -
  from assms(1) have inv: "al_inv arr" by (simp add: al_ok_def)
  then have l: "al_length arr = int (length (al_list arr))" by (rule al_invE)
  from assms l have "al_size arr * 2 \<le> INT_MAX" "al_length arr + 1 \<le> INT_MAX"
    by (auto simp: al_ok_def)
  from array_list_add_spec [OF inv this, of "\<lambda>_. True" free_fn v s] assms l
  show ?thesis by (auto simp: al_ok_def)
qed

interpretation al_vec: pointer_vector al_ok al_list array_list_length array_list_get_idx al_push
proof unfold_locales
  fix L :: nat and arr :: "'a array_list" and i :: nat and x :: "'a option"
  assume ok: "al_ok L arr"
  then have inv: "al_inv arr" by (simp add: al_ok_def)
  then show "array_list_length arr = int (length (al_list arr))"
    unfolding array_list_length_def by (rule al_invE)
  show "array_list_get_idx arr (int i) = Some (al_list arr ! i)" if "i < length (al_list arr)"
    using array_list_get_idx_spec [OF inv, of "int i"] that by simp
  show "\<exists>v'. al_push arr x = Some v' \<and> al_ok L v' \<and> al_list v' = al_list arr @ [x]"
    if "length (al_list arr) < L"
    using al_push_spec [OF ok that, of "\<lambda>_ _. None" x "()"] by (auto simp: al_push_def)
qed

section \<open>Properties\<close>

text \<open>
  C31. \<open>array_list_put_idx\<close> at a non-negative index: when the block has to grow and the allocator
  refuses, it returns -1 and changes nothing; otherwise the element that was there goes to the
  destructor, the new one takes its place, the gap up to it is filled with null, and every other
  element stays.
\<close>

theorem array_list_put_idx_correct:
  assumes inv: "al_inv arr" and i: "0 \<le> i" "i + 1 \<le> INT_MAX" "al_size arr * 2 \<le> INT_MAX"
    and fr: "free_old free_fn (al_list arr) (nat i) s = Some s'"
  shows "if al_size arr \<le> i + 1 \<and> \<not> mal (max (al_size arr * 2) (i + 1) * 8)
     then array_list_put_idx mal free_fn arr i v s = Some (-1, arr, s)
     else \<exists>arr'. array_list_put_idx mal free_fn arr i v s = Some (0, arr', s') \<and> al_inv arr'
            \<and> length (al_list arr') = max (length (al_list arr)) (Suc (nat i))
            \<and> (\<forall>k < length (al_list arr'). al_list arr' ! k =
                 (if k = nat i then v else if k < length (al_list arr) then al_list arr ! k else None))"
proof (cases "al_size arr \<le> i + 1 \<and> \<not> mal (max (al_size arr * 2) (i + 1) * 8)")
  case True
  then have c: "al_size arr \<le> i + 1" "\<not> mal (max (al_size arr * 2) (i + 1) * 8)" by auto
  show ?thesis using True array_list_put_idx_nomem [where mal = mal, OF inv c(1) i(2,3) c(2)] by simp
next
  case False
  have "array_list_put_idx mal free_fn arr i v s = array_list_put_idx (\<lambda>_. True) free_fn arr i v s"
    using False by (auto simp: array_list_put_idx_def array_list_expand_internal_def Let_def)
  with array_list_put_idx_spec [where mal = "\<lambda>_. True", OF inv i(1,3,2) _ fr, of v] False
  show ?thesis by (auto simp: list_put_nth list_put_length)
qed

theorem array_list_put_idx_correct_witness:
  "\<exists>arr'. array_list_put_idx (\<lambda>_. True) (\<lambda>d s. Some (d # s))
        \<lparr>al_array = [Some 7, None], al_length = 1, al_size = 2\<rparr> 0 (Some (9 :: nat)) [] = Some (0, arr', [7])
     \<and> al_list arr' ! 0 = Some 9"
proof -
  let ?arr = "\<lparr>al_array = [Some 7, None], al_length = 1, al_size = 2\<rparr> :: nat array_list"
  have arr: "al_inv ?arr" "al_list ?arr = [Some 7]" by (simp_all add: al_inv_def al_list_def)
  from array_list_put_idx_correct [OF arr(1), of 0 "\<lambda>d s. Some (d # s)" "[]" "[7]" "\<lambda>_. True" "Some 9"]
  show ?thesis by (auto simp: arr(2) free_old_def)
qed

text \<open>
  What is added to an empty array with \<open>array_list_add\<close> is read back by
  \<open>array_list_get_idx\<close> at the position it was added at, the length is the number of additions,
  and an index from the length on reads as null.
\<close>

theorem array_list_add_get:
  assumes "al_ok L arr" "al_list arr = []" "length xs \<le> L"
  shows "\<exists>arr'. ofold (\<lambda>x arr. al_push arr x) xs arr = Some arr' \<and> array_list_length arr' = int (length xs)
     \<and> (\<forall>i. array_list_get_idx arr' (int i) = Some (if i < length xs then xs ! i else None))"
proof -
  have "ofold (\<lambda>x arr. al_push arr x) xs arr = al_vec.adds arr xs" for arr
    by (induction xs arbitrary: arr) (auto split: Option.bind_split)
  with al_vec.adds_spec [OF assms(1), of xs] assms(2,3) obtain arr' where
    arr': "ofold (\<lambda>x arr. al_push arr x) xs arr = Some arr'" "al_ok L arr'" "al_list arr' = xs" by auto
  then have "al_inv arr'" by (simp add: al_ok_def)
  from array_list_get_idx_spec [OF this] al_vec.len_spec [OF arr'(2)] arr' show ?thesis by auto
qed

theorem array_list_add_get_witness:
  "\<exists>arr'. ofold (\<lambda>x arr. al_push arr x) [Some 5, None, Some (6 :: nat)]
        \<lparr>al_array = replicate 32 None, al_length = 0, al_size = 32\<rparr> = Some arr'
     \<and> array_list_get_idx arr' 2 = Some (Some 6)"
proof -
  have "al_ok 10 \<lparr>al_array = replicate 32 None, al_length = 0, al_size = 32\<rparr>"
    by (simp add: al_ok_def al_inv_def al_list_def)
  from array_list_add_get [OF this, of "[Some 5, None, Some (6 :: nat)]"] obtain arr' where
    arr': "ofold (\<lambda>x arr. al_push arr x) [Some 5, None, Some (6 :: nat)]
        \<lparr>al_array = replicate 32 None, al_length = 0, al_size = 32\<rparr> = Some arr'"
      "\<forall>i. array_list_get_idx arr' (int i) = Some (if i < 3 then [Some 5, None, Some 6] ! i else None)"
    by (auto simp: al_list_def)
  from arr'(1) spec [OF arr'(2), of 2] show ?thesis by simp
qed

text \<open>
  \<open>array_list_sort\<close> with a comparison that is a total preorder keeps the invariant, orders
  the elements, and neither loses nor invents one.
\<close>

theorem array_list_sort_correct:
  assumes "al_inv arr" "\<And>a b. cmp a b \<le> 0 \<or> cmp b a \<le> 0"
    and "\<And>a b c. cmp a b \<le> 0 \<Longrightarrow> cmp b c \<le> 0 \<Longrightarrow> cmp a c \<le> 0"
  shows "\<exists>arr'. array_list_sort arr cmp = Some arr' \<and> al_inv arr'
     \<and> mset (al_list arr') = mset (al_list arr) \<and> sorted_wrt (\<lambda>a b. cmp a b \<le> 0) (al_list arr')"
proof -
  from array_list_sort_spec [OF assms(1), of cmp] obtain arr' where
    arr': "array_list_sort arr cmp = Some arr'" "al_inv arr'" "al_list arr' = c_qsort cmp (al_list arr)" by blast
  have "sorted_wrt (\<lambda>a b. cmp a b \<le> 0) (c_qsort cmp (al_list arr))" by (rule c_qsort_sorted) (fact assms)+
  with arr' c_qsort_mset [of cmp "al_list arr"] show ?thesis by auto
qed

theorem array_list_sort_correct_witness:
  "\<exists>arr'. array_list_sort \<lparr>al_array = [Some 9, Some 2, Some (5 :: nat)], al_length = 3, al_size = 3\<rparr>
        (\<lambda>a b. int (the a) - int (the b)) = Some arr'
     \<and> mset (al_list arr') = {#Some 9, Some 2, Some 5#}"
proof -
  let ?arr = "\<lparr>al_array = [Some 9, Some 2, Some (5 :: nat)], al_length = 3, al_size = 3\<rparr>"
  have arr: "al_inv ?arr" "al_list ?arr = [Some 9, Some 2, Some 5]" by (simp_all add: al_inv_def al_list_def)
  have "\<exists>arr'. array_list_sort ?arr (\<lambda>a b. int (the a) - int (the b)) = Some arr' \<and> al_inv arr'
     \<and> mset (al_list arr') = mset (al_list ?arr)
     \<and> sorted_wrt (\<lambda>a b. int (the a) - int (the b) \<le> 0) (al_list arr')"
    by (rule array_list_sort_correct [OF arr(1)]) (simp_all, arith)
  then show ?thesis by (auto simp: arr(2))
qed

end
