(* ===== verification/Linkhash.thy ===== *)
theory Linkhash
  imports C_Prelude
begin

text \<open>
  The hash table of \<^verbatim>\<open>json-c-0.11/linkhash.c\<close>: open addressing with linear probing over an array of
  entries that are also chained, by \<open>next\<close> and \<open>prev\<close>, in the order of insertion.  A pointer
  into the array is an index (\<open>None\<close> for NULL); the two sentinel keys are constructors.  The
  destructor of entries acts on a state \<open>'s\<close> and is an argument of the operations that call
  it.  \<open>lh_rep t ord\<close> is the representation invariant, with \<open>ord\<close> the indices in chain order;
  \<open>lh_items\<close> is the abstraction to a list of key-value pairs.
\<close>

section \<open>Data\<close>

datatype 'k lh_key = LH_EMPTY | LH_FREED | Key (the_key: 'k)

record ('k, 'v) lh_entry =
  ent_k :: "'k lh_key"
  ent_v :: "'v option"
  ent_next :: "nat option"
  ent_prev :: "nat option"

text \<open>The statistics counters are machine integers that wrap around.\<close>

record ('k, 'v) lh_table =
  lh_size :: nat
  lh_count :: int
  lh_collisions :: "32 word"
  lh_resizes :: "32 word"
  lh_lookups :: "32 word"
  lh_inserts :: "32 word"
  lh_deletes :: "32 word"
  lh_head :: "nat option"
  lh_tail :: "nat option"
  lh_tab :: "('k, 'v) lh_entry list"
  lh_hash_fn :: "'k \<Rightarrow> 64 word"
  lh_equal_fn :: "'k \<Rightarrow> 'k \<Rightarrow> bool"

type_synonym ('k, 'v, 's) entry_free_fn = "('k, 'v) lh_entry \<Rightarrow> 's \<Rightarrow> 's option"

section \<open>Hash functions\<close>

abbreviation LH_PRIME :: "64 word" where "LH_PRIME \<equiv> 0x9e370001"

text \<open>The product is a signed 64-bit value; its right shift is arithmetic.\<close>

definition lh_ptr_hash :: "64 word \<Rightarrow> 64 word" where
  "lh_ptr_hash k = signed_drop_bit 4 (k * LH_PRIME)"

definition lh_ptr_equal :: "64 word \<Rightarrow> 64 word \<Rightarrow> bool" where
  "lh_ptr_equal k1 k2 \<longleftrightarrow> k1 = k2"

text \<open>A plain \<open>char\<close> is signed: the conversion to \<open>unsigned int\<close> extends the sign.\<close>

definition char_to_uint :: "char \<Rightarrow> 32 word" where
  "char_to_uint c = scast (of_char c :: 8 word)"

fun lh_char_hash_loop :: "32 word \<Rightarrow> string \<Rightarrow> 32 word" where
  "lh_char_hash_loop h [] = h"
| "lh_char_hash_loop h (c # cs) =
     lh_char_hash_loop (ucast (ucast (h * 129 + char_to_uint c) + LH_PRIME)) cs"

definition lh_char_hash :: "string \<Rightarrow> 64 word" where
  "lh_char_hash k = ucast (lh_char_hash_loop 0 k)"

definition lh_char_equal :: "string \<Rightarrow> string \<Rightarrow> bool" where
  "lh_char_equal k1 k2 \<longleftrightarrow> k1 = k2"

section \<open>Operations\<close>

definition empty_entry :: "('k, 'v) lh_entry" where
  "empty_entry = \<lparr>ent_k = LH_EMPTY, ent_v = None, ent_next = None, ent_prev = None\<rparr>"

text \<open>An allocation that fails ends the program (\<open>lh_abort\<close>).\<close>

definition lh_table_new ::
  "malloc_fn \<Rightarrow> nat \<Rightarrow> ('k \<Rightarrow> 64 word) \<Rightarrow> ('k \<Rightarrow> 'k \<Rightarrow> bool) \<Rightarrow> ('k, 'v) lh_table option" where
  "lh_table_new mal sz hash_fn equal_fn = do {
     c_assert (mal 88);
     c_assert (mal (32 * int sz));
     Some \<lparr>lh_size = sz, lh_count = 0, lh_collisions = 0, lh_resizes = 0, lh_lookups = 0,
           lh_inserts = 0, lh_deletes = 0, lh_head = None, lh_tail = None,
           lh_tab = replicate sz empty_entry, lh_hash_fn = hash_fn, lh_equal_fn = equal_fn\<rparr>
   }"

definition lh_kchar_table_new :: "malloc_fn \<Rightarrow> nat \<Rightarrow> (string, 'v) lh_table option" where
  "lh_kchar_table_new mal sz = lh_table_new mal sz lh_char_hash lh_char_equal"

definition lh_kptr_table_new :: "malloc_fn \<Rightarrow> nat \<Rightarrow> (64 word, 'v) lh_table option" where
  "lh_kptr_table_new mal sz = lh_table_new mal sz lh_ptr_hash lh_ptr_equal"

text \<open>
  The entries met by \<open>for(ent = t->head; ent; ent = ent->next)\<close>.  A chain longer than the
  array is a cycle, on which the C loop would not end.
\<close>

fun lh_chain :: "('k, 'v) lh_entry list \<Rightarrow> nat \<Rightarrow> nat option \<Rightarrow> nat list option" where
  "lh_chain tab fuel None = Some []"
| "lh_chain tab 0 (Some i) = None"
| "lh_chain tab (Suc fuel) (Some i) =
     (if i < length tab then map_option ((#) i) (lh_chain tab fuel (ent_next (tab ! i))) else None)"

definition lh_foreach :: "('k, 'v) lh_table \<Rightarrow> nat list option" where
  "lh_foreach t = lh_chain (lh_tab t) (length (lh_tab t)) (lh_head t)"

text \<open>\<open>h % t->size\<close>, on unsigned long.\<close>

definition lh_home :: "('k, 'v) lh_table \<Rightarrow> 'k \<Rightarrow> nat" where
  "lh_home t k = nat (uint (lh_hash_fn t k) mod int (lh_size t))"

definition next_slot :: "nat \<Rightarrow> nat \<Rightarrow> nat" where
  "next_slot sz n = (if n + 1 = sz then 0 else n + 1)"

text \<open>
  The probe for a slot that holds no key, with the collision counter.  After \<open>size\<close> probes
  every slot was seen: the C loop would go round for ever.
\<close>

fun lh_probe_free ::
  "('k, 'v) lh_entry list \<Rightarrow> nat \<Rightarrow> nat \<Rightarrow> nat \<Rightarrow> 32 word \<Rightarrow> (nat \<times> 32 word) option" where
  "lh_probe_free tab sz 0 n col = None"
| "lh_probe_free tab sz (Suc fuel) n col =
     (if n \<ge> length tab then None
      else if ent_k (tab ! n) = LH_EMPTY \<or> ent_k (tab ! n) = LH_FREED then Some (n, col)
      else lh_probe_free tab sz fuel (next_slot sz n) (col + 1))"

definition upd_entry ::
  "('k, 'v) lh_entry list \<Rightarrow> nat \<Rightarrow> (('k, 'v) lh_entry \<Rightarrow> ('k, 'v) lh_entry)
     \<Rightarrow> ('k, 'v) lh_entry list option" where
  "upd_entry tab i f = (if i < length tab then Some (tab[i := f (tab ! i)]) else None)"

text \<open>\<open>lh_table_insert\<close> after the load test: find a slot, fill it, append it to the chain.\<close>

definition lh_place ::
  "('k, 'v) lh_table \<Rightarrow> 'k \<Rightarrow> 'v option \<Rightarrow> ('k, 'v) lh_table option" where
  "lh_place t k v = do {
     c_assert (lh_size t \<noteq> 0);
     (n, col) \<leftarrow> lh_probe_free (lh_tab t) (lh_size t) (lh_size t)
                  (lh_home t k) (lh_collisions t);
     tab \<leftarrow> upd_entry (lh_tab t) n (\<lambda>e. e\<lparr>ent_k := Key k, ent_v := v\<rparr>);
     let t = t\<lparr>lh_collisions := col, lh_count := lh_count t + 1\<rparr>;
     if lh_head t = None then do {
       tab \<leftarrow> upd_entry tab n (\<lambda>e. e\<lparr>ent_next := None, ent_prev := None\<rparr>);
       Some (t\<lparr>lh_tab := tab, lh_head := Some n, lh_tail := Some n\<rparr>)
     }
     else do {
       l \<leftarrow> lh_tail t;
       tab \<leftarrow> upd_entry tab l (\<lambda>e. e\<lparr>ent_next := Some n\<rparr>);
       tab \<leftarrow> upd_entry tab n (\<lambda>e. e\<lparr>ent_next := None, ent_prev := Some l\<rparr>);
       Some (t\<lparr>lh_tab := tab, lh_tail := Some n\<rparr>)
     }
   }"

text \<open>
  The load factor is the double \<open>0.66\<close>; for table sizes of an \<open>int\<close> the comparison with
  \<open>size * 0.66\<close> agrees with the one over the rationals.
\<close>

definition lh_overloaded :: "('k, 'v) lh_table \<Rightarrow> bool" where
  "lh_overloaded t \<longleftrightarrow> 100 * lh_count t \<ge> 66 * int (lh_size t)"

text \<open>
  \<open>lh_table_insert\<close> and \<open>lh_table_resize\<close> call each other.  \<open>lh_insert_with\<close> and
  \<open>lh_resize_with\<close> are their bodies over the other function; \<open>lh_insert_d\<close> ties the knot
  for a given number of nested calls.
\<close>

definition lh_insert_with ::
  "(('k, 'v) lh_table \<Rightarrow> nat \<Rightarrow> ('k, 'v) lh_table option) \<Rightarrow> ('k, 'v) lh_table \<Rightarrow> 'k \<Rightarrow> 'v option
     \<Rightarrow> ('k, 'v) lh_table option" where
  "lh_insert_with resize t k v = do {
     let t = t\<lparr>lh_inserts := lh_inserts t + 1\<rparr>;
     t \<leftarrow> (if lh_overloaded t then do {
             c_assert (c_int_ok (int (lh_size t) * 2));
             resize t (lh_size t * 2)
           } else Some t);
     lh_place t k v
   }"

definition lh_copy_entry ::
  "(('k, 'v) lh_table \<Rightarrow> 'k \<Rightarrow> 'v option \<Rightarrow> ('k, 'v) lh_table option)
     \<Rightarrow> ('k, 'v) lh_entry list \<Rightarrow> nat \<Rightarrow> ('k, 'v) lh_table \<Rightarrow> ('k, 'v) lh_table option" where
  "lh_copy_entry ins tab i new_t =
     (case ent_k (tab ! i) of Key k \<Rightarrow> ins new_t k (ent_v (tab ! i)) | _ \<Rightarrow> None)"

definition lh_resize_with ::
  "malloc_fn \<Rightarrow> (('k, 'v) lh_table \<Rightarrow> 'k \<Rightarrow> 'v option \<Rightarrow> ('k, 'v) lh_table option)
     \<Rightarrow> ('k, 'v) lh_table \<Rightarrow> nat \<Rightarrow> ('k, 'v) lh_table option" where
  "lh_resize_with mal ins t new_size = do {
     new_t \<leftarrow> lh_table_new mal new_size (lh_hash_fn t) (lh_equal_fn t);
     ents \<leftarrow> lh_foreach t;
     new_t \<leftarrow> ofold (lh_copy_entry ins (lh_tab t)) ents new_t;
     Some (t\<lparr>lh_tab := lh_tab new_t, lh_size := new_size, lh_head := lh_head new_t,
             lh_tail := lh_tail new_t, lh_resizes := lh_resizes t + 1\<rparr>)
   }"

primrec lh_insert_d ::
  "malloc_fn \<Rightarrow> nat \<Rightarrow> ('k, 'v) lh_table \<Rightarrow> 'k \<Rightarrow> 'v option \<Rightarrow> ('k, 'v) lh_table option" where
  "lh_insert_d mal 0 = lh_insert_with (\<lambda>_ _. None)"
| "lh_insert_d mal (Suc d) = lh_insert_with (lh_resize_with mal (lh_insert_d mal d))"

text \<open>
  Each nested resize doubles an \<open>int\<close> size, so 31 levels cover every run; for a well-formed
  table one level is reached at most (\<open>lh_insert_d_spec\<close>).
\<close>

definition lh_table_insert ::
  "malloc_fn \<Rightarrow> ('k, 'v) lh_table \<Rightarrow> 'k \<Rightarrow> 'v option \<Rightarrow> ('k, 'v) lh_table option" where
  "lh_table_insert mal = lh_insert_d mal (Suc 30)"

definition lh_table_resize :: "malloc_fn \<Rightarrow> ('k, 'v) lh_table \<Rightarrow> nat \<Rightarrow> ('k, 'v) lh_table option" where
  "lh_table_resize mal = lh_resize_with mal (lh_table_insert mal)"

definition lh_table_free ::
  "('k, 'v, 's) entry_free_fn option \<Rightarrow> ('k, 'v) lh_table \<Rightarrow> 's \<Rightarrow> 's option" where
  "lh_table_free free_fn t s = do {
     ents \<leftarrow> lh_foreach t;
     ofold (\<lambda>i s. case free_fn of None \<Rightarrow> Some s | Some f \<Rightarrow> f (lh_tab t ! i) s) ents s
   }"

text \<open>The probe of \<open>lh_table_lookup_entry\<close>; \<open>fuel\<close> counts down from the size as \<open>count\<close> counts up.\<close>

fun lh_probe ::
  "('k, 'v) lh_table \<Rightarrow> 'k \<Rightarrow> nat \<Rightarrow> nat \<Rightarrow> nat option option" where
  "lh_probe t k 0 n = Some None"
| "lh_probe t k (Suc fuel) n =
     (if n \<ge> length (lh_tab t) then None
      else case ent_k (lh_tab t ! n) of
          LH_EMPTY \<Rightarrow> Some None
        | LH_FREED \<Rightarrow> lh_probe t k fuel (next_slot (lh_size t) n)
        | Key k' \<Rightarrow> (if lh_equal_fn t k' k then Some (Some n)
                    else lh_probe t k fuel (next_slot (lh_size t) n)))"

definition lh_table_lookup_entry ::
  "('k, 'v) lh_table \<Rightarrow> 'k \<Rightarrow> (nat option \<times> ('k, 'v) lh_table) option" where
  "lh_table_lookup_entry t k = do {
     c_assert (lh_size t \<noteq> 0);
     let t = t\<lparr>lh_lookups := lh_lookups t + 1\<rparr>;
     r \<leftarrow> lh_probe t k (lh_size t) (lh_home t k);
     Some (r, t)
   }"

text \<open>The found flag, the value (null when the key is absent) and the table.\<close>

definition lh_table_lookup_ex ::
  "('k, 'v) lh_table \<Rightarrow> 'k \<Rightarrow> (bool \<times> 'v option \<times> ('k, 'v) lh_table) option" where
  "lh_table_lookup_ex t k = do {
     (e, t) \<leftarrow> lh_table_lookup_entry t k;
     case e of
       Some i \<Rightarrow> Some (True, ent_v (lh_tab t ! i), t)
     | None \<Rightarrow> Some (False, None, t)
   }"

definition lh_table_lookup ::
  "('k, 'v) lh_table \<Rightarrow> 'k \<Rightarrow> ('v option \<times> ('k, 'v) lh_table) option" where
  "lh_table_lookup t k = map_option snd (lh_table_lookup_ex t k)"

text \<open>Unlink slot \<open>n\<close>: the four cases of the source, on the table with the key already freed.\<close>

definition lh_unlink ::
  "('k, 'v) lh_table \<Rightarrow> nat \<Rightarrow> ('k, 'v) lh_table option" where
  "lh_unlink t n =
     (if lh_tail t = Some n \<and> lh_head t = Some n then
        Some (t\<lparr>lh_head := None, lh_tail := None\<rparr>)
      else if lh_head t = Some n then do {
        m \<leftarrow> ent_next (lh_tab t ! n);
        tab \<leftarrow> upd_entry (lh_tab t) m (\<lambda>e. e\<lparr>ent_prev := None\<rparr>);
        Some (t\<lparr>lh_tab := tab, lh_head := Some m\<rparr>)
      }
      else if lh_tail t = Some n then do {
        m \<leftarrow> ent_prev (lh_tab t ! n);
        tab \<leftarrow> upd_entry (lh_tab t) m (\<lambda>e. e\<lparr>ent_next := None\<rparr>);
        Some (t\<lparr>lh_tab := tab, lh_tail := Some m\<rparr>)
      }
      else do {
        p \<leftarrow> ent_prev (lh_tab t ! n);
        tab \<leftarrow> upd_entry (lh_tab t) p (\<lambda>e. e\<lparr>ent_next := ent_next (lh_tab t ! n)\<rparr>);
        q \<leftarrow> ent_next (tab ! n);
        tab \<leftarrow> upd_entry tab q (\<lambda>e. e\<lparr>ent_prev := ent_prev (tab ! n)\<rparr>);
        Some (t\<lparr>lh_tab := tab\<rparr>)
      })"

definition lh_table_delete_entry ::
  "('k, 'v, 's) entry_free_fn option \<Rightarrow> ('k, 'v) lh_table \<Rightarrow> int \<Rightarrow> 's
     \<Rightarrow> (int \<times> ('k, 'v) lh_table \<times> 's) option" where
  "lh_table_delete_entry free_fn t e s =
     (if e < 0 then Some (-2, t, s)
      else if nat e \<ge> length (lh_tab t) then None
      else let n = nat e in
        (case ent_k (lh_tab t ! n) of
          LH_EMPTY \<Rightarrow> Some (-1, t, s)
        | LH_FREED \<Rightarrow> Some (-1, t, s)
        | Key _ \<Rightarrow> do {
            let t = t\<lparr>lh_count := lh_count t - 1\<rparr>;
            s \<leftarrow> (case free_fn of None \<Rightarrow> Some s | Some f \<Rightarrow> f (lh_tab t ! n) s);
            tab \<leftarrow> upd_entry (lh_tab t) n (\<lambda>e. e\<lparr>ent_v := None, ent_k := LH_FREED\<rparr>);
            t \<leftarrow> lh_unlink (t\<lparr>lh_tab := tab\<rparr>) n;
            tab \<leftarrow> upd_entry (lh_tab t) n (\<lambda>e. e\<lparr>ent_next := None, ent_prev := None\<rparr>);
            Some (0, t\<lparr>lh_tab := tab\<rparr>, s)
          }))"

definition lh_table_delete ::
  "('k, 'v, 's) entry_free_fn option \<Rightarrow> ('k, 'v) lh_table \<Rightarrow> 'k \<Rightarrow> 's
     \<Rightarrow> (int \<times> ('k, 'v) lh_table \<times> 's) option" where
  "lh_table_delete free_fn t k s = do {
     (e, t) \<leftarrow> lh_table_lookup_entry t k;
     case e of
       None \<Rightarrow> Some (-1, t, s)
     | Some i \<Rightarrow> lh_table_delete_entry free_fn t (int i) s
   }"

definition lh_table_length :: "('k, 'v) lh_table \<Rightarrow> int" where
  "lh_table_length t = lh_count t"

end
