(* ===== verification/C_Numbers.thy ===== *)
theory C_Numbers
  imports C_Prelude
begin

text \<open>
  The part of the C library's number formatting and scanning that the JSON code uses:
  \<open>%lld\<close> and \<open>%f\<close> output, a conforming \<open>sscanf("%lld")\<close>, and IEEE 754 doubles as 64-bit
  patterns with their conversions from and to integers.
\<close>

unbundle bit_operations_syntax

section \<open>Decimal integers\<close>

abbreviation INT64_MAX :: int where "INT64_MAX \<equiv> 9223372036854775807"
abbreviation INT64_MIN :: int where "INT64_MIN \<equiv> - 9223372036854775808"

definition digit_char :: "int \<Rightarrow> char" where
  "digit_char d = ''0123456789'' ! nat d"

definition char_digit :: "char \<Rightarrow> int" where
  "char_digit c = of_char c - 48"

function c_dec :: "int \<Rightarrow> string" where
  "c_dec n = (if n < 10 then [digit_char n] else c_dec (n div 10) @ [digit_char (n mod 10)])"
  by auto
termination by (relation "measure nat") auto

declare c_dec.simps [simp del]

definition c_itoa :: "int \<Rightarrow> string" where
  "c_itoa n = (if n < 0 then CHR ''-'' # c_dec (- n) else c_dec n)"

definition digits_val :: "string \<Rightarrow> int" where
  "digits_val = foldl (\<lambda>a c. 10 * a + char_digit c) 0"

text \<open>
  \<open>sscanf (buf, "%lld", &n)\<close>: nothing when no number is found, otherwise the value and whether
  \<open>errno\<close> was set to ERANGE.  A conforming library clamps a value out of range.
\<close>

type_synonym scan_d64_fn = "string \<Rightarrow> (int \<times> bool) option"

definition clamp64 :: "int \<Rightarrow> int \<times> bool" where
  "clamp64 n = (if n > INT64_MAX then (INT64_MAX, True)
                else if n < INT64_MIN then (INT64_MIN, True) else (n, False))"

definition scan_sign :: "string \<Rightarrow> bool \<times> string" where
  "scan_sign s = (case s of c # r \<Rightarrow> (if c = CHR ''-'' then (True, r)
                                     else if c = CHR ''+'' then (False, r) else (False, s))
                  | [] \<Rightarrow> (False, s))"

definition scan_d64 :: scan_d64_fn where
  "scan_d64 buf =
     (let (neg, s) = scan_sign (dropWhile c_isspace buf);
          ds = takeWhile c_isdigit s
      in if ds = [] then None
         else Some (clamp64 (if neg then - digits_val ds else digits_val ds)))"

text \<open>A library that wraps around silently, the kind the workaround in the source is for.\<close>

definition wrap64 :: "int \<Rightarrow> int" where
  "wrap64 n = (n + 2 ^ 63) mod 2 ^ 64 - 2 ^ 63"

definition scan_d64_wrapping :: scan_d64_fn where
  "scan_d64_wrapping buf =
     (let (neg, s) = scan_sign (dropWhile c_isspace buf);
          ds = takeWhile c_isdigit s
      in if ds = [] then None
         else Some (wrap64 (if neg then - digits_val ds else digits_val ds), False))"

section \<open>Doubles\<close>

type_synonym double = "64 word"

definition dbl_neg :: "double \<Rightarrow> bool" where
  "dbl_neg d \<longleftrightarrow> bit d 63"

definition dbl_exp :: "double \<Rightarrow> int" where
  "dbl_exp d = uint d div 2 ^ 52 mod 2 ^ 11"

definition dbl_frac :: "double \<Rightarrow> int" where
  "dbl_frac d = uint d mod 2 ^ 52"

text \<open>A finite double is \<open>m * 2 ^ e\<close> up to its sign.\<close>

definition dbl_finite :: "double \<Rightarrow> bool" where
  "dbl_finite d \<longleftrightarrow> dbl_exp d \<noteq> 2047"

definition dbl_mant :: "double \<Rightarrow> int" where
  "dbl_mant d = (if dbl_exp d = 0 then dbl_frac d else 2 ^ 52 + dbl_frac d)"

definition dbl_scale :: "double \<Rightarrow> int" where
  "dbl_scale d = (if dbl_exp d = 0 then - 1074 else dbl_exp d - 1075)"

text \<open>Division rounding to nearest, ties to even.\<close>

definition div_nearest :: "int \<Rightarrow> int \<Rightarrow> int" where
  "div_nearest a b =
     (let q = a div b; r = a mod b
      in if 2 * r > b \<or> 2 * r = b \<and> odd q then q + 1 else q)"

definition pad6 :: "int \<Rightarrow> string" where
  "pad6 n = (let s = c_dec n in replicate (6 - length s) CHR ''0'' @ s)"

definition fmt_f :: "double \<Rightarrow> string" where
  "fmt_f d =
     (let sgn = (if dbl_neg d then ''-'' else '''')
      in if \<not> dbl_finite d then sgn @ (if dbl_frac d = 0 then ''inf'' else ''nan'')
         else let e = dbl_scale d;
                  n = (if e \<ge> 0 then dbl_mant d * 2 ^ nat e * 10 ^ 6
                       else div_nearest (dbl_mant d * 10 ^ 6) (2 ^ nat (- e)))
              in sgn @ c_dec (n div 10 ^ 6) @ ''.'' @ pad6 (n mod 10 ^ 6))"

text \<open>The integral part, for a finite double; converting anything else is undefined.\<close>

definition dbl_trunc :: "double \<Rightarrow> int option" where
  "dbl_trunc d =
     (if \<not> dbl_finite d then None
      else let e = dbl_scale d;
               n = (if e \<ge> 0 then dbl_mant d * 2 ^ nat e else dbl_mant d div 2 ^ nat (- e))
           in Some (if dbl_neg d then - n else n))"

text \<open>\<open>d != 0\<close>: false for both zeros only.\<close>

definition dbl_nonzero :: "double \<Rightarrow> bool" where
  "dbl_nonzero d \<longleftrightarrow> uint d mod 2 ^ 63 \<noteq> 0"

text \<open>The bit length, and the conversion of an integer of at most 64 bits.\<close>

function bit_length :: "int \<Rightarrow> nat" where
  "bit_length n = (if n \<le> 0 then 0 else Suc (bit_length (n div 2)))"
  by auto
termination by (relation "measure nat") auto

declare bit_length.simps [simp del]

definition dbl_of_int :: "int \<Rightarrow> double" where
  "dbl_of_int n =
     (if n = 0 then 0
      else let a = abs n; l = bit_length a;
               m = (if l \<le> 53 then a * 2 ^ (53 - l) else div_nearest a (2 ^ (l - 53)));
               (m, l) = (if m = 2 ^ 53 then (2 ^ 52, Suc l) else (m, l))
           in word_of_int ((if n < 0 then 2 ^ 63 else 0)
                           + (int l + 1022) * 2 ^ 52 + (m - 2 ^ 52)))"

section \<open>Facts about decimal integers\<close>

lemma char_digit_digit_char: "0 \<le> d \<Longrightarrow> d < 10 \<Longrightarrow> char_digit (digit_char d) = d"
proof -
  assume "0 \<le> d" "d < 10"
  then have "d = 0 \<or> d = 1 \<or> d = 2 \<or> d = 3 \<or> d = 4 \<or> d = 5 \<or> d = 6 \<or> d = 7 \<or> d = 8 \<or> d = 9"
    by presburger
  then show ?thesis by (elim disjE) (simp_all add: digit_char_def char_digit_def)
qed

lemma digit_char_in: "0 \<le> d \<Longrightarrow> d < 10 \<Longrightarrow> digit_char d \<in> set ''0123456789''"
  unfolding digit_char_def by (rule nth_mem) (simp add: nat_less_iff)

lemma c_isdigit_digit_char: "0 \<le> d \<Longrightarrow> d < 10 \<Longrightarrow> c_isdigit (digit_char d)"
  unfolding c_isdigit_def by (rule digit_char_in)

lemma c_dec_digits: "0 \<le> n \<Longrightarrow> \<forall>c \<in> set (c_dec n). c_isdigit c"
proof (induction n rule: c_dec.induct)
  case (1 n)
  then show ?case by (subst c_dec.simps) (auto simp: c_isdigit_digit_char)
qed

lemma c_dec_nonempty: "c_dec n \<noteq> []"
  by (subst c_dec.simps) auto

lemma digits_val_snoc: "digits_val (s @ [c]) = 10 * digits_val s + char_digit c"
  by (simp add: digits_val_def)

text \<open>Printing and reading back is the identity.\<close>

lemma digits_val_c_dec: "0 \<le> n \<Longrightarrow> digits_val (c_dec n) = n"
proof (induction n rule: c_dec.induct)
  case (1 n)
  show ?case
  proof (cases "n < 10")
    case True
    with 1 show ?thesis
      by (subst c_dec.simps) (simp add: digits_val_def char_digit_digit_char)
  next
    case False
    with 1 have "digits_val (c_dec (n div 10)) = n div 10" by simp
    with False show ?thesis
      by (subst c_dec.simps) (simp add: digits_val_snoc char_digit_digit_char)
  qed
qed

end
