(* ===== verification/Json_Int64.thy ===== *)
theory Json_Int64
  imports C_Numbers
begin

text \<open>
  \<open>json_parse_int64\<close> of \<^verbatim>\<open>json-c-0.11/json_util.c\<close>.  The code distrusts \<open>sscanf\<close>, so the scanner is
  an argument; the static variables of the file and \<open>errno\<close> are explicit state.  The result
  is shown to be the value of the number, clamped to 64 bits, both for a conforming scanner
  and for one that wraps around.
\<close>

section \<open>Operations\<close>

record scan_state =
  sscanf_is_broken :: bool
  sscanf_is_broken_testdone :: bool
  errno_ERANGE :: bool

definition scan_state_init :: scan_state where
  "scan_state_init = \<lparr>sscanf_is_broken = False, sscanf_is_broken_testdone = False, errno_ERANGE = False\<rparr>"

text \<open>A call of \<open>sscanf\<close> leaves \<open>errno\<close> alone unless the value is out of range.\<close>

definition call_sscanf :: "scan_d64_fn \<Rightarrow> string \<Rightarrow> scan_state \<Rightarrow> int option \<times> scan_state" where
  "call_sscanf scan buf st =
     (case scan buf of
        None \<Rightarrow> (None, st)
      | Some (n, er) \<Rightarrow> (Some n, if er then st\<lparr>errno_ERANGE := True\<rparr> else st))"

text \<open>If the first scan stores nothing, \<open>num64\<close> is read uninitialised.\<close>

definition sscanf_is_broken_test :: "scan_d64_fn \<Rightarrow> scan_state \<Rightarrow> scan_state option" where
  "sscanf_is_broken_test scan st = do {
     let (r1, st) = call_sscanf scan '' -01234567890123456789012345'' st;
     num64 \<leftarrow> r1;
     let ret_errno = errno_ERANGE st;
     let is_int64_min = (num64 = INT64_MIN);
     let (r2, st) = call_sscanf scan '' 01234567890123456789012345'' st;
     let num64 = (case r2 of None \<Rightarrow> num64 | Some n \<Rightarrow> n);
     let ret_errno2 = errno_ERANGE st;
     let is_int64_max = (num64 = INT64_MAX);
     Some (if \<not> ret_errno \<or> \<not> is_int64_min \<or> \<not> ret_errno2 \<or> \<not> is_int64_max
           then st\<lparr>sscanf_is_broken := True\<rparr> else st)
   }"

fun skip_zeros :: "string \<Rightarrow> string" where
  "skip_zeros (c # d # s) = (if c = CHR ''0'' then skip_zeros (d # s) else c # d # s)"
| "skip_zeros s = s"

text \<open>
  The workaround: print the value again and compare with the significant digits of the input.
  True when the value cannot be trusted.
\<close>

definition recheck_fails :: "int \<Rightarrow> bool \<Rightarrow> string \<Rightarrow> bool" where
  "recheck_fails num64 orig_has_neg buf_sig_digits =
     (let sig = skip_zeros buf_sig_digits;
          buf_cmp = c_itoa num64;
          recheck_has_neg = (hd buf_cmp = CHR ''-'');
          cmp = (if recheck_has_neg then tl buf_cmp else buf_cmp);
          buf_cmp_len = length cmp
      in orig_has_neg \<noteq> recheck_has_neg
         \<or> take buf_cmp_len sig \<noteq> cmp
         \<or> length sig \<noteq> buf_cmp_len \<and> c_isdigit (sig ! buf_cmp_len))"

text \<open>The returned code, and the number stored when the code is 0.\<close>

definition json_parse_int64 ::
  "scan_d64_fn \<Rightarrow> string \<Rightarrow> scan_state \<Rightarrow> (int option \<times> scan_state) option" where
  "json_parse_int64 scan buf st = do {
     st \<leftarrow> (if sscanf_is_broken_testdone st then Some st
           else map_option (\<lambda>st. st\<lparr>sscanf_is_broken_testdone := True\<rparr>) (sscanf_is_broken_test scan st));
     let buf = dropWhile c_isspace buf;
     let st = st\<lparr>errno_ERANGE := False\<rparr>;
     let (r, st) = call_sscanf scan buf st;
     case r of
       None \<Rightarrow> Some (None, st)
     | Some num64 \<Rightarrow>
         let saved_errno = errno_ERANGE st;
             orig_has_neg = (case buf of c # _ \<Rightarrow> c = CHR ''-'' | [] \<Rightarrow> False);
             buf_sig_digits = (if orig_has_neg then tl buf else buf);
             broken = sscanf_is_broken st \<and> \<not> saved_errno;
             orig_has_neg = (if broken \<and> num64 = 0 then False else orig_has_neg);
             saved_errno = (saved_errno \<or> broken \<and> recheck_fails num64 orig_has_neg buf_sig_digits)
         in Some (Some (if saved_errno then if orig_has_neg then INT64_MIN else INT64_MAX
                        else num64), st)
   }"

section \<open>A conforming scanner\<close>

text \<open>The number at the head of a text: white space, a sign, digits.\<close>

definition int_prefix :: "string \<Rightarrow> int option" where
  "int_prefix buf =
     (let (neg, s) = scan_sign (dropWhile c_isspace buf);
          ds = takeWhile c_isdigit s
      in if ds = [] then None else Some (if neg then - digits_val ds else digits_val ds))"

definition clamp :: "int \<Rightarrow> int" where
  "clamp n = max INT64_MIN (min INT64_MAX n)"

lemma scan_d64_int_prefix: "scan_d64 buf = map_option clamp64 (int_prefix buf)"
  by (simp add: scan_d64_def int_prefix_def Let_def split: prod.split)

lemma scan_wrapping_int_prefix:
  "scan_d64_wrapping buf = map_option (\<lambda>n. (wrap64 n, False)) (int_prefix buf)"
  by (simp add: scan_d64_wrapping_def int_prefix_def Let_def split: prod.split)

lemma char_digit_nonneg: "c_isdigit c \<Longrightarrow> 0 \<le> char_digit c \<and> char_digit c < 10"
  by (auto simp: c_isdigit_def char_digit_def)

lemma digits_val_nonneg: "\<forall>c \<in> set ds. c_isdigit c \<Longrightarrow> 0 \<le> digits_val ds"
  by (induction ds rule: rev_induct) (auto simp: digits_val_snoc digits_val_def dest: char_digit_nonneg)

lemma digits_val_takeWhile: "0 \<le> digits_val (takeWhile c_isdigit s)"
  by (rule digits_val_nonneg) (auto dest: set_takeWhileD)

lemma dropWhile_idem: "dropWhile P (dropWhile P xs) = dropWhile P xs"
  by (induction xs) auto

text \<open>The sign test of the code agrees with the scanner's, up to a leading plus.\<close>

lemma int_prefix_sign:
  assumes "int_prefix buf = Some n"
  shows "(n < 0 \<longrightarrow> (\<exists>r. dropWhile c_isspace buf = CHR ''-'' # r))
     \<and> (0 < n \<longrightarrow> (\<forall>r. dropWhile c_isspace buf \<noteq> CHR ''-'' # r))"
proof (cases "dropWhile c_isspace buf")
  case Nil
  with assms show ?thesis by (simp add: int_prefix_def scan_sign_def)
next
  case (Cons c r)
  then show ?thesis
    using assms digits_val_takeWhile [of r] digits_val_takeWhile [of "c # r"]
    by (auto simp: int_prefix_def scan_sign_def Let_def split: if_splits)
qed

lemma parse_int64_conforming:
  assumes "sscanf_is_broken_testdone st" "\<not> sscanf_is_broken st"
  shows "\<exists>st'. json_parse_int64 scan_d64 buf st = Some (map_option clamp (int_prefix buf), st')
     \<and> sscanf_is_broken_testdone st' \<and> \<not> sscanf_is_broken st'"
proof -
  have idem: "int_prefix (dropWhile c_isspace buf) = int_prefix buf"
    by (simp add: int_prefix_def dropWhile_idem)
  show ?thesis
  proof (cases "int_prefix buf")
    case None
    then show ?thesis
      using assms by (simp add: json_parse_int64_def call_sscanf_def scan_d64_int_prefix idem)
  next
    case (Some n)
    from int_prefix_sign [OF Some] show ?thesis
      using assms Some
      by (auto simp: json_parse_int64_def call_sscanf_def scan_d64_int_prefix idem clamp64_def clamp_def
          Let_def simp del: dropWhile_eq_Nil_conv split: list.split)
  qed
qed

lemma broken_test_conforming:
  "\<exists>st'. sscanf_is_broken_test scan_d64 st = Some st' \<and> sscanf_is_broken st' = sscanf_is_broken st"
proof -
  have "scan_d64 '' -01234567890123456789012345'' = Some (INT64_MIN, True)"
    "scan_d64 '' 01234567890123456789012345'' = Some (INT64_MAX, True)" by code_simp+
  then show ?thesis by (simp add: sscanf_is_broken_test_def call_sscanf_def)
qed

section \<open>A scanner that wraps around\<close>

lemma broken_test_wrapping:
  "\<not> errno_ERANGE st \<Longrightarrow>
   \<exists>st'. sscanf_is_broken_test scan_d64_wrapping st = Some st' \<and> sscanf_is_broken st'"
proof -
  assume "\<not> errno_ERANGE st"
  moreover have "scan_d64_wrapping '' -01234567890123456789012345'' = Some (- 1096246371337559929, False)"
    "scan_d64_wrapping '' 01234567890123456789012345'' = Some (1096246371337559929, False)" by code_simp+
  ultimately show ?thesis by (auto simp: sscanf_is_broken_test_def call_sscanf_def)
qed

lemma digits_val_Cons0: "digits_val (CHR ''0'' # s) = digits_val s"
  by (simp add: digits_val_def char_digit_def)

lemma char_digit_pos: "c_isdigit c \<Longrightarrow> c \<noteq> CHR ''0'' \<Longrightarrow> 0 < char_digit c"
  by (auto simp: c_isdigit_def char_digit_def)

lemma digit_char_char_digit: "c_isdigit c \<Longrightarrow> digit_char (char_digit c) = c"
  by (auto simp: c_isdigit_def char_digit_def digit_char_def)

lemma digits_val_pos:
  "\<forall>c \<in> set (c # s). c_isdigit c \<Longrightarrow> c \<noteq> CHR ''0'' \<Longrightarrow> 0 < digits_val (c # s)"
proof (induction s rule: rev_induct)
  case Nil
  then show ?case by (simp add: digits_val_def char_digit_pos)
next
  case (snoc d s)
  then have "0 < digits_val (c # s)" "0 \<le> char_digit d" by (auto dest: char_digit_nonneg)
  then show ?case using digits_val_snoc [of "c # s" d] by simp
qed

text \<open>A decimal without leading zeros is the print of its value.\<close>

lemma c_dec_digits_val:
  "\<forall>c \<in> set (c # s). c_isdigit c \<Longrightarrow> c \<noteq> CHR ''0'' \<or> s = [] \<Longrightarrow> c_dec (digits_val (c # s)) = c # s"
proof (induction s rule: rev_induct)
  case Nil
  then show ?case
    by (subst c_dec.simps) (simp add: digits_val_def char_digit_nonneg digit_char_char_digit)
next
  case (snoc d s)
  let ?v = "digits_val (c # s)"
  have v: "0 < ?v" by (rule digits_val_pos) (use snoc.prems in auto)
  have d: "0 \<le> char_digit d" "char_digit d < 10" "digit_char (char_digit d) = d"
    using snoc.prems char_digit_nonneg [of d] digit_char_char_digit [of d] by auto
  have eq: "digits_val (c # s @ [d]) = 10 * ?v + char_digit d" using digits_val_snoc [of "c # s" d] by simp
  then have "c_dec (digits_val (c # s @ [d])) = c_dec ?v @ [d]"
    using v d by (subst c_dec.simps) simp
  with snoc show ?case by auto
qed

lemma skip_zeros_digits:
  "ds \<noteq> [] \<Longrightarrow> \<forall>c \<in> set ds. c_isdigit c \<Longrightarrow> skip_zeros ds = c_dec (digits_val ds)"
proof (induction ds rule: skip_zeros.induct)
  case (1 c d s)
  show ?case
  proof (cases "c = CHR ''0''")
    case True
    with 1 show ?thesis by (simp add: digits_val_Cons0)
  next
    case False
    with 1 c_dec_digits_val [of c "d # s"] show ?thesis by simp
  qed
qed (simp_all add: c_dec_digits_val [of _ "[]"])

lemma c_dec_hd: "0 \<le> n \<Longrightarrow> hd (c_dec n) \<noteq> CHR ''-''"
  using c_dec_digits [of n] c_dec_nonempty [of n] by (cases "c_dec n") (auto simp: c_isdigit_def)

lemma c_itoa_split:
  "(hd (c_itoa n) = CHR ''-'') = (n < 0)"
  "(if n < 0 then tl (c_itoa n) else c_itoa n) = c_dec \<bar>n\<bar>"
  using c_dec_hd [of n] by (simp_all add: c_itoa_def)

lemma recheck_fails_digits:
  assumes ds: "ds \<noteq> []" "\<forall>c \<in> set ds. c_isdigit c"
    and n: "n = (if neg then - digits_val ds else digits_val ds)"
  shows "recheck_fails m (m \<noteq> 0 \<and> neg) ds \<longleftrightarrow> m \<noteq> n"
proof -
  let ?v = "digits_val ds"
  have v: "0 \<le> ?v" using ds digits_val_nonneg by blast
  let ?L = "take (length (c_dec \<bar>m\<bar>)) (c_dec ?v) \<noteq> c_dec \<bar>m\<bar> \<or> length (c_dec ?v) \<noteq> length (c_dec \<bar>m\<bar>)
      \<and> c_isdigit (c_dec ?v ! length (c_dec \<bar>m\<bar>))"
  have L: "?L \<longleftrightarrow> ?v \<noteq> \<bar>m\<bar>"
  proof (cases "take (length (c_dec \<bar>m\<bar>)) (c_dec ?v) = c_dec \<bar>m\<bar>")
    case True
    show ?thesis
    proof (cases "length (c_dec ?v) = length (c_dec \<bar>m\<bar>)")
      case len: True
      with True have "c_dec ?v = c_dec \<bar>m\<bar>" by simp
      then have "?v = \<bar>m\<bar>" using digits_val_c_dec v by (metis abs_ge_zero)
      with True len show ?thesis by simp
    next
      case False
      have "length (c_dec \<bar>m\<bar>) \<le> length (c_dec ?v)" using arg_cong [OF True, of length] by simp
      with False have "length (c_dec \<bar>m\<bar>) < length (c_dec ?v)" by simp
      then have "c_isdigit (c_dec ?v ! length (c_dec \<bar>m\<bar>))" using c_dec_digits [OF v] by simp
      with False show ?thesis by auto
    qed
  qed auto
  have "recheck_fails m (m \<noteq> 0 \<and> neg) ds \<longleftrightarrow> (m \<noteq> 0 \<and> neg) \<noteq> (m < 0) \<or> ?L"
    unfolding recheck_fails_def Let_def skip_zeros_digits [OF ds] c_itoa_split by simp
  also have "\<dots> \<longleftrightarrow> (m \<noteq> 0 \<and> neg) \<noteq> (m < 0) \<or> ?v \<noteq> \<bar>m\<bar>" unfolding L ..
  also have "\<dots> \<longleftrightarrow> m \<noteq> n" unfolding n using v by (cases neg) (simp_all, arith+)
  finally show ?thesis .
qed

lemma wrap64_in: "INT64_MIN \<le> n \<Longrightarrow> n \<le> INT64_MAX \<Longrightarrow> wrap64 n = n"
  unfolding wrap64_def by (subst mod_pos_pos_trivial) simp_all

lemma wrap64_range: "INT64_MIN \<le> wrap64 n \<and> wrap64 n \<le> INT64_MAX"
  using pos_mod_sign [of "2 ^ 64" "n + 2 ^ 63"] pos_mod_bound [of "2 ^ 64" "n + 2 ^ 63"]
  unfolding wrap64_def by simp

lemma int_prefix_digits:
  assumes "ds \<noteq> []" "\<forall>c \<in> set ds. c_isdigit c"
  shows "int_prefix ds = Some (digits_val ds)" "int_prefix (CHR ''-'' # ds) = Some (- digits_val ds)"
    "dropWhile c_isspace ds = ds" "hd ds \<noteq> CHR ''-''"
proof -
  from assms obtain c s where c: "ds = c # s" "c_isdigit c" by (cases ds) auto
  then have ns: "\<not> c_isspace c" "c \<noteq> CHR ''-''" "c \<noteq> CHR ''+''" by (auto simp: c_isdigit_def c_isspace_def)
  have all: "takeWhile c_isdigit ds = ds" using assms(2) by (simp add: takeWhile_eq_all_conv)
  show "dropWhile c_isspace ds = ds" "hd ds \<noteq> CHR ''-''" using ns c by auto
  show "int_prefix ds = Some (digits_val ds)"
    using all ns unfolding c(1) by (simp add: int_prefix_def scan_sign_def)
  show "int_prefix (CHR ''-'' # ds) = Some (- digits_val ds)"
    using all assms(1) by (simp add: int_prefix_def scan_sign_def c_isspace_def Let_def del: takeWhile_eq_all_conv)
qed

lemma parse_int64_wrapping:
  assumes st: "sscanf_is_broken_testdone st" "sscanf_is_broken st"
    and ds: "ds \<noteq> []" "\<forall>c \<in> set ds. c_isdigit c"
    and buf: "buf = (if neg then CHR ''-'' # ds else ds)"
    and n: "n = (if neg then - digits_val ds else digits_val ds)" "wrap64 n = 0 \<Longrightarrow> INT64_MIN \<le> n"
  shows "\<exists>st'. json_parse_int64 scan_d64_wrapping buf st = Some (Some (clamp n), st')
     \<and> sscanf_is_broken_testdone st' \<and> sscanf_is_broken st'"
proof -
  note p = int_prefix_digits [OF ds]
  have v: "0 \<le> digits_val ds" using ds digits_val_nonneg by blast
  have drop: "dropWhile c_isspace buf = buf" using p(3) buf by (simp add: c_isspace_def)
  have pre: "int_prefix buf = Some n" using p(1,2) buf n by simp
  have sgn: "(case buf of c # _ \<Rightarrow> c = CHR ''-'' | [] \<Rightarrow> False) = neg" "(if neg then tl buf else buf) = ds"
    using p(4) ds(1) buf by (cases ds; simp)+
  have if_False: "(if P then False else Q) = (\<not> P \<and> Q)" for P Q by simp
  have "json_parse_int64 scan_d64_wrapping buf st
      = Some (Some (if wrap64 n \<noteq> n then if wrap64 n \<noteq> 0 \<and> neg then INT64_MIN else INT64_MAX
                    else wrap64 n), st\<lparr>errno_ERANGE := False\<rparr>)"
    using st recheck_fails_digits [OF ds n(1), of "wrap64 n"]
    by (simp add: json_parse_int64_def call_sscanf_def scan_wrapping_int_prefix drop pre sgn Let_def
        if_False split del: if_split cong: if_cong)
  moreover let ?r = "if wrap64 n \<noteq> n then if wrap64 n \<noteq> 0 \<and> neg then INT64_MIN else INT64_MAX else wrap64 n"
  have "?r = clamp n"
  proof (cases "INT64_MIN \<le> n \<and> n \<le> INT64_MAX")
    case True
    then show ?thesis using wrap64_in [of n] by (simp add: clamp_def)
  next
    case False
    then have "wrap64 n \<noteq> n" using wrap64_range [of n] by auto
    then have "?r = (if wrap64 n \<noteq> 0 \<and> neg then INT64_MIN else INT64_MAX)" by simp
    moreover have "n < INT64_MIN \<longleftrightarrow> wrap64 n \<noteq> 0 \<and> neg"
      using False n v by (cases neg) auto
    moreover have "clamp n = (if n < INT64_MIN then INT64_MIN else INT64_MAX)"
      using False by (auto simp: clamp_def)
    ultimately show ?thesis by simp
  qed
  ultimately show ?thesis using st by simp
qed

lemma parse_int64_scan_ok:
  assumes "\<not> sscanf_is_broken st"
  shows "\<exists>st'. json_parse_int64 scan_d64 buf st = Some (map_option clamp (int_prefix buf), st')
     \<and> \<not> sscanf_is_broken st'"
proof (cases "sscanf_is_broken_testdone st")
  case True
  from parse_int64_conforming [OF True assms] show ?thesis by blast
next
  case False
  from broken_test_conforming [of st] obtain st1 where
    st1: "sscanf_is_broken_test scan_d64 st = Some st1" "\<not> sscanf_is_broken st1" using assms by auto
  let ?st = "st1\<lparr>sscanf_is_broken_testdone := True\<rparr>"
  have "json_parse_int64 scan_d64 buf st = json_parse_int64 scan_d64 buf ?st"
    using False st1(1) by (simp add: json_parse_int64_def)
  with parse_int64_conforming [of ?st buf] st1(2) show ?thesis by auto
qed

section \<open>Properties\<close>

text \<open>
  C29. With a scanner that follows the C standard, \<open>json_parse_int64\<close> reads the integer at the
  head of the text (white space, sign, digits), clamped to 64 bits, and fails exactly when there
  is none; the self test of the scanner changes nothing.
\<close>

theorem json_parse_int64_reads:
  assumes "\<not> sscanf_is_broken st"
  shows "\<exists>st'. json_parse_int64 scan_d64 buf st = Some (map_option clamp (int_prefix buf), st') \<and> \<not> sscanf_is_broken st'"
  using assms by (rule parse_int64_scan_ok)

theorem json_parse_int64_reads_witness:
  "\<exists>st'. json_parse_int64 scan_d64 ''-99999999999999999999 '' scan_state_init = Some (Some INT64_MIN, st')"
proof -
  have "int_prefix ''-99999999999999999999 '' = Some (- 99999999999999999999)" by code_simp
  then show ?thesis
    using json_parse_int64_reads [of scan_state_init "''-99999999999999999999 ''"]
    by (auto simp: scan_state_init_def clamp_def)
qed

text \<open>
  C30. The work-around for a scanner that wraps around: on a decimal number, \<open>json_parse_int64\<close>
  finds the overflow by printing the scanned value again, and gives the same clamped value as
  with a conforming scanner, as long as the number is not a negative one that wraps to zero.
\<close>

theorem json_parse_int64_workaround:
  assumes "sscanf_is_broken_testdone st" "sscanf_is_broken st" "ds \<noteq> []" "\<forall>c \<in> set ds. c_isdigit c"
    and n: "n = (if neg then - digits_val ds else digits_val ds)" "\<not> (n < INT64_MIN \<and> wrap64 n = 0)"
  shows "\<exists>st' st''. json_parse_int64 scan_d64_wrapping (if neg then CHR ''-'' # ds else ds) st = Some (Some (clamp n), st')
     \<and> json_parse_int64 scan_d64 (if neg then CHR ''-'' # ds else ds) scan_state_init = Some (Some (clamp n), st'')"
proof -
  have "int_prefix (if neg then CHR ''-'' # ds else ds) = Some n"
    using int_prefix_digits [OF assms(3,4)] n(1) by simp
  moreover have "\<not> sscanf_is_broken scan_state_init" by (simp add: scan_state_init_def)
  ultimately show ?thesis
    using parse_int64_wrapping [OF assms(1-4) refl n(1)] n(2)
      parse_int64_scan_ok [of scan_state_init "if neg then CHR ''-'' # ds else ds"] by fastforce
qed

theorem json_parse_int64_workaround_witness:
  "\<exists>st'. json_parse_int64 scan_d64_wrapping ''18446744073709551617''
       \<lparr>sscanf_is_broken = True, sscanf_is_broken_testdone = True, errno_ERANGE = False\<rparr> = Some (Some INT64_MAX, st')"
proof -
  have d: "digits_val ''18446744073709551617'' = 18446744073709551617" by code_simp
  have w: "clamp 18446744073709551617 = INT64_MAX" by (simp add: clamp_def)
  show ?thesis
    using json_parse_int64_workaround [of "\<lparr>sscanf_is_broken = True, sscanf_is_broken_testdone = True, errno_ERANGE = False\<rparr>"
        "''18446744073709551617''" 18446744073709551617 False] d w
    by (auto simp: c_isdigit_def)
qed

text \<open>
  The case the work-around misses: a number below the range whose wrapped value is zero is
  read as the largest integer instead of the smallest, because a scanned zero drops the sign.
\<close>

theorem json_parse_int64_wrapped_zero:
  assumes st: "sscanf_is_broken_testdone st" "sscanf_is_broken st" and ds: "ds \<noteq> []" "\<forall>c \<in> set ds. c_isdigit c"
    and n: "- digits_val ds < INT64_MIN" "wrap64 (- digits_val ds) = 0"
  shows "\<exists>st'. json_parse_int64 scan_d64_wrapping (CHR ''-'' # ds) st = Some (Some INT64_MAX, st')"
proof -
  have "recheck_fails 0 False ds"
    using recheck_fails_digits [OF ds, of "- digits_val ds" True 0] n(1) by simp
  moreover have "dropWhile c_isspace (CHR ''-'' # ds) = CHR ''-'' # ds" by (simp add: c_isspace_def)
  ultimately show ?thesis
    using st int_prefix_digits(2) [OF ds] n(2)
    by (simp add: json_parse_int64_def call_sscanf_def scan_wrapping_int_prefix Let_def)
qed

theorem json_parse_int64_wrapped_zero_witness:
  "\<exists>st'. json_parse_int64 scan_d64_wrapping ''-18446744073709551616''
       \<lparr>sscanf_is_broken = True, sscanf_is_broken_testdone = True, errno_ERANGE = False\<rparr> = Some (Some INT64_MAX, st')"
proof -
  have "digits_val ''18446744073709551616'' = 18446744073709551616" "wrap64 (- 18446744073709551616) = 0" by code_simp+
  then show ?thesis
    using json_parse_int64_wrapped_zero [of "\<lparr>sscanf_is_broken = True, sscanf_is_broken_testdone = True, errno_ERANGE = False\<rparr>"
        "''18446744073709551616''"] by (simp add: c_isdigit_def)
qed

end
