(* ===== verification/Json_Object.thy ===== *)
theory Json_Object
  imports Printbuf Arraylist Linkhash Json_Int64
begin

text \<open>
  \<^verbatim>\<open>json-c-0.11/json_object.c\<close>: reference-counted JSON values on a heap.  A pointer to an object is
  an address (\<open>None\<close> for NULL), the heap maps the live addresses to their structs, and
  using an address that was freed is undefined.  The function pointers stored in an
  object are names of the functions of this file, or of functions of the caller; calls of a
  caller's delete function are recorded in a log.  Objects hold their children by address,
  so sharing and aliasing are as in the program.
\<close>

section \<open>Data\<close>

type_synonym addr = nat

datatype json_type =
    json_type_null | json_type_boolean | json_type_double | json_type_int
  | json_type_object | json_type_array | json_type_string

datatype json_object_delete_fn =
    Fn_generic_delete | Fn_object_delete | Fn_array_delete | Fn_string_delete

datatype json_object_to_json_string_fn =
    Fn_object_to_json_string | Fn_boolean_to_json_string | Fn_int_to_json_string
  | Fn_double_to_json_string | Fn_string_to_json_string | Fn_array_to_json_string
  | Fn_user_to_json_string nat

text \<open>
  The union of a \<open>struct json_object\<close>.  A string is its allocated block, terminator included,
  and the length kept beside it.
\<close>

datatype json_data =
    C_zero
  | C_boolean int
  | C_double double
  | C_int64 int
  | C_object "(string, addr) lh_table"
  | C_array "addr array_list option"
  | C_string "string option" int

record json_object =
  jo_type :: json_type
  jo_delete :: json_object_delete_fn
  jo_to_json_string :: "json_object_to_json_string_fn option"
  jo_ref_count :: int
  jo_pb :: "printbuf option"
  jo_data :: json_data
  jo_user_delete :: "nat option"
  jo_userdata :: "nat option"

text \<open>
  The state: the live objects, the next unused address, the calls made to delete functions of
  the caller (function, object, user data), and the state of the number scanner.
\<close>

record jstate =
  jheap :: "addr \<Rightarrow> json_object option"
  jnext :: addr
  jlog :: "(nat \<times> addr \<times> nat option) list"
  jscan :: scan_state

text \<open>
  What the code takes from its environment: the allocator, the two uses of \<open>sscanf\<close>, and the
  serialisers of the caller.
\<close>

record cenv =
  env_mal :: malloc_fn
  env_scan :: scan_d64_fn
  env_scan_lf :: "string \<Rightarrow> double option"
  env_user_to_json_string ::
    "nat \<Rightarrow> json_object \<Rightarrow> printbuf \<Rightarrow> int \<Rightarrow> 32 word \<Rightarrow> (int \<times> printbuf) option"

definition jstate_init :: jstate where
  "jstate_init = \<lparr>jheap = \<lambda>_. None, jnext = 0, jlog = [], jscan = scan_state_init\<rparr>"

definition jset :: "addr \<Rightarrow> json_object \<Rightarrow> jstate \<Rightarrow> jstate" where
  "jset a j s = s\<lparr>jheap := (jheap s)(a := Some j)\<rparr>"

section \<open>Reference counting\<close>

definition json_object_get :: "addr option \<Rightarrow> jstate \<Rightarrow> (addr option \<times> jstate) option" where
  "json_object_get jso s =
     (case jso of
        None \<Rightarrow> Some (None, s)
      | Some a \<Rightarrow> do {
          j \<leftarrow> jheap s a;
          c_assert (c_int_ok (jo_ref_count j + 1));
          Some (jso, jset a (j\<lparr>jo_ref_count := jo_ref_count j + 1\<rparr>) s)
        })"

definition json_object_generic_delete :: "addr \<Rightarrow> jstate \<Rightarrow> jstate option" where
  "json_object_generic_delete a s =
     (case jheap s a of None \<Rightarrow> None | Some _ \<Rightarrow> Some (s\<lparr>jheap := (jheap s)(a := None)\<rparr>))"

definition json_object_string_delete :: "addr \<Rightarrow> jstate \<Rightarrow> jstate option" where
  "json_object_string_delete a s = do {
     j \<leftarrow> jheap s a;
     case jo_data j of C_string _ _ \<Rightarrow> json_object_generic_delete a s | _ \<Rightarrow> None
   }"

text \<open>
  \<open>json_object_put\<close> and the delete functions call each other through the destructors of the
  containers.  The bodies are over \<open>put\<close>, the function they call for children.
\<close>

type_synonym put_fn = "addr option \<Rightarrow> jstate \<Rightarrow> (int \<times> jstate) option"

definition json_object_lh_entry_free :: "put_fn \<Rightarrow> (string, addr) lh_entry \<Rightarrow> jstate \<Rightarrow> jstate option" where
  "json_object_lh_entry_free put ent s = map_option snd (put (ent_v ent) s)"

definition json_object_array_entry_free :: "put_fn \<Rightarrow> addr \<Rightarrow> jstate \<Rightarrow> jstate option" where
  "json_object_array_entry_free put data s = map_option snd (put (Some data) s)"

definition json_object_object_delete :: "put_fn \<Rightarrow> addr \<Rightarrow> jstate \<Rightarrow> jstate option" where
  "json_object_object_delete put a s = do {
     j \<leftarrow> jheap s a;
     case jo_data j of
       C_object t \<Rightarrow> do {
         s \<leftarrow> lh_table_free (Some (json_object_lh_entry_free put)) t s;
         json_object_generic_delete a s
       }
     | _ \<Rightarrow> None
   }"

definition json_object_array_delete :: "put_fn \<Rightarrow> addr \<Rightarrow> jstate \<Rightarrow> jstate option" where
  "json_object_array_delete put a s = do {
     j \<leftarrow> jheap s a;
     case jo_data j of
       C_array (Some arr) \<Rightarrow> do {
         s \<leftarrow> array_list_free (json_object_array_entry_free put) arr s;
         json_object_generic_delete a s
       }
     | _ \<Rightarrow> None
   }"

definition json_object_delete :: "put_fn \<Rightarrow> json_object_delete_fn \<Rightarrow> addr \<Rightarrow> jstate \<Rightarrow> jstate option" where
  "json_object_delete put f = (case f of
       Fn_generic_delete \<Rightarrow> json_object_generic_delete
     | Fn_string_delete \<Rightarrow> json_object_string_delete
     | Fn_object_delete \<Rightarrow> json_object_object_delete put
     | Fn_array_delete \<Rightarrow> json_object_array_delete put)"

definition call_user_delete :: "addr \<Rightarrow> json_object \<Rightarrow> jstate \<Rightarrow> jstate" where
  "call_user_delete a j s =
     (case jo_user_delete j of
        None \<Rightarrow> s
      | Some f \<Rightarrow> s\<lparr>jlog := jlog s @ [(f, a, jo_userdata j)]\<rparr>)"

definition json_object_put_with :: "put_fn \<Rightarrow> put_fn" where
  "json_object_put_with put jso s =
     (case jso of
        None \<Rightarrow> Some (0, s)
      | Some a \<Rightarrow> do {
          j \<leftarrow> jheap s a;
          c_assert (c_int_ok (jo_ref_count j - 1));
          let j = j\<lparr>jo_ref_count := jo_ref_count j - 1\<rparr>;
          let s = jset a j s;
          if jo_ref_count j = 0 then do {
            s \<leftarrow> json_object_delete put (jo_delete j) a (call_user_delete a j s);
            Some (1, s)
          }
          else Some (0, s)
        })"

text \<open>
  An object that is being deleted has count 0 and is never deleted again, so the calls nest at
  most once per object.
\<close>

primrec json_object_put_d :: "nat \<Rightarrow> put_fn" where
  "json_object_put_d 0 = json_object_put_with (\<lambda>_ _. None)"
| "json_object_put_d (Suc d) = json_object_put_with (json_object_put_d d)"

definition json_object_put :: put_fn where
  "json_object_put jso s = json_object_put_d (jnext s) jso s"

section \<open>Construction\<close>

text \<open>The address of the new object, or \<open>None\<close> when the allocation fails.\<close>

definition json_object_new :: "malloc_fn \<Rightarrow> json_type \<Rightarrow> jstate \<Rightarrow> addr option \<times> jstate" where
  "json_object_new mal o_type s =
     (if \<not> mal 72 then (None, s)
      else (Some (jnext s),
            s\<lparr>jheap := (jheap s)(jnext s \<mapsto>
                \<lparr>jo_type = o_type, jo_delete = Fn_generic_delete, jo_to_json_string = None,
                 jo_ref_count = 1, jo_pb = None, jo_data = C_zero, jo_user_delete = None,
                 jo_userdata = None\<rparr>),
              jnext := jnext s + 1\<rparr>))"

text \<open>The constructors differ in what they do to the fresh struct.\<close>

definition json_object_new_with ::
  "malloc_fn \<Rightarrow> json_type \<Rightarrow> (json_object \<Rightarrow> json_object option) \<Rightarrow> jstate \<Rightarrow> (addr option \<times> jstate) option" where
  "json_object_new_with mal o_type f s =
     (case json_object_new mal o_type s of
        (None, s) \<Rightarrow> Some (None, s)
      | (Some a, s) \<Rightarrow> do { j \<leftarrow> jheap s a; j \<leftarrow> f j; Some (Some a, jset a j s) })"

definition json_object_new_object :: "malloc_fn \<Rightarrow> jstate \<Rightarrow> (addr option \<times> jstate) option" where
  "json_object_new_object mal = json_object_new_with mal json_type_object (\<lambda>j. do {
     t \<leftarrow> lh_kchar_table_new mal 16;
     Some (j\<lparr>jo_delete := Fn_object_delete, jo_to_json_string := Some Fn_object_to_json_string,
            jo_data := C_object t\<rparr>) })"

definition json_object_new_boolean :: "malloc_fn \<Rightarrow> int \<Rightarrow> jstate \<Rightarrow> (addr option \<times> jstate) option" where
  "json_object_new_boolean mal b = json_object_new_with mal json_type_boolean (\<lambda>j.
     Some (j\<lparr>jo_to_json_string := Some Fn_boolean_to_json_string, jo_data := C_boolean b\<rparr>))"

definition json_object_new_int64 :: "malloc_fn \<Rightarrow> int \<Rightarrow> jstate \<Rightarrow> (addr option \<times> jstate) option" where
  "json_object_new_int64 mal i = json_object_new_with mal json_type_int (\<lambda>j.
     Some (j\<lparr>jo_to_json_string := Some Fn_int_to_json_string, jo_data := C_int64 i\<rparr>))"

definition json_object_new_int :: "malloc_fn \<Rightarrow> int \<Rightarrow> jstate \<Rightarrow> (addr option \<times> jstate) option" where
  "json_object_new_int mal i = json_object_new_with mal json_type_int (\<lambda>j.
     Some (j\<lparr>jo_to_json_string := Some Fn_int_to_json_string, jo_data := C_int64 i\<rparr>))"

definition json_object_new_double :: "malloc_fn \<Rightarrow> double \<Rightarrow> jstate \<Rightarrow> (addr option \<times> jstate) option" where
  "json_object_new_double mal d = json_object_new_with mal json_type_double (\<lambda>j.
     Some (j\<lparr>jo_to_json_string := Some Fn_double_to_json_string, jo_data := C_double d\<rparr>))"

text \<open>
  \<open>strdup\<close> may fail and is not checked here; \<open>strlen\<close> is stored in an \<open>int\<close>.
\<close>

definition json_object_new_string :: "malloc_fn \<Rightarrow> string \<Rightarrow> jstate \<Rightarrow> (addr option \<times> jstate) option" where
  "json_object_new_string mal str = json_object_new_with mal json_type_string (\<lambda>j. do {
     c_assert (c_int_ok (int (length str)));
     Some (j\<lparr>jo_delete := Fn_string_delete, jo_to_json_string := Some Fn_string_to_json_string,
            jo_data := C_string (if mal (int (length str) + 1) then Some (str @ [NUL]) else None)
                                (int (length str))\<rparr>) })"

text \<open>
  Copies \<open>len\<close> bytes, which must be readable at \<open>str\<close>; a failed \<open>malloc\<close> is written through.
\<close>

definition json_object_new_string_len ::
  "malloc_fn \<Rightarrow> string \<Rightarrow> int \<Rightarrow> jstate \<Rightarrow> (addr option \<times> jstate) option" where
  "json_object_new_string_len mal str len = json_object_new_with mal json_type_string (\<lambda>j. do {
     c_assert (c_int_ok (len + 1) \<and> 0 \<le> len \<and> len \<le> int (length str));
     c_assert (mal (len + 1));
     Some (j\<lparr>jo_delete := Fn_string_delete, jo_to_json_string := Some Fn_string_to_json_string,
            jo_data := C_string (Some (take (nat len) str @ [NUL])) len\<rparr>) })"

definition json_object_new_array :: "malloc_fn \<Rightarrow> jstate \<Rightarrow> (addr option \<times> jstate) option" where
  "json_object_new_array mal = json_object_new_with mal json_type_array (\<lambda>j.
     Some (j\<lparr>jo_delete := Fn_array_delete, jo_to_json_string := Some Fn_array_to_json_string,
            jo_data := C_array (array_list_new mal)\<rparr>))"

section \<open>Types\<close>

definition json_object_is_type :: "addr option \<Rightarrow> json_type \<Rightarrow> jstate \<Rightarrow> bool option" where
  "json_object_is_type jso ty s =
     (case jso of None \<Rightarrow> Some (ty = json_type_null) | Some a \<Rightarrow> map_option (\<lambda>j. jo_type j = ty) (jheap s a))"

definition json_object_get_type :: "addr option \<Rightarrow> jstate \<Rightarrow> json_type option" where
  "json_object_get_type jso s =
     (case jso of None \<Rightarrow> Some json_type_null | Some a \<Rightarrow> map_option jo_type (jheap s a))"

definition standard_serializer :: "json_type \<Rightarrow> json_object_to_json_string_fn option" where
  "standard_serializer ty = (case ty of
       json_type_null \<Rightarrow> None
     | json_type_boolean \<Rightarrow> Some Fn_boolean_to_json_string
     | json_type_double \<Rightarrow> Some Fn_double_to_json_string
     | json_type_int \<Rightarrow> Some Fn_int_to_json_string
     | json_type_object \<Rightarrow> Some Fn_object_to_json_string
     | json_type_array \<Rightarrow> Some Fn_array_to_json_string
     | json_type_string \<Rightarrow> Some Fn_string_to_json_string)"

definition json_object_set_serializer ::
  "addr \<Rightarrow> nat option \<Rightarrow> nat option \<Rightarrow> nat option \<Rightarrow> jstate \<Rightarrow> jstate option" where
  "json_object_set_serializer jso to_string_func userdata user_delete s = do {
     j \<leftarrow> jheap s jso;
     let s = call_user_delete jso j s;
     Some (jset jso (case to_string_func of
         None \<Rightarrow> j\<lparr>jo_userdata := None, jo_user_delete := None,
                  jo_to_json_string := standard_serializer (jo_type j)\<rparr>
       | Some f \<Rightarrow> j\<lparr>jo_to_json_string := Some (Fn_user_to_json_string f),
                    jo_userdata := userdata, jo_user_delete := user_delete\<rparr>) s)
   }"

end
