(* ===== verification/Json_Serializer.thy ===== *)
theory Json_Serializer
  imports Json_Object
begin

text \<open>
  The printing half of \<^verbatim>\<open>json-c-0.11/json_object.c\<close>: escaping of strings, one serialiser per type,
  and \<open>json_object_to_json_string_ext\<close>.  The serialisers call each other through the
  objects; \<open>ser\<close> is the function a body calls for a child, and \<open>to_json_string_d\<close> ties the
  knot for a given depth of nesting.
\<close>

abbreviation QUOTE :: char where "QUOTE \<equiv> CHR 0x22"
abbreviation BACKSLASH :: char where "BACKSLASH \<equiv> CHR 0x5C"
abbreviation NEWLINE :: char where "NEWLINE \<equiv> CHR 0x0A"

abbreviation JSON_C_TO_STRING_SPACED :: "32 word" where "JSON_C_TO_STRING_SPACED \<equiv> 1"
abbreviation JSON_C_TO_STRING_PRETTY :: "32 word" where "JSON_C_TO_STRING_PRETTY \<equiv> 2"
abbreviation JSON_C_TO_STRING_NOZERO :: "32 word" where "JSON_C_TO_STRING_NOZERO \<equiv> 4"

definition flag_set :: "32 word \<Rightarrow> 32 word \<Rightarrow> bool" where
  "flag_set flags m \<longleftrightarrow> flags AND m \<noteq> 0"

text \<open>A call of \<open>sprintbuf\<close> or \<open>printbuf_memappend\<close> whose result is not looked at.\<close>

definition emit :: "malloc_fn \<Rightarrow> string \<Rightarrow> printbuf \<Rightarrow> printbuf option" where
  "emit mal out pb = map_option snd (sprintbuf mal pb out)"

definition emit_mem :: "malloc_fn \<Rightarrow> string \<Rightarrow> printbuf \<Rightarrow> printbuf option" where
  "emit_mem mal src pb = map_option snd (printbuf_memappend mal pb src (int (length src)))"

section \<open>Escaping\<close>

abbreviation json_hex_chars :: string where "json_hex_chars \<equiv> ''0123456789abcdefABCDEF''"

text \<open>The characters with a two-character escape, with the letter after the backslash.\<close>

definition short_escape :: "char \<Rightarrow> char option" where
  "short_escape c =
     (if c = CHR 0x08 then Some CHR ''b''
      else if c = CHR 0x0A then Some CHR ''n''
      else if c = CHR 0x0D then Some CHR ''r''
      else if c = CHR 0x09 then Some CHR ''t''
      else if c = CHR 0x0C then Some CHR ''f''
      else if c = QUOTE then Some QUOTE
      else if c = BACKSLASH then Some BACKSLASH
      else if c = CHR ''/'' then Some CHR ''/''
      else None)"

text \<open>
  The loop of \<open>json_escape_str\<close>: \<open>n\<close> characters are left, \<open>pos\<close> is the next one, and the
  characters from \<open>start\<close> on were not yet copied to the buffer.
\<close>

definition flush :: "malloc_fn \<Rightarrow> string \<Rightarrow> nat \<Rightarrow> nat \<Rightarrow> printbuf \<Rightarrow> printbuf option" where
  "flush mal str start pos pb =
     (if pos - start > 0 then emit_mem mal (take (pos - start) (drop start str)) pb else Some pb)"

fun json_escape_loop ::
  "malloc_fn \<Rightarrow> string \<Rightarrow> nat \<Rightarrow> nat \<Rightarrow> nat \<Rightarrow> printbuf \<Rightarrow> printbuf option" where
  "json_escape_loop mal str 0 pos start pb = flush mal str start pos pb"
| "json_escape_loop mal str (Suc n) pos start pb =
     (if pos \<ge> length str then None
      else let c = str ! pos in
        (case short_escape c of
          Some d \<Rightarrow> do {
            pb \<leftarrow> flush mal str start pos pb;
            pb \<leftarrow> emit_mem mal [BACKSLASH, d] pb;
            json_escape_loop mal str n (pos + 1) (pos + 1) pb
          }
        | None \<Rightarrow>
            if of_char c < (0x20 :: nat) then do {
              pb \<leftarrow> flush mal str start pos pb;
              pb \<leftarrow> emit mal ([BACKSLASH] @ ''u00'' @ [json_hex_chars ! (of_char c div 16),
                                json_hex_chars ! (of_char c mod 16)]) pb;
              json_escape_loop mal str n (pos + 1) (pos + 1) pb
            }
            else json_escape_loop mal str n (pos + 1) start pb))"

text \<open>A negative length never reaches zero: the loop runs out of the string.\<close>

definition json_escape_str :: "malloc_fn \<Rightarrow> string \<Rightarrow> int \<Rightarrow> printbuf \<Rightarrow> printbuf option" where
  "json_escape_str mal str len pb =
     (if len < 0 then None else json_escape_loop mal str (nat len) 0 0 pb)"

section \<open>Serialisers of the leaves\<close>

definition indent :: "malloc_fn \<Rightarrow> int \<Rightarrow> 32 word \<Rightarrow> printbuf \<Rightarrow> printbuf option" where
  "indent mal level flags pb =
     (if flag_set flags JSON_C_TO_STRING_PRETTY then do {
        c_assert (c_int_ok (level * 2));
        map_option snd (printbuf_memset mal pb (-1) CHR '' '' (level * 2))
      }
      else Some pb)"

definition json_object_boolean_to_json_string ::
  "malloc_fn \<Rightarrow> json_object \<Rightarrow> printbuf \<Rightarrow> (int \<times> printbuf) option" where
  "json_object_boolean_to_json_string mal j pb =
     (case jo_data j of
        C_boolean b \<Rightarrow> sprintbuf mal pb (if b \<noteq> 0 then ''true'' else ''false'')
      | _ \<Rightarrow> None)"

definition json_object_int_to_json_string ::
  "malloc_fn \<Rightarrow> json_object \<Rightarrow> printbuf \<Rightarrow> (int \<times> printbuf) option" where
  "json_object_int_to_json_string mal j pb =
     (case jo_data j of C_int64 i \<Rightarrow> sprintbuf mal pb (c_itoa i) | _ \<Rightarrow> None)"

text \<open>\<open>snprintf\<close> into a block of \<open>n\<close> characters.\<close>

definition c_snprintf :: "nat \<Rightarrow> string \<Rightarrow> char cells" where
  "c_snprintf n out = map Some (take (n - 1) out) @ [Some NUL] @ replicate (n - 1 - length out) None"

text \<open>The index of the first occurrence of a character before the terminator.\<close>

fun c_strchr :: "char \<Rightarrow> char cells \<Rightarrow> nat option option" where
  "c_strchr x [] = None"
| "c_strchr x (None # m) = None"
| "c_strchr x (Some c # m) =
     (if c = x then Some (Some 0)
      else if c = NUL then Some None
      else map_option (map_option Suc) (c_strchr x m))"

text \<open>
  The last position that holds another digit than zero, from \<open>q\<close> to the terminator, with \<open>p\<close> the
  position so far; \<open>m\<close> is the block from \<open>q\<close> on.
\<close>

fun last_nonzero :: "char cells \<Rightarrow> nat \<Rightarrow> nat \<Rightarrow> nat option" where
  "last_nonzero [] q p = None"
| "last_nonzero (None # m) q p = None"
| "last_nonzero (Some c # m) q p =
     (if c = NUL then Some p else last_nonzero m (q + 1) (if c \<noteq> CHR ''0'' then q else p))"

text \<open>
  \<open>size\<close> is what \<open>snprintf\<close> returns, the length of the whole text, even when only 127
  characters of it are in the buffer.
\<close>

definition json_object_double_to_json_string ::
  "malloc_fn \<Rightarrow> json_object \<Rightarrow> printbuf \<Rightarrow> 32 word \<Rightarrow> (int \<times> printbuf) option" where
  "json_object_double_to_json_string mal j pb flags =
     (case jo_data j of
        C_double d \<Rightarrow> do {
          let out = fmt_f d;
          let buf = c_snprintf 128 out;
          comma \<leftarrow> c_strchr CHR '','' buf;
          (buf, p) \<leftarrow> (case comma of
              Some i \<Rightarrow> Some (buf[i := Some CHR ''.''], Some i)
            | None \<Rightarrow> do { p \<leftarrow> c_strchr CHR ''.'' buf; Some (buf, p) });
          (buf, sz) \<leftarrow> (case p of
              Some i \<Rightarrow>
                if flag_set flags JSON_C_TO_STRING_NOZERO then do {
                  l \<leftarrow> last_nonzero (drop (i + 1) buf) (i + 1) (i + 1);
                  buf \<leftarrow> c_store buf (int (l + 1)) NUL;
                  Some (buf, int (l + 1))
                }
                else Some (buf, int (length out))
            | None \<Rightarrow> Some (buf, int (length out)));
          c_assert (sz \<le> 128 \<and> None \<notin> set (take (nat sz) buf));
          (_, pb) \<leftarrow> printbuf_memappend mal pb (map the (take (nat sz) buf)) sz;
          Some (sz, pb)
        }
      | _ \<Rightarrow> None)"

definition json_object_string_to_json_string ::
  "malloc_fn \<Rightarrow> json_object \<Rightarrow> printbuf \<Rightarrow> (int \<times> printbuf) option" where
  "json_object_string_to_json_string mal j pb =
     (case jo_data j of
        C_string (Some str) len \<Rightarrow> do {
          pb \<leftarrow> emit mal [QUOTE] pb;
          pb \<leftarrow> json_escape_str mal str len pb;
          pb \<leftarrow> emit mal [QUOTE] pb;
          Some (0, pb)
        }
      | _ \<Rightarrow> None)"

section \<open>Serialisers of the containers\<close>

type_synonym ser_fn = "addr \<Rightarrow> printbuf \<Rightarrow> int \<Rightarrow> (int \<times> printbuf) option"

text \<open>What both containers print before a child, and for it.\<close>

definition before_child :: "malloc_fn \<Rightarrow> 32 word \<Rightarrow> int \<Rightarrow> bool \<Rightarrow> printbuf \<Rightarrow> printbuf option" where
  "before_child mal flags level had_children pb = do {
     pb \<leftarrow> (if had_children then do {
             pb \<leftarrow> emit mal '','' pb;
             if flag_set flags JSON_C_TO_STRING_PRETTY then emit mal [NEWLINE] pb else Some pb
           } else Some pb);
     pb \<leftarrow> (if flag_set flags JSON_C_TO_STRING_SPACED then emit mal '' '' pb else Some pb);
     c_assert (c_int_ok (level + 1));
     indent mal (level + 1) flags pb
   }"

definition print_child :: "malloc_fn \<Rightarrow> ser_fn \<Rightarrow> int \<Rightarrow> addr option \<Rightarrow> printbuf \<Rightarrow> printbuf option" where
  "print_child mal ser level val pb =
     (case val of
        None \<Rightarrow> emit mal ''null'' pb
      | Some a \<Rightarrow> map_option snd (ser a pb (level + 1)))"

definition open_container :: "malloc_fn \<Rightarrow> 32 word \<Rightarrow> string \<Rightarrow> printbuf \<Rightarrow> printbuf option" where
  "open_container mal flags br pb = do {
     pb \<leftarrow> emit mal br pb;
     if flag_set flags JSON_C_TO_STRING_PRETTY then emit mal [NEWLINE] pb else Some pb
   }"

definition close_container ::
  "malloc_fn \<Rightarrow> 32 word \<Rightarrow> int \<Rightarrow> bool \<Rightarrow> string \<Rightarrow> printbuf \<Rightarrow> (int \<times> printbuf) option" where
  "close_container mal flags level had_children br pb = do {
     pb \<leftarrow> (if flag_set flags JSON_C_TO_STRING_PRETTY then do {
             pb \<leftarrow> (if had_children then emit mal [NEWLINE] pb else Some pb);
             indent mal level flags pb
           } else Some pb);
     sprintbuf mal pb (if flag_set flags JSON_C_TO_STRING_SPACED then CHR '' '' # br else br)
   }"

definition object_member ::
  "malloc_fn \<Rightarrow> ser_fn \<Rightarrow> 32 word \<Rightarrow> int \<Rightarrow> (string, addr) lh_table \<Rightarrow> nat
     \<Rightarrow> bool \<times> printbuf \<Rightarrow> (bool \<times> printbuf) option" where
  "object_member mal ser flags level t i = (\<lambda>(had_children, pb). do {
     pb \<leftarrow> before_child mal flags level had_children pb;
     pb \<leftarrow> emit mal [QUOTE] pb;
     key \<leftarrow> (case ent_k (lh_tab t ! i) of Key k \<Rightarrow> Some k | _ \<Rightarrow> None);
     pb \<leftarrow> json_escape_str mal (key @ [NUL]) (int (length key)) pb;
     pb \<leftarrow> emit mal (if flag_set flags JSON_C_TO_STRING_SPACED then [QUOTE] @ '': '' else [QUOTE] @ '':'') pb;
     pb \<leftarrow> print_child mal ser level (ent_v (lh_tab t ! i)) pb;
     Some (True, pb)
   })"

definition json_object_object_to_json_string ::
  "malloc_fn \<Rightarrow> ser_fn \<Rightarrow> json_object \<Rightarrow> printbuf \<Rightarrow> int \<Rightarrow> 32 word \<Rightarrow> (int \<times> printbuf) option" where
  "json_object_object_to_json_string mal ser j pb level flags =
     (case jo_data j of
        C_object t \<Rightarrow> do {
          pb \<leftarrow> open_container mal flags ''{'' pb;
          ents \<leftarrow> lh_foreach t;
          (had_children, pb) \<leftarrow> ofold (object_member mal ser flags level t) ents (False, pb);
          close_container mal flags level had_children ''}'' pb
        }
      | _ \<Rightarrow> None)"

text \<open>The element with index \<open>ii\<close> of the loop over an array.\<close>

definition array_element ::
  "malloc_fn \<Rightarrow> ser_fn \<Rightarrow> 32 word \<Rightarrow> int \<Rightarrow> addr array_list \<Rightarrow> nat
     \<Rightarrow> bool \<times> printbuf \<Rightarrow> (bool \<times> printbuf) option" where
  "array_element mal ser flags level arr ii = (\<lambda>(had_children, pb). do {
     pb \<leftarrow> before_child mal flags level had_children pb;
     val \<leftarrow> array_list_get_idx arr (int ii);
     pb \<leftarrow> print_child mal ser level val pb;
     Some (True, pb)
   })"

definition json_object_array_to_json_string ::
  "malloc_fn \<Rightarrow> ser_fn \<Rightarrow> json_object \<Rightarrow> printbuf \<Rightarrow> int \<Rightarrow> 32 word \<Rightarrow> (int \<times> printbuf) option" where
  "json_object_array_to_json_string mal ser j pb level flags =
     (case jo_data j of
        C_array (Some arr) \<Rightarrow> do {
          pb \<leftarrow> open_container mal flags ''['' pb;
          (had_children, pb) \<leftarrow> ofold (array_element mal ser flags level arr)
                                   [0..<nat (array_list_length arr)] (False, pb);
          close_container mal flags level had_children '']'' pb
        }
      | _ \<Rightarrow> None)"

section \<open>Dispatch\<close>

definition to_json_string_with ::
  "cenv \<Rightarrow> (addr \<Rightarrow> json_object option) \<Rightarrow> 32 word \<Rightarrow> ser_fn \<Rightarrow> ser_fn" where
  "to_json_string_with e h flags ser a pb level = do {
     j \<leftarrow> h a;
     f \<leftarrow> jo_to_json_string j;
     case f of
       Fn_object_to_json_string \<Rightarrow> json_object_object_to_json_string (env_mal e) ser j pb level flags
     | Fn_boolean_to_json_string \<Rightarrow> json_object_boolean_to_json_string (env_mal e) j pb
     | Fn_int_to_json_string \<Rightarrow> json_object_int_to_json_string (env_mal e) j pb
     | Fn_double_to_json_string \<Rightarrow> json_object_double_to_json_string (env_mal e) j pb flags
     | Fn_string_to_json_string \<Rightarrow> json_object_string_to_json_string (env_mal e) j pb
     | Fn_array_to_json_string \<Rightarrow> json_object_array_to_json_string (env_mal e) ser j pb level flags
     | Fn_user_to_json_string f \<Rightarrow> env_user_to_json_string e f j pb level flags
   }"

primrec to_json_string_d ::
  "cenv \<Rightarrow> (addr \<Rightarrow> json_object option) \<Rightarrow> 32 word \<Rightarrow> nat \<Rightarrow> ser_fn" where
  "to_json_string_d e h flags 0 = (\<lambda>_ _ _. None)"
| "to_json_string_d e h flags (Suc d) = to_json_string_with e h flags (to_json_string_d e h flags d)"

text \<open>
  A chain of more nested objects than there are addresses is a cycle, on which the C code does
  not return.  The result is the block the returned pointer points to, or \<open>None\<close> for NULL.
\<close>

definition json_object_to_json_string_ext ::
  "cenv \<Rightarrow> addr option \<Rightarrow> 32 word \<Rightarrow> jstate \<Rightarrow> (char cells option \<times> jstate) option" where
  "json_object_to_json_string_ext e jso flags s =
     (case jso of
        None \<Rightarrow> Some (Some (map Some (''null'' @ [NUL])), s)
      | Some a \<Rightarrow> do {
          j \<leftarrow> jheap s a;
          case (case jo_pb j of None \<Rightarrow> printbuf_new (env_mal e) | Some pb \<Rightarrow> Some pb) of
            None \<Rightarrow> Some (None, s)
          | Some pb \<Rightarrow> do {
              pb \<leftarrow> printbuf_reset pb;
              (r, pb) \<leftarrow> to_json_string_d e (jheap s) flags (jnext s) a pb 0;
              let s = jset a (j\<lparr>jo_pb := Some pb\<rparr>) s;
              Some (if r < 0 then None else Some (pb_buf pb), s)
            }
        })"

definition json_object_to_json_string ::
  "cenv \<Rightarrow> addr option \<Rightarrow> jstate \<Rightarrow> (char cells option \<times> jstate) option" where
  "json_object_to_json_string e jso s = json_object_to_json_string_ext e jso JSON_C_TO_STRING_SPACED s"

end
