(* ===== verification/Json_Access.thy ===== *)
theory Json_Access
  imports Json_Serializer
begin

text \<open>
  The accessors of \<^verbatim>\<open>json-c-0.11/json_object.c\<close>: members of objects, elements of arrays, and the
  conversions of a value to a boolean, an integer, a double or a string.  Also the object
  iterator of \<^verbatim>\<open>json_object_iterator.c\<close> and \<open>json_type_to_name\<close> of \<^verbatim>\<open>json_util.c\<close>.
\<close>

section \<open>Objects\<close>

text \<open>\<open>jso->o.c_object\<close>, for an object that holds a table.\<close>

definition obj_table :: "jstate \<Rightarrow> addr \<Rightarrow> (string, addr) lh_table option" where
  "obj_table s a = do {
     j \<leftarrow> jheap s a;
     case jo_data j of C_object t \<Rightarrow> Some t | _ \<Rightarrow> None
   }"

definition set_table :: "addr \<Rightarrow> (string, addr) lh_table \<Rightarrow> jstate \<Rightarrow> jstate option" where
  "set_table a t s = do { j \<leftarrow> jheap s a; Some (jset a (j\<lparr>jo_data := C_object t\<rparr>) s) }"

definition json_object_get_object :: "addr option \<Rightarrow> jstate \<Rightarrow> (string, addr) lh_table option option" where
  "json_object_get_object jso s =
     (case jso of
        None \<Rightarrow> Some None
      | Some a \<Rightarrow> do {
          j \<leftarrow> jheap s a;
          if jo_type j = json_type_object then map_option Some (obj_table s a) else Some None
        })"

definition json_object_object_add ::
  "malloc_fn \<Rightarrow> addr \<Rightarrow> string \<Rightarrow> addr option \<Rightarrow> jstate \<Rightarrow> jstate option" where
  "json_object_object_add mal jso key val s = do {
     t \<leftarrow> obj_table s jso;
     (existing_entry, t) \<leftarrow> lh_table_lookup_entry t key;
     case existing_entry of
       None \<Rightarrow> do {
         c_assert (mal (int (length key) + 1));
         t \<leftarrow> lh_table_insert mal t key val;
         set_table jso t s
       }
     | Some i \<Rightarrow> do {
         s \<leftarrow> set_table jso t s;
         s \<leftarrow> (case ent_v (lh_tab t ! i) of
                None \<Rightarrow> Some s
              | Some v \<Rightarrow> map_option snd (json_object_put (Some v) s));
         t \<leftarrow> obj_table s jso;
         tab \<leftarrow> upd_entry (lh_tab t) i (\<lambda>e. e\<lparr>ent_v := val\<rparr>);
         set_table jso (t\<lparr>lh_tab := tab\<rparr>) s
       }
   }"

definition json_object_object_length :: "addr \<Rightarrow> jstate \<Rightarrow> int option" where
  "json_object_object_length jso s = map_option lh_table_length (obj_table s jso)"

definition json_object_object_get_ex ::
  "addr option \<Rightarrow> string \<Rightarrow> jstate \<Rightarrow> (bool \<times> addr option \<times> jstate) option" where
  "json_object_object_get_ex jso key s =
     (case jso of
        None \<Rightarrow> Some (False, None, s)
      | Some a \<Rightarrow> do {
          j \<leftarrow> jheap s a;
          if jo_type j = json_type_object then do {
            t \<leftarrow> obj_table s a;
            (found, v, t) \<leftarrow> lh_table_lookup_ex t key;
            s \<leftarrow> set_table a t s;
            Some (found, v, s)
          }
          else Some (False, None, s)
        })"

definition json_object_object_get :: "addr option \<Rightarrow> string \<Rightarrow> jstate \<Rightarrow> (addr option \<times> jstate) option" where
  "json_object_object_get jso key s = map_option snd (json_object_object_get_ex jso key s)"

text \<open>
  The destructor of the entry runs before the table is updated; the table is the one of the
  object, which stays alive.
\<close>

definition json_object_object_del :: "addr \<Rightarrow> string \<Rightarrow> jstate \<Rightarrow> jstate option" where
  "json_object_object_del jso key s = do {
     t \<leftarrow> obj_table s jso;
     (_, t, s) \<leftarrow> lh_table_delete (Some (json_object_lh_entry_free json_object_put)) t key s;
     set_table jso t s
   }"

section \<open>Arrays\<close>

definition arr_list :: "jstate \<Rightarrow> addr \<Rightarrow> addr array_list option" where
  "arr_list s a = do {
     j \<leftarrow> jheap s a;
     case jo_data j of C_array arr \<Rightarrow> arr | _ \<Rightarrow> None
   }"

definition set_array :: "addr \<Rightarrow> addr array_list \<Rightarrow> jstate \<Rightarrow> jstate option" where
  "set_array a arr s = do { j \<leftarrow> jheap s a; Some (jset a (j\<lparr>jo_data := C_array (Some arr)\<rparr>) s) }"

definition json_object_get_array :: "addr option \<Rightarrow> jstate \<Rightarrow> addr array_list option option" where
  "json_object_get_array jso s =
     (case jso of
        None \<Rightarrow> Some None
      | Some a \<Rightarrow> do {
          j \<leftarrow> jheap s a;
          if jo_type j = json_type_array then
            (case jo_data j of C_array arr \<Rightarrow> Some arr | _ \<Rightarrow> None)
          else Some None
        })"

definition json_object_array_sort ::
  "(addr option \<Rightarrow> addr option \<Rightarrow> int) \<Rightarrow> addr \<Rightarrow> jstate \<Rightarrow> jstate option" where
  "json_object_array_sort sort_fn jso s = do {
     arr \<leftarrow> arr_list s jso;
     arr \<leftarrow> array_list_sort arr sort_fn;
     set_array jso arr s
   }"

definition json_object_array_length :: "addr \<Rightarrow> jstate \<Rightarrow> int option" where
  "json_object_array_length jso s = map_option array_list_length (arr_list s jso)"

definition json_object_array_put_idx ::
  "malloc_fn \<Rightarrow> addr \<Rightarrow> int \<Rightarrow> addr option \<Rightarrow> jstate \<Rightarrow> (int \<times> jstate) option" where
  "json_object_array_put_idx mal jso idx val s = do {
     arr \<leftarrow> arr_list s jso;
     (r, arr, s) \<leftarrow> array_list_put_idx mal (json_object_array_entry_free json_object_put) arr idx val s;
     s \<leftarrow> set_array jso arr s;
     Some (r, s)
   }"

definition json_object_array_add ::
  "malloc_fn \<Rightarrow> addr \<Rightarrow> addr option \<Rightarrow> jstate \<Rightarrow> (int \<times> jstate) option" where
  "json_object_array_add mal jso val s = do {
     arr \<leftarrow> arr_list s jso;
     (r, arr, s) \<leftarrow> array_list_add mal (json_object_array_entry_free json_object_put) arr val s;
     s \<leftarrow> set_array jso arr s;
     Some (r, s)
   }"

definition json_object_array_get_idx :: "addr \<Rightarrow> int \<Rightarrow> jstate \<Rightarrow> addr option option" where
  "json_object_array_get_idx jso idx s = do { arr \<leftarrow> arr_list s jso; array_list_get_idx arr idx }"

section \<open>Conversions\<close>

definition json_object_get_boolean :: "addr option \<Rightarrow> jstate \<Rightarrow> int option" where
  "json_object_get_boolean jso s =
     (case jso of
        None \<Rightarrow> Some 0
      | Some a \<Rightarrow> do {
          j \<leftarrow> jheap s a;
          case (jo_type j, jo_data j) of
            (json_type_boolean, C_boolean b) \<Rightarrow> Some b
          | (json_type_int, C_int64 i) \<Rightarrow> Some (if i \<noteq> 0 then 1 else 0)
          | (json_type_double, C_double d) \<Rightarrow> Some (if dbl_nonzero d then 1 else 0)
          | (json_type_string, C_string _ len) \<Rightarrow> Some (if len \<noteq> 0 then 1 else 0)
          | (ty, _) \<Rightarrow> (if ty \<in> {json_type_null, json_type_object, json_type_array} then Some 0 else None)
        })"

text \<open>The C string at the start of a string object's block.\<close>

definition block_str :: "string option \<Rightarrow> string option" where
  "block_str b = do { b \<leftarrow> b; c_str (map Some b) }"

text \<open>\<open>json_parse_int64\<close> with the scanner state kept in \<open>jstate\<close>.\<close>

definition parse_int64_s :: "cenv \<Rightarrow> string \<Rightarrow> jstate \<Rightarrow> (int option \<times> jstate) option" where
  "parse_int64_s e buf s =
     map_option (\<lambda>(r, st). (r, s\<lparr>jscan := st\<rparr>)) (json_parse_int64 (env_scan e) buf (jscan s))"

definition int32_of_int64 :: "int \<Rightarrow> int" where
  "int32_of_int64 cint64 =
     (if cint64 \<le> INT_MIN then INT_MIN else if cint64 \<ge> INT_MAX then INT_MAX else cint64)"

text \<open>A double outside the range of the integer type has no defined conversion.\<close>

definition dbl_to_int :: "int \<Rightarrow> int \<Rightarrow> double \<Rightarrow> int option" where
  "dbl_to_int lo hi d = do { n \<leftarrow> dbl_trunc d; c_assert (lo \<le> n \<and> n \<le> hi); Some n }"

definition json_object_get_int :: "cenv \<Rightarrow> addr option \<Rightarrow> jstate \<Rightarrow> (int \<times> jstate) option" where
  "json_object_get_int e jso s =
     (case jso of
        None \<Rightarrow> Some (0, s)
      | Some a \<Rightarrow> do {
          j \<leftarrow> jheap s a;
          case (jo_type j, jo_data j) of
            (json_type_string, C_string b _) \<Rightarrow> do {
              str \<leftarrow> block_str b;
              (r, s) \<leftarrow> parse_int64_s e str s;
              Some (case r of None \<Rightarrow> 0 | Some cint64 \<Rightarrow> int32_of_int64 cint64, s)
            }
          | (json_type_int, C_int64 cint64) \<Rightarrow> Some (int32_of_int64 cint64, s)
          | (json_type_double, C_double d) \<Rightarrow> map_option (\<lambda>n. (n, s)) (dbl_to_int INT_MIN INT_MAX d)
          | (json_type_boolean, C_boolean b) \<Rightarrow> Some (b, s)
          | (ty, _) \<Rightarrow> (if ty \<in> {json_type_null, json_type_object, json_type_array} then Some (0, s) else None)
        })"

definition json_object_get_int64 :: "cenv \<Rightarrow> addr option \<Rightarrow> jstate \<Rightarrow> (int \<times> jstate) option" where
  "json_object_get_int64 e jso s =
     (case jso of
        None \<Rightarrow> Some (0, s)
      | Some a \<Rightarrow> do {
          j \<leftarrow> jheap s a;
          case (jo_type j, jo_data j) of
            (json_type_int, C_int64 i) \<Rightarrow> Some (i, s)
          | (json_type_double, C_double d) \<Rightarrow> map_option (\<lambda>n. (n, s)) (dbl_to_int INT64_MIN INT64_MAX d)
          | (json_type_boolean, C_boolean b) \<Rightarrow> Some (b, s)
          | (json_type_string, C_string b _) \<Rightarrow> do {
              str \<leftarrow> block_str b;
              (r, s) \<leftarrow> parse_int64_s e str s;
              Some (case r of None \<Rightarrow> 0 | Some cint \<Rightarrow> cint, s)
            }
          | (ty, _) \<Rightarrow> (if ty \<in> {json_type_null, json_type_object, json_type_array} then Some (0, s) else None)
        })"

definition json_object_get_double :: "cenv \<Rightarrow> addr option \<Rightarrow> jstate \<Rightarrow> double option" where
  "json_object_get_double e jso s =
     (case jso of
        None \<Rightarrow> Some 0
      | Some a \<Rightarrow> do {
          j \<leftarrow> jheap s a;
          case (jo_type j, jo_data j) of
            (json_type_double, C_double d) \<Rightarrow> Some d
          | (json_type_int, C_int64 i) \<Rightarrow> Some (dbl_of_int i)
          | (json_type_boolean, C_boolean b) \<Rightarrow> Some (dbl_of_int b)
          | (json_type_string, C_string b _) \<Rightarrow> do {
              str \<leftarrow> block_str b;
              Some (case env_scan_lf e str of None \<Rightarrow> 0 | Some cdouble \<Rightarrow> cdouble)
            }
          | (ty, _) \<Rightarrow> (if ty \<in> {json_type_null, json_type_object, json_type_array} then Some 0 else None)
        })"

text \<open>The block the returned pointer points to.\<close>

definition json_object_get_string ::
  "cenv \<Rightarrow> addr option \<Rightarrow> jstate \<Rightarrow> (char cells option \<times> jstate) option" where
  "json_object_get_string e jso s =
     (case jso of
        None \<Rightarrow> Some (None, s)
      | Some a \<Rightarrow> do {
          j \<leftarrow> jheap s a;
          if jo_type j = json_type_string then
            (case jo_data j of C_string b _ \<Rightarrow> Some (map_option (map Some) b, s) | _ \<Rightarrow> None)
          else json_object_to_json_string e jso s
        })"

definition json_object_get_string_len :: "addr option \<Rightarrow> jstate \<Rightarrow> int option" where
  "json_object_get_string_len jso s =
     (case jso of
        None \<Rightarrow> Some 0
      | Some a \<Rightarrow> do {
          j \<leftarrow> jheap s a;
          if jo_type j = json_type_string then
            (case jo_data j of C_string _ len \<Rightarrow> Some len | _ \<Rightarrow> None)
          else Some 0
        })"

section \<open>The object iterator\<close>

text \<open>
  An iterator is a pointer to an entry of the table of an object, NULL at the end.  The checks
  are assertions of the program; without them the same accesses would be undefined.
\<close>

type_synonym json_object_iterator = "nat option"

definition json_object_iter_begin :: "addr option \<Rightarrow> jstate \<Rightarrow> json_object_iterator option" where
  "json_object_iter_begin obj s = do {
     pTable \<leftarrow> json_object_get_object obj s;
     t \<leftarrow> pTable;
     Some (lh_head t)
   }"

definition json_object_iter_end :: "addr option \<Rightarrow> jstate \<Rightarrow> json_object_iterator option" where
  "json_object_iter_end obj s = do {
     c_assert (obj \<noteq> None);
     b \<leftarrow> json_object_is_type obj json_type_object s;
     c_assert b;
     Some None
   }"

definition iter_entry :: "(string, addr) lh_table \<Rightarrow> json_object_iterator \<Rightarrow> (string, addr) lh_entry option" where
  "iter_entry t iter = do { i \<leftarrow> iter; c_assert (i < length (lh_tab t)); Some (lh_tab t ! i) }"

definition json_object_iter_next ::
  "(string, addr) lh_table \<Rightarrow> json_object_iterator \<Rightarrow> json_object_iterator option" where
  "json_object_iter_next t iter = map_option ent_next (iter_entry t iter)"

definition json_object_iter_peek_name :: "(string, addr) lh_table \<Rightarrow> json_object_iterator \<Rightarrow> string option" where
  "json_object_iter_peek_name t iter = do {
     ent \<leftarrow> iter_entry t iter;
     case ent_k ent of Key k \<Rightarrow> Some k | _ \<Rightarrow> None
   }"

definition json_object_iter_peek_value ::
  "(string, addr) lh_table \<Rightarrow> json_object_iterator \<Rightarrow> addr option option" where
  "json_object_iter_peek_value t iter = map_option ent_v (iter_entry t iter)"

definition json_object_iter_equal :: "json_object_iterator \<Rightarrow> json_object_iterator \<Rightarrow> bool" where
  "json_object_iter_equal iter1 iter2 \<longleftrightarrow> iter1 = iter2"

definition json_object_iter_init_default :: json_object_iterator where
  "json_object_iter_init_default = None"

section \<open>Type names\<close>

definition json_type_name :: "string list" where
  "json_type_name = [''null'', ''boolean'', ''double'', ''int'', ''object'', ''array'', ''string'']"

definition json_type_to_name :: "int \<Rightarrow> string option" where
  "json_type_to_name o_type =
     (if o_type < 0 \<or> o_type \<ge> int (length json_type_name) then None
      else Some (json_type_name ! nat o_type))"

section \<open>Properties\<close>

lemma block_str_terminated: "NUL \<notin> set w \<Longrightarrow> block_str (Some (w @ [NUL])) = Some w"
  using c_str_text [of w "[]"] by (simp add: block_str_def)

text \<open>
  \<open>json_object_get_int\<close> of a string object reads the integer at the head of the text,
  saturated to 32 bits although it goes through a 64-bit scan that clamps first; a text without
  a number reads as 0.
\<close>

theorem json_object_get_int_string:
  assumes j: "jheap s a = Some j" "jo_type j = json_type_string" "jo_data j = C_string (Some (w @ [NUL])) n" "NUL \<notin> set w"
    and e: "env_scan e = scan_d64" "\<not> sscanf_is_broken (jscan s)"
  shows "\<exists>s'. json_object_get_int e (Some a) s
       = Some (case int_prefix w of None \<Rightarrow> 0 | Some i \<Rightarrow> max INT_MIN (min INT_MAX i), s') \<and> jheap s' = jheap s"
proof -
  from parse_int64_scan_ok [OF e(2), of w] obtain st where
    "json_parse_int64 scan_d64 w (jscan s) = Some (map_option clamp (int_prefix w), st)" by blast
  moreover have "int32_of_int64 (clamp i) = max INT_MIN (min INT_MAX i)" for i
    by (simp add: int32_of_int64_def clamp_def)
  ultimately show ?thesis
    using j e(1) block_str_terminated [OF j(4)]
    by (auto simp: json_object_get_int_def parse_int64_s_def split: option.split)
qed

theorem json_object_get_int_string_witness:
  "\<exists>s'. json_object_get_int
        \<lparr>env_mal = \<lambda>_. True, env_scan = scan_d64, env_scan_lf = \<lambda>_. None, env_user_to_json_string = \<lambda>_ _ _ _ _. None\<rparr> (Some 0)
        \<lparr>jheap = [0 \<mapsto> \<lparr>jo_type = json_type_string, jo_delete = Fn_string_delete, jo_to_json_string = None, jo_ref_count = 1,
             jo_pb = None, jo_data = C_string (Some (''-9999999999x'' @ [NUL])) 12, jo_user_delete = None, jo_userdata = None\<rparr>],
         jnext = 1, jlog = [], jscan = scan_state_init\<rparr> = Some (INT_MIN, s')"
proof -
  have "int_prefix ''-9999999999x'' = Some (- 9999999999)" by code_simp
  then show ?thesis
    using json_object_get_int_string [of "\<lparr>jheap = [0 \<mapsto> \<lparr>jo_type = json_type_string, jo_delete = Fn_string_delete, jo_to_json_string = None, jo_ref_count = 1,
             jo_pb = None, jo_data = C_string (Some (''-9999999999x'' @ [NUL])) 12, jo_user_delete = None, jo_userdata = None\<rparr>],
         jnext = 1, jlog = [], jscan = scan_state_init\<rparr>" 0 _ "''-9999999999x''" 12
        "\<lparr>env_mal = \<lambda>_. True, env_scan = scan_d64, env_scan_lf = \<lambda>_. None, env_user_to_json_string = \<lambda>_ _ _ _ _. None\<rparr>"]
    by (auto simp: scan_state_init_def)
qed

end
