(* ===== verification/Json_Tokener.thy ===== *)
theory Json_Tokener
  imports Json_Access
begin

text \<open>
  The parser of \<^verbatim>\<open>json-c-0.11/json_tokener.c\<close>: a state machine over the characters of the input with
  a stack of levels, one per nested value.  One definition per state of the switch; a step
  ends with \<open>break\<close>, with \<open>goto redo_char\<close> or with \<open>goto out\<close>.  The pointer \<open>str\<close> into the
  input is the list of bytes from there on, so that reading past the last byte is undefined.
\<close>

section \<open>Data\<close>

datatype json_tokener_error =
    json_tokener_success | json_tokener_continue | json_tokener_error_depth
  | json_tokener_error_parse_eof | json_tokener_error_parse_unexpected
  | json_tokener_error_parse_null | json_tokener_error_parse_boolean
  | json_tokener_error_parse_number | json_tokener_error_parse_array
  | json_tokener_error_parse_object_key_name | json_tokener_error_parse_object_key_sep
  | json_tokener_error_parse_object_value_sep | json_tokener_error_parse_string
  | json_tokener_error_parse_comment

datatype json_tokener_state =
    state_eatws | state_start | state_finish | state_null | state_comment_start
  | state_comment | state_comment_eol | state_comment_end | state_string
  | state_string_escape | state_escape_unicode | state_boolean | state_number
  | state_array | state_array_add | state_array_sep | state_object_field_start
  | state_object_field | state_object_field_end | state_object_value
  | state_object_value_add | state_object_sep | state_array_after_sep
  | state_object_field_start_after_sep

text \<open>The field \<open>obj\<close> of the C struct is never used.\<close>

record json_tokener_srec =
  sr_state :: json_tokener_state
  sr_saved_state :: json_tokener_state
  sr_current :: "addr option"
  sr_obj_field_name :: "string option"

record json_tokener =
  tk_pb :: "printbuf option"
  tk_max_depth :: int
  tk_depth :: int
  tk_is_double :: bool
  tk_st_pos :: int
  tk_char_offset :: int
  tk_err :: json_tokener_error
  tk_ucs_char :: "32 word"
  tk_quote_char :: char
  tk_stack :: "json_tokener_srec list"
  tk_flags :: "32 word"

abbreviation JSON_TOKENER_DEFAULT_DEPTH :: int where "JSON_TOKENER_DEFAULT_DEPTH \<equiv> 32"
abbreviation JSON_TOKENER_STRICT :: "32 word" where "JSON_TOKENER_STRICT \<equiv> 1"

definition json_tokener_errors :: "string list" where
  "json_tokener_errors =
     [''success'', ''continue'', ''nesting too deep'', ''unexpected end of data'',
      ''unexpected character'', ''null expected'', ''boolean expected'', ''number expected'',
      ''array value separator '' @ [CHR 0x27, CHR '','', CHR 0x27] @ '' expected'', ''quoted object property name expected'',
      ''object property name separator '' @ [CHR 0x27, CHR '':'', CHR 0x27] @ '' expected'', ''object value separator '' @ [CHR 0x27, CHR '','', CHR 0x27] @ '' expected'',
      ''invalid string sequence'', ''expected comment'']"


text \<open>
  The bound of the C test is the size of the array of pointers in bytes, \<open>14 * 8\<close>; an index
  between the number of messages and that bound reads outside the array.
\<close>

definition json_tokener_error_desc :: "int \<Rightarrow> string option" where
  "json_tokener_error_desc jerr =
     (if jerr < 0 \<or> jerr > 8 * int (length json_tokener_errors)
      then Some ''Unknown error, invalid json_tokener_error value passed to json_tokener_error_desc()''
      else if nat jerr < length json_tokener_errors then Some (json_tokener_errors ! nat jerr)
      else None)"

definition json_tokener_get_error :: "json_tokener \<Rightarrow> json_tokener_error" where
  "json_tokener_get_error tok = tk_err tok"

text \<open>The locals of \<open>json_tokener_parse_ex\<close> with the tokener and the heap.\<close>

record pstate =
  p_tok :: json_tokener
  p_js :: jstate
  p_c :: char
  p_obj :: "addr option"
  p_str :: string

section \<open>Levels\<close>

definition level_ok :: "json_tokener \<Rightarrow> int \<Rightarrow> bool" where
  "level_ok tok d \<longleftrightarrow> 0 \<le> d \<and> d < int (length (tk_stack tok))"

definition json_tokener_reset_level ::
  "json_tokener \<Rightarrow> int \<Rightarrow> jstate \<Rightarrow> (json_tokener \<times> jstate) option" where
  "json_tokener_reset_level tok depth s = do {
     c_assert (level_ok tok depth);
     (_, s) \<leftarrow> json_object_put (sr_current (tk_stack tok ! nat depth)) s;
     Some (tok\<lparr>tk_stack := (tk_stack tok)[nat depth :=
             \<lparr>sr_state = state_eatws, sr_saved_state = state_start, sr_current = None,
              sr_obj_field_name = None\<rparr>]\<rparr>, s)
   }"

text \<open>The loop over the levels \<open>i, i - 1, \<dots>, 0\<close>.\<close>

definition reset_levels :: "json_tokener \<Rightarrow> int \<Rightarrow> jstate \<Rightarrow> (json_tokener \<times> jstate) option" where
  "reset_levels tok depth s =
     ofold (\<lambda>i (tok, s). json_tokener_reset_level tok (int i) s) (rev [0..<nat (depth + 1)]) (tok, s)"

definition json_tokener_reset :: "json_tokener \<Rightarrow> jstate \<Rightarrow> (json_tokener \<times> jstate) option" where
  "json_tokener_reset tok s = do {
     (tok, s) \<leftarrow> reset_levels tok (tk_depth tok) s;
     Some (tok\<lparr>tk_depth := 0, tk_err := json_tokener_success\<rparr>, s)
   }"

definition zero_srec :: json_tokener_srec where
  "zero_srec = \<lparr>sr_state = state_eatws, sr_saved_state = state_eatws, sr_current = None,
                sr_obj_field_name = None\<rparr>"

text \<open>The new tokener, or \<open>None\<close> when an allocation fails.  The print buffer is not checked.\<close>

definition json_tokener_new_ex ::
  "malloc_fn \<Rightarrow> int \<Rightarrow> jstate \<Rightarrow> (json_tokener option \<times> jstate) option" where
  "json_tokener_new_ex mal depth s =
     (if \<not> mal 64 \<or> depth < 0 \<or> \<not> mal (32 * depth) then Some (None, s)
      else do {
        (tok, s) \<leftarrow> json_tokener_reset
          \<lparr>tk_pb = printbuf_new mal, tk_max_depth = depth, tk_depth = 0, tk_is_double = False,
           tk_st_pos = 0, tk_char_offset = 0, tk_err = json_tokener_success, tk_ucs_char = 0,
           tk_quote_char = NUL, tk_stack = replicate (nat depth) zero_srec, tk_flags = 0\<rparr> s;
        Some (Some tok, s)
      })"

definition json_tokener_new :: "malloc_fn \<Rightarrow> jstate \<Rightarrow> (json_tokener option \<times> jstate) option" where
  "json_tokener_new mal s = json_tokener_new_ex mal JSON_TOKENER_DEFAULT_DEPTH s"

text \<open>After the reset the tokener owns no object, and its own blocks go away.\<close>

definition json_tokener_free :: "json_tokener \<Rightarrow> jstate \<Rightarrow> jstate option" where
  "json_tokener_free tok s = map_option snd (json_tokener_reset tok s)"

definition json_tokener_set_flags :: "json_tokener \<Rightarrow> 32 word \<Rightarrow> json_tokener" where
  "json_tokener_set_flags tok flags = tok\<lparr>tk_flags := flags\<rparr>"

section \<open>The macros\<close>

definition cur :: "json_tokener \<Rightarrow> json_tokener_srec option" where
  "cur tok = (if level_ok tok (tk_depth tok) then Some (tk_stack tok ! nat (tk_depth tok)) else None)"

definition upd_tok :: "(json_tokener \<Rightarrow> json_tokener) \<Rightarrow> pstate \<Rightarrow> pstate" where
  "upd_tok f p = p\<lparr>p_tok := f (p_tok p)\<rparr>"

definition upd_cur :: "(json_tokener_srec \<Rightarrow> json_tokener_srec) \<Rightarrow> pstate \<Rightarrow> pstate option" where
  "upd_cur f p = do {
     l \<leftarrow> cur (p_tok p);
     Some (upd_tok (\<lambda>tok. tok\<lparr>tk_stack := (tk_stack tok)[nat (tk_depth tok) := f l]\<rparr>) p)
   }"

definition set_state :: "json_tokener_state \<Rightarrow> pstate \<Rightarrow> pstate option" where
  "set_state st = upd_cur (\<lambda>l. l\<lparr>sr_state := st\<rparr>)"

text \<open>The assignments to both states that most branches end with.\<close>

definition set_states :: "json_tokener_state \<Rightarrow> json_tokener_state \<Rightarrow> pstate \<Rightarrow> pstate option" where
  "set_states st saved = upd_cur (\<lambda>l. l\<lparr>sr_state := st, sr_saved_state := saved\<rparr>)"

definition set_current :: "addr option \<Rightarrow> pstate \<Rightarrow> pstate option" where
  "set_current a = upd_cur (\<lambda>l. l\<lparr>sr_current := a\<rparr>)"

definition set_err :: "json_tokener_error \<Rightarrow> pstate \<Rightarrow> pstate" where
  "set_err er = upd_tok (\<lambda>tok. tok\<lparr>tk_err := er\<rparr>)"

definition tok_pb_reset :: "pstate \<Rightarrow> pstate option" where
  "tok_pb_reset p = do {
     pb \<leftarrow> tk_pb (p_tok p);
     pb \<leftarrow> printbuf_reset pb;
     Some (upd_tok (\<lambda>tok. tok\<lparr>tk_pb := Some pb\<rparr>) p)
   }"

definition tok_pb_append :: "malloc_fn \<Rightarrow> string \<Rightarrow> pstate \<Rightarrow> pstate option" where
  "tok_pb_append mal src p = do {
     pb \<leftarrow> tk_pb (p_tok p);
     pb \<leftarrow> printbuf_memappend_fast mal pb src (int (length src));
     Some (upd_tok (\<lambda>tok. tok\<lparr>tk_pb := Some pb\<rparr>) p)
   }"

definition PEEK_CHAR :: "int \<Rightarrow> pstate \<Rightarrow> (bool \<times> pstate) option" where
  "PEEK_CHAR len p =
     (if tk_char_offset (p_tok p) = len then do {
        l \<leftarrow> cur (p_tok p);
        Some (False, set_err (if tk_depth (p_tok p) = 0 \<and> sr_state l = state_eatws
                                 \<and> sr_saved_state l = state_finish
                              then json_tokener_success else json_tokener_continue) p)
      }
      else case p_str p of [] \<Rightarrow> None | c # _ \<Rightarrow> Some (True, p\<lparr>p_c := c\<rparr>))"

definition ADVANCE_CHAR :: "pstate \<Rightarrow> pstate option" where
  "ADVANCE_CHAR p = do {
     c_assert (c_int_ok (tk_char_offset (p_tok p) + 1));
     Some (upd_tok (\<lambda>tok. tok\<lparr>tk_char_offset := tk_char_offset tok + 1\<rparr>) (p\<lparr>p_str := tl (p_str p)\<rparr>))
   }"

text \<open>\<open>!ADVANCE_CHAR(str, tok) || !PEEK_CHAR(c, tok)\<close>, negated: whether there is a next character.\<close>

definition next_char :: "int \<Rightarrow> pstate \<Rightarrow> (bool \<times> pstate) option" where
  "next_char len p = do {
     let old = p_c p;
     p \<leftarrow> ADVANCE_CHAR p;
     if old = NUL then Some (False, p) else PEEK_CHAR len p
   }"

text \<open>
  The tight loops: while the condition holds of the current character, go to the next one.  The
  result says whether the loop ended by its condition (true) or at the end of the input, and
  carries the characters passed (from \<open>case_start\<close> to \<open>str\<close>).  The list \<open>cs\<close> is \<open>p_str p\<close>.
\<close>

primrec tight_loop ::
  "(char \<Rightarrow> bool) \<Rightarrow> int \<Rightarrow> string \<Rightarrow> string \<Rightarrow> pstate \<Rightarrow> (bool \<times> string \<times> pstate) option" where
  "tight_loop P len [] passed p = (if P (p_c p) then None else Some (True, passed, p))"
| "tight_loop P len (x # cs) passed p =
     (if \<not> P (p_c p) then Some (True, passed, p)
      else do {
        (more, p) \<leftarrow> next_char len p;
        if more then tight_loop P len cs (passed @ [x]) p else Some (False, passed @ [x], p)
      })"

definition tight :: "(char \<Rightarrow> bool) \<Rightarrow> int \<Rightarrow> pstate \<Rightarrow> (bool \<times> string \<times> pstate) option" where
  "tight P len p = tight_loop P len (p_str p) [] p"

section \<open>Properties\<close>


end
