(* ===== verification/Json_Parse.thy ===== *)
theory Json_Parse
  imports Json_Tokener
begin

text \<open>
  \<open>json_tokener_parse_ex\<close> of \<^verbatim>\<open>json-c-0.11/json_tokener.c\<close>: the states of its switch, the loop around
  it, and the two functions that parse a whole string.
\<close>

unbundle bit_operations_syntax

datatype ctl = Break | Redo | Out

type_synonym step_res = "(ctl \<times> pstate) option"

definition fail :: "json_tokener_error \<Rightarrow> pstate \<Rightarrow> step_res" where
  "fail er p = Some (Out, set_err er p)"

section \<open>White space and comments\<close>

definition step_eatws :: "malloc_fn \<Rightarrow> int \<Rightarrow> pstate \<Rightarrow> step_res" where
  "step_eatws mal len p = do {
     (found, _, p) \<leftarrow> tight c_isspace len p;
     if \<not> found then Some (Out, p)
     else if p_c p = CHR ''/'' then do {
       p \<leftarrow> tok_pb_reset p;
       p \<leftarrow> tok_pb_append mal [p_c p] p;
       p \<leftarrow> set_state state_comment_start p;
       Some (Break, p)
     }
     else do {
       l \<leftarrow> cur (p_tok p);
       p \<leftarrow> set_state (sr_saved_state l) p;
       Some (Redo, p)
     }
   }"

definition step_comment_start :: "malloc_fn \<Rightarrow> pstate \<Rightarrow> step_res" where
  "step_comment_start mal p =
     (if p_c p = CHR ''*'' then do {
        p \<leftarrow> set_state state_comment p;
        p \<leftarrow> tok_pb_append mal [p_c p] p;
        Some (Break, p)
      }
      else if p_c p = CHR ''/'' then do {
        p \<leftarrow> set_state state_comment_eol p;
        p \<leftarrow> tok_pb_append mal [p_c p] p;
        Some (Break, p)
      }
      else fail json_tokener_error_parse_comment p)"

definition step_comment :: "malloc_fn \<Rightarrow> int \<Rightarrow> pstate \<Rightarrow> step_res" where
  "step_comment mal len p = do {
     (found, passed, p) \<leftarrow> tight (\<lambda>c. c \<noteq> CHR ''*'') len p;
     if \<not> found then do {
       p \<leftarrow> tok_pb_append mal passed p;
       Some (Out, p)
     }
     else do {
       p \<leftarrow> tok_pb_append mal (passed @ ''*'') p;
       p \<leftarrow> set_state state_comment_end p;
       Some (Break, p)
     }
   }"

definition step_comment_eol :: "malloc_fn \<Rightarrow> int \<Rightarrow> pstate \<Rightarrow> step_res" where
  "step_comment_eol mal len p = do {
     (found, passed, p) \<leftarrow> tight (\<lambda>c. c \<noteq> NEWLINE) len p;
     p \<leftarrow> tok_pb_append mal passed p;
     if \<not> found then Some (Out, p)
     else do {
       p \<leftarrow> set_state state_eatws p;
       Some (Break, p)
     }
   }"

definition step_comment_end :: "malloc_fn \<Rightarrow> pstate \<Rightarrow> step_res" where
  "step_comment_end mal p = do {
     p \<leftarrow> tok_pb_append mal [p_c p] p;
     p \<leftarrow> set_state (if p_c p = CHR ''/'' then state_eatws else state_comment) p;
     Some (Break, p)
   }"

section \<open>The start of a value, and its end\<close>

definition step_start :: "malloc_fn \<Rightarrow> pstate \<Rightarrow> step_res" where
  "step_start mal p =
     (let c = p_c p in
      if c = CHR ''{'' then do {
        p \<leftarrow> set_states state_eatws state_object_field_start p;
        (a, s) \<leftarrow> json_object_new_object mal (p_js p);
        p \<leftarrow> set_current a (p\<lparr>p_js := s\<rparr>);
        Some (Break, p)
      }
      else if c = CHR ''['' then do {
        p \<leftarrow> set_states state_eatws state_array p;
        (a, s) \<leftarrow> json_object_new_array mal (p_js p);
        p \<leftarrow> set_current a (p\<lparr>p_js := s\<rparr>);
        Some (Break, p)
      }
      else if c \<in> set ''Nn'' then do {
        p \<leftarrow> set_state state_null p;
        p \<leftarrow> tok_pb_reset p;
        Some (Redo, upd_tok (\<lambda>tok. tok\<lparr>tk_st_pos := 0\<rparr>) p)
      }
      else if c = QUOTE \<or> c = CHR 0x27 then do {
        p \<leftarrow> set_state state_string p;
        p \<leftarrow> tok_pb_reset p;
        Some (Break, upd_tok (\<lambda>tok. tok\<lparr>tk_quote_char := c\<rparr>) p)
      }
      else if c \<in> set ''TtFf'' then do {
        p \<leftarrow> set_state state_boolean p;
        p \<leftarrow> tok_pb_reset p;
        Some (Redo, upd_tok (\<lambda>tok. tok\<lparr>tk_st_pos := 0\<rparr>) p)
      }
      else if c \<in> set ''0123456789-'' then do {
        p \<leftarrow> set_state state_number p;
        p \<leftarrow> tok_pb_reset p;
        Some (Redo, upd_tok (\<lambda>tok. tok\<lparr>tk_is_double := False\<rparr>) p)
      }
      else fail json_tokener_error_parse_unexpected p)"

definition step_finish :: "pstate \<Rightarrow> step_res" where
  "step_finish p =
     (if tk_depth (p_tok p) = 0 then Some (Out, p)
      else do {
        l \<leftarrow> cur (p_tok p);
        (obj, s) \<leftarrow> json_object_get (sr_current l) (p_js p);
        (tok, s) \<leftarrow> json_tokener_reset_level (p_tok p) (tk_depth (p_tok p)) s;
        Some (Redo, p\<lparr>p_tok := tok\<lparr>tk_depth := tk_depth tok - 1\<rparr>, p_js := s, p_obj := obj\<rparr>)
      })"

section \<open>Literals\<close>

text \<open>\<open>strncasecmp (lit, buf, n) == 0\<close>, where \<open>lit\<close> is a literal with its terminator left out.\<close>

fun strncasecmp_eq :: "string \<Rightarrow> char cells \<Rightarrow> nat \<Rightarrow> bool option" where
  "strncasecmp_eq lit m 0 = Some True"
| "strncasecmp_eq lit [] (Suc n) = None"
| "strncasecmp_eq lit (None # m) (Suc n) = None"
| "strncasecmp_eq lit (Some d # m) (Suc n) =
     (let c = (case lit of [] \<Rightarrow> NUL | x # _ \<Rightarrow> x) in
      if c_tolower c \<noteq> c_tolower d then Some False
      else if c = NUL then Some True
      else strncasecmp_eq (tl lit) m n)"

definition tok_matches :: "string \<Rightarrow> pstate \<Rightarrow> bool option" where
  "tok_matches lit p = do {
     pb \<leftarrow> tk_pb (p_tok p);
     c_assert (c_int_ok (tk_st_pos (p_tok p) + 1));
     strncasecmp_eq lit (pb_buf pb) (nat (min (tk_st_pos (p_tok p) + 1) (int (length lit))))
   }"

definition bump_st_pos :: "pstate \<Rightarrow> step_res" where
  "bump_st_pos p = Some (Break, upd_tok (\<lambda>tok. tok\<lparr>tk_st_pos := tk_st_pos tok + 1\<rparr>) p)"

definition step_null :: "malloc_fn \<Rightarrow> pstate \<Rightarrow> step_res" where
  "step_null mal p = do {
     p \<leftarrow> tok_pb_append mal [p_c p] p;
     eq \<leftarrow> tok_matches ''null'' p;
     if \<not> eq then fail json_tokener_error_parse_null p
     else if tk_st_pos (p_tok p) = 4 then do {
       p \<leftarrow> set_current None p;
       p \<leftarrow> set_states state_eatws state_finish p;
       Some (Redo, p)
     }
     else bump_st_pos p
   }"

text \<open>The end of a literal \<open>true\<close> or \<open>false\<close>: make the value.\<close>

definition finish_value :: "(addr option \<times> jstate) option \<Rightarrow> ctl \<Rightarrow> pstate \<Rightarrow> step_res" where
  "finish_value new k p = do {
     (a, s) \<leftarrow> new;
     p \<leftarrow> set_current a (p\<lparr>p_js := s\<rparr>);
     p \<leftarrow> set_states state_eatws state_finish p;
     Some (k, p)
   }"

definition step_boolean :: "malloc_fn \<Rightarrow> pstate \<Rightarrow> step_res" where
  "step_boolean mal p = do {
     p \<leftarrow> tok_pb_append mal [p_c p] p;
     is_true \<leftarrow> tok_matches ''true'' p;
     if is_true then
       (if tk_st_pos (p_tok p) = 4 then finish_value (json_object_new_boolean mal 1 (p_js p)) Redo p
        else bump_st_pos p)
     else do {
       is_false \<leftarrow> tok_matches ''false'' p;
       if is_false then
         (if tk_st_pos (p_tok p) = 5 then finish_value (json_object_new_boolean mal 0 (p_js p)) Redo p
          else bump_st_pos p)
       else fail json_tokener_error_parse_boolean p
     }
   }"

section \<open>Strings\<close>

definition step_string :: "malloc_fn \<Rightarrow> int \<Rightarrow> pstate \<Rightarrow> step_res" where
  "step_string mal len p = do {
     let quote = tk_quote_char (p_tok p);
     (found, passed, p) \<leftarrow> tight (\<lambda>c. c \<noteq> quote \<and> c \<noteq> BACKSLASH) len p;
     p \<leftarrow> tok_pb_append mal passed p;
     if \<not> found then Some (Out, p)
     else if p_c p = quote then do {
       pb \<leftarrow> tk_pb (p_tok p);
       c_assert (None \<notin> set (take (nat (pb_bpos pb)) (pb_buf pb)));
       finish_value (json_object_new_string_len mal (map the (take (nat (pb_bpos pb)) (pb_buf pb)))
                       (pb_bpos pb) (p_js p)) Break p
     }
     else do {
       p \<leftarrow> set_states state_string_escape state_string p;
       Some (Break, p)
     }
   }"

definition restore_state :: "pstate \<Rightarrow> step_res" where
  "restore_state p = do {
     l \<leftarrow> cur (p_tok p);
     p \<leftarrow> set_state (sr_saved_state l) p;
     Some (Break, p)
   }"

text \<open>The character that a letter after the backslash stands for.\<close>

definition unescape :: "char \<Rightarrow> char option" where
  "unescape c =
     (if c = QUOTE \<or> c = BACKSLASH \<or> c = CHR ''/'' then Some c
      else if c = CHR ''b'' then Some CHR 0x08
      else if c = CHR ''n'' then Some CHR 0x0A
      else if c = CHR ''r'' then Some CHR 0x0D
      else if c = CHR ''t'' then Some CHR 0x09
      else if c = CHR ''f'' then Some CHR 0x0C
      else None)"

definition step_string_escape :: "malloc_fn \<Rightarrow> pstate \<Rightarrow> step_res" where
  "step_string_escape mal p =
     (case unescape (p_c p) of
        Some d \<Rightarrow> do {
          p \<leftarrow> tok_pb_append mal [d] p;
          restore_state p
        }
      | None \<Rightarrow>
          if p_c p = CHR ''u'' then do {
            p \<leftarrow> set_state state_escape_unicode (upd_tok (\<lambda>tok. tok\<lparr>tk_ucs_char := 0, tk_st_pos := 0\<rparr>) p);
            Some (Break, p)
          }
          else fail json_tokener_error_parse_string p)"

subsection \<open>Unicode escapes\<close>

definition IS_HIGH_SURROGATE :: "32 word \<Rightarrow> bool" where
  "IS_HIGH_SURROGATE uc \<longleftrightarrow> uc AND 0xFC00 = 0xD800"

definition IS_LOW_SURROGATE :: "32 word \<Rightarrow> bool" where
  "IS_LOW_SURROGATE uc \<longleftrightarrow> uc AND 0xFC00 = 0xDC00"

definition DECODE_SURROGATE_PAIR :: "32 word \<Rightarrow> 32 word \<Rightarrow> 32 word" where
  "DECODE_SURROGATE_PAIR hi lo = push_bit 10 (hi AND 0x3FF) + (lo AND 0x3FF) + 0x10000"

definition utf8_replacement_char :: string where
  "utf8_replacement_char = [CHR 0xEF, CHR 0xBF, CHR 0xBD]"

definition hexdigit :: "char \<Rightarrow> 32 word" where
  "hexdigit c = (if (of_char c :: nat) \<le> 57 then of_char c - 48 else (of_char c AND 7) + 9)"

text \<open>The conversion of an \<open>unsigned int\<close> to \<open>unsigned char\<close> keeps the low eight bits.\<close>

definition u8 :: "32 word \<Rightarrow> char" where
  "u8 w = char_of (uint w)"

text \<open>
  The bytes appended for a code point; \<open>None\<close> for a high surrogate, which waits for the next
  sequence.
\<close>

definition utf8_bytes :: "32 word \<Rightarrow> string option" where
  "utf8_bytes u =
     (if u < 0x80 then Some [u8 u]
      else if u < 0x800 then Some [u8 (0xc0 OR drop_bit 6 u), u8 (0x80 OR (u AND 0x3f))]
      else if IS_HIGH_SURROGATE u then None
      else if IS_LOW_SURROGATE u then Some utf8_replacement_char
      else if u < 0x10000 then
        Some [u8 (0xe0 OR drop_bit 12 u), u8 (0x80 OR (drop_bit 6 u AND 0x3f)), u8 (0x80 OR (u AND 0x3f))]
      else if u < 0x110000 then
        Some [u8 (0xf0 OR (drop_bit 18 u AND 0x07)), u8 (0x80 OR (drop_bit 12 u AND 0x3f)),
              u8 (0x80 OR (drop_bit 6 u AND 0x3f)), u8 (0x80 OR (u AND 0x3f))]
      else Some utf8_replacement_char)"

text \<open>
  Not at the end, and the next two characters are a backslash and \<open>u\<close>; the second one is only
  read when the first one matches.
\<close>

definition next_is_escape_u :: "int \<Rightarrow> pstate \<Rightarrow> bool option" where
  "next_is_escape_u len p =
     (if tk_char_offset (p_tok p) + 1 = len \<or> tk_char_offset (p_tok p) + 2 = len then Some False
      else case tl (p_str p) of
          [] \<Rightarrow> None
        | c1 # r \<Rightarrow> if c1 \<noteq> BACKSLASH then Some False
                   else (case r of [] \<Rightarrow> None | c2 # _ \<Rightarrow> Some (c2 = CHR ''u'')))"

text \<open>
  Skip to the first character of the following sequence.  A pending NUL digit makes the first
  \<open>ADVANCE_CHAR\<close> look like the end.
\<close>

definition skip_to_next_sequence :: "malloc_fn \<Rightarrow> int \<Rightarrow> pstate \<Rightarrow> (bool \<times> pstate) option" where
  "skip_to_next_sequence mal len p = do {
     let c = p_c p;
     p \<leftarrow> ADVANCE_CHAR p;
     p \<leftarrow> (if c = NUL then tok_pb_append mal utf8_replacement_char p else ADVANCE_CHAR p);
     (more, p) \<leftarrow> next_char len p;
     if more then Some (True, upd_tok (\<lambda>tok. tok\<lparr>tk_ucs_char := 0, tk_st_pos := 0\<rparr>) p)
     else do { p \<leftarrow> tok_pb_append mal utf8_replacement_char p; Some (False, p) }
   }"

text \<open>
  The inner loop.  Every round passes a character, so the length of the rest of the input
  bounds the number of rounds.
\<close>

fun unicode_loop :: "malloc_fn \<Rightarrow> int \<Rightarrow> nat \<Rightarrow> 32 word \<Rightarrow> pstate \<Rightarrow> step_res" where
  "unicode_loop mal len 0 got_hi p = None"
| "unicode_loop mal len (Suc fuel) got_hi p =
     (if \<not> (p_c p \<in> set json_hex_chars \<or> p_c p = NUL) then fail json_tokener_error_parse_string p
      else do {
        let st_pos = tk_st_pos (p_tok p);
        c_assert (0 \<le> st_pos \<and> st_pos \<le> 3);
        let p = upd_tok (\<lambda>tok. tok\<lparr>tk_ucs_char := tk_ucs_char tok
                    + push_bit (nat ((3 - st_pos) * 4)) (hexdigit (p_c p)), tk_st_pos := st_pos + 1\<rparr>) p;
        if tk_st_pos (p_tok p) = 4 then do {
          let u = tk_ucs_char (p_tok p);
          p \<leftarrow> (if got_hi = 0 then Some p
               else if IS_LOW_SURROGATE u then
                 Some (upd_tok (\<lambda>tok. tok\<lparr>tk_ucs_char := DECODE_SURROGATE_PAIR got_hi u\<rparr>) p)
               else tok_pb_append mal utf8_replacement_char p);
          case utf8_bytes (tk_ucs_char (p_tok p)) of
            Some bs \<Rightarrow> do { p \<leftarrow> tok_pb_append mal bs p; restore_state p }
          | None \<Rightarrow> do {
              let got_hi = tk_ucs_char (p_tok p);
              pair \<leftarrow> next_is_escape_u len p;
              if pair then do {
                (more, p) \<leftarrow> skip_to_next_sequence mal len p;
                if more then unicode_loop mal len fuel got_hi p else Some (Out, p)
              }
              else do { p \<leftarrow> tok_pb_append mal utf8_replacement_char p; restore_state p }
            }
        }
        else do {
          (more, p) \<leftarrow> next_char len p;
          if more then unicode_loop mal len fuel got_hi p
          else if got_hi \<noteq> 0 then do {
            p \<leftarrow> tok_pb_append mal utf8_replacement_char p;
            Some (Out, p)
          }
          else Some (Out, p)
        }
      })"

definition step_escape_unicode :: "malloc_fn \<Rightarrow> int \<Rightarrow> pstate \<Rightarrow> step_res" where
  "step_escape_unicode mal len p = unicode_loop mal len (Suc (length (p_str p))) 0 p"

section \<open>Numbers\<close>

abbreviation json_number_chars :: string where "json_number_chars \<equiv> ''0123456789.+-eE''"

definition json_parse_double :: "cenv \<Rightarrow> string \<Rightarrow> double option" where
  "json_parse_double e buf = env_scan_lf e buf"

text \<open>
  After the tight loop: the text in the buffer is scanned as an integer or as a double.
\<close>

definition number_value :: "cenv \<Rightarrow> pstate \<Rightarrow> step_res" where
  "number_value e p = do {
     pb \<leftarrow> tk_pb (p_tok p);
     buf \<leftarrow> c_str (pb_buf pb);
     if \<not> tk_is_double (p_tok p) then do {
       (r, s) \<leftarrow> parse_int64_s e buf (p_js p);
       let p = p\<lparr>p_js := s\<rparr>;
       case r of
         Some num64 \<Rightarrow> finish_value (json_object_new_int64 (env_mal e) num64 (p_js p)) Redo p
       | None \<Rightarrow> fail json_tokener_error_parse_number p
     }
     else (case json_parse_double e buf of
         Some numd \<Rightarrow> finish_value (json_object_new_double (env_mal e) numd (p_js p)) Redo p
       | None \<Rightarrow> fail json_tokener_error_parse_number p)
   }"

definition step_number :: "cenv \<Rightarrow> int \<Rightarrow> pstate \<Rightarrow> step_res" where
  "step_number e len p = do {
     (found, passed, p) \<leftarrow> tight (\<lambda>c. c \<noteq> NUL \<and> c \<in> set json_number_chars) len p;
     let p = upd_tok (\<lambda>tok. tok\<lparr>tk_is_double := tk_is_double tok \<or> (\<exists>c \<in> set passed. c \<in> set ''.eE'')\<rparr>) p;
     if \<not> found then do { p \<leftarrow> tok_pb_append (env_mal e) passed p; Some (Out, p) }
     else do {
       p \<leftarrow> (if passed \<noteq> [] then tok_pb_append (env_mal e) passed p else Some p);
       number_value e p
     }
   }"

section \<open>Arrays and objects\<close>

definition strict :: "pstate \<Rightarrow> bool" where
  "strict p \<longleftrightarrow> flag_set (tk_flags (p_tok p)) JSON_TOKENER_STRICT"

text \<open>Enter the next level, to parse a nested value.\<close>

definition push_level :: "json_tokener_state \<Rightarrow> pstate \<Rightarrow> step_res" where
  "push_level st p =
     (if tk_depth (p_tok p) \<ge> tk_max_depth (p_tok p) - 1 then fail json_tokener_error_depth p
      else do {
        p \<leftarrow> set_state st p;
        let tok = (p_tok p)\<lparr>tk_depth := tk_depth (p_tok p) + 1\<rparr>;
        (tok, s) \<leftarrow> json_tokener_reset_level tok (tk_depth tok) (p_js p);
        Some (Redo, p\<lparr>p_tok := tok, p_js := s\<rparr>)
      })"

definition goto_state :: "json_tokener_state \<Rightarrow> pstate \<Rightarrow> step_res" where
  "goto_state saved p = do { p \<leftarrow> set_states state_eatws saved p; Some (Break, p) }"

definition step_array :: "json_tokener_state \<Rightarrow> pstate \<Rightarrow> step_res" where
  "step_array st p =
     (if p_c p = CHR '']'' then
        (if st = state_array_after_sep \<and> strict p then fail json_tokener_error_parse_unexpected p
         else goto_state state_finish p)
      else push_level state_array_add p)"

definition step_array_add :: "malloc_fn \<Rightarrow> pstate \<Rightarrow> step_res" where
  "step_array_add mal p = do {
     l \<leftarrow> cur (p_tok p);
     a \<leftarrow> sr_current l;
     (_, s) \<leftarrow> json_object_array_add mal a (p_obj p) (p_js p);
     p \<leftarrow> set_states state_eatws state_array_sep (p\<lparr>p_js := s\<rparr>);
     Some (Redo, p)
   }"

definition step_array_sep :: "pstate \<Rightarrow> step_res" where
  "step_array_sep p =
     (if p_c p = CHR '']'' then goto_state state_finish p
      else if p_c p = CHR '','' then goto_state state_array_after_sep p
      else fail json_tokener_error_parse_array p)"

definition step_object_field_start :: "json_tokener_state \<Rightarrow> pstate \<Rightarrow> step_res" where
  "step_object_field_start st p =
     (if p_c p = CHR ''}'' then
        (if st = state_object_field_start_after_sep \<and> strict p
         then fail json_tokener_error_parse_unexpected p
         else goto_state state_finish p)
      else if p_c p = QUOTE \<or> p_c p = CHR 0x27 then do {
        p \<leftarrow> tok_pb_reset (upd_tok (\<lambda>tok. tok\<lparr>tk_quote_char := p_c p\<rparr>) p);
        p \<leftarrow> set_state state_object_field p;
        Some (Break, p)
      }
      else fail json_tokener_error_parse_object_key_name p)"

definition step_object_field :: "malloc_fn \<Rightarrow> int \<Rightarrow> pstate \<Rightarrow> step_res" where
  "step_object_field mal len p = do {
     let quote = tk_quote_char (p_tok p);
     (found, passed, p) \<leftarrow> tight (\<lambda>c. c \<noteq> quote \<and> c \<noteq> BACKSLASH) len p;
     p \<leftarrow> tok_pb_append mal passed p;
     if \<not> found then Some (Out, p)
     else if p_c p = quote then do {
       pb \<leftarrow> tk_pb (p_tok p);
       name \<leftarrow> c_str (pb_buf pb);
       let name = (if mal (int (length name) + 1) then Some name else None);
       p \<leftarrow> upd_cur (\<lambda>l. l\<lparr>sr_obj_field_name := name\<rparr>) p;
       goto_state state_object_field_end p
     }
     else do {
       p \<leftarrow> set_states state_string_escape state_object_field p;
       Some (Break, p)
     }
   }"

definition step_object_field_end :: "pstate \<Rightarrow> step_res" where
  "step_object_field_end p =
     (if p_c p = CHR '':'' then goto_state state_object_value p
      else fail json_tokener_error_parse_object_key_sep p)"

definition step_object_value :: "pstate \<Rightarrow> step_res" where
  "step_object_value p = push_level state_object_value_add p"

definition step_object_value_add :: "malloc_fn \<Rightarrow> pstate \<Rightarrow> step_res" where
  "step_object_value_add mal p = do {
     l \<leftarrow> cur (p_tok p);
     a \<leftarrow> sr_current l;
     name \<leftarrow> sr_obj_field_name l;
     s \<leftarrow> json_object_object_add mal a name (p_obj p) (p_js p);
     p \<leftarrow> upd_cur (\<lambda>l. l\<lparr>sr_obj_field_name := None\<rparr>) (p\<lparr>p_js := s\<rparr>);
     p \<leftarrow> set_states state_eatws state_object_sep p;
     Some (Redo, p)
   }"

definition step_object_sep :: "pstate \<Rightarrow> step_res" where
  "step_object_sep p =
     (if p_c p = CHR ''}'' then goto_state state_finish p
      else if p_c p = CHR '','' then goto_state state_object_field_start_after_sep p
      else fail json_tokener_error_parse_object_value_sep p)"

section \<open>The loop\<close>

definition tok_step :: "cenv \<Rightarrow> int \<Rightarrow> pstate \<Rightarrow> step_res" where
  "tok_step e len p = do {
     l \<leftarrow> cur (p_tok p);
     case sr_state l of
       state_eatws \<Rightarrow> step_eatws (env_mal e) len p
     | state_start \<Rightarrow> step_start (env_mal e) p
     | state_finish \<Rightarrow> step_finish p
     | state_null \<Rightarrow> step_null (env_mal e) p
     | state_comment_start \<Rightarrow> step_comment_start (env_mal e) p
     | state_comment \<Rightarrow> step_comment (env_mal e) len p
     | state_comment_eol \<Rightarrow> step_comment_eol (env_mal e) len p
     | state_comment_end \<Rightarrow> step_comment_end (env_mal e) p
     | state_string \<Rightarrow> step_string (env_mal e) len p
     | state_string_escape \<Rightarrow> step_string_escape (env_mal e) p
     | state_escape_unicode \<Rightarrow> step_escape_unicode (env_mal e) len p
     | state_boolean \<Rightarrow> step_boolean (env_mal e) p
     | state_number \<Rightarrow> step_number e len p
     | state_array_after_sep \<Rightarrow> step_array state_array_after_sep p
     | state_array \<Rightarrow> step_array state_array p
     | state_array_add \<Rightarrow> step_array_add (env_mal e) p
     | state_array_sep \<Rightarrow> step_array_sep p
     | state_object_field_start \<Rightarrow> step_object_field_start state_object_field_start p
     | state_object_field_start_after_sep \<Rightarrow> step_object_field_start state_object_field_start_after_sep p
     | state_object_field \<Rightarrow> step_object_field (env_mal e) len p
     | state_object_field_end \<Rightarrow> step_object_field_end p
     | state_object_value \<Rightarrow> step_object_value p
     | state_object_value_add \<Rightarrow> step_object_value_add (env_mal e) p
     | state_object_sep \<Rightarrow> step_object_sep p
   }"

text \<open>
  The \<open>while\<close> loop, entered at \<open>redo_char\<close> when \<open>redo\<close> is true.  Not ending is \<open>None\<close>.
\<close>

partial_function (option) parse_loop :: "cenv \<Rightarrow> int \<Rightarrow> bool \<Rightarrow> pstate \<Rightarrow> pstate option" where
  "parse_loop e len redo p = do {
     (more, p) \<leftarrow> (if redo then Some (True, p) else PEEK_CHAR len p);
     if \<not> more then Some p
     else do {
       (k, p) \<leftarrow> tok_step e len p;
       (if k = Out then Some p
        else if k = Redo then parse_loop e len True p
        else do {
          p' \<leftarrow> ADVANCE_CHAR p;
          if p_c p = NUL then Some p' else parse_loop e len False p'
        })
     }
   }"

declare parse_loop.simps [code]

text \<open>
  The code after \<open>out\<close>: the end-of-input test, then the result when there is no error.
\<close>

definition parse_out :: "pstate \<Rightarrow> (addr option \<times> json_tokener \<times> jstate) option" where
  "parse_out p = do {
     l \<leftarrow> cur (p_tok p);
     let tok = (if p_c p = NUL \<and> sr_state l \<noteq> state_finish \<and> sr_saved_state l \<noteq> state_finish
                then (p_tok p)\<lparr>tk_err := json_tokener_error_parse_eof\<rparr> else p_tok p);
     if tk_err tok = json_tokener_success then do {
       (ret, s) \<leftarrow> json_object_get (sr_current l) (p_js p);
       (tok, s) \<leftarrow> reset_levels tok (tk_depth tok) s;
       Some (ret, tok, s)
     }
     else Some (None, tok, p_js p)
   }"

text \<open>
  \<open>inp\<close> holds the bytes that can be read at \<open>str\<close>; \<open>len\<close> is their number, or \<open>-1\<close> when the
  text ends with a NUL.  The locale for numbers is C throughout.
\<close>

definition json_tokener_parse_ex ::
  "cenv \<Rightarrow> json_tokener \<Rightarrow> string \<Rightarrow> int \<Rightarrow> jstate \<Rightarrow> (addr option \<times> json_tokener \<times> jstate) option" where
  "json_tokener_parse_ex e tok inp len s = do {
     p \<leftarrow> parse_loop e len False
            \<lparr>p_tok = tok\<lparr>tk_char_offset := 0, tk_err := json_tokener_success\<rparr>, p_js = s,
             p_c = CHR 0x01, p_obj = None, p_str = inp\<rparr>;
     parse_out p
   }"

text \<open>A whole string; the error is \<open>None\<close> when the tokener cannot be allocated.\<close>

definition json_tokener_parse_verbose ::
  "cenv \<Rightarrow> string \<Rightarrow> jstate \<Rightarrow> (addr option \<times> json_tokener_error option \<times> jstate) option" where
  "json_tokener_parse_verbose e str s = do {
     (t, s) \<leftarrow> json_tokener_new (env_mal e) s;
     case t of
       None \<Rightarrow> Some (None, None, s)
     | Some tok \<Rightarrow> do {
         (obj, tok, s) \<leftarrow> json_tokener_parse_ex e tok (str @ [NUL]) (-1) s;
         let err = tk_err tok;
         (obj, s) \<leftarrow> (if err \<noteq> json_tokener_success
                      then map_option (\<lambda>(_, s). (None, s)) (json_object_put obj s)
                      else Some (obj, s));
         s \<leftarrow> json_tokener_free tok s;
         Some (obj, Some err, s)
       }
   }"

definition json_tokener_parse :: "cenv \<Rightarrow> string \<Rightarrow> jstate \<Rightarrow> (addr option \<times> jstate) option" where
  "json_tokener_parse e str s =
     map_option (\<lambda>(obj, _, s). (obj, s)) (json_tokener_parse_verbose e str s)"

section \<open>Properties\<close>

text \<open>An environment: allocations succeed, numbers are scanned as the C standard says.\<close>

definition std_env :: cenv where
  "std_env = \<lparr>env_mal = \<lambda>_. True, env_scan = scan_d64, env_scan_lf = \<lambda>_. None,
              env_user_to_json_string = \<lambda>_ _ _ _ _. None\<rparr>"

text \<open>What a caller sees of a parse: the error, the text of the result printed again, and the number of objects left.\<close>

definition parse_view :: "cenv \<Rightarrow> string \<Rightarrow> (json_tokener_error option \<times> string option \<times> nat) option" where
  "parse_view e str = do {
     (obj, err, s) \<leftarrow> json_tokener_parse_verbose e str jstate_init;
     (b, _) \<leftarrow> json_object_to_json_string_ext e obj 0 s;
     Some (err, (case obj of None \<Rightarrow> None | Some _ \<Rightarrow> do { b \<leftarrow> b; c_str b }),
           length (filter (\<lambda>a. jheap s a \<noteq> None) [0..<jnext s]))
   }"

text \<open>
  A comment that is never closed is not reported: when the text ends inside it, the value
  of the innermost level is returned as the result of the whole parse, with no error.  The array
  that should have held the value is dropped.
\<close>

theorem parse_unclosed_comment:
  "parse_view std_env ''[1/*'' = Some (Some json_tokener_success, Some ''1'', 1)"
  by code_simp

text \<open>
  A surrogate pair is decoded wrongly when the code point it stands for looks like a high
  surrogate itself in its low 16 bits: the pair of U+1D800 is read as U+FFFD, the replacement
  character, while the pair of U+1D7FF next to it is read as the four bytes of its encoding.
\<close>

theorem parse_surrogate_pair:
  "parse_view std_env ([QUOTE] @ [BACKSLASH] @ ''ud836'' @ [BACKSLASH] @ ''udc00'' @ [QUOTE])
     = Some (Some json_tokener_success, Some [QUOTE, CHR 0xEF, CHR 0xBF, CHR 0xBD, QUOTE], 1)
   \<and> parse_view std_env ([QUOTE] @ [BACKSLASH] @ ''ud835'' @ [BACKSLASH] @ ''udfff'' @ [QUOTE])
     = Some (Some json_tokener_success, Some [QUOTE, CHR 0xF0, CHR 0x9D, CHR 0x9F, CHR 0xBF, QUOTE], 1)"
  by code_simp


end
