(* ===== verification/Linkhash_Props.thy ===== *)
theory Linkhash_Props
  imports Linkhash
begin

text \<open>
  Correctness of the hash table: the representation invariant \<open>lh_rep\<close>, the abstraction to the
  list of key-value pairs in insertion order, and what every operation does to it.
\<close>

section \<open>Chains\<close>

text \<open>
  \<open>lseg tab p h is p' h'\<close>: following \<open>next\<close> from \<open>h\<close> visits the entries \<open>is\<close>, each with the
  right \<open>prev\<close> (\<open>p\<close> for the first), and ends with last visited \<open>p'\<close> and next pointer \<open>h'\<close>.
\<close>

fun lseg :: "('k, 'v) lh_entry list \<Rightarrow> nat option \<Rightarrow> nat option \<Rightarrow> nat list
    \<Rightarrow> nat option \<Rightarrow> nat option \<Rightarrow> bool" where
  "lseg tab p h [] p' h' \<longleftrightarrow> p = p' \<and> h = h'"
| "lseg tab p h (i # is) p' h' \<longleftrightarrow>
     h = Some i \<and> i < length tab \<and> ent_prev (tab ! i) = p
     \<and> lseg tab (Some i) (ent_next (tab ! i)) is p' h'"

lemma lseg_append:
  "lseg tab p h (xs @ ys) p' h' \<longleftrightarrow> (\<exists>q r. lseg tab p h xs q r \<and> lseg tab q r ys p' h')"
  by (induction xs arbitrary: p h) auto

lemma lseg_cong:
  "length tab' = length tab \<Longrightarrow>
   (\<And>i. i \<in> set is \<Longrightarrow> ent_prev (tab' ! i) = ent_prev (tab ! i) \<and> ent_next (tab' ! i) = ent_next (tab ! i))
   \<Longrightarrow> lseg tab' p h is p' h' = lseg tab p h is p' h'"
  by (induction "is" arbitrary: p h) auto

lemma lseg_bound: "lseg tab p h is p' h' \<Longrightarrow> i \<in> set is \<Longrightarrow> i < length tab"
  by (induction "is" arbitrary: p h) auto

lemma lseg_snoc:
  "lseg tab p h (xs @ [l]) p' h' \<longleftrightarrow>
     (\<exists>q. lseg tab p h xs q (Some l) \<and> l < length tab \<and> ent_prev (tab ! l) = q
        \<and> ent_next (tab ! l) = h' \<and> p' = Some l)"
  by (auto simp: lseg_append)

lemma lseg_end: "lseg tab p h is p' h' \<Longrightarrow> is \<noteq> [] \<Longrightarrow> p' = Some (last is)"
  by (induction "is" arbitrary: p h) (auto split: if_splits)

lemma lseg_chain:
  "lseg tab p h is p' None \<Longrightarrow> length is \<le> fuel \<Longrightarrow> lh_chain tab fuel h = Some is"
proof (induction "is" arbitrary: p h fuel)
  case Nil
  then show ?case by simp
next
  case (Cons i "is")
  then obtain fuel' where "fuel = Suc fuel'" by (cases fuel) auto
  with Cons show ?case by auto
qed

section \<open>The representation invariant\<close>

abbreviation slot_at :: "('k, 'v) lh_table \<Rightarrow> nat \<Rightarrow> nat \<Rightarrow> ('k, 'v) lh_entry" where
  "slot_at t h m \<equiv> lh_tab t ! ((h + m) mod lh_size t)"

text \<open>The slots in use.\<close>

definition used :: "('k, 'v) lh_entry list \<Rightarrow> nat set" where
  "used tab = {i. i < length tab \<and> (\<exists>k. ent_k (tab ! i) = Key k)}"

text \<open>
  The entry at slot \<open>i\<close> is found from its home slot: no empty slot lies on the way.
\<close>

definition reaches :: "('k, 'v) lh_table \<Rightarrow> nat \<Rightarrow> nat \<Rightarrow> bool" where
  "reaches t h i \<longleftrightarrow> (\<exists>m < lh_size t. i = (h + m) mod lh_size t
     \<and> (\<forall>j < m. ent_k (slot_at t h j) \<noteq> LH_EMPTY))"

definition lh_rep :: "('k, 'v) lh_table \<Rightarrow> nat list \<Rightarrow> bool" where
  "lh_rep t ord \<longleftrightarrow> length (lh_tab t) = lh_size t \<and> 0 < lh_size t \<and> int (lh_size t) \<le> INT_MAX
     \<and> lseg (lh_tab t) None (lh_head t) ord (lh_tail t) None
     \<and> distinct ord \<and> set ord = used (lh_tab t) \<and> lh_count t = int (length ord)
     \<and> (\<forall>i \<in> set ord. reaches t (lh_home t (the_key (ent_k (lh_tab t ! i)))) i)
     \<and> lh_equal_fn t = (\<lambda>a b. a = b)"

lemma lh_repD:
  assumes "lh_rep t ord"
  shows "length (lh_tab t) = lh_size t" "0 < lh_size t" "int (lh_size t) \<le> INT_MAX"
    "lseg (lh_tab t) None (lh_head t) ord (lh_tail t) None"
    "distinct ord" "set ord = used (lh_tab t)" "lh_count t = int (length ord)"
    "\<And>i. i \<in> set ord \<Longrightarrow> reaches t (lh_home t (the_key (ent_k (lh_tab t ! i)))) i"
    "lh_equal_fn t = (\<lambda>a b. a = b)"
  using assms unfolding lh_rep_def by auto

text \<open>The abstraction: the pairs in chain order.\<close>

definition items_at :: "('k, 'v) lh_entry list \<Rightarrow> nat list \<Rightarrow> ('k \<times> 'v option) list" where
  "items_at tab ord = map (\<lambda>i. (the_key (ent_k (tab ! i)), ent_v (tab ! i))) ord"

definition lh_items :: "('k, 'v) lh_table \<Rightarrow> ('k \<times> 'v option) list" where
  "lh_items t = (case lh_foreach t of None \<Rightarrow> [] | Some ord \<Rightarrow> items_at (lh_tab t) ord)"

definition lh_inv :: "('k, 'v) lh_table \<Rightarrow> bool" where
  "lh_inv t \<longleftrightarrow> (\<exists>ord. lh_rep t ord) \<and> distinct (map fst (lh_items t))"

lemma used_card: "finite (used tab)" "card (used tab) \<le> length tab"
proof -
  have "used tab \<subseteq> {..<length tab}" by (auto simp: used_def)
  then show "finite (used tab)" "card (used tab) \<le> length tab"
    by (auto intro: finite_subset dest: card_mono [rotated])
qed

lemma lh_rep_length_ord: "lh_rep t ord \<Longrightarrow> length ord \<le> lh_size t"
  using used_card(2) [of "lh_tab t"] by (auto simp: lh_rep_def dest: distinct_card [symmetric])

lemma lh_rep_foreach: "lh_rep t ord \<Longrightarrow> lh_foreach t = Some ord"
  using lseg_chain [of "lh_tab t" None "lh_head t" ord "lh_tail t" "length (lh_tab t)"]
    lh_rep_length_ord [of t ord]
  by (simp add: lh_foreach_def lh_rep_def)

lemma lh_rep_items: "lh_rep t ord \<Longrightarrow> lh_items t = items_at (lh_tab t) ord"
  by (simp add: lh_items_def lh_rep_foreach)

lemma lh_home_less: "0 < lh_size t \<Longrightarrow> lh_home t k < lh_size t"
  by (simp add: lh_home_def nat_less_iff)

section \<open>Probing\<close>

lemma next_slot_mod: "0 < sz \<Longrightarrow> next_slot sz ((h + c) mod sz) = (h + Suc c) mod sz"
  by (simp add: next_slot_def mod_Suc)

lemma slot_offset: "h < sz \<Longrightarrow> i < sz \<Longrightarrow> \<exists>m < sz. (h + m) mod sz = (i :: nat)"
proof (cases "h \<le> i")
  case True
  assume "h < sz" "i < sz"
  with True show ?thesis by (intro exI [of _ "i - h"]) auto
next
  case False
  assume "h < sz" "i < sz"
  with False show ?thesis by (intro exI [of _ "i + sz - h"]) auto
qed

lemma lh_probe_sound:
  "lh_probe t k fuel n = Some (Some i) \<Longrightarrow> lh_equal_fn t = (\<lambda>a b. a = b) \<Longrightarrow>
   i < length (lh_tab t) \<and> ent_k (lh_tab t ! i) = Key k"
  by (induction fuel arbitrary: n) (auto split: if_splits lh_key.splits)

lemma lh_probe_total:
  "length (lh_tab t) = lh_size t \<Longrightarrow> 0 < lh_size t \<Longrightarrow> n < lh_size t \<Longrightarrow> lh_probe t k fuel n \<noteq> None"
  by (induction fuel arbitrary: n) (auto simp: next_slot_def split: lh_key.splits)

text \<open>A key that can be reached without passing an empty slot is found.\<close>

lemma lh_probe_complete:
  assumes "length (lh_tab t) = lh_size t" "0 < lh_size t" "lh_equal_fn t = (\<lambda>a b. a = b)"
    "c \<le> m" "m < c + fuel" "ent_k (slot_at t h m) = Key k"
    "\<And>j. c \<le> j \<Longrightarrow> j < m \<Longrightarrow> ent_k (slot_at t h j) \<noteq> LH_EMPTY"
  shows "\<exists>i. lh_probe t k fuel ((h + c) mod lh_size t) = Some (Some i)"
  using assms(4-)
proof (induction fuel arbitrary: c)
  case 0
  then show ?case by simp
next
  case (Suc fuel)
  show ?case
  proof (cases "ent_k (slot_at t h c) = Key k")
    case True
    with assms(1-3) show ?thesis by (simp add: not_le)
  next
    case False
    then have "c \<noteq> m" using Suc.prems by auto
    then have "ent_k (slot_at t h c) \<noteq> LH_EMPTY" using Suc.prems by auto
    moreover have "\<exists>i. lh_probe t k fuel ((h + Suc c) mod lh_size t) = Some (Some i)"
      by (rule Suc.IH) (use Suc.prems \<open>c \<noteq> m\<close> in auto)
    moreover have "\<not> lh_size t \<le> (h + c) mod lh_size t" using assms(2) by (simp add: not_le)
    ultimately show ?thesis
      using False assms(1-3) by (auto simp: next_slot_mod split: lh_key.split)
  qed
qed

text \<open>The probe for a free slot returns the first one on the way.\<close>

lemma lh_probe_free_spec:
  assumes "length tab = sz" "0 < sz" "c \<le> m" "m < c + fuel" "(h + m) mod sz \<notin> used tab"
  shows "\<exists>m' col'. lh_probe_free tab sz fuel ((h + c) mod sz) col = Some ((h + m') mod sz, col')
     \<and> c \<le> m' \<and> m' \<le> m \<and> (h + m') mod sz \<notin> used tab
     \<and> (\<forall>j. c \<le> j \<and> j < m' \<longrightarrow> (h + j) mod sz \<in> used tab)"
  using assms(3-)
proof (induction fuel arbitrary: c col)
  case 0
  then show ?case by simp
next
  case (Suc fuel)
  have in_used: "(h + j) mod sz \<in> used tab
      \<longleftrightarrow> \<not> (ent_k (tab ! ((h + j) mod sz)) = LH_EMPTY \<or> ent_k (tab ! ((h + j) mod sz)) = LH_FREED)" for j
    using assms(1,2) by (cases "ent_k (tab ! ((h + j) mod sz))") (auto simp: used_def)
  show ?case
  proof (cases "(h + c) mod sz \<in> used tab")
    case False
    then have "lh_probe_free tab sz (Suc fuel) ((h + c) mod sz) col = Some ((h + c) mod sz, col)"
      using assms(1,2) in_used [of c] by (simp add: not_le)
    then show ?thesis using False Suc.prems by (intro exI [of _ c]) auto
  next
    case True
    then have "c \<noteq> m" using Suc.prems by auto
    then have "\<exists>m' col'. lh_probe_free tab sz fuel ((h + Suc c) mod sz) (col + 1) = Some ((h + m') mod sz, col')
       \<and> Suc c \<le> m' \<and> m' \<le> m \<and> (h + m') mod sz \<notin> used tab
       \<and> (\<forall>j. Suc c \<le> j \<and> j < m' \<longrightarrow> (h + j) mod sz \<in> used tab)"
      by (intro Suc.IH) (use Suc.prems in auto)
    then obtain m' col' where
      m': "lh_probe_free tab sz fuel ((h + Suc c) mod sz) (col + 1) = Some ((h + m') mod sz, col')"
        "Suc c \<le> m'" "m' \<le> m" "(h + m') mod sz \<notin> used tab"
        "\<forall>j. Suc c \<le> j \<and> j < m' \<longrightarrow> (h + j) mod sz \<in> used tab"
      by blast
    have "lh_probe_free tab sz (Suc fuel) ((h + c) mod sz) col = Some ((h + m') mod sz, col')"
      using True assms(1,2) in_used [of c] m'(1) by (simp add: next_slot_mod not_le)
    moreover have "(h + j) mod sz \<in> used tab" if "c \<le> j" "j < m'" for j
      using m'(5) True that by (cases "j = c") auto
    ultimately show ?thesis using m' by (intro exI [of _ m'] exI [of _ col']) auto
  qed
qed

section \<open>Lookup\<close>

text \<open>Bumping the lookup counter does not change the representation.\<close>

lemma lh_rep_lookups [simp]: "lh_rep (t\<lparr>lh_lookups := n\<rparr>) ord = lh_rep t ord"
  by (simp add: lh_rep_def reaches_def lh_home_def)

lemma lh_rep_inserts [simp]: "lh_rep (t\<lparr>lh_inserts := n\<rparr>) ord = lh_rep t ord"
  by (simp add: lh_rep_def reaches_def lh_home_def)

lemma lh_items_lookups [simp]: "lh_items (t\<lparr>lh_lookups := n\<rparr>) = lh_items t"
  by (simp add: lh_items_def lh_foreach_def split: option.split)

lemma lh_items_inserts [simp]: "lh_items (t\<lparr>lh_inserts := n\<rparr>) = lh_items t"
  by (simp add: lh_items_def lh_foreach_def split: option.split)

lemma lh_inv_lookups [simp]: "lh_inv (t\<lparr>lh_lookups := n\<rparr>) = lh_inv t"
  by (simp add: lh_inv_def)

lemma lh_probe_lookups [simp]: "lh_probe (t\<lparr>lh_lookups := n\<rparr>) k fuel m = lh_probe t k fuel m"
  by (induction fuel arbitrary: m) (auto split: lh_key.split)

lemma lh_lookup_entry_rep:
  assumes rep: "lh_rep t ord"
  shows "\<exists>r. lh_table_lookup_entry t k = Some (r, t\<lparr>lh_lookups := lh_lookups t + 1\<rparr>)
     \<and> (\<forall>i. r = Some i \<longrightarrow> i \<in> set ord \<and> ent_k (lh_tab t ! i) = Key k)
     \<and> (r = None \<longrightarrow> k \<notin> fst ` set (items_at (lh_tab t) ord))"
proof -
  note d = lh_repD [OF rep]
  let ?t = "t\<lparr>lh_lookups := lh_lookups t + 1\<rparr>"
  let ?h = "lh_home t k"
  have h: "lh_home ?t k = ?h" by (simp add: lh_home_def)
  obtain r where r: "lh_probe t k (lh_size t) ?h = Some r"
    using lh_probe_total [OF d(1,2) lh_home_less [OF d(2)]] by blast
  have e: "lh_table_lookup_entry t k = Some (r, ?t)"
    using d(2) r h by (simp add: lh_table_lookup_entry_def Let_def)
  have some: "i \<in> set ord \<and> ent_k (lh_tab t ! i) = Key k" if "r = Some i" for i
  proof -
    from r that have "lh_probe t k (lh_size t) ?h = Some (Some i)" by simp
    from lh_probe_sound [OF this d(9)] show ?thesis unfolding d(6) used_def by blast
  qed
  have none: "k \<notin> fst ` set (items_at (lh_tab t) ord)" if "r = None"
  proof
    assume "k \<in> fst ` set (items_at (lh_tab t) ord)"
    then obtain i where i: "i \<in> set ord" "the_key (ent_k (lh_tab t ! i)) = k"
      by (auto simp: items_at_def)
    from i(1) obtain k' where "ent_k (lh_tab t ! i) = Key k'" unfolding d(6) used_def by blast
    with i(2) have k: "ent_k (lh_tab t ! i) = Key k" by simp
    from d(8) [OF i(1)] obtain m where m: "m < lh_size t" "i = (?h + m) mod lh_size t"
      "\<forall>j < m. ent_k (slot_at t ?h j) \<noteq> LH_EMPTY" unfolding reaches_def i(2) by blast
    have "\<exists>i. lh_probe t k (lh_size t) ((?h + 0) mod lh_size t) = Some (Some i)"
      by (rule lh_probe_complete [OF d(1,2,9), of 0 m]) (use m k in auto)
    with r that lh_home_less [OF d(2), of k] show False by simp
  qed
  show ?thesis using e some none by blast
qed

section \<open>Insertion\<close>

lemma upd_entry_in [simp]: "i < length tab \<Longrightarrow> upd_entry tab i f = Some (tab[i := f (tab ! i)])"
  by (simp add: upd_entry_def)

lemma entry_overwrite [simp]:
  fixes e :: "('k, 'v) lh_entry"
  shows "e\<lparr>ent_k := a, ent_v := b, ent_next := c, ent_prev := d\<rparr>
    = \<lparr>ent_k = a, ent_v = b, ent_next = c, ent_prev = d\<rparr>"
  by (cases e) simp

lemma used_update_key:
  "n < length tab \<Longrightarrow> ent_k e = Key k \<Longrightarrow> used (tab[n := e]) = insert n (used tab)"
  by (auto simp: used_def nth_list_update)

lemma used_update_same:
  "n < length tab \<Longrightarrow> ent_k e = ent_k (tab ! n) \<Longrightarrow> used (tab[n := e]) = used tab"
  by (auto simp: used_def nth_list_update)

text \<open>
  A table that differs from another only in slot \<open>n\<close>, which holds a key that was not
  there, and in links: its slots stay reachable.
\<close>

lemma reaches_mono:
  assumes "reaches t h i" "lh_size t' = lh_size t" "length (lh_tab t) = lh_size t"
    and "\<And>j. j < lh_size t \<Longrightarrow> ent_k (lh_tab t' ! j) = LH_EMPTY \<Longrightarrow> ent_k (lh_tab t ! j) = LH_EMPTY"
  shows "reaches t' h i"
proof -
  from assms(1) obtain m where m: "m < lh_size t" "i = (h + m) mod lh_size t"
    "\<forall>j < m. ent_k (slot_at t h j) \<noteq> LH_EMPTY" by (auto simp: reaches_def)
  then have "ent_k (slot_at t' h j) \<noteq> LH_EMPTY" if "j < m" for j
    using assms(2) assms(4) [of "(h + j) mod lh_size t"] that by auto
  with m assms(2) show ?thesis by (auto simp: reaches_def)
qed

text \<open>The array after the entry \<open>(k, v)\<close> was put in slot \<open>n\<close> and linked at the end of the chain.\<close>

definition linked_tab :: "('k, 'v) lh_entry list \<Rightarrow> nat option \<Rightarrow> nat \<Rightarrow> 'k \<Rightarrow> 'v option
    \<Rightarrow> ('k, 'v) lh_entry list" where
  "linked_tab tab tle n k v =
     (case tle of None \<Rightarrow> tab | Some l \<Rightarrow> tab[l := (tab ! l)\<lparr>ent_next := Some n\<rparr>])
       [n := \<lparr>ent_k = Key k, ent_v = v, ent_next = None, ent_prev = tle\<rparr>]"

lemma linked_tab_nth:
  assumes "n < length tab" "i < length tab" "tle \<noteq> Some n"
  shows "linked_tab tab tle n k v ! i =
    (if i = n then \<lparr>ent_k = Key k, ent_v = v, ent_next = None, ent_prev = tle\<rparr>
     else if tle = Some i then (tab ! i)\<lparr>ent_next := Some n\<rparr> else tab ! i)"
  using assms by (auto simp: linked_tab_def nth_list_update split: option.split)

lemma linked_tab_length [simp]: "length (linked_tab tab tle n k v) = length tab"
  by (simp add: linked_tab_def split: option.split)

lemma lseg_linked_tab:
  assumes seg: "lseg tab None hde ord tle None" and n: "n < length tab" "n \<notin> set ord"
    and d: "distinct ord"
  shows "lseg (linked_tab tab tle n k v) None (if ord = [] then Some n else hde) (ord @ [n]) (Some n) None"
proof (cases ord rule: rev_cases)
  case Nil
  with seg have "tle = None" by simp
  with Nil n show ?thesis by (simp add: linked_tab_nth)
next
  case (snoc xs l)
  let ?tab = "linked_tab tab tle n k v"
  from seg snoc have tle: "tle = Some l" and l: "l < length tab" "ent_next (tab ! l) = None"
    and xs: "lseg tab None hde xs (ent_prev (tab ! l)) (Some l)"
    by (auto simp: lseg_snoc)
  have "lseg ?tab None hde xs (ent_prev (tab ! l)) (Some l)"
    using xs lseg_bound [OF xs] n d snoc tle
    by (subst lseg_cong) (auto simp: linked_tab_nth)
  moreover have "?tab ! l = (tab ! l)\<lparr>ent_next := Some n\<rparr>"
    "?tab ! n = \<lparr>ent_k = Key k, ent_v = v, ent_next = None, ent_prev = Some l\<rparr>"
    using n l snoc tle by (auto simp: linked_tab_nth)
  ultimately show ?thesis
    using snoc l n by (auto simp: lseg_append)
qed

lemma lh_place_eq:
  assumes probe: "lh_probe_free (lh_tab t) (lh_size t) (lh_size t) (lh_home t k) (lh_collisions t)
      = Some (n, col)"
    and n: "n < length (lh_tab t)" "lh_size t \<noteq> 0"
    and seg: "lseg (lh_tab t) None (lh_head t) ord (lh_tail t) None" "n \<notin> set ord"
  shows "lh_place t k v = Some (t\<lparr>lh_collisions := col, lh_count := lh_count t + 1,
     lh_tab := linked_tab (lh_tab t) (lh_tail t) n k v,
     lh_head := (if ord = [] then Some n else lh_head t), lh_tail := Some n\<rparr>)"
proof (cases ord rule: rev_cases)
  case Nil
  with seg have "lh_head t = None" "lh_tail t = None" by auto
  with probe n Nil show ?thesis
    by (simp add: lh_place_def Let_def linked_tab_def)
next
  case (snoc xs l)
  with seg have tle: "lh_tail t = Some l" and l: "l < length (lh_tab t)" and nl: "l \<noteq> n"
    by (auto simp: lseg_snoc)
  from seg(1) snoc tle obtain h0 where hde: "lh_head t = Some h0" by (cases xs) auto
  show ?thesis
    using probe n tle l nl hde snoc
    by (simp add: lh_place_def Let_def linked_tab_def list_update_swap [OF nl])
qed

text \<open>A table that is not full has a free slot on the way from any home slot.\<close>

lemma lh_free_slot:
  assumes rep: "lh_rep t ord" and room: "length ord < lh_size t"
  shows "\<exists>n col. lh_probe_free (lh_tab t) (lh_size t) (lh_size t) (lh_home t k) (lh_collisions t)
       = Some (n, col) \<and> n < length (lh_tab t) \<and> n \<notin> used (lh_tab t) \<and> reaches t (lh_home t k) n"
proof -
  note d = lh_repD [OF rep]
  let ?h = "lh_home t k" and ?tab = "lh_tab t"
  have "card (used ?tab) < card {..<lh_size t}"
    using room d(5,6) by (metis card_lessThan distinct_card)
  then obtain i where i: "i < lh_size t" "i \<notin> used ?tab"
    by (metis card_mono lessThan_iff not_le subsetI used_card(1))
  then obtain m where m: "m < lh_size t" "(?h + m) mod lh_size t = i"
    using slot_offset [OF lh_home_less [OF d(2)] i(1)] by blast
  have "\<exists>m' col'. lh_probe_free ?tab (lh_size t) (lh_size t) ((?h + 0) mod lh_size t) (lh_collisions t)
       = Some ((?h + m') mod lh_size t, col')
     \<and> 0 \<le> m' \<and> m' \<le> m \<and> (?h + m') mod lh_size t \<notin> used ?tab
     \<and> (\<forall>j. 0 \<le> j \<and> j < m' \<longrightarrow> (?h + j) mod lh_size t \<in> used ?tab)"
    by (rule lh_probe_free_spec [OF d(1,2)]) (use m i in auto)
  then obtain m' col where p: "lh_probe_free ?tab (lh_size t) (lh_size t) ?h (lh_collisions t)
       = Some ((?h + m') mod lh_size t, col)" "m' \<le> m" "(?h + m') mod lh_size t \<notin> used ?tab"
     "\<And>j. j < m' \<Longrightarrow> (?h + j) mod lh_size t \<in> used ?tab"
    using lh_home_less [OF d(2), of k] by auto
  have "ent_k (slot_at t ?h j) \<noteq> LH_EMPTY" if "j < m'" for j
    using p(4) [OF that] by (auto simp: used_def)
  then have "reaches t ?h ((?h + m') mod lh_size t)"
    unfolding reaches_def using p(2) m(1) by (intro exI [of _ m']) auto
  with p(1,3) d(1,2) show ?thesis by auto
qed

text \<open>Filling a free slot that its key reaches, and linking it at the end, keeps the invariant.\<close>

lemma linked_tab_key_val:
  assumes "n < length tab" "j < length tab" "tle \<noteq> Some n"
  shows "ent_k (linked_tab tab tle n k v ! j) = (if j = n then Key k else ent_k (tab ! j))"
    and "ent_v (linked_tab tab tle n k v ! j) = (if j = n then v else ent_v (tab ! j))"
  using linked_tab_nth [OF assms, of k v] by auto

lemma lh_tail_not_free:
  assumes rep: "lh_rep t ord" and n: "n \<notin> used (lh_tab t)"
  shows "lh_tail t \<noteq> Some n"
proof -
  note d = lh_repD [OF rep]
  show ?thesis
  proof (cases "ord = []")
    case True
    then show ?thesis using d(4) by auto
  next
    case False
    then show ?thesis using lseg_end [OF d(4) False] n d(6) last_in_set [OF False] by auto
  qed
qed

lemma lh_rep_link:
  fixes v :: "'v option" and col :: "32 word"
  assumes rep: "lh_rep t ord" and n: "n < length (lh_tab t)" "n \<notin> used (lh_tab t)"
    and reach: "reaches t (lh_home t k) n"
  defines "t' \<equiv> t\<lparr>lh_collisions := col, lh_count := lh_count t + 1,
     lh_tab := linked_tab (lh_tab t) (lh_tail t) n k v,
     lh_head := (if ord = [] then Some n else lh_head t), lh_tail := Some n\<rparr>"
  shows "lh_rep t' (ord @ [n])"
proof -
  note d = lh_repD [OF rep]
  let ?tab = "lh_tab t"
  note tail = lh_tail_not_free [OF rep n(2)]
  note key = linked_tab_key_val(1) [OF n(1) _ tail]
  have home: "lh_home t' x = lh_home t x" for x by (simp add: lh_home_def t'_def)
  have reach_old: "reaches t' h j" if "reaches t h j" for h j
    by (rule reaches_mono [OF that _ d(1)]) (use key d(1) in \<open>auto simp: t'_def split: if_splits\<close>)
  have keys: "ent_k (lh_tab t' ! j) = (if j = n then Key k else ent_k (?tab ! j))"
    if "j < length ?tab" for j
    using key [OF that] by (simp add: t'_def)
  show ?thesis
    unfolding lh_rep_def
  proof (intro conjI ballI)
    show "lseg (lh_tab t') None (lh_head t') (ord @ [n]) (lh_tail t') None"
      using lseg_linked_tab [OF d(4) n(1) _ d(5), of k v] n(2) d(6) by (simp add: t'_def)
    show "distinct (ord @ [n])" using d(5,6) n(2) by simp
    show "set (ord @ [n]) = used (lh_tab t')"
      using d(6) n keys by (auto simp: used_def t'_def)
    show "lh_count t' = int (length (ord @ [n]))" using d(7) by (simp add: t'_def)
    fix j assume j: "j \<in> set (ord @ [n])"
    show "reaches t' (lh_home t' (the_key (ent_k (lh_tab t' ! j)))) j"
    proof (cases "j = n")
      case True
      then show ?thesis using reach_old [OF reach] keys [OF n(1)] by (simp add: home)
    next
      case False
      with j have j': "j \<in> set ord" by simp
      show ?thesis
        using reach_old [OF d(8) [OF j']] keys [OF lseg_bound [OF d(4) j']] False
        by (simp add: home)
    qed
  qed (use d in \<open>simp_all add: t'_def\<close>)
qed

text \<open>
  Placing: a well-formed table that is not full gets the pair at the end of its chain.
\<close>

lemma lh_place_spec:
  assumes rep: "lh_rep t ord" and room: "length ord < lh_size t"
  shows "\<exists>t' n. lh_place t k v = Some t' \<and> lh_rep t' (ord @ [n])
     \<and> items_at (lh_tab t') (ord @ [n]) = items_at (lh_tab t) ord @ [(k, v)]
     \<and> lh_size t' = lh_size t \<and> lh_hash_fn t' = lh_hash_fn t"
proof -
  note d = lh_repD [OF rep]
  from lh_free_slot [OF assms, of k] obtain n col where
    p: "lh_probe_free (lh_tab t) (lh_size t) (lh_size t) (lh_home t k) (lh_collisions t) = Some (n, col)"
    and n: "n < length (lh_tab t)" "n \<notin> used (lh_tab t)" and r: "reaches t (lh_home t k) n"
    by blast
  note tail = lh_tail_not_free [OF rep n(2)]
  have no: "n \<notin> set ord" using n(2) d(6) by simp
  note place = lh_place_eq [OF p n(1) _ d(4) no, of v]
  note kv = linked_tab_key_val [OF n(1) _ tail, of _ k v]
  have "items_at (linked_tab (lh_tab t) (lh_tail t) n k v) (ord @ [n])
      = items_at (lh_tab t) ord @ [(k, v)]"
    using kv lseg_bound [OF d(4)] n(1) no by (auto simp: items_at_def)
  then show ?thesis
    using place d(2) lh_rep_link [OF rep n r, of v col] by auto
qed

text \<open>A new table is empty and well-formed.\<close>

lemma lh_table_new_spec:
  assumes "lh_table_new mal sz h (\<lambda>a b. a = b) = Some t" "0 < sz" "int sz \<le> INT_MAX"
  shows "lh_rep t []" "lh_items t = []" "lh_size t = sz" "lh_hash_fn t = h"
proof -
  show rep: "lh_rep t []"
    using assms by (auto simp: lh_table_new_def lh_rep_def used_def empty_entry_def)
  show "lh_items t = []" using lh_rep_items [OF rep] by (simp add: items_at_def)
  show "lh_size t = sz" "lh_hash_fn t = h" using assms(1) by (auto simp: lh_table_new_def)
qed

text \<open>Insertion into a table below the load factor.\<close>

lemma lh_insert_with_light:
  assumes rep: "lh_rep t ord" and light: "\<not> lh_overloaded t"
  shows "\<exists>t' n. lh_insert_with rs t k v = Some t' \<and> lh_rep t' (ord @ [n])
     \<and> items_at (lh_tab t') (ord @ [n]) = items_at (lh_tab t) ord @ [(k, v)]
     \<and> lh_size t' = lh_size t \<and> lh_hash_fn t' = lh_hash_fn t"
proof -
  let ?t = "t\<lparr>lh_inserts := lh_inserts t + 1\<rparr>"
  have "lh_rep ?t ord" using rep by simp
  moreover have "length ord < lh_size ?t"
    using light lh_repD(2,7) [OF rep] by (simp add: lh_overloaded_def)
  ultimately show ?thesis
    using lh_place_spec [of ?t ord k v] light
    by (simp add: lh_insert_with_def Let_def lh_overloaded_def)
qed

text \<open>
  Copying the chain into a fresh table of at least twice the size: no nested insertion is over
  the load factor, and the pairs arrive in the same order.
\<close>

lemma lh_copy_spec:
  assumes rep: "lh_rep t ord" and new: "lh_rep nt []" "lh_size nt \<ge> 2 * lh_size t"
    and ins: "ins = lh_insert_with rs"
  shows "\<exists>nt' ord'. ofold (lh_copy_entry ins (lh_tab t)) ord nt = Some nt' \<and> lh_rep nt' ord'
     \<and> items_at (lh_tab nt') ord' = items_at (lh_tab t) ord
     \<and> lh_size nt' = lh_size nt \<and> lh_hash_fn nt' = lh_hash_fn nt"
proof -
  note d = lh_repD [OF rep]
  let ?I = "\<lambda>done s. \<exists>ord'. lh_rep s ord' \<and> items_at (lh_tab s) ord' = items_at (lh_tab t) done
     \<and> lh_size s = lh_size nt \<and> lh_hash_fn s = lh_hash_fn nt"
  have "\<exists>s'. ofold (lh_copy_entry ins (lh_tab t)) ord nt = Some s' \<and> ?I ord s'"
  proof (rule ofold_inv)
    show "?I [] nt" using new(1) by (auto simp: items_at_def)
  next
    fix ys i zs s assume split: "ord = ys @ i # zs" and "?I ys s"
    then obtain o' where o': "lh_rep s o'" "items_at (lh_tab s) o' = items_at (lh_tab t) ys"
      "lh_size s = lh_size nt" "lh_hash_fn s = lh_hash_fn nt" by blast
    have "i \<in> used (lh_tab t)" using split d(6) by auto
    then obtain k where k: "ent_k (lh_tab t ! i) = Key k" by (auto simp: used_def)
    from o'(2) have "length o' = length ys" by (metis items_at_def length_map)
    then have "lh_count s = int (length ys)" using lh_repD(7) [OF o'(1)] by simp
    moreover have "length ys < lh_size t"
      using split lh_rep_length_ord [OF rep] by simp
    ultimately have light: "\<not> lh_overloaded s"
      using new(2) o'(3) by (simp add: lh_overloaded_def)
    from lh_insert_with_light [OF o'(1) light, of rs k "ent_v (lh_tab t ! i)"]
    obtain s' n where s': "ins s k (ent_v (lh_tab t ! i)) = Some s'" "lh_rep s' (o' @ [n])"
      "items_at (lh_tab s') (o' @ [n]) = items_at (lh_tab s) o' @ [(k, ent_v (lh_tab t ! i))]"
      "lh_size s' = lh_size s" "lh_hash_fn s' = lh_hash_fn s"
      unfolding ins by blast
    have "lh_copy_entry ins (lh_tab t) i s = Some s'"
      using s'(1) k by (simp add: lh_copy_entry_def)
    moreover have "?I (ys @ [i]) s'"
    proof (intro exI conjI)
      show "items_at (lh_tab s') (o' @ [n]) = items_at (lh_tab t) (ys @ [i])"
        unfolding s'(3) o'(2) by (simp add: items_at_def k)
    qed (use s' o' in simp_all)
    ultimately show "\<exists>s'. lh_copy_entry ins (lh_tab t) i s = Some s' \<and> ?I (ys @ [i]) s'" by blast
  qed
  then show ?thesis by blast
qed

lemma lh_resize_with_spec:
  fixes t :: "('a, 'b) lh_table"
  assumes rep: "lh_rep t ord" and sz: "2 * lh_size t \<le> ns" "int ns \<le> INT_MAX"
    and mal: "\<And>n. mal n" and ins: "ins = lh_insert_with rs"
  shows "\<exists>t' ord'. lh_resize_with mal ins t ns = Some t' \<and> lh_rep t' ord'
     \<and> items_at (lh_tab t') ord' = items_at (lh_tab t) ord
     \<and> lh_size t' = ns \<and> lh_hash_fn t' = lh_hash_fn t"
proof -
  note d = lh_repD [OF rep]
  obtain nt :: "('a, 'b) lh_table" where nt: "lh_table_new mal ns (lh_hash_fn t) (\<lambda>a b. a = b) = Some nt"
    using mal by (auto simp: lh_table_new_def)
  have "0 < ns" using d(2) sz(1) by simp
  note new = lh_table_new_spec [OF nt this sz(2)]
  obtain nt' ord' where c: "ofold (lh_copy_entry ins (lh_tab t)) ord nt = Some nt'" "lh_rep nt' ord'"
    "items_at (lh_tab nt') ord' = items_at (lh_tab t) ord"
    "lh_size nt' = ns" "lh_hash_fn nt' = lh_hash_fn t"
    using lh_copy_spec [OF rep new(1) _ ins] new(3,4) sz(1) by auto
  define t' where "t' = t\<lparr>lh_tab := lh_tab nt', lh_size := ns, lh_head := lh_head nt',
     lh_tail := lh_tail nt', lh_resizes := lh_resizes t + 1\<rparr>"
  have eq: "lh_resize_with mal ins t ns = Some t'"
    using nt c(1) d(9) lh_rep_foreach [OF rep] by (simp add: lh_resize_with_def t'_def)
  from c(3) have len: "length ord' = length ord" by (metis items_at_def length_map)
  note e = lh_repD [OF c(2)]
  have home: "lh_home t' k = lh_home nt' k" for k using c(4,5) by (simp add: lh_home_def t'_def)
  have "reaches t' h i = reaches nt' h i" for h i using c(4) by (simp add: reaches_def t'_def)
  then have "lh_rep t' ord'"
    unfolding lh_rep_def using e d c(4) len home by (simp add: t'_def)
  then show ?thesis using eq c(3) by (auto simp: t'_def)
qed

text \<open>
  Insertion in general.  One level of nesting is enough: the deeper levels are never reached.
\<close>

lemma lh_insert_d_spec:
  fixes t :: "('a, 'b) lh_table"
  assumes rep: "lh_rep t ord" and sz: "2 * int (lh_size t) \<le> INT_MAX" and mal: "\<And>n. mal n"
  shows "\<exists>t' ord'. lh_insert_d mal (Suc dpth) t k v = Some t' \<and> lh_rep t' ord'
     \<and> items_at (lh_tab t') ord' = items_at (lh_tab t) ord @ [(k, v)]
     \<and> lh_hash_fn t' = lh_hash_fn t
     \<and> lh_size t' = (if lh_overloaded t then 2 * lh_size t else lh_size t)"
proof (cases "lh_overloaded t")
  case False
  from lh_insert_with_light [OF rep False, of "lh_resize_with mal (lh_insert_d mal dpth)" k v]
  show ?thesis using False by auto
next
  case True
  let ?t = "t\<lparr>lh_inserts := lh_inserts t + 1\<rparr>"
  obtain rs :: "('a, 'b) lh_table \<Rightarrow> nat \<Rightarrow> ('a, 'b) lh_table option"
    where rs: "lh_insert_d mal dpth = lh_insert_with rs" by (cases dpth) auto
  have rep': "lh_rep ?t ord" using rep by simp
  have sz': "int (2 * lh_size t) \<le> INT_MAX" using sz by simp
  from lh_resize_with_spec [where mal = mal, OF rep' _ sz' mal rs]
  obtain u ordu where u: "lh_resize_with mal (lh_insert_d mal dpth) ?t (2 * lh_size t) = Some u"
    "lh_rep u ordu" "items_at (lh_tab u) ordu = items_at (lh_tab t) ord"
    "lh_size u = 2 * lh_size t" "lh_hash_fn u = lh_hash_fn t" by auto
  from u(3) have "length ordu = length ord" by (metis items_at_def length_map)
  then have "length ordu < lh_size u"
    using lh_rep_length_ord [OF rep] lh_repD(2) [OF rep] u(4) by simp
  from lh_place_spec [OF u(2) this, of k v]
  obtain t' n where "lh_place u k v = Some t'" "lh_rep t' (ordu @ [n])"
    "items_at (lh_tab t') (ordu @ [n]) = items_at (lh_tab t) ord @ [(k, v)]"
    "lh_size t' = 2 * lh_size t" "lh_hash_fn t' = lh_hash_fn t"
    using u by auto
  moreover have "lh_insert_d mal (Suc dpth) t k v = lh_place u k v"
    using True u(1) sz by (simp add: lh_insert_with_def Let_def lh_overloaded_def c_int_ok_def mult.commute)
  ultimately show ?thesis using True by auto
qed

section \<open>Removal\<close>

lemma lseg_frame:
  "i \<notin> set is \<Longrightarrow> lseg (tab[i := e]) p h is p' h' = lseg tab p h is p' h'"
  by (rule lseg_cong) (simp, metis nth_list_update_neq)

lemma lseg_set_prev:
  assumes "lseg tab p h (q # ys) e x" "distinct (q # ys)"
  shows "lseg (tab[q := (tab ! q)\<lparr>ent_prev := p'\<rparr>]) p' (Some q) (q # ys) e x"
proof -
  let ?tab = "tab[q := (tab ! q)\<lparr>ent_prev := p'\<rparr>]"
  have "lseg ?tab (Some q) (ent_next (tab ! q)) ys e x = lseg tab (Some q) (ent_next (tab ! q)) ys e x"
    by (rule lseg_frame) (use assms(2) in auto)
  then show ?thesis using assms by simp
qed

lemma lseg_set_next:
  assumes "lseg tab p h (xs @ [l]) e x" "distinct (xs @ [l])"
  shows "lseg (tab[l := (tab ! l)\<lparr>ent_next := y\<rparr>]) p h (xs @ [l]) (Some l) y"
proof -
  let ?tab = "tab[l := (tab ! l)\<lparr>ent_next := y\<rparr>]"
  have "lseg ?tab p h xs q r = lseg tab p h xs q r" for q r
    by (rule lseg_frame) (use assms(2) in auto)
  then show ?thesis using assms(1) by (auto simp: lseg_snoc)
qed

text \<open>
  What the four cases of unlinking have in common: the chain loses the entry, the table keeps
  its keys and values.
\<close>

definition unlinked :: "('k, 'v) lh_table \<Rightarrow> nat list \<Rightarrow> ('k, 'v) lh_table \<Rightarrow> bool" where
  "unlinked t ord t' \<longleftrightarrow>
     lseg (lh_tab t') None (lh_head t') ord (lh_tail t') None
     \<and> map ent_k (lh_tab t') = map ent_k (lh_tab t) \<and> map ent_v (lh_tab t') = map ent_v (lh_tab t)
     \<and> t' = t\<lparr>lh_tab := lh_tab t', lh_head := lh_head t', lh_tail := lh_tail t'\<rparr>"

lemma map_upd_same:
  "f e = f (xs ! i) \<Longrightarrow> map f (xs[i := e]) = map f xs"
  by (cases "i < length xs") (simp_all add: map_update list_update_same_conv list_update_beyond)

lemma lh_unlink_mid:
  assumes seg: "lseg (lh_tab t) None (lh_head t) ((xs @ [p]) @ n # q # ys) (lh_tail t) None"
    and dist: "distinct ((xs @ [p]) @ n # q # ys)"
  shows "\<exists>t'. lh_unlink t n = Some t' \<and> unlinked t ((xs @ [p]) @ q # ys) t'"
proof -
  let ?tab = "lh_tab t"
  from seg obtain a b where 1: "lseg ?tab None (lh_head t) (xs @ [p]) a b"
    and 2: "lseg ?tab a b (n # q # ys) (lh_tail t) None" by (subst (asm) lseg_append) blast
  have a: "a = Some p" and pb: "p < length ?tab" and hd: "lh_head t \<noteq> Some n"
    using 1 dist by (auto simp: lseg_snoc) (cases xs; auto)
  have b: "n < length ?tab" "ent_prev (?tab ! n) = Some p" "ent_next (?tab ! n) = Some q"
    "q < length ?tab" and 3: "lseg ?tab (Some n) (Some q) (q # ys) (lh_tail t) None"
    using 2 a by auto
  have tl: "lh_tail t \<noteq> Some n" using lseg_end [OF 3] dist by auto
  let ?t1 = "?tab[p := (?tab ! p)\<lparr>ent_next := Some q\<rparr>]"
  let ?t2 = "?t1[q := (?t1 ! q)\<lparr>ent_prev := Some p\<rparr>]"
  have ne: "p \<noteq> n" "q \<noteq> n" "p \<noteq> q" using dist by auto
  have eq: "lh_unlink t n = Some (t\<lparr>lh_tab := ?t2\<rparr>)"
    using hd tl b pb ne by (simp add: lh_unlink_def upd_entry_def)
  have "lseg ?t1 None (lh_head t) (xs @ [p]) (Some p) (Some q)"
    using lseg_set_next [OF 1] dist by simp
  then have "lseg ?t2 None (lh_head t) (xs @ [p]) (Some p) (Some q)"
    by (subst lseg_frame) (use dist in auto)
  moreover have "lseg ?t1 (Some n) (Some q) (q # ys) (lh_tail t) None"
    using 3 by (subst lseg_frame) (use dist in auto)
  then have "lseg ?t2 (Some p) (Some q) (q # ys) (lh_tail t) None"
    by (rule lseg_set_prev) (use dist in auto)
  ultimately have "lseg ?t2 None (lh_head t) ((xs @ [p]) @ q # ys) (lh_tail t) None"
    by (subst lseg_append) blast
  then have "unlinked t ((xs @ [p]) @ q # ys) (t\<lparr>lh_tab := ?t2\<rparr>)"
    unfolding unlinked_def using map_upd_same by (simp add: map_upd_same)
  with eq show ?thesis by blast
qed

lemma lh_unlink_last:
  assumes seg: "lseg (lh_tab t) None (lh_head t) ((xs @ [p]) @ [n]) (lh_tail t) None"
    and dist: "distinct ((xs @ [p]) @ [n])"
  shows "\<exists>t'. lh_unlink t n = Some t' \<and> unlinked t (xs @ [p]) t'"
proof -
  let ?tab = "lh_tab t"
  from seg have 1: "lseg ?tab None (lh_head t) (xs @ [p]) (Some p) (Some n)"
    and b: "n < length ?tab" "ent_prev (?tab ! n) = Some p" "lh_tail t = Some n"
    by (subst (asm) lseg_snoc; auto simp: lseg_snoc)+
  have pb: "p < length ?tab" and hd: "lh_head t \<noteq> Some n"
    using 1 dist by (auto simp: lseg_snoc) (cases xs; auto)
  let ?t1 = "?tab[p := (?tab ! p)\<lparr>ent_next := None\<rparr>]"
  have eq: "lh_unlink t n = Some (t\<lparr>lh_tab := ?t1, lh_tail := Some p\<rparr>)"
    using hd b pb by (simp add: lh_unlink_def upd_entry_def)
  have "lseg ?t1 None (lh_head t) (xs @ [p]) (Some p) None"
    using lseg_set_next [OF 1] dist by simp
  then have "unlinked t (xs @ [p]) (t\<lparr>lh_tab := ?t1, lh_tail := Some p\<rparr>)"
    unfolding unlinked_def by (simp add: map_upd_same)
  with eq show ?thesis by blast
qed

lemma lh_unlink_first:
  assumes seg: "lseg (lh_tab t) None (lh_head t) (n # q # ys) (lh_tail t) None"
    and dist: "distinct (n # q # ys)"
  shows "\<exists>t'. lh_unlink t n = Some t' \<and> unlinked t (q # ys) t'"
proof -
  let ?tab = "lh_tab t"
  have b: "n < length ?tab" "ent_next (?tab ! n) = Some q" "lh_head t = Some n"
    "q < length ?tab" and 3: "lseg ?tab (Some n) (Some q) (q # ys) (lh_tail t) None"
    using seg by auto
  have tl: "lh_tail t \<noteq> Some n" using lseg_end [OF 3] dist by auto
  let ?t1 = "?tab[q := (?tab ! q)\<lparr>ent_prev := None\<rparr>]"
  have eq: "lh_unlink t n = Some (t\<lparr>lh_tab := ?t1, lh_head := Some q\<rparr>)"
    using tl b by (simp add: lh_unlink_def upd_entry_def)
  have "lseg ?t1 None (Some q) (q # ys) (lh_tail t) None"
    by (rule lseg_set_prev [OF 3]) (use dist in auto)
  then have "unlinked t (q # ys) (t\<lparr>lh_tab := ?t1, lh_head := Some q\<rparr>)"
    unfolding unlinked_def by (simp add: map_upd_same del: lseg.simps)
  with eq show ?thesis by blast
qed

lemma lh_unlink_spec:
  assumes seg: "lseg (lh_tab t) None (lh_head t) (xs @ n # ys) (lh_tail t) None"
    and dist: "distinct (xs @ n # ys)"
  shows "\<exists>t'. lh_unlink t n = Some t' \<and> unlinked t (xs @ ys) t'"
proof (cases xs rule: rev_cases)
  case Nil
  show ?thesis
  proof (cases ys)
    case Nil
    with \<open>xs = []\<close> seg show ?thesis by (auto simp: lh_unlink_def unlinked_def)
  next
    case (Cons q ys')
    with \<open>xs = []\<close> seg dist lh_unlink_first [of t n q ys'] show ?thesis by simp
  qed
next
  case (snoc xs' p)
  show ?thesis
  proof (cases ys)
    case Nil
    with snoc seg dist lh_unlink_last [of t xs' p n] show ?thesis by simp
  next
    case (Cons q ys')
    with snoc seg dist lh_unlink_mid [of t xs' p n q ys'] show ?thesis by simp
  qed
qed

text \<open>Deleting a used slot leaves a tombstone and removes the pair from the list.\<close>

lemma lh_delete_entry_rep:
  assumes rep: "lh_rep t (xs @ n # ys)"
    and fr: "(case free_fn of None \<Rightarrow> Some s | Some f \<Rightarrow> f (lh_tab t ! n) s) = Some s'"
  shows "\<exists>t'. lh_table_delete_entry free_fn t (int n) s = Some (0, t', s') \<and> lh_rep t' (xs @ ys)
     \<and> items_at (lh_tab t') (xs @ ys) = items_at (lh_tab t) (xs @ ys)
     \<and> lh_size t' = lh_size t \<and> lh_hash_fn t' = lh_hash_fn t"
proof -
  note d = lh_repD [OF rep]
  have "n \<in> used (lh_tab t)" unfolding d(6) [symmetric] by simp
  then obtain k where n: "n < length (lh_tab t)" "ent_k (lh_tab t ! n) = Key k"
    by (auto simp: used_def)
  define tab1 where "tab1 = (lh_tab t)[n := (lh_tab t ! n)\<lparr>ent_v := None, ent_k := LH_FREED\<rparr>]"
  define t1 where "t1 = t\<lparr>lh_count := lh_count t - 1, lh_tab := tab1\<rparr>"
  have "lseg (lh_tab t1) None (lh_head t1) (xs @ n # ys) (lh_tail t1) None"
    using d(4) n(1) by (simp add: t1_def tab1_def) (subst lseg_cong; simp add: nth_list_update)
  from lh_unlink_spec [OF this d(5)] obtain t2 where t2: "lh_unlink t1 n = Some t2"
    and u: "unlinked t1 (xs @ ys) t2" by blast
  define t3 where "t3 = t2\<lparr>lh_tab := (lh_tab t2)[n := (lh_tab t2 ! n)\<lparr>ent_next := None, ent_prev := None\<rparr>]\<rparr>"
  have keys: "map ent_k (lh_tab t2) = map ent_k tab1" and vals: "map ent_v (lh_tab t2) = map ent_v tab1"
    and seg: "lseg (lh_tab t2) None (lh_head t2) (xs @ ys) (lh_tail t2) None"
    and frame: "t2 = t1\<lparr>lh_tab := lh_tab t2, lh_head := lh_head t2, lh_tail := lh_tail t2\<rparr>"
    using u by (auto simp: unlinked_def t1_def)
  have len: "length (lh_tab t2) = length (lh_tab t)"
    using arg_cong [OF keys, of length] by (simp add: tab1_def)
  have k3: "ent_k (lh_tab t3 ! i) = (if i = n then LH_FREED else ent_k (lh_tab t ! i))"
    "ent_v (lh_tab t3 ! i) = (if i = n then None else ent_v (lh_tab t ! i))" if "i < length (lh_tab t)" for i
    using nth_map [of i tab1 ent_k] nth_map [of i tab1 ent_v] nth_map [of i "lh_tab t2" ent_k]
      nth_map [of i "lh_tab t2" ent_v] that n(1) len
    unfolding keys [symmetric] vals [symmetric]
    by (auto simp: t3_def tab1_def nth_list_update)
  have eq: "lh_table_delete_entry free_fn t (int n) s = Some (0, t3, s')"
    using n fr t2 len
    by (cases free_fn) (simp_all add: lh_table_delete_entry_def upd_entry_def t1_def tab1_def t3_def)
  have fields: "lh_size t3 = lh_size t" "lh_hash_fn t3 = lh_hash_fn t" "lh_equal_fn t3 = lh_equal_fn t"
    "lh_count t3 = lh_count t - 1" "length (lh_tab t3) = length (lh_tab t)"
    "lh_head t3 = lh_head t2" "lh_tail t3 = lh_tail t2"
    by (subst t3_def, subst frame, simp add: t1_def len)+
  have "used (lh_tab t3) = used (lh_tab t) - {n}"
    unfolding used_def using fields(5) k3(1) n by (auto split: if_splits)
  then have set_eq: "set (xs @ ys) = used (lh_tab t3)"
    using d(5) unfolding d(6) [symmetric] by auto
  have bound: "i < length (lh_tab t)" "i \<noteq> n" if "i \<in> set (xs @ ys)" for i
    using that d(5) lseg_bound [OF d(4), of i] by auto
  have seg3: "lseg (lh_tab t3) None (lh_head t3) (xs @ ys) (lh_tail t3) None"
    using seg unfolding fields t3_def by (simp, subst lseg_frame) (use d(5) in auto)
  have reach: "reaches t3 (lh_home t3 (the_key (ent_k (lh_tab t3 ! i)))) i" if "i \<in> set (xs @ ys)" for i
  proof -
    have "reaches t (lh_home t (the_key (ent_k (lh_tab t ! i)))) i" using d(8) that by auto
    then show ?thesis
      unfolding reaches_def fields lh_home_def using k3(1) bound [OF that] d(1,2) by auto
  qed
  then have "\<forall>i \<in> set (xs @ ys). reaches t3 (lh_home t3 (the_key (ent_k (lh_tab t3 ! i)))) i" by blast
  then have "lh_rep t3 (xs @ ys)"
    unfolding lh_rep_def using seg3 set_eq d(1,2,3,5,7,9) fields by simp
  moreover have "items_at (lh_tab t3) (xs @ ys) = items_at (lh_tab t) (xs @ ys)"
    unfolding items_at_def using k3 bound by (intro map_cong) auto
  ultimately show ?thesis using eq fields by blast
qed

section \<open>The operations over the list of pairs\<close>

lemma lh_invE:
  assumes "lh_inv t"
  obtains ord where "lh_rep t ord" "lh_items t = items_at (lh_tab t) ord"
    "distinct (map fst (items_at (lh_tab t) ord))"
  using assms by (auto simp: lh_inv_def lh_rep_items)

lemma lh_invI:
  "lh_rep t ord \<Longrightarrow> distinct (map fst (items_at (lh_tab t) ord)) \<Longrightarrow>
   lh_inv t \<and> lh_items t = items_at (lh_tab t) ord"
  by (auto simp: lh_inv_def lh_rep_items)

lemma lh_inv_count: "lh_inv t \<Longrightarrow> lh_table_length t = int (length (lh_items t))"
  by (auto elim!: lh_invE simp: lh_table_length_def items_at_def dest: lh_repD(7))

lemma lh_table_insert_spec:
  assumes "lh_inv t" "2 * int (lh_size t) \<le> INT_MAX" "\<And>n. mal n" "k \<notin> fst ` set (lh_items t)"
  shows "\<exists>t'. lh_table_insert mal t k v = Some t' \<and> lh_inv t' \<and> lh_items t' = lh_items t @ [(k, v)]
     \<and> lh_hash_fn t' = lh_hash_fn t
     \<and> lh_size t' = (if lh_overloaded t then 2 * lh_size t else lh_size t)"
proof -
  from assms(1) obtain ord where ord: "lh_rep t ord" "lh_items t = items_at (lh_tab t) ord"
    "distinct (map fst (items_at (lh_tab t) ord))" by (rule lh_invE)
  from lh_insert_d_spec [OF ord(1) assms(2), of mal 30 k v] assms(3) obtain t' ord' where
    t': "lh_table_insert mal t k v = Some t'" "lh_rep t' ord'"
      "items_at (lh_tab t') ord' = items_at (lh_tab t) ord @ [(k, v)]"
      "lh_hash_fn t' = lh_hash_fn t"
      "lh_size t' = (if lh_overloaded t then 2 * lh_size t else lh_size t)"
    unfolding lh_table_insert_def by blast
  have "lh_inv t' \<and> lh_items t' = items_at (lh_tab t') ord'"
    by (rule lh_invI [OF t'(2)]) (use ord assms(4) t'(3) in \<open>auto simp: image_iff\<close>)
  with t' ord show ?thesis by auto
qed

lemma lh_table_resize_spec:
  assumes "lh_inv t" "2 * lh_size t \<le> ns" "int ns \<le> INT_MAX" "\<And>n. mal n"
  shows "\<exists>t'. lh_table_resize mal t ns = Some t' \<and> lh_inv t' \<and> lh_items t' = lh_items t
     \<and> lh_hash_fn t' = lh_hash_fn t \<and> lh_size t' = ns"
proof -
  from assms(1) obtain ord where ord: "lh_rep t ord" "lh_items t = items_at (lh_tab t) ord"
    "distinct (map fst (items_at (lh_tab t) ord))" by (rule lh_invE)
  have ins: "lh_table_insert mal = lh_insert_with (lh_resize_with mal (lh_insert_d mal 30))"
    unfolding lh_table_insert_def by (rule lh_insert_d.simps(2))
  from lh_resize_with_spec [where mal = mal, OF ord(1) assms(2-4) ins]
  obtain t' ord' where t': "lh_table_resize mal t ns = Some t'" "lh_rep t' ord'"
    "items_at (lh_tab t') ord' = items_at (lh_tab t) ord" "lh_size t' = ns"
    "lh_hash_fn t' = lh_hash_fn t"
    unfolding lh_table_resize_def by blast
  with lh_invI [OF t'(2)] ord show ?thesis by auto
qed

text \<open>The value stored with a key; a key that is absent reads as the null pointer.\<close>

definition pair_value :: "('k \<times> 'v option) list \<Rightarrow> 'k \<Rightarrow> 'v option" where
  "pair_value xs k = (case map_of xs k of None \<Rightarrow> None | Some v \<Rightarrow> v)"

lemma lh_table_lookup_ex_spec:
  assumes "lh_inv t"
  shows "lh_table_lookup_ex t k =
     Some (k \<in> fst ` set (lh_items t), pair_value (lh_items t) k, t\<lparr>lh_lookups := lh_lookups t + 1\<rparr>)"
proof -
  from assms obtain ord where ord: "lh_rep t ord" "lh_items t = items_at (lh_tab t) ord"
    "distinct (map fst (items_at (lh_tab t) ord))" by (rule lh_invE)
  from lh_lookup_entry_rep [OF ord(1), of k] obtain r where
    r: "lh_table_lookup_entry t k = Some (r, t\<lparr>lh_lookups := lh_lookups t + 1\<rparr>)"
      "\<And>i. r = Some i \<Longrightarrow> i \<in> set ord \<and> ent_k (lh_tab t ! i) = Key k"
      "r = None \<Longrightarrow> k \<notin> fst ` set (items_at (lh_tab t) ord)" by blast
  show ?thesis
  proof (cases r)
    case None
    with r(1,3) ord(2) show ?thesis
      by (simp add: lh_table_lookup_ex_def pair_value_def map_of_eq_None_iff [symmetric])
  next
    case (Some i)
    with r(2) have "(k, ent_v (lh_tab t ! i)) \<in> set (lh_items t)"
      unfolding ord(2) items_at_def by force
    with ord(2,3) have "map_of (lh_items t) k = Some (ent_v (lh_tab t ! i))"
      and "k \<in> fst ` set (lh_items t)" by (auto simp: image_iff intro!: bexI [of _ "(k, ent_v (lh_tab t ! i))"])
    with Some r(1) show ?thesis by (simp add: lh_table_lookup_ex_def pair_value_def)
  qed
qed

lemma lh_table_delete_absent:
  assumes "lh_inv t" "k \<notin> fst ` set (lh_items t)"
  shows "lh_table_delete free_fn t k s = Some (-1, t\<lparr>lh_lookups := lh_lookups t + 1\<rparr>, s)"
proof -
  from assms(1) obtain ord where ord: "lh_rep t ord" "lh_items t = items_at (lh_tab t) ord"
    by (auto elim: lh_invE)
  from lh_lookup_entry_rep [OF ord(1), of k] obtain r where
    r: "lh_table_lookup_entry t k = Some (r, t\<lparr>lh_lookups := lh_lookups t + 1\<rparr>)"
      "\<And>i. r = Some i \<Longrightarrow> i \<in> set ord \<and> ent_k (lh_tab t ! i) = Key k" by blast
  have "r = None"
    using r(2) assms(2) unfolding ord(2) items_at_def by (cases r) force+
  with r(1) show ?thesis by (simp add: lh_table_delete_def)
qed

text \<open>The list without the pair of a key.\<close>

definition drop_key :: "'k \<Rightarrow> ('k \<times> 'v) list \<Rightarrow> ('k \<times> 'v) list" where
  "drop_key k = filter (\<lambda>p. fst p \<noteq> k)"

lemma drop_key_split:
  "distinct (map fst (xs @ (k, v) # ys)) \<Longrightarrow> drop_key k (xs @ (k, v) # ys) = xs @ ys"
  by (auto simp: drop_key_def image_iff intro!: arg_cong2 [where f = "(@)"] filter_True)

lemma lh_table_delete_present:
  assumes inv: "lh_inv t" and k: "k \<in> fst ` set (lh_items t)"
    and fr: "\<And>e. ent_k e = Key k \<Longrightarrow> ent_v e = pair_value (lh_items t) k \<Longrightarrow>
      (case free_fn of None \<Rightarrow> Some s | Some f \<Rightarrow> f e s) = Some s'"
  shows "\<exists>t'. lh_table_delete free_fn t k s = Some (0, t', s') \<and> lh_inv t'
     \<and> lh_items t' = drop_key k (lh_items t)
     \<and> lh_size t' = lh_size t \<and> lh_hash_fn t' = lh_hash_fn t"
proof -
  from inv obtain ord where ord: "lh_rep t ord" "lh_items t = items_at (lh_tab t) ord"
    "distinct (map fst (items_at (lh_tab t) ord))" by (rule lh_invE)
  from lh_lookup_entry_rep [OF ord(1), of k] obtain r where
    r: "lh_table_lookup_entry t k = Some (r, t\<lparr>lh_lookups := lh_lookups t + 1\<rparr>)"
      "\<And>i. r = Some i \<Longrightarrow> i \<in> set ord \<and> ent_k (lh_tab t ! i) = Key k"
      "r = None \<Longrightarrow> k \<notin> fst ` set (items_at (lh_tab t) ord)" by blast
  with k ord(2) obtain n where n: "r = Some n" "n \<in> set ord" "ent_k (lh_tab t ! n) = Key k"
    by (cases r) auto
  then obtain xs ys where split: "ord = xs @ n # ys" by (auto dest: split_list)
  let ?t = "t\<lparr>lh_lookups := lh_lookups t + 1\<rparr>"
  have items: "lh_items t = items_at (lh_tab t) xs @ (k, ent_v (lh_tab t ! n)) # items_at (lh_tab t) ys"
    unfolding ord(2) split items_at_def by (simp add: n(3))
  have dist: "distinct (map fst (lh_items t))" using ord(2,3) by simp
  have "map_of (lh_items t) k = Some (ent_v (lh_tab t ! n))"
    using dist items by (intro map_of_is_SomeI) auto
  then have "ent_v (lh_tab t ! n) = pair_value (lh_items t) k" by (simp add: pair_value_def)
  from fr [OF n(3) this] have f: "(case free_fn of None \<Rightarrow> Some s | Some f \<Rightarrow> f (lh_tab ?t ! n) s) = Some s'"
    by (cases free_fn) auto
  have "lh_rep ?t (xs @ n # ys)" using ord(1) split by simp
  from lh_delete_entry_rep [OF this f] obtain t' where
    t': "lh_table_delete_entry free_fn ?t (int n) s = Some (0, t', s')" "lh_rep t' (xs @ ys)"
      "items_at (lh_tab t') (xs @ ys) = items_at (lh_tab t) (xs @ ys)"
      "lh_size t' = lh_size t" "lh_hash_fn t' = lh_hash_fn t" by auto
  have drop: "items_at (lh_tab t) (xs @ ys) = drop_key k (lh_items t)"
    using drop_key_split [OF dist [unfolded items]] unfolding items by (simp only: items_at_def map_append)
  have "distinct (map fst (drop_key k (lh_items t)))"
    unfolding drop_key_def using dist by (rule distinct_map_filter)
  then have "lh_inv t' \<and> lh_items t' = drop_key k (lh_items t)"
    using lh_invI [OF t'(2)] unfolding t'(3) drop by blast
  with t' r(1) n(1) show ?thesis by (simp add: lh_table_delete_def)
qed

text \<open>Freeing a table hands every pair to the destructor once, in the order of insertion.\<close>

lemma lh_table_free_spec:
  assumes inv: "lh_inv t" and f: "\<And>e s k. ent_k e = Key k \<Longrightarrow> f e s = g (k, ent_v e) s"
  shows "lh_table_free (Some f) t s = ofold g (lh_items t) s"
proof -
  from inv obtain ord where ord: "lh_rep t ord" "lh_items t = items_at (lh_tab t) ord" by (rule lh_invE)
  have step: "f (lh_tab t ! i) s = g (the_key (ent_k (lh_tab t ! i)), ent_v (lh_tab t ! i)) s"
    if "i \<in> set ord" for i s
  proof -
    from that lh_repD(6) [OF ord(1)] obtain k where "ent_k (lh_tab t ! i) = Key k" by (auto simp: used_def)
    then show ?thesis using f by simp
  qed
  have "lh_table_free (Some f) t s = ofold (\<lambda>i. f (lh_tab t ! i)) ord s"
    by (simp add: lh_table_free_def lh_rep_foreach [OF ord(1)])
  also have "\<dots> = ofold g (lh_items t) s"
    unfolding ord(2) items_at_def ofold_map by (rule ofold_cong) (rule step)
  finally show ?thesis .
qed

section \<open>The contract of an ordered dictionary\<close>

locale ordered_dict =
  fixes ok :: "nat \<Rightarrow> 't \<Rightarrow> bool"
    and pairs :: "'t \<Rightarrow> ('k \<times> 'v option) list"
    and ins :: "'t \<Rightarrow> 'k \<Rightarrow> 'v option \<Rightarrow> 't option"
    and look :: "'t \<Rightarrow> 'k \<Rightarrow> (bool \<times> 'v option \<times> 't) option"
    and del :: "'t \<Rightarrow> 'k \<Rightarrow> (int \<times> 't) option"
  assumes distinct_keys: "ok L t \<Longrightarrow> distinct (map fst (pairs t))"
    and ins_spec: "ok L t \<Longrightarrow> k \<notin> fst ` set (pairs t) \<Longrightarrow> length (pairs t) < L \<Longrightarrow>
      \<exists>t'. ins t k v = Some t' \<and> ok L t' \<and> pairs t' = pairs t @ [(k, v)]"
    and look_spec: "ok L t \<Longrightarrow> \<exists>t'. look t k
      = Some (k \<in> fst ` set (pairs t), pair_value (pairs t) k, t') \<and> ok L t' \<and> pairs t' = pairs t"
    and del_spec: "ok L t \<Longrightarrow> \<exists>t'. del t k
      = Some (if k \<in> fst ` set (pairs t) then 0 else -1, t') \<and> ok L t' \<and> pairs t' = drop_key k (pairs t)"
begin

text \<open>Fill a dictionary from a list of pairs.\<close>

primrec inserts :: "'t \<Rightarrow> ('k \<times> 'v option) list \<Rightarrow> 't option" where
  "inserts t [] = Some t"
| "inserts t (p # ps) = do { t' \<leftarrow> ins t (fst p) (snd p); inserts t' ps }"

lemma inserts_spec:
  "ok L t \<Longrightarrow> distinct (map fst (pairs t @ ps)) \<Longrightarrow> length (pairs t) + length ps \<le> L \<Longrightarrow>
   \<exists>t'. inserts t ps = Some t' \<and> ok L t' \<and> pairs t' = pairs t @ ps"
proof (induction ps arbitrary: t)
  case Nil
  then show ?case by simp
next
  case (Cons p ps)
  then have "fst p \<notin> fst ` set (pairs t)" "length (pairs t) < L" by auto
  from ins_spec [OF Cons.prems(1) this, of "snd p"] obtain u where
    u: "ins t (fst p) (snd p) = Some u" "ok L u" "pairs u = pairs t @ [p]" by auto
  from Cons.IH [OF u(2)] Cons.prems u show ?case by auto
qed

text \<open>What was inserted is found with its value, and everything else is absent.\<close>

lemma look_inserts:
  assumes "ok L t" "pairs t = []" "distinct (map fst ps)" "length ps \<le> L"
  shows "\<exists>t' u. inserts t ps = Some t' \<and> pairs t' = ps
     \<and> look t' k = Some (k \<in> fst ` set ps, pair_value ps k, u)"
proof -
  from inserts_spec [OF assms(1), of ps] assms obtain t' where
    t': "inserts t ps = Some t'" "ok L t'" "pairs t' = ps" by auto
  with look_spec [OF t'(2), of k] show ?thesis by auto
qed

text \<open>A deleted key is absent afterwards, the other keys keep their values.\<close>

lemma look_del:
  assumes "ok L t"
  shows "\<exists>c t' u. del t k = Some (c, t') \<and> look t' k' =
     Some (k' \<noteq> k \<and> k' \<in> fst ` set (pairs t), if k' = k then None else pair_value (pairs t) k', u)"
proof -
  from del_spec [OF assms, of k] obtain c t' where
    t': "del t k = Some (c, t')" "ok L t'" "pairs t' = drop_key k (pairs t)" by blast
  have "map_of (drop_key k xs) k' = (if k' = k then None else map_of xs k')" for xs :: "('k \<times> 'v option) list"
    by (induction xs) (auto simp: drop_key_def)
  then have "pair_value (pairs t') k' = (if k' = k then None else pair_value (pairs t) k')"
    by (simp add: t'(3) pair_value_def)
  moreover have "k' \<in> fst ` set (pairs t') \<longleftrightarrow> k' \<noteq> k \<and> k' \<in> fst ` set (pairs t)"
    by (auto simp: t'(3) drop_key_def)
  ultimately show ?thesis using t'(1) look_spec [OF t'(2), of k'] by auto
qed

end

text \<open>
  The hash table meets the contract for up to \<open>L\<close> pairs when \<open>L\<close> stays well below the range
  of \<open>int\<close>.
\<close>

definition lh_ok :: "nat \<Rightarrow> ('k, 'v) lh_table \<Rightarrow> bool" where
  "lh_ok L t \<longleftrightarrow> lh_inv t \<and> length (lh_items t) \<le> L \<and> lh_size t \<le> 4 * L + 32
     \<and> 8 * int L + 64 \<le> INT_MAX"

lemma lh_ok_size: "lh_ok L t \<Longrightarrow> 2 * int (lh_size t) \<le> INT_MAX"
  by (simp add: lh_ok_def)

lemma lh_ok_overloaded:
  assumes "lh_ok L t" "lh_overloaded t"
  shows "2 * lh_size t \<le> 4 * L + 32"
proof -
  from assms have "lh_count t = int (length (lh_items t))"
    using lh_inv_count by (auto simp: lh_ok_def lh_table_length_def)
  with assms show ?thesis by (simp add: lh_ok_def lh_overloaded_def)
qed

lemma lh_ok_insert:
  assumes ok: "lh_ok L t" and k: "k \<notin> fst ` set (lh_items t)" "length (lh_items t) < L"
    and mal: "\<And>n. mal n"
  shows "\<exists>t'. lh_table_insert mal t k v = Some t' \<and> lh_ok L t' \<and> lh_items t' = lh_items t @ [(k, v)]
     \<and> lh_hash_fn t' = lh_hash_fn t"
proof -
  have inv: "lh_inv t" using ok by (simp add: lh_ok_def)
  from lh_table_insert_spec [where mal = mal, OF inv lh_ok_size [OF ok] mal k(1), of v] obtain t' where
    t': "lh_table_insert mal t k v = Some t'" "lh_inv t'" "lh_items t' = lh_items t @ [(k, v)]"
      "lh_hash_fn t' = lh_hash_fn t"
      "lh_size t' = (if lh_overloaded t then 2 * lh_size t else lh_size t)" by blast
  have "lh_ok L t'"
    using t' ok k(2) lh_ok_overloaded [OF ok] by (auto simp: lh_ok_def)
  with t' show ?thesis by blast
qed

lemma lh_ok_delete:
  assumes ok: "lh_ok L t"
  shows "\<exists>t'. lh_table_delete None t k s = Some (if k \<in> fst ` set (lh_items t) then 0 else -1, t', s)
     \<and> lh_ok L t' \<and> lh_items t' = drop_key k (lh_items t)"
proof (cases "k \<in> fst ` set (lh_items t)")
  case True
  have inv: "lh_inv t" using ok by (simp add: lh_ok_def)
  from lh_table_delete_present [OF inv True, where free_fn = None and s = s and s' = s] obtain t' where
    t': "lh_table_delete None t k s = Some (0, t', s)" "lh_inv t'" "lh_items t' = drop_key k (lh_items t)"
      "lh_size t' = lh_size t" by auto
  have "length (drop_key k (lh_items t)) \<le> length (lh_items t)"
    by (simp add: drop_key_def)
  with t' True ok show ?thesis by (auto simp: lh_ok_def)
next
  case False
  have inv: "lh_inv t" using ok by (simp add: lh_ok_def)
  have "drop_key k (lh_items t) = lh_items t"
    unfolding drop_key_def using False by (auto intro!: filter_True simp: image_iff)
  with lh_table_delete_absent [OF inv False, of None s] False ok show ?thesis
    by (auto simp: lh_ok_def)
qed

text \<open>Deletion without a destructor, whose state can then be the unit.\<close>

definition lh_remove :: "('k, 'v) lh_table \<Rightarrow> 'k \<Rightarrow> (int \<times> ('k, 'v) lh_table) option" where
  "lh_remove t k = map_option (\<lambda>(c, t', _). (c, t')) (lh_table_delete None t k ())"

interpretation lh_dict: ordered_dict lh_ok lh_items "lh_table_insert (\<lambda>_. True)" lh_table_lookup_ex lh_remove
proof unfold_locales
  fix L :: nat and t :: "('k, 'v) lh_table" and k :: 'k and v :: "'v option"
  assume ok: "lh_ok L t"
  then have inv: "lh_inv t" by (simp add: lh_ok_def)
  then show "distinct (map fst (lh_items t))" by (simp add: lh_inv_def)
  show "\<exists>t'. lh_table_insert (\<lambda>_. True) t k v = Some t' \<and> lh_ok L t' \<and> lh_items t' = lh_items t @ [(k, v)]"
    if "k \<notin> fst ` set (lh_items t)" "length (lh_items t) < L"
    using lh_ok_insert [OF ok that, of "\<lambda>_. True" v] by blast
  show "\<exists>t'. lh_table_lookup_ex t k = Some (k \<in> fst ` set (lh_items t), pair_value (lh_items t) k, t')
     \<and> lh_ok L t' \<and> lh_items t' = lh_items t"
    using lh_table_lookup_ex_spec [OF inv, of k] ok by (auto simp: lh_ok_def)
  show "\<exists>t'. lh_remove t k = Some (if k \<in> fst ` set (lh_items t) then 0 else - 1, t')
     \<and> lh_ok L t' \<and> lh_items t' = drop_key k (lh_items t)"
    using lh_ok_delete [OF ok, of k "()"] by (auto simp: lh_remove_def)
qed

section \<open>Properties\<close>

lemma kchar_table_new_inv:
  assumes "0 < sz" "int sz \<le> INT_MAX"
  shows "\<exists>t :: (string, 'v) lh_table. lh_kchar_table_new (\<lambda>_. True) sz = Some t \<and> lh_inv t \<and> lh_items t = [] \<and> lh_size t = sz"
proof -
  obtain t :: "(string, 'v) lh_table" where t: "lh_kchar_table_new (\<lambda>_. True) sz = Some t"
    by (simp add: lh_kchar_table_new_def lh_table_new_def)
  then have "lh_table_new (\<lambda>_. True) sz lh_char_hash (\<lambda>a b. a = b) = Some t"
    by (simp add: lh_kchar_table_new_def lh_char_equal_def [abs_def])
  from lh_table_new_spec [OF this assms] t show ?thesis by (auto simp: lh_inv_def)
qed

text \<open>
  C26. \<open>lh_table_insert\<close> refines appending a pair: for a key that is absent, it keeps the
  invariant of the table, adds the pair at the end of the chain, and keeps every earlier pair in
  its place, whether or not the table is resized on the way; the size doubles exactly when the
  load factor was reached.
\<close>

theorem lh_table_insert_refines:
  assumes "lh_inv t" "2 * int (lh_size t) \<le> INT_MAX" "k \<notin> fst ` set (lh_items t)"
  shows "\<exists>t'. lh_table_insert (\<lambda>_. True) t k v = Some t' \<and> lh_inv t' \<and> lh_items t' = lh_items t @ [(k, v)]
     \<and> lh_table_length t' = lh_table_length t + 1
     \<and> lh_size t' = (if lh_overloaded t then 2 * lh_size t else lh_size t)"
proof -
  from lh_table_insert_spec [of t "\<lambda>_. True", OF assms(1,2) TrueI assms(3), of v] obtain t' where
    "lh_table_insert (\<lambda>_. True) t k v = Some t'" "lh_inv t'" "lh_items t' = lh_items t @ [(k, v)]"
    "lh_size t' = (if lh_overloaded t then 2 * lh_size t else lh_size t)" by blast
  with assms(1) show ?thesis by (auto simp: lh_inv_count)
qed

theorem lh_table_insert_refines_witness:
  "\<exists>t t'. lh_kchar_table_new (\<lambda>_. True) 1 = Some t \<and> lh_table_insert (\<lambda>_. True) t ''a'' (Some (1 :: nat)) = Some t'
     \<and> lh_items t' = [(''a'', Some 1)]"
proof -
  obtain t :: "(string, nat) lh_table" where
    t: "lh_kchar_table_new (\<lambda>_. True) 1 = Some t" "lh_inv t" "lh_items t = []" "lh_size t = 1"
    using kchar_table_new_inv [of 1] by auto
  from lh_table_insert_refines [OF t(2), of "''a''" "Some 1"] t show ?thesis by auto
qed

text \<open>
  C27. A table filled with \<open>lh_table_insert\<close> from a list of pairs with distinct keys answers
  \<open>lh_table_lookup_ex\<close> for every key, present or not, as the list does, and the order of the
  pairs is the order of insertion.
\<close>

theorem lh_table_lookup_inserted:
  assumes "lh_ok L t" "lh_items t = []" "distinct (map fst ps)" "length ps \<le> L"
  shows "\<exists>t'. ofold (\<lambda>(k, v) t. lh_table_insert (\<lambda>_. True) t k v) ps t = Some t' \<and> lh_items t' = ps
     \<and> (\<forall>k. \<exists>u. lh_table_lookup_ex t' k = Some (k \<in> fst ` set ps, pair_value ps k, u) \<and> lh_items u = ps)"
proof -
  have "ofold (\<lambda>(k, v) t. lh_table_insert (\<lambda>_. True) t k v) ps t = lh_dict.inserts t ps" for t
    by (induction ps arbitrary: t) (auto simp: case_prod_beta split: Option.bind_split)
  with lh_dict.inserts_spec [OF assms(1), of ps] assms(2-4) obtain t' where
    t': "ofold (\<lambda>(k, v) t. lh_table_insert (\<lambda>_. True) t k v) ps t = Some t'" "lh_ok L t'" "lh_items t' = ps" by auto
  with lh_dict.look_spec [OF t'(2)] show ?thesis by fastforce
qed

theorem lh_table_lookup_inserted_witness:
  "\<exists>t t' u. lh_kchar_table_new (\<lambda>_. True) 2 = Some t
     \<and> ofold (\<lambda>(k, v) t. lh_table_insert (\<lambda>_. True) t k v) [(''a'', Some 1), (''b'', None), (''c'', Some (3 :: nat))] t = Some t'
     \<and> lh_table_lookup_ex t' ''c'' = Some (True, Some 3, u)"
proof -
  obtain t :: "(string, nat) lh_table" where
    t: "lh_kchar_table_new (\<lambda>_. True) 2 = Some t" "lh_inv t" "lh_items t = []" "lh_size t = 2"
    using kchar_table_new_inv [of 2] by auto
  then have "lh_ok 3 t" by (simp add: lh_ok_def)
  define ps where "ps = [(''a'', Some 1), (''b'', None), (''c'', Some (3 :: nat))]"
  have "distinct (map fst ps)" "length ps \<le> 3" by (simp_all add: ps_def)
  from lh_table_lookup_inserted [OF \<open>lh_ok 3 t\<close> t(3) this] obtain t' u where
    t': "ofold (\<lambda>(k, v) t. lh_table_insert (\<lambda>_. True) t k v) ps t = Some t'"
      "lh_table_lookup_ex t' ''c'' = Some (''c'' \<in> fst ` set ps, pair_value ps ''c'', u)" by blast
  have "''c'' \<in> fst ` set ps" "pair_value ps ''c'' = Some 3" by (simp_all add: ps_def pair_value_def)
  with t(1) t' [unfolded ps_def] show ?thesis by (auto simp: ps_def)
qed

text \<open>
  C28. \<open>lh_table_delete\<close> hands the entry of the key to the destructor and removes exactly this
  pair, keeping the invariant, the order of the others and the size of the table; for a key that
  is absent it returns -1 and calls no destructor.
\<close>

theorem lh_table_delete_refines:
  assumes "lh_inv t" "\<And>e. ent_k e = Key k \<Longrightarrow> ent_v e = pair_value (lh_items t) k \<Longrightarrow> f e s = Some s'"
  shows "\<exists>t'. lh_table_delete (Some f) t k s
       = Some (if k \<in> fst ` set (lh_items t) then (0, t', s') else (-1, t', s))
     \<and> lh_inv t' \<and> lh_items t' = drop_key k (lh_items t) \<and> lh_size t' = lh_size t"
proof (cases "k \<in> fst ` set (lh_items t)")
  case True
  have "\<exists>t'. lh_table_delete (Some f) t k s = Some (0, t', s') \<and> lh_inv t'
     \<and> lh_items t' = drop_key k (lh_items t) \<and> lh_size t' = lh_size t \<and> lh_hash_fn t' = lh_hash_fn t"
    by (rule lh_table_delete_present [OF assms(1) True]) (simp add: assms(2))
  with True show ?thesis by auto
next
  case False
  then have "drop_key k (lh_items t) = lh_items t"
    unfolding drop_key_def by (auto intro!: filter_True simp: image_iff)
  with lh_table_delete_absent [OF assms(1) False, of "Some f" s] False assms(1) show ?thesis by auto
qed

theorem lh_table_delete_refines_witness:
  "\<exists>t t' t''. lh_kchar_table_new (\<lambda>_. True) 1 = Some t \<and> lh_table_insert (\<lambda>_. True) t ''a'' (Some (1 :: nat)) = Some t'
     \<and> lh_table_delete (Some (\<lambda>e s. Some (ent_v e # s))) t' ''a'' [] = Some (0, t'', [Some 1]) \<and> lh_items t'' = []"
proof -
  obtain t :: "(string, nat) lh_table" where
    t: "lh_kchar_table_new (\<lambda>_. True) 1 = Some t" "lh_inv t" "lh_items t = []" "lh_size t = 1"
    using kchar_table_new_inv [of 1] by auto
  from lh_table_insert_spec [of t "\<lambda>_. True" "''a''" "Some 1"] t obtain t' where
    t': "lh_table_insert (\<lambda>_. True) t ''a'' (Some 1) = Some t'" "lh_inv t'" "lh_items t' = [(''a'', Some 1)]" by auto
  from lh_table_delete_refines [OF t'(2), of "''a''" "\<lambda>e s. Some (ent_v e # s)" "[]" "[Some 1]"] t(1) t'
  show ?thesis by (auto simp: pair_value_def drop_key_def)
qed

text \<open>
  \<open>lh_table_resize\<close> to at least twice the size rebuilds the table with the same pairs in the
  same order: no key is lost in the rehash.
\<close>

theorem lh_table_resize_keeps:
  assumes "lh_inv t" "2 * lh_size t \<le> ns" "int ns \<le> INT_MAX"
  shows "\<exists>t'. lh_table_resize (\<lambda>_. True) t ns = Some t' \<and> lh_inv t' \<and> lh_items t' = lh_items t \<and> lh_size t' = ns"
  using lh_table_resize_spec [of t ns "\<lambda>_. True", OF assms TrueI] by blast

theorem lh_table_resize_keeps_witness:
  "\<exists>t t' t''. lh_kchar_table_new (\<lambda>_. True) 1 = Some t \<and> lh_table_insert (\<lambda>_. True) t ''a'' (Some (1 :: nat)) = Some t'
     \<and> lh_table_resize (\<lambda>_. True) t' 64 = Some t'' \<and> lh_items t'' = [(''a'', Some 1)]"
proof -
  obtain t :: "(string, nat) lh_table" where
    t: "lh_kchar_table_new (\<lambda>_. True) 1 = Some t" "lh_inv t" "lh_items t = []" "lh_size t = 1"
    using kchar_table_new_inv [of 1] by auto
  from lh_table_insert_spec [of t "\<lambda>_. True" "''a''" "Some 1"] t obtain t' where
    t': "lh_table_insert (\<lambda>_. True) t ''a'' (Some 1) = Some t'" "lh_inv t'" "lh_items t' = [(''a'', Some 1)]" "lh_size t' \<le> 2"
    by (auto split: if_splits)
  from lh_table_resize_keeps [OF t'(2), of 64] t(1) t' show ?thesis by auto
qed

text \<open>
  \<open>lh_table_free\<close> calls the destructor once for every pair, in the order of insertion, and
  for nothing else.
\<close>

theorem lh_table_free_order:
  assumes "lh_inv t"
  shows "lh_table_free (Some (\<lambda>e s. Some ((the_key (ent_k e), ent_v e) # s))) t [] = Some (rev (lh_items t))"
proof -
  have "ofold (\<lambda>kv s. Some (kv # s)) xs s = Some (rev xs @ s)" for xs :: "('a \<times> 'b option) list" and s
    by (induction xs arbitrary: s) auto
  with lh_table_free_spec [OF assms, of "\<lambda>e s. Some ((the_key (ent_k e), ent_v e) # s)" "\<lambda>kv s. Some (kv # s)"]
  show ?thesis by simp
qed

theorem lh_table_free_order_witness:
  "\<exists>t. lh_kchar_table_new (\<lambda>_. True) 1 = Some (t :: (string, nat) lh_table)
     \<and> lh_table_free (Some (\<lambda>e s. Some ((the_key (ent_k e), ent_v e) # s))) t [] = Some []"
proof -
  obtain t :: "(string, nat) lh_table" where
    t: "lh_kchar_table_new (\<lambda>_. True) 1 = Some t" "lh_inv t" "lh_items t = []"
    using kchar_table_new_inv [of 1] by auto
  from lh_table_free_order [OF t(2)] t show ?thesis by auto
qed

end
