(* ===== verification/Json_Print.thy ===== *)
theory Json_Print
  imports Json_Serializer Linkhash_Props
begin

text \<open>
  Correctness of the serialiser: for an object on the heap that denotes a JSON value, it writes
  the text that a reference printer over the value gives, whatever the flags.
\<close>

section \<open>Appending to a print buffer\<close>

text \<open>\<open>appends L f t\<close>: while the text stays within \<open>L\<close> characters, \<open>f\<close> adds \<open>t\<close> to it.\<close>

definition appends :: "nat \<Rightarrow> (printbuf \<Rightarrow> printbuf option) \<Rightarrow> string \<Rightarrow> bool" where
  "appends L f t \<longleftrightarrow> (\<forall>pb. pb_ok L pb \<and> length (pb_text pb) + length t \<le> L \<longrightarrow>
     (\<exists>pb'. f pb = Some pb' \<and> pb_ok L pb' \<and> pb_text pb' = pb_text pb @ t))"

lemma appendsI:
  "(\<And>pb. pb_ok L pb \<Longrightarrow> length (pb_text pb) + length t \<le> L \<Longrightarrow>
     \<exists>pb'. f pb = Some pb' \<and> pb_ok L pb' \<and> pb_text pb' = pb_text pb @ t) \<Longrightarrow> appends L f t"
  by (simp add: appends_def)

lemma appendsE:
  assumes "appends L f t" "pb_ok L pb" "length (pb_text pb) + length t \<le> L"
  obtains pb' where "f pb = Some pb'" "pb_ok L pb'" "pb_text pb' = pb_text pb @ t"
  using assms by (auto simp: appends_def)

named_theorems appends \<open>rules for sequences of output operations\<close>

lemma appends_skip [appends]: "appends L Some []"
  by (simp add: appends_def)

lemma appends_bind [appends]:
  assumes "appends L f s" "appends L g t"
  shows "appends L (\<lambda>pb. f pb \<bind> g) (s @ t)"
proof (rule appendsI)
  fix pb assume "pb_ok L pb" "length (pb_text pb) + length (s @ t) \<le> L"
  then obtain pb1 where 1: "f pb = Some pb1" "pb_ok L pb1" "pb_text pb1 = pb_text pb @ s"
    using assms(1) by (auto elim!: appendsE)
  moreover from 1 \<open>_ \<le> L\<close> have "length (pb_text pb1) + length t \<le> L" by simp
  with assms(2) 1(2) obtain pb2 where "g pb1 = Some pb2" "pb_ok L pb2" "pb_text pb2 = pb_text pb1 @ t"
    by (rule appendsE)
  ultimately show "\<exists>pb'. f pb \<bind> g = Some pb' \<and> pb_ok L pb' \<and> pb_text pb' = pb_text pb @ s @ t"
    by simp
qed

lemma appends_if [appends]:
  "appends L f s \<Longrightarrow> appends L g t \<Longrightarrow>
   appends L (\<lambda>pb. if b then f pb else g pb) (if b then s else t)"
  by simp

lemma appends_emit [appends]: "appends L (emit (\<lambda>_. True) s) s"
  unfolding appends_def emit_def pb_printf_def [symmetric] using pb_printf_spec by blast

lemma appends_emit_mem [appends]: "appends L (emit_mem (\<lambda>_. True) s) s"
  unfolding appends_def emit_mem_def pb_put_def [symmetric] using pb_put_spec by blast

lemma pb_memset_end:
  assumes "pb_ok L pb" "length (pb_text pb) + n \<le> L"
  shows "\<exists>pb'. printbuf_memset (\<lambda>_. True) pb (-1) c (int n) = Some (0, pb') \<and> pb_ok L pb'
     \<and> pb_text pb' = pb_text pb @ replicate n c"
proof -
  note r = pb_ok_room [OF assms]
  from printbuf_memset_spec [OF r(1), of "int n" "-1" "\<lambda>_. True" c] r obtain pb' where
    "printbuf_memset (\<lambda>_. True) pb (-1) c (int n) = Some (0, pb')" "pb_inv pb'"
    "pb_text pb' = pb_text pb @ replicate n c"
    "pb_size pb' \<le> max (pb_size pb) (2 * (pb_bpos pb + int n) + 8)"
    by auto
  then show ?thesis using assms r(4) by (auto simp: pb_ok_def)
qed

definition indent_text :: "32 word \<Rightarrow> nat \<Rightarrow> string" where
  "indent_text flags lv = (if flag_set flags JSON_C_TO_STRING_PRETTY then replicate (lv * 2) CHR '' '' else [])"

lemma appends_indent [appends]:
  assumes "int lv * 2 \<le> INT_MAX"
  shows "appends L (indent (\<lambda>_. True) (int lv) flags) (indent_text flags lv)"
proof (rule appendsI)
  fix pb assume pb: "pb_ok L pb" "length (pb_text pb) + length (indent_text flags lv) \<le> L"
  show "\<exists>pb'. indent (\<lambda>_. True) (int lv) flags pb = Some pb' \<and> pb_ok L pb'
      \<and> pb_text pb' = pb_text pb @ indent_text flags lv"
  proof (cases "flag_set flags JSON_C_TO_STRING_PRETTY")
    case True
    with pb have "length (pb_text pb) + lv * 2 \<le> L" by (simp add: indent_text_def)
    from pb_memset_end [OF pb(1) this, of "CHR '' ''"] True assms show ?thesis
      by (auto simp: indent_def indent_text_def c_int_ok_def)
  next
    case False
    with pb show ?thesis by (simp add: indent_def indent_text_def)
  qed
qed

section \<open>Escaping\<close>

text \<open>The reference: what one character becomes.\<close>

definition escape_char :: "char \<Rightarrow> string" where
  "escape_char c = (case short_escape c of
       Some d \<Rightarrow> [BACKSLASH, d]
     | None \<Rightarrow> if of_char c < (0x20 :: nat)
              then [BACKSLASH] @ ''u00'' @ [json_hex_chars ! (of_char c div 16), json_hex_chars ! (of_char c mod 16)]
              else [c])"

definition escape :: "string \<Rightarrow> string" where
  "escape str = concat (map escape_char str)"

lemma escape_simps [simp]: "escape [] = []" "escape (c # cs) = escape_char c @ escape cs"
  "escape (xs @ ys) = escape xs @ escape ys"
  by (simp_all add: escape_def)

lemma appends_flush [appends]:
  "appends L (flush (\<lambda>_. True) str start pos) (take (pos - start) (drop start str))"
proof (cases "start < pos")
  case True
  then have "flush (\<lambda>_. True) str start pos = emit_mem (\<lambda>_. True) (take (pos - start) (drop start str))"
    by (auto simp: flush_def fun_eq_iff)
  then show ?thesis by (simp add: appends_emit_mem)
next
  case False
  then have "flush (\<lambda>_. True) str start pos = Some" by (auto simp: flush_def fun_eq_iff)
  with False show ?thesis by (simp add: appends_skip)
qed

text \<open>
  The loop, with the characters from \<open>start\<close> to \<open>pos\<close> still to be copied, none of which needs an
  escape.
\<close>

lemma appends_escape_loop:
  assumes "pos + n \<le> length str" "start \<le> pos"
  shows "appends L (json_escape_loop (\<lambda>_. True) str n pos start)
     (take (pos - start) (drop start str) @ escape (take n (drop pos str)))"
  using assms
proof (induction n arbitrary: pos start)
  case 0
  then show ?case by (simp add: appends_flush)
next
  case (Suc n)
  let ?c = "str ! pos"
  have pos: "pos < length str" using Suc.prems by simp
  then have drop: "take (Suc n) (drop pos str) = ?c # take n (drop (pos + 1) str)"
    by (simp add: Cons_nth_drop_Suc [symmetric])
  have IH: "appends L (json_escape_loop (\<lambda>_. True) str n (pos + 1) st)
      (take (pos + 1 - st) (drop st str) @ escape (take n (drop (pos + 1) str)))" if "st \<le> pos + 1" for st
    using Suc.IH [of "pos + 1" st] Suc.prems that by simp
  note A = appends_bind [OF appends_flush [of L str start pos]]
  note B = A [OF appends_bind [OF _ IH [of "pos + 1"]]]
  show ?case
  proof (cases "short_escape ?c")
    case (Some d)
    then have "json_escape_loop (\<lambda>_. True) str (Suc n) pos start =
        (\<lambda>pb. flush (\<lambda>_. True) str start pos pb \<bind> (\<lambda>pb. emit_mem (\<lambda>_. True) [BACKSLASH, d] pb
           \<bind> json_escape_loop (\<lambda>_. True) str n (pos + 1) (pos + 1)))"
      using pos by (simp add: fun_eq_iff)
    with Some B [OF appends_emit_mem [of L "[BACKSLASH, d]"]] show ?thesis
      by (simp add: drop escape_char_def)
  next
    case None
    show ?thesis
    proof (cases "of_char ?c < (0x20 :: nat)")
      case True
      let ?u = "[BACKSLASH] @ ''u00'' @ [json_hex_chars ! (of_char ?c div 16), json_hex_chars ! (of_char ?c mod 16)]"
      have "json_escape_loop (\<lambda>_. True) str (Suc n) pos start =
        (\<lambda>pb. flush (\<lambda>_. True) str start pos pb \<bind> (\<lambda>pb. emit (\<lambda>_. True) ?u pb
           \<bind> json_escape_loop (\<lambda>_. True) str n (pos + 1) (pos + 1)))"
        using pos None True by (simp add: fun_eq_iff Let_def)
      with None True B [OF appends_emit [of L ?u]] show ?thesis
        by (simp add: drop escape_char_def)
    next
      case False
      have "take (pos + 1 - start) (drop start str) = take (pos - start) (drop start str) @ [?c]"
        using Suc.prems pos by (simp add: Suc_diff_le take_Suc_conv_app_nth)
      moreover have "json_escape_loop (\<lambda>_. True) str (Suc n) pos start
          = json_escape_loop (\<lambda>_. True) str n (pos + 1) start"
        using pos None False by (simp add: fun_eq_iff)
      ultimately show ?thesis
        using False None IH [of start] Suc.prems by (simp add: drop escape_char_def)
    qed
  qed
qed

lemma appends_escape_str [appends]:
  assumes "len = int (length str)"
  shows "appends L (json_escape_str (\<lambda>_. True) (str @ rest) len) (escape str)"
proof -
  have "json_escape_str (\<lambda>_. True) (str @ rest) len
      = json_escape_loop (\<lambda>_. True) (str @ rest) (length str) 0 0"
    using assms by (simp add: json_escape_str_def fun_eq_iff)
  then show ?thesis using appends_escape_loop [of 0 "length str" "str @ rest" 0 L] by simp
qed

section \<open>JSON values and the reference printer\<close>

datatype json = JNull | JBool bool | JInt int | JDouble double | JString string
  | JArray "json list" | JObject "(string \<times> json) list"

text \<open>A double as the serialiser writes it: trailing zeros are dropped down to one digit on request.\<close>

definition strip_zeros :: "string \<Rightarrow> string" where
  "strip_zeros ds = rev (dropWhile (\<lambda>c. c = CHR ''0'') (rev ds))"

definition double_text :: "32 word \<Rightarrow> double \<Rightarrow> string" where
  "double_text flags d =
     (let out = fmt_f d; ip = takeWhile (\<lambda>c. c \<noteq> CHR ''.'') out; fp = drop (Suc (length ip)) out
      in if flag_set flags JSON_C_TO_STRING_NOZERO \<and> CHR ''.'' \<in> set out
         then ip @ ''.'' @ (if strip_zeros fp = [] then take 1 fp else strip_zeros fp)
         else out)"

abbreviation pretty :: "32 word \<Rightarrow> bool" where
  "pretty flags \<equiv> flag_set flags JSON_C_TO_STRING_PRETTY"

abbreviation spaced :: "32 word \<Rightarrow> bool" where
  "spaced flags \<equiv> flag_set flags JSON_C_TO_STRING_SPACED"

definition child_prefix :: "32 word \<Rightarrow> nat \<Rightarrow> bool \<Rightarrow> string" where
  "child_prefix flags lv had =
     (if had then '','' @ (if pretty flags then [NEWLINE] else []) else [])
     @ (if spaced flags then '' '' else []) @ indent_text flags (Suc lv)"

text \<open>The texts of the children, each with what comes before it.\<close>

fun join_children :: "32 word \<Rightarrow> nat \<Rightarrow> bool \<Rightarrow> string list \<Rightarrow> string" where
  "join_children flags lv had [] = []"
| "join_children flags lv had (t # ts) = child_prefix flags lv had @ t @ join_children flags lv True ts"

definition close_text :: "32 word \<Rightarrow> nat \<Rightarrow> bool \<Rightarrow> string \<Rightarrow> string" where
  "close_text flags lv had br =
     (if pretty flags then (if had then [NEWLINE] else []) @ indent_text flags lv else [])
     @ (if spaced flags then CHR '' '' # br else br)"

definition open_text :: "32 word \<Rightarrow> string \<Rightarrow> string" where
  "open_text flags br = br @ (if pretty flags then [NEWLINE] else [])"

definition key_text :: "32 word \<Rightarrow> string \<Rightarrow> string" where
  "key_text flags k = [QUOTE] @ escape k @ (if spaced flags then [QUOTE] @ '': '' else [QUOTE] @ '':'')"

fun jprint :: "32 word \<Rightarrow> nat \<Rightarrow> json \<Rightarrow> string" where
  "jprint flags lv JNull = ''null''"
| "jprint flags lv (JBool b) = (if b then ''true'' else ''false'')"
| "jprint flags lv (JInt i) = c_itoa i"
| "jprint flags lv (JDouble d) = double_text flags d"
| "jprint flags lv (JString str) = [QUOTE] @ escape str @ [QUOTE]"
| "jprint flags lv (JArray vs) =
     open_text flags ''['' @ join_children flags lv False (map (jprint flags (Suc lv)) vs)
     @ close_text flags lv (vs \<noteq> []) '']''"
| "jprint flags lv (JObject kvs) =
     open_text flags ''{''
     @ join_children flags lv False (map (\<lambda>(k, v). key_text flags k @ jprint flags (Suc lv) v) kvs)
     @ close_text flags lv (kvs \<noteq> []) ''}''"

text \<open>The nesting depth, in objects on the heap.\<close>

fun jdepth :: "json \<Rightarrow> nat" where
  "jdepth JNull = 0"
| "jdepth (JArray vs) = Suc (Max (insert 0 (set (map jdepth vs))))"
| "jdepth (JObject kvs) = Suc (Max (insert 0 (set (map (\<lambda>(k, v). jdepth v) kvs))))"
| "jdepth _ = 1"

text \<open>
  The doubles in a value have a text that fits the buffer of the serialiser; the other values
  have no such limit.
\<close>

fun jfits :: "json \<Rightarrow> bool" where
  "jfits (JDouble d) \<longleftrightarrow> length (fmt_f d) \<le> 127"
| "jfits (JArray vs) \<longleftrightarrow> (\<forall>v \<in> set vs. jfits v)"
| "jfits (JObject kvs) \<longleftrightarrow> (\<forall>(k, v) \<in> set kvs. jfits v)"
| "jfits _ \<longleftrightarrow> True"

section \<open>Objects that denote a value\<close>

inductive jdenotes :: "(addr \<Rightarrow> json_object option) \<Rightarrow> addr option \<Rightarrow> json \<Rightarrow> bool" for h where
  denotes_null: "jdenotes h None JNull"
| denotes_bool:
    "h a = Some j \<Longrightarrow> jo_type j = json_type_boolean \<Longrightarrow>
     jo_to_json_string j = Some Fn_boolean_to_json_string \<Longrightarrow> jo_data j = C_boolean b \<Longrightarrow>
     jdenotes h (Some a) (JBool (b \<noteq> 0))"
| denotes_int:
    "h a = Some j \<Longrightarrow> jo_type j = json_type_int \<Longrightarrow>
     jo_to_json_string j = Some Fn_int_to_json_string \<Longrightarrow> jo_data j = C_int64 i \<Longrightarrow>
     jdenotes h (Some a) (JInt i)"
| denotes_double:
    "h a = Some j \<Longrightarrow> jo_type j = json_type_double \<Longrightarrow>
     jo_to_json_string j = Some Fn_double_to_json_string \<Longrightarrow> jo_data j = C_double d \<Longrightarrow>
     jdenotes h (Some a) (JDouble d)"
| denotes_string:
    "h a = Some j \<Longrightarrow> jo_type j = json_type_string \<Longrightarrow>
     jo_to_json_string j = Some Fn_string_to_json_string \<Longrightarrow>
     jo_data j = C_string (Some (str @ [NUL])) (int (length str)) \<Longrightarrow>
     jdenotes h (Some a) (JString str)"
| denotes_array:
    "h a = Some j \<Longrightarrow> jo_type j = json_type_array \<Longrightarrow>
     jo_to_json_string j = Some Fn_array_to_json_string \<Longrightarrow> jo_data j = C_array (Some arr) \<Longrightarrow>
     al_inv arr \<Longrightarrow> list_all2 (jdenotes h) (al_list arr) vs \<Longrightarrow>
     jdenotes h (Some a) (JArray vs)"
| denotes_object:
    "h a = Some j \<Longrightarrow> jo_type j = json_type_object \<Longrightarrow>
     jo_to_json_string j = Some Fn_object_to_json_string \<Longrightarrow> jo_data j = C_object t \<Longrightarrow>
     lh_inv t \<Longrightarrow> map fst (lh_items t) = map fst kvs \<Longrightarrow>
     list_all2 (jdenotes h) (map snd (lh_items t)) (map snd kvs) \<Longrightarrow>
     jdenotes h (Some a) (JObject kvs)"

inductive_cases jdenotes_SomeE: "jdenotes h (Some a) v"
inductive_cases jdenotes_NoneE: "jdenotes h None v"

lemma jdenotes_unique: "jdenotes h p v \<Longrightarrow> jdenotes h p w \<Longrightarrow> v = w"
proof (induction arbitrary: w rule: jdenotes.induct)
  case (denotes_array a j arr vs)
  from denotes_array.prems obtain ws where w: "w = JArray ws" "list_all2 (jdenotes h) (al_list arr) ws"
    using denotes_array.hyps by cases auto
  have "vs = ws"
    using denotes_array.IH w(2)
    by (auto simp: list_all2_conv_all_nth intro!: nth_equalityI)
  with w show ?case by simp
next
  case (denotes_object a j t kvs)
  from denotes_object.prems obtain ws where w: "w = JObject ws"
    "map fst (lh_items t) = map fst ws" "list_all2 (jdenotes h) (map snd (lh_items t)) (map snd ws)"
    using denotes_object.hyps by cases auto
  have "map snd kvs = map snd ws"
    using denotes_object.IH w(3)
    by (auto simp: list_all2_conv_all_nth intro!: nth_equalityI)
  moreover have "map fst kvs = map fst ws" using denotes_object.hyps w(2) by simp
  ultimately show ?case using w(1) by (metis zip_map_fst_snd)
qed (auto elim: jdenotes_SomeE jdenotes_NoneE)

text \<open>
  On the way down from a value of depth \<open>n\<close> every smaller depth is met, at a different address.
\<close>

lemma Max_insert0_attained:
  "finite A \<Longrightarrow> (d :: nat) = Max (insert 0 A) \<Longrightarrow> d = 0 \<or> d \<in> A"
  using Max_in [of "insert 0 A"] by auto

lemma jdenotes_depths:
  "jdenotes h p v \<Longrightarrow> 0 < d \<Longrightarrow> d \<le> jdepth v \<Longrightarrow> \<exists>b w. jdenotes h (Some b) w \<and> jdepth w = d"
proof (induction rule: jdenotes.induct)
  case (denotes_array a j arr vs)
  let ?m = "Max (insert 0 (set (map jdepth vs)))"
  show ?case
  proof (cases "d = Suc ?m")
    case True
    have "jdenotes h (Some a) (JArray vs)"
      using denotes_array by (intro jdenotes.denotes_array) (auto elim: list_all2_mono)
    with True show ?thesis by (intro exI [of _ a] exI [of _ "JArray vs"]) simp
  next
    case False
    then have "d \<le> ?m" using denotes_array.prems by simp
    then obtain v where v: "v \<in> set vs" "d \<le> jdepth v"
      using Max_insert0_attained [of "set (map jdepth vs)" ?m] denotes_array.prems(1) by auto
    then obtain i where i: "i < length vs" "vs ! i = v" by (auto simp: in_set_conv_nth)
    with v denotes_array.IH denotes_array.prems(1) show ?thesis
      by (auto simp: list_all2_conv_all_nth)
  qed
next
  case (denotes_object a j t kvs)
  let ?m = "Max (insert 0 (set (map (\<lambda>(k, v). jdepth v) kvs)))"
  show ?case
  proof (cases "d = Suc ?m")
    case True
    have "jdenotes h (Some a) (JObject kvs)"
      using denotes_object by (intro jdenotes.denotes_object) (auto elim: list_all2_mono)
    with True show ?thesis by (intro exI [of _ a] exI [of _ "JObject kvs"]) simp
  next
    case False
    then have "d \<le> ?m" using denotes_object.prems by simp
    then obtain v where v: "v \<in> set (map snd kvs)" "d \<le> jdepth v"
      using Max_insert0_attained [of "set (map (\<lambda>(k, v). jdepth v) kvs)" ?m] denotes_object.prems(1)
      by force
    then obtain i where i: "i < length (map snd kvs)" "map snd kvs ! i = v" by (auto simp: in_set_conv_nth)
    with v denotes_object.IH denotes_object.prems(1) show ?thesis
      unfolding list_all2_conv_all_nth by metis
  qed
next
  case denotes_null
  then show ?case by simp
next
  case (denotes_bool a j b)
  then have "jdenotes h (Some a) (JBool (b \<noteq> 0))" by (intro jdenotes.intros)
  moreover have "jdepth (JBool (b \<noteq> 0)) = d" using denotes_bool by simp
  ultimately show ?case by blast
next
  case (denotes_int a j i)
  then have "jdenotes h (Some a) (JInt i)" by (intro jdenotes.intros)
  moreover have "jdepth (JInt i) = d" using denotes_int by simp
  ultimately show ?case by blast
next
  case (denotes_double a j x)
  then have "jdenotes h (Some a) (JDouble x)" by (intro jdenotes.intros)
  moreover have "jdepth (JDouble x) = d" using denotes_double by simp
  ultimately show ?case by blast
next
  case (denotes_string a j str)
  then have "jdenotes h (Some a) (JString str)" by (intro jdenotes.intros)
  moreover have "jdepth (JString str) = d" using denotes_string by simp
  ultimately show ?case by blast
qed

text \<open>So the depth is at most the number of addresses.\<close>

lemma jdenotes_depth_bound:
  assumes "jdenotes h p v" "\<And>b. h b \<noteq> None \<Longrightarrow> b < n"
  shows "jdepth v \<le> n"
proof -
  have "\<exists>b. \<exists>w. jdenotes h (Some b) w \<and> jdepth w = d" if "d \<in> {1..jdepth v}" for d
    using jdenotes_depths [OF assms(1), of d] that by auto
  then obtain f where f: "\<And>d. d \<in> {1..jdepth v} \<Longrightarrow> \<exists>w. jdenotes h (Some (f d)) w \<and> jdepth w = d"
    by metis
  have "inj_on f {1..jdepth v}"
    by (rule inj_onI) (metis f jdenotes_unique)
  moreover have "f ` {1..jdepth v} \<subseteq> {..<n}"
  proof
    fix b assume "b \<in> f ` {1..jdepth v}"
    then obtain w where "jdenotes h (Some b) w" using f by blast
    then have "h b \<noteq> None" by cases auto
    then show "b \<in> {..<n}" using assms(2) by simp
  qed
  ultimately show ?thesis
    using card_inj_on_le [of f "{1..jdepth v}" "{..<n}"] by simp
qed

section \<open>Correctness of the serialisers\<close>

text \<open>Like \<open>appends\<close>, for an operation with a return code; the text is terminated afterwards.\<close>

definition serializes :: "nat \<Rightarrow> (printbuf \<Rightarrow> (int \<times> printbuf) option) \<Rightarrow> string \<Rightarrow> bool" where
  "serializes L f t \<longleftrightarrow> (\<forall>pb. pb_ok L pb \<and> length (pb_text pb) + length t \<le> L \<longrightarrow>
     (\<exists>r pb'. f pb = Some (r, pb') \<and> 0 \<le> r \<and> pb_ok L pb' \<and> pb_nul pb' \<and> pb_text pb' = pb_text pb @ t))"

lemma serializesE:
  assumes "serializes L f t" "pb_ok L pb" "length (pb_text pb) + length t \<le> L"
  obtains r pb' where "f pb = Some (r, pb')" "0 \<le> r" "pb_ok L pb'" "pb_nul pb'" "pb_text pb' = pb_text pb @ t"
  using assms unfolding serializes_def by blast

lemma serializes_appends [appends]:
  "serializes L f t \<Longrightarrow> appends L (\<lambda>pb. map_option snd (f pb)) t"
  by (rule appendsI) (auto elim!: serializesE)

lemma serializes_bind:
  assumes "appends L f s" "serializes L g t"
  shows "serializes L (\<lambda>pb. f pb \<bind> g) (s @ t)"
  unfolding serializes_def
proof (intro allI impI, elim conjE)
  fix pb assume "pb_ok L pb" "length (pb_text pb) + length (s @ t) \<le> L"
  then obtain pb1 where 1: "f pb = Some pb1" "pb_ok L pb1" "pb_text pb1 = pb_text pb @ s"
    using assms(1) by (auto elim!: appendsE)
  moreover from 1 \<open>_ \<le> L\<close> have "length (pb_text pb1) + length t \<le> L" by simp
  with assms(2) 1(2) obtain r pb2 where "g pb1 = Some (r, pb2)" "0 \<le> r" "pb_ok L pb2" "pb_nul pb2"
    "pb_text pb2 = pb_text pb1 @ t" by (rule serializesE)
  ultimately show "\<exists>r pb'. f pb \<bind> g = Some (r, pb') \<and> 0 \<le> r \<and> pb_ok L pb' \<and> pb_nul pb'
      \<and> pb_text pb' = pb_text pb @ s @ t" by simp
qed

lemma serializes_sprintbuf: "serializes L (\<lambda>pb. sprintbuf (\<lambda>_. True) pb s) s"
  unfolding serializes_def
proof (intro allI impI, elim conjE)
  fix pb assume pb: "pb_ok L pb" "length (pb_text pb) + length s \<le> L"
  note r = pb_ok_room [OF pb]
  from sprintbuf_spec [OF r(1,2,3), of "\<lambda>_. True"] obtain p' where
    "sprintbuf (\<lambda>_. True) pb s = Some (int (length s), p')" by auto
  moreover from pb_printf_spec [OF pb] this have "pb_ok L p'" "pb_text p' = pb_text pb @ s" "pb_nul p'"
    by (auto simp: pb_printf_def)
  ultimately show "\<exists>r pb'. sprintbuf (\<lambda>_. True) pb s = Some (r, pb') \<and> 0 \<le> r \<and> pb_ok L pb' \<and> pb_nul pb'
      \<and> pb_text pb' = pb_text pb @ s" by simp
qed

lemma serializes_memappend:
  "serializes L (\<lambda>pb. printbuf_memappend (\<lambda>_. True) pb s (int (length s))) s"
  unfolding serializes_def
proof (intro allI impI, elim conjE)
  fix pb assume pb: "pb_ok L pb" "length (pb_text pb) + length s \<le> L"
  note r = pb_ok_room [OF pb]
  from printbuf_memappend_spec [OF r(1) _ _ r(2,3), of s "\<lambda>_. True"] obtain p' where
    "printbuf_memappend (\<lambda>_. True) pb s (int (length s)) = Some (int (length s), p')" by auto
  moreover from pb_put_spec [OF pb] this have "pb_ok L p'" "pb_text p' = pb_text pb @ s" "pb_nul p'"
    by (auto simp: pb_put_def)
  ultimately show "\<exists>r pb'. printbuf_memappend (\<lambda>_. True) pb s (int (length s)) = Some (r, pb') \<and> 0 \<le> r
      \<and> pb_ok L pb' \<and> pb_nul pb' \<and> pb_text pb' = pb_text pb @ s" by simp
qed

subsection \<open>Doubles\<close>

lemma c_strchr_text:
  "NUL \<notin> set xs \<Longrightarrow> x \<noteq> NUL \<Longrightarrow>
   c_strchr x (map Some xs @ Some NUL # m)
     = Some (if x \<in> set xs then Some (length (takeWhile (\<lambda>c. c \<noteq> x) xs)) else None)"
  by (induction xs) auto

lemma strip_zeros_Cons:
  "strip_zeros (c # xs) = (if strip_zeros xs = [] then if c = CHR ''0'' then [] else [c] else c # strip_zeros xs)"
  by (auto simp: strip_zeros_def dropWhile_append dropWhile_eq_Nil_conv)

lemma last_nonzero_text:
  "NUL \<notin> set xs \<Longrightarrow> last_nonzero (map Some xs @ Some NUL # m) q p
     = Some (if strip_zeros xs = [] then p else q + length (strip_zeros xs) - 1)"
proof (induction xs arbitrary: q p)
  case Nil
  then show ?case by (simp add: strip_zeros_def)
next
  case (Cons c xs)
  then show ?case by (cases "strip_zeros xs") (auto simp: strip_zeros_Cons)
qed

lemma strip_zeros_prefix: "take (length (strip_zeros xs)) xs = strip_zeros xs"
  by (induction xs) (auto simp: strip_zeros_Cons strip_zeros_def [of "[]"])

lemma c_dec_set: "0 \<le> n \<Longrightarrow> set (c_dec n) \<subseteq> set ''0123456789''"
  using c_dec_digits [of n] by (auto simp: c_isdigit_def)

lemma div_nearest_nonneg: "0 \<le> a \<Longrightarrow> 0 < b \<Longrightarrow> 0 \<le> div_nearest a b"
  using pos_imp_zdiv_nonneg_iff [of b a] by (auto simp: div_nearest_def Let_def)

lemma dbl_mant_nonneg: "0 \<le> dbl_mant d"
  by (simp add: dbl_mant_def dbl_frac_def)

lemma pad6_set: "0 \<le> n \<Longrightarrow> set (pad6 n) \<subseteq> set ''0123456789''"
  using c_dec_set [of n] by (auto simp: pad6_def Let_def)

lemma pad6_nonempty: "pad6 n \<noteq> []"
  using c_dec_nonempty [of n] by (simp add: pad6_def Let_def)

text \<open>The shape of a printed double.\<close>

lemma fmt_f_shape:
  shows "set (fmt_f d) \<subseteq> set ''-.0123456789infa''"
    and "CHR ''.'' \<in> set (fmt_f d) \<Longrightarrow> \<exists>ip fp. fmt_f d = ip @ ''.'' @ fp \<and> CHR ''.'' \<notin> set ip \<and> fp \<noteq> []"
proof -
  let ?sgn = "if dbl_neg d then ''-'' else ''''"
  let ?n = "if dbl_scale d \<ge> 0 then dbl_mant d * 2 ^ nat (dbl_scale d) * 10 ^ 6
            else div_nearest (dbl_mant d * 10 ^ 6) (2 ^ nat (- dbl_scale d))"
  have n: "0 \<le> ?n" using dbl_mant_nonneg by (auto intro!: div_nearest_nonneg mult_nonneg_nonneg)
  then have p: "0 \<le> ?n div 10 ^ 6" "0 \<le> ?n mod 10 ^ 6" by (simp_all add: pos_imp_zdiv_nonneg_iff)
  have fin: "fmt_f d = ?sgn @ c_dec (?n div 10 ^ 6) @ ''.'' @ pad6 (?n mod 10 ^ 6)" if "dbl_finite d"
    using that by (simp add: fmt_f_def Let_def)
  have inf: "fmt_f d = ?sgn @ (if dbl_frac d = 0 then ''inf'' else ''nan'')" if "\<not> dbl_finite d"
    using that by (simp add: fmt_f_def Let_def)
  show "set (fmt_f d) \<subseteq> set ''-.0123456789infa''"
    using c_dec_set [OF p(1)] pad6_set [OF p(2)] fin inf by (cases "dbl_finite d") auto
  assume dot: "CHR ''.'' \<in> set (fmt_f d)"
  then have "dbl_finite d" using inf by (cases "dbl_finite d") (auto split: if_splits)
  moreover have "CHR ''.'' \<notin> set (?sgn @ c_dec (?n div 10 ^ 6))" using c_dec_set [OF p(1)] by auto
  ultimately show "\<exists>ip fp. fmt_f d = ip @ ''.'' @ fp \<and> CHR ''.'' \<notin> set ip \<and> fp \<noteq> []"
    using fin pad6_nonempty by (metis append_assoc)
qed

text \<open>
  The text that the double serialiser hands to the buffer, when the number fits the stack
  buffer of 128 characters.
\<close>

lemma double_to_json_string_eq:
  assumes data: "jo_data j = C_double d" and fits: "length (fmt_f d) \<le> 127"
  shows "json_object_double_to_json_string mal j pb flags =
     do { (_, pb) \<leftarrow> printbuf_memappend mal pb (double_text flags d) (int (length (double_text flags d)));
          Some (int (length (double_text flags d)), pb) }"
proof -
  let ?out = "fmt_f d" and ?nz = "flag_set flags JSON_C_TO_STRING_NOZERO"
  let ?rest = "replicate (127 - length ?out) (None :: char option)"
  let ?buf = "map Some ?out @ Some NUL # ?rest"
  have buf: "c_snprintf 128 ?out = ?buf" using fits by (simp add: c_snprintf_def)
  have chars: "NUL \<notin> set ?out" "CHR '','' \<notin> set ?out" using fmt_f_shape(1) [of d] by auto
  have comma: "c_strchr CHR '','' ?buf = Some None" using c_strchr_text [OF chars(1)] chars(2) by simp
  show ?thesis
  proof (cases "CHR ''.'' \<in> set ?out \<and> ?nz")
    case False
    then have dt: "double_text flags d = ?out" by (auto simp: double_text_def Let_def)
    obtain p where p: "c_strchr CHR ''.'' ?buf = Some p" "p = None \<or> \<not> ?nz"
      using c_strchr_text [OF chars(1), of "CHR ''.''"] False by auto
    then show ?thesis
      using data comma fits
      by (cases p) (auto simp: json_object_double_to_json_string_def buf dt comp_def Let_def)
  next
    case True
    with fmt_f_shape(2) obtain ip fp where sh: "?out = ip @ ''.'' @ fp" "CHR ''.'' \<notin> set ip" "fp \<noteq> []" by blast
    have tw: "takeWhile (\<lambda>c. c \<noteq> CHR ''.'') ?out = ip"
      unfolding sh(1) using sh(2) by (subst takeWhile_append2) auto
    have fp: "drop (Suc (length ip)) ?out = fp" by (simp add: sh(1))
    define l where "l = (if strip_zeros fp = [] then Suc (length ip) else length ip + length (strip_zeros fp))"
    have dropb: "drop (length ip + 1) ?buf = map Some fp @ Some NUL # ?rest"
      using fits by (simp add: sh(1))
    have nz: "last_nonzero (drop (length ip + 1) ?buf) (length ip + 1) (length ip + 1) = Some l"
      unfolding dropb l_def using chars(1) by (subst last_nonzero_text) (auto simp: sh(1))
    have len: "length (strip_zeros fp) \<le> length fp"
      using arg_cong [OF strip_zeros_prefix [of fp], of length] by simp
    have lt: "l < length ?out" using len sh(3) by (cases fp) (auto simp: sh(1) l_def)
    have dt: "double_text flags d = take (Suc l) ?out"
      using True strip_zeros_prefix [of fp] unfolding double_text_def Let_def tw fp l_def
      by (simp add: sh(1))
    have store: "c_store ?buf (int (l + 1)) NUL = Some (?buf[Suc l := Some NUL])"
      using lt fits by (simp add: c_store_def nat_add_distrib)
    have taken: "take (Suc l) (?buf[Suc l := Some NUL]) = map Some (double_text flags d)"
      using lt by (simp add: dt take_update_cancel take_map)
    have pos: "c_strchr CHR ''.'' ?buf = Some (Some (length ip))"
      using c_strchr_text [OF chars(1), of "CHR ''.''"] True tw by simp
    have lent: "length (double_text flags d) = Suc l" using lt by (simp add: dt)
    have "nat (int (l + 1)) = Suc l" "int (l + 1) \<le> 128" using lt fits by simp_all
    then show ?thesis
      using data True nz store
      by (simp add: json_object_double_to_json_string_def buf comma pos taken lent comp_def Let_def
          del: of_nat_Suc of_nat_add)
  qed
qed

lemma serializes_double:
  assumes "jo_data j = C_double d" "length (fmt_f d) \<le> 127"
  shows "serializes L (\<lambda>pb. json_object_double_to_json_string (\<lambda>_. True) j pb flags) (double_text flags d)"
  using serializes_memappend [of L "double_text flags d"]
  unfolding double_to_json_string_eq [OF assms] serializes_def by (fastforce split: prod.splits)

subsection \<open>Containers\<close>

lemma serializes_string:
  assumes "jo_data j = C_string (Some (str @ [NUL])) (int (length str))"
  shows "serializes L (json_object_string_to_json_string (\<lambda>_. True) j) ([QUOTE] @ escape str @ [QUOTE])"
proof -
  have "appends L (\<lambda>pb. emit (\<lambda>_. True) [QUOTE] pb \<bind> (\<lambda>pb. json_escape_str (\<lambda>_. True) (str @ [NUL]) (int (length str)) pb))
      ([QUOTE] @ escape str)"
    by (intro appends_bind appends_emit appends_escape_str) simp
  moreover have "serializes L (\<lambda>pb. emit (\<lambda>_. True) [QUOTE] pb \<bind> (\<lambda>pb. Some (0, pb))) [QUOTE]"
    unfolding serializes_def emit_def pb_printf_def [symmetric]
    using pb_printf_spec [of L _ "[QUOTE]"] by fastforce
  ultimately have "serializes L (\<lambda>pb. (emit (\<lambda>_. True) [QUOTE] pb
      \<bind> (\<lambda>pb. json_escape_str (\<lambda>_. True) (str @ [NUL]) (int (length str)) pb))
      \<bind> (\<lambda>pb. emit (\<lambda>_. True) [QUOTE] pb \<bind> (\<lambda>pb. Some (0, pb)))) (([QUOTE] @ escape str) @ [QUOTE])"
    by (rule serializes_bind)
  moreover have "json_object_string_to_json_string (\<lambda>_. True) j = (\<lambda>pb. (emit (\<lambda>_. True) [QUOTE] pb
      \<bind> (\<lambda>pb. json_escape_str (\<lambda>_. True) (str @ [NUL]) (int (length str)) pb))
      \<bind> (\<lambda>pb. emit (\<lambda>_. True) [QUOTE] pb \<bind> (\<lambda>pb. Some (0, pb))))"
    by (rule ext) (simp add: json_object_string_to_json_string_def assms)
  ultimately show ?thesis by simp
qed

text \<open>Nested levels: the number of spaces of an indentation must be an \<open>int\<close>.\<close>

definition level_fits :: "nat \<Rightarrow> bool" where
  "level_fits lv \<longleftrightarrow> 2 * int lv + 2 \<le> INT_MAX"

lemma appends_before_child:
  assumes "level_fits lv"
  shows "appends L (before_child (\<lambda>_. True) flags (int lv) had) (child_prefix flags lv had)"
proof -
  have ind: "appends L (indent (\<lambda>_. True) (int (Suc lv)) flags) (indent_text flags (Suc lv))"
    by (rule appends_indent) (use assms in \<open>simp add: level_fits_def\<close>)
  have eq: "before_child (\<lambda>_. True) flags (int lv) had = (\<lambda>pb.
      (if had then emit (\<lambda>_. True) '','' pb \<bind> (\<lambda>pb. if pretty flags then emit (\<lambda>_. True) [NEWLINE] pb else Some pb)
       else Some pb)
      \<bind> (\<lambda>pb. (if spaced flags then emit (\<lambda>_. True) '' '' pb else Some pb)
      \<bind> indent (\<lambda>_. True) (int (Suc lv)) flags))"
    using assms by (intro ext) (simp add: before_child_def level_fits_def c_int_ok_def add.commute)
  show ?thesis unfolding eq child_prefix_def
    by (intro appends_bind appends_if appends_emit appends_skip ind)
qed

lemma appends_open: "appends L (open_container (\<lambda>_. True) flags br) (open_text flags br)"
proof -
  have eq: "open_container (\<lambda>_. True) flags br = (\<lambda>pb. emit (\<lambda>_. True) br pb
      \<bind> (\<lambda>pb. if pretty flags then emit (\<lambda>_. True) [NEWLINE] pb else Some pb))"
    by (rule ext) (simp add: open_container_def)
  show ?thesis unfolding eq open_text_def by (intro appends_bind appends_if appends_emit appends_skip)
qed

lemma serializes_close:
  assumes "level_fits lv"
  shows "serializes L (close_container (\<lambda>_. True) flags (int lv) had br) (close_text flags lv had br)"
proof -
  have ind: "appends L (indent (\<lambda>_. True) (int lv) flags) (indent_text flags lv)"
    by (rule appends_indent) (use assms in \<open>simp add: level_fits_def\<close>)
  have eq: "close_container (\<lambda>_. True) flags (int lv) had br = (\<lambda>pb.
      (if pretty flags then (if had then emit (\<lambda>_. True) [NEWLINE] pb else Some pb)
         \<bind> indent (\<lambda>_. True) (int lv) flags else Some pb)
      \<bind> (\<lambda>pb. sprintbuf (\<lambda>_. True) pb (if spaced flags then CHR '' '' # br else br)))"
    by (rule ext) (simp add: close_container_def)
  show ?thesis unfolding eq close_text_def
    by (intro serializes_bind serializes_sprintbuf appends_bind appends_if appends_emit appends_skip ind)
qed

text \<open>
  A loop over children: \<open>step i\<close> prints what comes before child \<open>i\<close>, and then its text.
\<close>

lemma appends_children:
  assumes "\<And>i had. i < length ts \<Longrightarrow> appends L (\<lambda>pb. map_option snd (step (xs ! i) (had, pb)))
      (child_prefix flags lv had @ ts ! i)"
    and "\<And>i s s'. i \<in> set xs \<Longrightarrow> step i s = Some s' \<Longrightarrow> fst s'" and "length xs = length ts"
  shows "pb_ok L pb \<Longrightarrow> length (pb_text pb) + length (join_children flags lv had ts) \<le> L \<Longrightarrow>
     \<exists>pb'. ofold step xs (had, pb) = Some (had \<or> ts \<noteq> [], pb') \<and> pb_ok L pb'
       \<and> pb_text pb' = pb_text pb @ join_children flags lv had ts"
  using assms
proof (induction ts arbitrary: xs had pb)
  case Nil
  then show ?case by simp
next
  case (Cons t ts)
  then obtain x xs' where xs: "xs = x # xs'" by (cases xs) auto
  have "appends L (\<lambda>pb. map_option snd (step x (had, pb))) (child_prefix flags lv had @ t)"
    using Cons.prems(3) [of 0 had] xs by simp
  then obtain pb1 where 1: "map_option snd (step x (had, pb)) = Some pb1" "pb_ok L pb1"
    "pb_text pb1 = pb_text pb @ child_prefix flags lv had @ t"
    using Cons.prems(1,2) by (auto elim!: appendsE)
  then obtain had' where step: "step x (had, pb) = Some (had', pb1)" by auto
  with Cons.prems(4) [of x "(had, pb)" "(had', pb1)"] xs have "had'" by simp
  moreover have "\<exists>pb'. ofold step xs' (True, pb1) = Some (True \<or> ts \<noteq> [], pb') \<and> pb_ok L pb'
       \<and> pb_text pb' = pb_text pb1 @ join_children flags lv True ts"
  proof (rule Cons.IH)
    show "pb_ok L pb1" "length (pb_text pb1) + length (join_children flags lv True ts) \<le> L"
      using 1 Cons.prems(2) by simp_all
    show "appends L (\<lambda>pb. map_option snd (step (xs' ! i) (had, pb))) (child_prefix flags lv had @ ts ! i)"
      if "i < length ts" for i had
      using Cons.prems(3) [of "Suc i" had] that xs by simp
    show "fst s'" if "i \<in> set xs'" "step i s = Some s'" for i s s'
      using Cons.prems(4) [of i s s'] that xs by simp
    show "length xs' = length ts" using Cons.prems(5) xs by simp
  qed
  ultimately show ?case using step 1(3) xs by auto
qed

lemma appends_print_child:
  assumes "jdenotes h p v"
    and "\<And>b. p = Some b \<Longrightarrow> serializes L (\<lambda>pb. ser b pb (int lv + 1)) (jprint flags (Suc lv) v)"
  shows "appends L (print_child (\<lambda>_. True) ser (int lv) p) (jprint flags (Suc lv) v)"
proof (cases p)
  case None
  with assms(1) have "v = JNull" by (auto elim: jdenotes_NoneE)
  moreover have "print_child (\<lambda>_. True) ser (int lv) p = emit (\<lambda>_. True) ''null''"
    using None by (simp add: print_child_def fun_eq_iff)
  ultimately show ?thesis by (simp add: appends_emit)
next
  case (Some b)
  have "print_child (\<lambda>_. True) ser (int lv) p = (\<lambda>pb. map_option snd (ser b pb (int lv + 1)))"
    using Some by (simp add: print_child_def fun_eq_iff)
  with serializes_appends [OF assms(2) [OF Some]] show ?thesis by simp
qed

text \<open>Both containers, given that the loop over the children prints their texts.\<close>

lemma serializes_container:
  assumes "level_fits lv" "length xs = length ts"
    and "\<And>i had. i < length ts \<Longrightarrow> appends L (\<lambda>pb. map_option snd (step (xs ! i) (had, pb)))
      (child_prefix flags lv had @ ts ! i)"
    and "\<And>i s s'. i \<in> set xs \<Longrightarrow> step i s = Some s' \<Longrightarrow> fst s'"
  shows "serializes L (\<lambda>pb. do {
       pb \<leftarrow> open_container (\<lambda>_. True) flags br pb;
       (had, pb) \<leftarrow> ofold step xs (False, pb);
       close_container (\<lambda>_. True) flags (int lv) had br' pb })
     (open_text flags br @ join_children flags lv False ts @ close_text flags lv (ts \<noteq> []) br')"
proof (rule serializes_bind [OF appends_open])
  have "serializes L (\<lambda>pb. ofold step xs (False, pb) \<bind>
      (\<lambda>(had, pb). close_container (\<lambda>_. True) flags (int lv) had br' pb))
      (join_children flags lv False ts @ close_text flags lv (ts \<noteq> []) br')"
    unfolding serializes_def
  proof (intro allI impI, elim conjE)
    fix pb assume pb: "pb_ok L pb"
      "length (pb_text pb) + length (join_children flags lv False ts @ close_text flags lv (ts \<noteq> []) br') \<le> L"
    then obtain pb1 where 1: "ofold step xs (False, pb) = Some (ts \<noteq> [], pb1)" "pb_ok L pb1"
      "pb_text pb1 = pb_text pb @ join_children flags lv False ts"
      using appends_children [of ts L step xs flags lv pb False] assms(2,3,4) by auto
    from serializes_close [OF assms(1)] 1(2) obtain r pb2 where
      "close_container (\<lambda>_. True) flags (int lv) (ts \<noteq> []) br' pb1 = Some (r, pb2)" "0 \<le> r" "pb_ok L pb2"
      "pb_nul pb2" "pb_text pb2 = pb_text pb1 @ close_text flags lv (ts \<noteq> []) br'"
      by (rule serializesE) (use pb(2) 1(3) in \<open>simp add: add.assoc\<close>)
    with 1 show "\<exists>r pb'. ofold step xs (False, pb) \<bind>
        (\<lambda>(had, pb). close_container (\<lambda>_. True) flags (int lv) had br' pb) = Some (r, pb')
        \<and> 0 \<le> r \<and> pb_ok L pb' \<and> pb_nul pb'
        \<and> pb_text pb' = pb_text pb @ join_children flags lv False ts @ close_text flags lv (ts \<noteq> []) br'"
      by simp
  qed
  then show "serializes L (\<lambda>pb. ofold step xs (False, pb) \<bind>
      (\<lambda>(had, pb). close_container (\<lambda>_. True) flags (int lv) had br' pb))
      (join_children flags lv False ts @ close_text flags lv (ts \<noteq> []) br')" .
qed

lemma serializes_array:
  assumes arr: "jo_data j = C_array (Some arr)" "al_inv arr" and lv: "level_fits lv"
    and vs: "list_all2 (jdenotes h) (al_list arr) vs"
    and ser: "\<And>i b. i < length vs \<Longrightarrow> al_list arr ! i = Some b \<Longrightarrow>
      serializes L (\<lambda>pb. ser b pb (int lv + 1)) (jprint flags (Suc lv) (vs ! i))"
  shows "serializes L (\<lambda>pb. json_object_array_to_json_string (\<lambda>_. True) ser j pb (int lv) flags)
     (jprint flags lv (JArray vs))"
proof -
  have len: "nat (array_list_length arr) = length vs"
    using arr(2) list_all2_lengthD [OF vs] by (auto simp: array_list_length_def elim: al_invE)
  let ?ts = "map (jprint flags (Suc lv)) vs"
  let ?step = "array_element (\<lambda>_. True) ser flags (int lv) arr"
  have "serializes L (\<lambda>pb. do {
       pb \<leftarrow> open_container (\<lambda>_. True) flags ''['' pb;
       (had, pb) \<leftarrow> ofold ?step [0..<length vs] (False, pb);
       close_container (\<lambda>_. True) flags (int lv) had '']'' pb })
     (open_text flags ''['' @ join_children flags lv False ?ts @ close_text flags lv (?ts \<noteq> []) '']'')"
  proof (rule serializes_container [OF lv])
    fix i had assume i: "i < length ?ts"
    then have get: "array_list_get_idx arr (int i) = Some (al_list arr ! i)"
      using array_list_get_idx_spec [OF arr(2), of "int i"] list_all2_lengthD [OF vs] by simp
    have eq: "(\<lambda>pb. map_option snd (?step ([0..<length vs] ! i) (had, pb)))
      = (\<lambda>pb. before_child (\<lambda>_. True) flags (int lv) had pb \<bind> print_child (\<lambda>_. True) ser (int lv) (al_list arr ! i))"
      using i get by (auto simp: array_element_def fun_eq_iff bind_eq_Some_conv map_option_case
          split: option.split Option.bind_split)
    show "appends L (\<lambda>pb. map_option snd (?step ([0..<length vs] ! i) (had, pb)))
        (child_prefix flags lv had @ ?ts ! i)"
      unfolding eq using i vs ser
      by (auto intro!: appends_bind appends_before_child [OF lv] appends_print_child simp: list_all2_conv_all_nth)
  next
    fix i s s' show "?step i s = Some s' \<Longrightarrow> fst s'"
      by (auto simp: array_element_def bind_eq_Some_conv split: prod.splits)
  qed simp
  moreover have "(\<lambda>pb. json_object_array_to_json_string (\<lambda>_. True) ser j pb (int lv) flags) = (\<lambda>pb. do {
       pb \<leftarrow> open_container (\<lambda>_. True) flags ''['' pb;
       (had, pb) \<leftarrow> ofold ?step [0..<length vs] (False, pb);
       close_container (\<lambda>_. True) flags (int lv) had '']'' pb })"
    by (rule ext) (simp add: json_object_array_to_json_string_def arr(1) len)
  ultimately show ?thesis by simp
qed

lemma serializes_object:
  assumes t: "jo_data j = C_object t" "lh_inv t" and lv: "level_fits lv"
    and keys: "map fst (lh_items t) = map fst kvs"
    and vs: "list_all2 (jdenotes h) (map snd (lh_items t)) (map snd kvs)"
    and ser: "\<And>i b. i < length kvs \<Longrightarrow> snd (lh_items t ! i) = Some b \<Longrightarrow>
      serializes L (\<lambda>pb. ser b pb (int lv + 1)) (jprint flags (Suc lv) (snd (kvs ! i)))"
  shows "serializes L (\<lambda>pb. json_object_object_to_json_string (\<lambda>_. True) ser j pb (int lv) flags)
     (jprint flags lv (JObject kvs))"
proof -
  from t(2) obtain ord where ord: "lh_rep t ord" "lh_items t = items_at (lh_tab t) ord" by (rule lh_invE)
  have len: "length ord = length kvs" using arg_cong [OF keys, of length] ord(2) by (simp add: items_at_def)
  have item: "lh_items t ! i = (the_key (ent_k (lh_tab t ! (ord ! i))), ent_v (lh_tab t ! (ord ! i)))"
    "\<exists>k. ent_k (lh_tab t ! (ord ! i)) = Key k" if "i < length kvs" for i
  proof -
    have "ord ! i \<in> used (lh_tab t)" unfolding lh_repD(6) [OF ord(1), symmetric] using that len by simp
    then show "\<exists>k. ent_k (lh_tab t ! (ord ! i)) = Key k" by (auto simp: used_def)
  qed (use that len ord(2) in \<open>simp add: items_at_def\<close>)
  have key: "ent_k (lh_tab t ! (ord ! i)) = Key (fst (kvs ! i))"
    "jdenotes h (ent_v (lh_tab t ! (ord ! i))) (snd (kvs ! i))" if i: "i < length kvs" for i
  proof -
    have l: "length (lh_items t) = length kvs" using arg_cong [OF keys, of length] by simp
    have "fst (lh_items t ! i) = fst (kvs ! i)" using arg_cong [OF keys, of "\<lambda>xs. xs ! i"] i l by simp
    then show "ent_k (lh_tab t ! (ord ! i)) = Key (fst (kvs ! i))" using item [OF i] by auto
    show "jdenotes h (ent_v (lh_tab t ! (ord ! i))) (snd (kvs ! i))"
      using vs i l item(1) [OF i] by (auto simp: list_all2_conv_all_nth)
  qed
  let ?ts = "map (\<lambda>(k, v). key_text flags k @ jprint flags (Suc lv) v) kvs"
  let ?step = "object_member (\<lambda>_. True) ser flags (int lv) t"
  have "serializes L (\<lambda>pb. do {
       pb \<leftarrow> open_container (\<lambda>_. True) flags ''{'' pb;
       (had, pb) \<leftarrow> ofold ?step ord (False, pb);
       close_container (\<lambda>_. True) flags (int lv) had ''}'' pb })
     (open_text flags ''{'' @ join_children flags lv False ?ts @ close_text flags lv (?ts \<noteq> []) ''}'')"
  proof (rule serializes_container [OF lv])
    fix i had assume "i < length ?ts"
    then have i: "i < length kvs" by simp
    let ?k = "fst (kvs ! i)" and ?p = "ent_v (lh_tab t ! (ord ! i))"
    have eq: "(\<lambda>pb. map_option snd (?step (ord ! i) (had, pb)))
      = (\<lambda>pb. before_child (\<lambda>_. True) flags (int lv) had pb \<bind> (\<lambda>pb. (emit (\<lambda>_. True) [QUOTE] pb
          \<bind> (\<lambda>pb. json_escape_str (\<lambda>_. True) (?k @ [NUL]) (int (length ?k)) pb
          \<bind> emit (\<lambda>_. True) (if spaced flags then [QUOTE] @ '': '' else [QUOTE] @ '':'')))
          \<bind> print_child (\<lambda>_. True) ser (int lv) ?p))"
      using key(1) [OF i] by (intro ext) (simp add: object_member_def map_option_bind comp_def)
    have nth: "?ts ! i = key_text flags ?k @ jprint flags (Suc lv) (snd (kvs ! i))"
      using i by (simp add: case_prod_unfold)
    have ktext: "appends L (\<lambda>pb. emit (\<lambda>_. True) [QUOTE] pb
          \<bind> (\<lambda>pb. json_escape_str (\<lambda>_. True) (?k @ [NUL]) (int (length ?k)) pb
          \<bind> emit (\<lambda>_. True) (if spaced flags then [QUOTE] @ '': '' else [QUOTE] @ '':''))) (key_text flags ?k)"
      unfolding key_text_def by (intro appends_bind appends_emit appends_escape_str) simp
    show "appends L (\<lambda>pb. map_option snd (?step (ord ! i) (had, pb))) (child_prefix flags lv had @ ?ts ! i)"
      unfolding eq nth
      by (intro appends_bind appends_before_child [OF lv] ktext appends_print_child)
        (use key(2) [OF i] ser [OF i] item(1) [OF i] in auto)
  next
    fix i s s' show "?step i s = Some s' \<Longrightarrow> fst s'"
      by (auto simp: object_member_def bind_eq_Some_conv split: prod.splits lh_key.splits)
  qed (simp add: len)
  moreover have "(\<lambda>pb. json_object_object_to_json_string (\<lambda>_. True) ser j pb (int lv) flags) = (\<lambda>pb. do {
       pb \<leftarrow> open_container (\<lambda>_. True) flags ''{'' pb;
       (had, pb) \<leftarrow> ofold ?step ord (False, pb);
       close_container (\<lambda>_. True) flags (int lv) had ''}'' pb })"
    by (rule ext) (simp add: json_object_object_to_json_string_def t(1) lh_rep_foreach [OF ord(1)])
  ultimately show ?thesis by simp
qed

subsection \<open>The whole serialiser\<close>

lemma jdepth_child:
  "v \<in> set vs \<Longrightarrow> jdepth v < jdepth (JArray vs)"
  "(k, v) \<in> set kvs \<Longrightarrow> jdepth v < jdepth (JObject kvs)"
proof -
  assume "v \<in> set vs"
  then have "jdepth v \<le> Max (insert 0 (set (map jdepth vs)))" by (intro Max_ge) auto
  then show "jdepth v < jdepth (JArray vs)" by simp
next
  assume "(k, v) \<in> set kvs"
  then have "jdepth v \<le> Max (insert 0 (set (map (\<lambda>(k, v). jdepth v) kvs)))" by (intro Max_ge) force+
  then show "jdepth v < jdepth (JObject kvs)" by simp
qed

lemma level_fits_mono: "level_fits n \<Longrightarrow> m \<le> n \<Longrightarrow> level_fits m"
  by (auto simp: level_fits_def)

lemma to_json_string_d_spec:
  assumes mal: "env_mal e = (\<lambda>_. True)"
  shows "jdenotes h p v \<Longrightarrow> p = Some a \<Longrightarrow> jfits v \<Longrightarrow> jdepth v \<le> d \<Longrightarrow> level_fits (lv + jdepth v) \<Longrightarrow>
     serializes L (\<lambda>pb. to_json_string_d e h flags d a pb (int lv)) (jprint flags lv v)"
proof (induction arbitrary: a d lv rule: jdenotes.induct)
  case denotes_null
  then show ?case by simp
next
  case (denotes_bool a' j b)
  then obtain d' where d: "d = Suc d'" by (cases d) auto
  with denotes_bool show ?case
    by (simp add: to_json_string_with_def mal json_object_boolean_to_json_string_def serializes_sprintbuf)
next
  case (denotes_int a' j i)
  then obtain d' where d: "d = Suc d'" by (cases d) auto
  with denotes_int show ?case
    by (simp add: to_json_string_with_def mal json_object_int_to_json_string_def serializes_sprintbuf)
next
  case (denotes_double a' j x)
  then obtain d' where d: "d = Suc d'" by (cases d) auto
  with denotes_double show ?case
    by (simp add: to_json_string_with_def mal serializes_double)
next
  case (denotes_string a' j str)
  then obtain d' where d: "d = Suc d'" by (cases d) auto
  with denotes_string serializes_string [of j str L] show ?case
    by (simp add: to_json_string_with_def mal)
next
  case (denotes_array a' j arr vs)
  then obtain d' where d: "d = Suc d'" by (cases d) auto
  let ?ser = "to_json_string_d e h flags d'"
  have child: "serializes L (\<lambda>pb. ?ser b pb (int lv + 1)) (jprint flags (Suc lv) (vs ! i))"
    if "i < length vs" "al_list arr ! i = Some b" for i b
  proof -
    have "jdepth (vs ! i) < jdepth (JArray vs)" using that by (intro jdepth_child) simp
    moreover from this have "level_fits (Suc lv + jdepth (vs ! i))"
      using denotes_array.prems(4) by (auto elim: level_fits_mono)
    moreover have "jfits (vs ! i)" using denotes_array.prems(2) that by simp
    moreover have "serializes L (\<lambda>pb. to_json_string_d e h flags d0 b pb (int l0)) (jprint flags l0 (vs ! i))"
      if "jfits (vs ! i)" "jdepth (vs ! i) \<le> d0" "level_fits (l0 + jdepth (vs ! i))" for d0 l0
      using denotes_array.IH \<open>i < length vs\<close> \<open>al_list arr ! i = Some b\<close> that
      by (auto simp: list_all2_conv_all_nth)
    note this [of d' "Suc lv"]
    ultimately show ?thesis using that denotes_array.prems(3) d by (simp add: add.commute)
  qed
  have vs: "list_all2 (jdenotes h) (al_list arr) vs" using denotes_array.IH by (auto elim: list_all2_mono)
  have lv: "level_fits lv" using denotes_array.prems(4) by (auto elim: level_fits_mono)
  from serializes_array [where ser = ?ser, OF denotes_array.hyps(4,5) lv vs child] show ?case
    using denotes_array.hyps denotes_array.prems(1) d by (simp add: to_json_string_with_def mal)
next
  case (denotes_object a' j t kvs)
  then obtain d' where d: "d = Suc d'" by (cases d) auto
  let ?ser = "to_json_string_d e h flags d'"
  have l: "length (lh_items t) = length kvs" using arg_cong [OF denotes_object.hyps(6), of length] by simp
  have child: "serializes L (\<lambda>pb. ?ser b pb (int lv + 1)) (jprint flags (Suc lv) (snd (kvs ! i)))"
    if "i < length kvs" "snd (lh_items t ! i) = Some b" for i b
  proof -
    have kv: "(fst (kvs ! i), snd (kvs ! i)) \<in> set kvs" using that by simp
    then have "jfits (snd (kvs ! i))" using denotes_object.prems(2) by (auto simp: case_prod_unfold)
    moreover have "jdepth (snd (kvs ! i)) < jdepth (JObject kvs)" by (rule jdepth_child(2) [OF kv])
    moreover from this have "level_fits (Suc lv + jdepth (snd (kvs ! i)))"
      using denotes_object.prems(4) by (auto elim: level_fits_mono)
    moreover have "serializes L (\<lambda>pb. to_json_string_d e h flags d0 b pb (int l0)) (jprint flags l0 (snd (kvs ! i)))"
      if "jfits (snd (kvs ! i))" "jdepth (snd (kvs ! i)) \<le> d0" "level_fits (l0 + jdepth (snd (kvs ! i)))" for d0 l0
      using denotes_object.IH \<open>i < length kvs\<close> \<open>snd (lh_items t ! i) = Some b\<close> that l
      by (auto simp: list_all2_conv_all_nth)
    note this [of d' "Suc lv"]
    moreover have "jdepth (snd (kvs ! i)) \<le> d'"
      using jdepth_child(2) [OF kv] denotes_object.prems(3) d by (simp del: jdepth.simps)
    ultimately show ?thesis by (simp add: add.commute)
  qed
  have vs: "list_all2 (jdenotes h) (map snd (lh_items t)) (map snd kvs)"
    using denotes_object.IH by (auto elim: list_all2_mono)
  have lv: "level_fits lv" using denotes_object.prems(4) by (auto elim: level_fits_mono)
  from serializes_object [where ser = ?ser, OF denotes_object.hyps(4,5) lv denotes_object.hyps(6) vs child] show ?case
    using denotes_object.hyps denotes_object.prems(1) d by (simp add: to_json_string_with_def mal)
qed

lemma pb_ok_new: "4 * int L + 64 \<le> INT_MAX \<Longrightarrow> printbuf_new (\<lambda>_. True) = Some pb \<Longrightarrow> pb_ok L pb"
  by (auto simp: printbuf_new_def pb_ok_def pb_inv_def pb_text_def)

lemma pb_ok_reset:
  assumes "pb_inv pb" "pb_size pb \<le> 2 * int L + 32" "4 * int L + 64 \<le> INT_MAX"
  shows "\<exists>pb'. printbuf_reset pb = Some pb' \<and> pb_ok L pb' \<and> pb_text pb' = []"
  using printbuf_reset_spec [OF assms(1)] assms(2,3) by (auto simp: pb_ok_def)

text \<open>The buffer an object keeps between two calls, if it has one, is in order.\<close>

definition jo_pb_ok :: "nat \<Rightarrow> json_object \<Rightarrow> bool" where
  "jo_pb_ok L j \<longleftrightarrow> (case jo_pb j of None \<Rightarrow> True | Some pb \<Rightarrow> pb_inv pb \<and> pb_size pb \<le> 2 * int L + 32)"

definition heap_bounded :: "jstate \<Rightarrow> bool" where
  "heap_bounded s \<longleftrightarrow> (\<forall>b. jheap s b \<noteq> None \<longrightarrow> b < jnext s)"

lemma length_join_children: "t \<in> set ts \<Longrightarrow> length t \<le> length (join_children flags lv had ts)"
proof (induction ts arbitrary: had)
  case (Cons x ts)
  show ?case
  proof (cases "t = x")
    case False
    then have "length t \<le> length (join_children flags lv True ts)" using Cons by simp
    then show ?thesis by simp
  qed simp
qed simp

lemma fmt_f_nonempty: "fmt_f d \<noteq> []"
  by (simp add: fmt_f_def Let_def)

lemma double_text_nonempty: "double_text flags d \<noteq> []"
  by (simp add: double_text_def Let_def fmt_f_nonempty)

lemma jdepth_le_print: "jdepth v \<le> length (jprint flags lv v)"
proof (induction v arbitrary: lv)
  case (JArray vs)
  have "d \<le> length (join_children flags lv False (map (jprint flags (Suc lv)) vs))"
    if "d \<in> insert 0 (set (map jdepth vs))" for d
  proof (cases "d = 0")
    case False
    with that obtain v where v: "v \<in> set vs" "d = jdepth v" by auto
    then have "d \<le> length (jprint flags (Suc lv) v)" using JArray.IH by simp
    also have "\<dots> \<le> length (join_children flags lv False (map (jprint flags (Suc lv)) vs))"
      by (rule length_join_children) (use v in simp)
    finally show ?thesis .
  qed simp
  then have "Max (insert 0 (set (map jdepth vs)))
      \<le> length (join_children flags lv False (map (jprint flags (Suc lv)) vs))" by (subst Max_le_iff) auto
  then show ?case by (auto simp: open_text_def intro: le_SucI trans_le_add1)
next
  case (JObject kvs)
  let ?ts = "map (\<lambda>(k, v). key_text flags k @ jprint flags (Suc lv) v) kvs"
  have "d \<le> length (join_children flags lv False ?ts)"
    if "d \<in> insert 0 (set (map (\<lambda>(k, v). jdepth v) kvs))" for d
  proof (cases "d = 0")
    case False
    with that obtain k v where kv: "(k, v) \<in> set kvs" "d = jdepth v" by auto
    then have "d \<le> length (key_text flags k @ jprint flags (Suc lv) v)"
      using JObject.IH [of "(k, v)" v "Suc lv"] by simp
    also have "\<dots> \<le> length (join_children flags lv False ?ts)" by (rule length_join_children) (use kv in force)
    finally show ?thesis .
  qed simp
  then have "Max (insert 0 (set (map (\<lambda>(k, v). jdepth v) kvs))) \<le> length (join_children flags lv False ?ts)"
    by (subst Max_le_iff) auto
  then show ?case by (auto simp: open_text_def intro: le_SucI trans_le_add1)
next
  case (JInt i)
  then show ?case by (simp add: c_itoa_def Suc_le_eq c_dec_nonempty)
next
  case (JDouble d)
  then show ?case by (simp add: Suc_le_eq double_text_nonempty)
qed auto

text \<open>
  What \<open>json_object_to_json_string_ext\<close> returns for an object that denotes \<open>v\<close>: a terminated
  string, the text of the reference printer.
\<close>

lemma to_json_string_ext_spec:
  assumes mal: "env_mal e = (\<lambda>_. True)" and den: "jdenotes (jheap s) p v" and fits: "jfits v"
    and bound: "heap_bounded s" and L: "4 * int (length (jprint flags 0 v)) + 64 \<le> INT_MAX"
    and pb: "\<And>a j. p = Some a \<Longrightarrow> jheap s a = Some j \<Longrightarrow> jo_pb_ok (length (jprint flags 0 v)) j"
  shows "\<exists>b s'. json_object_to_json_string_ext e p flags s = Some (Some b, s')
     \<and> c_str b = Some (takeWhile (\<lambda>c. c \<noteq> NUL) (jprint flags 0 v))"
proof (cases p)
  case None
  with den have "v = JNull" by (auto elim: jdenotes_NoneE)
  with None show ?thesis by (simp add: json_object_to_json_string_ext_def)
next
  case (Some a)
  let ?L = "length (jprint flags 0 v)"
  from den Some obtain j where j: "jheap s a = Some j" by (auto elim: jdenotes_SomeE)
  obtain pb0 where pb0: "(case jo_pb j of None \<Rightarrow> printbuf_new (env_mal e) | Some pb \<Rightarrow> Some pb) = Some pb0"
    "pb_inv pb0" "pb_size pb0 \<le> 2 * int ?L + 32"
  proof (cases "jo_pb j")
    case None
    obtain pb0 where "printbuf_new (\<lambda>_. True) = Some pb0" by (simp add: printbuf_new_def)
    with pb_ok_new [OF L this] None mal show ?thesis by (intro that [of pb0]) (auto simp: pb_ok_def)
  next
    case (Some pb0)
    with pb [OF \<open>p = Some a\<close> j] show ?thesis by (intro that [of pb0]) (auto simp: jo_pb_ok_def)
  qed
  from pb_ok_reset [OF pb0(2,3) L] obtain pb1 where
    pb1: "printbuf_reset pb0 = Some pb1" "pb_ok ?L pb1" "pb_text pb1 = []" by blast
  have "jdepth v \<le> jnext s"
    by (rule jdenotes_depth_bound [OF den]) (use bound in \<open>simp add: heap_bounded_def\<close>)
  moreover have "level_fits (0 + jdepth v)"
    using jdepth_le_print [of v flags 0] L by (simp add: level_fits_def)
  ultimately have "serializes ?L (\<lambda>pb. to_json_string_d e (jheap s) flags (jnext s) a pb (int 0)) (jprint flags 0 v)"
    using to_json_string_d_spec [OF mal den Some fits] by blast
  then obtain r pb2 where pb2: "to_json_string_d e (jheap s) flags (jnext s) a pb1 0 = Some (r, pb2)" "0 \<le> r"
    "pb_ok ?L pb2" "pb_nul pb2" "pb_text pb2 = jprint flags 0 v"
    by (rule serializesE [OF _ pb1(2)]) (use pb1(3) in auto)
  have "c_str (pb_buf pb2) = Some (takeWhile (\<lambda>c. c \<noteq> NUL) (jprint flags 0 v))"
    using pb_c_str [of pb2] pb2(3,4,5) by (simp add: pb_ok_def)
  then show ?thesis
    using Some j pb0(1) pb1(1) pb2(1,2) by (simp add: json_object_to_json_string_ext_def)
qed

text \<open>The text has no NUL in it, since strings are escaped: the C string is the whole text.\<close>

lemma hex_char_not_NUL: "n < 22 \<Longrightarrow> json_hex_chars ! n \<noteq> NUL"
proof -
  assume "n < 22"
  then have "json_hex_chars ! n \<in> set json_hex_chars" by (intro nth_mem) simp
  then show ?thesis by auto
qed

lemma escape_char_no_NUL: "NUL \<notin> set (escape_char c)"
proof (cases "short_escape c")
  case None
  have "c \<noteq> NUL" if "\<not> of_char c < (0x20 :: nat)" using that by auto
  moreover have "of_char c div 16 < (22 :: nat)" "of_char c mod 16 < (22 :: nat)"
    if "of_char c < (0x20 :: nat)" using that by auto
  ultimately show ?thesis
    using None hex_char_not_NUL [of "of_char c div 16"] hex_char_not_NUL [of "of_char c mod 16"]
    by (auto simp: escape_char_def)
next
  case (Some d)
  then show ?thesis by (auto simp: escape_char_def short_escape_def split: if_splits)
qed

lemma escape_no_NUL: "NUL \<notin> set (escape str)"
  using escape_char_no_NUL by (auto simp: escape_def)

lemma c_itoa_no_NUL: "NUL \<notin> set (c_itoa i)"
  using c_dec_set [of i] c_dec_set [of "- i"] by (auto simp: c_itoa_def)

lemma double_text_no_NUL: "NUL \<notin> set (double_text flags d)"
proof -
  have out: "NUL \<notin> set (fmt_f d)" using fmt_f_shape(1) [of d] by auto
  then have "NUL \<notin> set (takeWhile P (fmt_f d))" "NUL \<notin> set (drop n (fmt_f d))"
    "NUL \<notin> set (take m (drop n (fmt_f d)))" for P m n
    by (auto dest: set_takeWhileD in_set_dropD in_set_takeD)
  moreover have "NUL \<notin> set (strip_zeros (drop n (fmt_f d)))" for n
    using out by (auto simp: strip_zeros_def dest!: set_dropWhileD in_set_dropD)
  ultimately show ?thesis using out by (auto simp: double_text_def Let_def)
qed

lemma join_children_set:
  "set (join_children flags lv had ts) \<subseteq> {CHR '','', NEWLINE, CHR '' ''} \<union> (\<Union>t \<in> set ts. set t)"
  by (induction ts arbitrary: had) (auto simp: child_prefix_def indent_text_def split: if_splits)

lemma jprint_no_NUL: "NUL \<notin> set (jprint flags lv v)"
proof (induction v arbitrary: lv)
  case (JArray vs)
  then show ?case
    using join_children_set [of flags lv False "map (jprint flags (Suc lv)) vs"]
    by (auto simp: open_text_def close_text_def indent_text_def split: if_splits)
next
  case (JObject kvs)
  have k: "NUL \<notin> set (key_text flags k)" for k using escape_no_NUL by (auto simp: key_text_def)
  have "NUL \<notin> set (jprint flags (Suc lv) v)" if "(k, v) \<in> set kvs" for k v
    using JObject [of "(k, v)" v] that by simp
  then have "NUL \<notin> (\<Union>t \<in> set (map (\<lambda>(k, v). key_text flags k @ jprint flags (Suc lv) v) kvs). set t)"
    using k by auto
  then show ?case
    using join_children_set [of flags lv False "map (\<lambda>(k, v). key_text flags k @ jprint flags (Suc lv) v) kvs"]
    by (auto simp: open_text_def close_text_def indent_text_def split: if_splits)
qed (auto simp: escape_no_NUL c_itoa_no_NUL double_text_no_NUL)

lemma to_json_string_ext_text:
  assumes "env_mal e = (\<lambda>_. True)" "jdenotes (jheap s) p v" "jfits v" "heap_bounded s"
    "4 * int (length (jprint flags 0 v)) + 64 \<le> INT_MAX"
    "\<And>a j. p = Some a \<Longrightarrow> jheap s a = Some j \<Longrightarrow> jo_pb_ok (length (jprint flags 0 v)) j"
  shows "\<exists>b s'. json_object_to_json_string_ext e p flags s = Some (Some b, s')
     \<and> c_str b = Some (jprint flags 0 v)"
proof -
  have "takeWhile (\<lambda>c. c \<noteq> NUL) (jprint flags 0 v) = jprint flags 0 v"
    using jprint_no_NUL [of flags 0 v] by (auto simp: takeWhile_eq_all_conv)
  with to_json_string_ext_spec [OF assms] show ?thesis by simp
qed

end
