(* ===== verification/Json_Ownership.thy ===== *)
theory Json_Ownership
  imports Json_Access Json_Print
begin

text \<open>
  Ownership: a tree of objects, each held by its parent alone, with the list of their
  addresses.  Dropping the last reference to such a tree frees exactly these objects; taking
  and dropping a reference to an object that stays alive changes nothing but its count.
\<close>

lemma jset_simps [simp]:
  "jheap (jset a j s) = (jheap s)(a := Some j)" "jnext (jset a j s) = jnext s"
  "jlog (jset a j s) = jlog s" "jscan (jset a j s) = jscan s"
  by (simp_all add: jset_def)

section \<open>Owned trees\<close>

text \<open>An object with one reference and nothing of the caller attached.\<close>

definition sole :: "json_object \<Rightarrow> bool" where
  "sole j \<longleftrightarrow> jo_ref_count j = 1 \<and> jo_user_delete j = None"

fun leaf_data :: "json_data \<Rightarrow> bool" where
  "leaf_data (C_array arr) = False"
| "leaf_data (C_object t) = False"
| "leaf_data d = True"

inductive owned :: "(addr \<Rightarrow> json_object option) \<Rightarrow> addr option \<Rightarrow> addr list \<Rightarrow> bool" for h where
  owned_null: "owned h None []"
| owned_leaf:
    "h a = Some j \<Longrightarrow> sole j \<Longrightarrow> jo_delete j = Fn_generic_delete \<Longrightarrow> leaf_data (jo_data j) \<Longrightarrow>
     owned h (Some a) [a]"
| owned_string:
    "h a = Some j \<Longrightarrow> sole j \<Longrightarrow> jo_delete j = Fn_string_delete \<Longrightarrow> jo_data j = C_string b l \<Longrightarrow>
     owned h (Some a) [a]"
| owned_array:
    "h a = Some j \<Longrightarrow> sole j \<Longrightarrow> jo_delete j = Fn_array_delete \<Longrightarrow> jo_data j = C_array (Some arr) \<Longrightarrow>
     al_inv arr \<Longrightarrow> list_all2 (owned h) (al_list arr) As \<Longrightarrow> distinct (a # concat As) \<Longrightarrow>
     owned h (Some a) (a # concat As)"
| owned_object:
    "h a = Some j \<Longrightarrow> sole j \<Longrightarrow> jo_delete j = Fn_object_delete \<Longrightarrow> jo_data j = C_object t \<Longrightarrow>
     lh_inv t \<Longrightarrow> list_all2 (owned h) (map snd (lh_items t)) As \<Longrightarrow> distinct (a # concat As) \<Longrightarrow>
     owned h (Some a) (a # concat As)"

inductive_cases owned_SomeE: "owned h (Some a) A"
inductive_cases owned_NoneE: "owned h None A"

lemma owned_distinct: "owned h p A \<Longrightarrow> distinct A"
  by (induction rule: owned.induct) auto

lemma owned_alive: "owned h p A \<Longrightarrow> x \<in> set A \<Longrightarrow> h x \<noteq> None"
proof (induction rule: owned.induct)
  case (owned_array a j arr As)
  then show ?case by (fastforce simp: list_all2_conv_all_nth in_set_conv_nth)
next
  case (owned_object a j t As)
  then show ?case by (fastforce simp: list_all2_conv_all_nth in_set_conv_nth)
qed auto

lemma list_all2_mono_in:
  "list_all2 P xs ys \<Longrightarrow> (\<And>x y. x \<in> set xs \<Longrightarrow> y \<in> set ys \<Longrightarrow> P x y \<Longrightarrow> Q x y) \<Longrightarrow> list_all2 Q xs ys"
  by (auto simp: list_all2_conv_all_nth)

text \<open>Ownership depends on the owned objects only.\<close>

lemma owned_frame:
  "owned h p A \<Longrightarrow> (\<And>x. x \<in> set A \<Longrightarrow> h' x = h x) \<Longrightarrow> owned h' p A"
proof (induction rule: owned.induct)
  case (owned_array a j arr As)
  have "list_all2 (owned h') (al_list arr) As"
    by (rule list_all2_mono_in [OF owned_array.IH]) (use owned_array.prems in auto)
  with owned_array show ?case by (auto intro: owned.owned_array)
next
  case (owned_object a j t As)
  have "list_all2 (owned h') (map snd (lh_items t)) As"
    by (rule list_all2_mono_in [OF owned_object.IH]) (use owned_object.prems in auto)
  with owned_object show ?case by (auto intro: owned.owned_object)
qed (auto intro: owned.intros)

section \<open>Dropping the last reference\<close>

definition remove :: "addr set \<Rightarrow> jstate \<Rightarrow> jstate" where
  "remove A s = s\<lparr>jheap := (\<lambda>x. if x \<in> A then None else jheap s x)\<rparr>"

lemma remove_simps [simp]:
  "jheap (remove A s) = (\<lambda>x. if x \<in> A then None else jheap s x)"
  "remove {} s = s" "remove B (remove A s) = remove (A \<union> B) s" "jnext (remove A s) = jnext s"
  by (auto simp: remove_def fun_eq_iff)

text \<open>\<open>frees h put p A\<close>: on a state that agrees with \<open>h\<close> on \<open>A\<close>, putting \<open>p\<close> removes \<open>A\<close>.\<close>

definition frees :: "(addr \<Rightarrow> json_object option) \<Rightarrow> put_fn \<Rightarrow> addr option \<Rightarrow> addr list \<Rightarrow> bool" where
  "frees h put p A \<longleftrightarrow> (\<forall>s. (\<forall>x \<in> set A. jheap s x = h x) \<longrightarrow>
     (\<exists>r. put p s = Some (r, remove (set A) s)))"

lemma frees_all:
  "list_all2 (frees h put) ps As \<Longrightarrow> distinct (concat As) \<Longrightarrow>
   (\<And>x. x \<in> set (concat As) \<Longrightarrow> jheap s x = h x) \<Longrightarrow>
   ofold (\<lambda>p s. map_option snd (put p s)) ps s = Some (remove (set (concat As)) s)"
proof (induction ps As arbitrary: s rule: list_all2_induct)
  case Nil
  then show ?case by simp
next
  case (Cons p ps A As)
  from Cons.hyps(1) Cons.prems(2) obtain r where r: "put p s = Some (r, remove (set A) s)"
    unfolding frees_def by force
  have "ofold (\<lambda>p s. map_option snd (put p s)) ps (remove (set A) s)
      = Some (remove (set (concat As)) (remove (set A) s))"
    by (rule Cons.IH) (use Cons.prems in auto)
  with r show ?case by simp
qed

lemma free_all_ofold:
  assumes "\<And>s. put None s = Some (0, s)"
  shows "free_all (json_object_array_entry_free put) ps s = ofold (\<lambda>p s. map_option snd (put p s)) ps s"
proof (induction ps arbitrary: s)
  case (Cons p ps)
  then show ?case
    using assms by (cases p) (auto simp: json_object_array_entry_free_def cong: bind_option_cong)
qed simp

lemma put_null: "json_object_put_with put None s = Some (0, s)"
  by (simp add: json_object_put_with_def)

lemma put_d_null: "json_object_put_d n None s = Some (0, s)"
  by (cases n) (simp_all add: put_null)

text \<open>The common part of all cases: the count drops to zero and the delete function runs.\<close>

lemma put_with_sole:
  assumes "jheap s a = Some j" "sole j"
    and "json_object_delete put (jo_delete j) a (jset a (j\<lparr>jo_ref_count := 0\<rparr>) s) = Some s'"
  shows "json_object_put_with put (Some a) s = Some (1, s')"
  using assms by (simp add: json_object_put_with_def sole_def c_int_ok_def call_user_delete_def)

lemma generic_delete_jset:
  "json_object_generic_delete a (jset a j s) = Some (remove {a} s)"
  by (simp add: json_object_generic_delete_def jset_def remove_def fun_eq_iff)

lemma frees_array:
  assumes j: "h a = Some j" "sole j" "jo_delete j = Fn_array_delete" "jo_data j = C_array (Some arr)" "al_inv arr"
    and ch: "list_all2 (frees h put) (al_list arr) As" and d: "distinct (a # concat As)"
    and nul: "\<And>s. put None s = Some (0, s)"
  shows "frees h (json_object_put_with put) (Some a) (a # concat As)"
  unfolding frees_def
proof (intro allI impI)
  fix s :: jstate assume s: "\<forall>x \<in> set (a # concat As). jheap s x = h x"
  let ?s = "jset a (j\<lparr>jo_ref_count := 0\<rparr>) s"
  have "array_list_free (json_object_array_entry_free put) arr ?s = Some (remove (set (concat As)) ?s)"
    unfolding array_list_free_spec [OF j(5)] free_all_ofold [where put = put, OF nul]
    by (rule frees_all [OF ch]) (use d s in \<open>auto simp: jset_def\<close>)
  moreover have "remove (set (concat As)) ?s = jset a (j\<lparr>jo_ref_count := 0\<rparr>) (remove (set (concat As)) s)"
    using d by (auto simp: remove_def jset_def fun_eq_iff)
  ultimately have "json_object_delete put (jo_delete j) a ?s = Some (remove (set (a # concat As)) s)"
    using j by (simp add: json_object_delete_def json_object_array_delete_def generic_delete_jset)
  then show "\<exists>r. json_object_put_with put (Some a) s = Some (r, remove (set (a # concat As)) s)"
    using put_with_sole [of s a j put] s j by auto
qed

lemma frees_object:
  assumes j: "h a = Some j" "sole j" "jo_delete j = Fn_object_delete" "jo_data j = C_object t" "lh_inv t"
    and ch: "list_all2 (frees h put) (map snd (lh_items t)) As" and d: "distinct (a # concat As)"
  shows "frees h (json_object_put_with put) (Some a) (a # concat As)"
  unfolding frees_def
proof (intro allI impI)
  fix s :: jstate assume s: "\<forall>x \<in> set (a # concat As). jheap s x = h x"
  let ?s = "jset a (j\<lparr>jo_ref_count := 0\<rparr>) s"
  have "lh_table_free (Some (json_object_lh_entry_free put)) t ?s
      = ofold (\<lambda>kv s. map_option snd (put (snd kv) s)) (lh_items t) ?s"
    by (rule lh_table_free_spec [OF j(5)]) (simp add: json_object_lh_entry_free_def)
  also have "\<dots> = ofold (\<lambda>p s. map_option snd (put p s)) (map snd (lh_items t)) ?s"
    by (simp add: ofold_map)
  also have "\<dots> = Some (remove (set (concat As)) ?s)"
    by (rule frees_all [OF ch]) (use d s in \<open>auto simp: jset_def\<close>)
  also have "remove (set (concat As)) ?s = jset a (j\<lparr>jo_ref_count := 0\<rparr>) (remove (set (concat As)) s)"
    using d by (auto simp: remove_def jset_def fun_eq_iff)
  finally have "json_object_delete put (jo_delete j) a ?s = Some (remove (set (a # concat As)) s)"
    using j by (simp add: json_object_delete_def json_object_object_delete_def generic_delete_jset)
  then show "\<exists>r. json_object_put_with put (Some a) s = Some (r, remove (set (a # concat As)) s)"
    using put_with_sole [of s a j put] s j by auto
qed

lemma frees_leaf:
  assumes j: "h a = Some j" "sole j"
    and del: "jo_delete j = Fn_generic_delete \<or> jo_delete j = Fn_string_delete \<and> (\<exists>b l. jo_data j = C_string b l)"
  shows "frees h (json_object_put_with put) (Some a) [a]"
  unfolding frees_def
proof (intro allI impI)
  fix s :: jstate assume s: "\<forall>x \<in> set [a]. jheap s x = h x"
  let ?s = "jset a (j\<lparr>jo_ref_count := 0\<rparr>) s"
  have "json_object_delete put (jo_delete j) a ?s = Some (remove {a} s)"
    using del generic_delete_jset [of a "j\<lparr>jo_ref_count := 0\<rparr>" s]
    by (auto simp: json_object_delete_def json_object_string_delete_def)
  then show "\<exists>r. json_object_put_with put (Some a) s = Some (r, remove (set [a]) s)"
    using put_with_sole [of s a j put] s j by auto
qed

lemma length_concat_child: "A \<in> set As \<Longrightarrow> length A \<le> length (concat As)"
  by (induction As) auto

text \<open>Nesting: as many levels as there are owned objects are enough.\<close>

lemma put_d_frees: "owned h p A \<Longrightarrow> length A \<le> n \<Longrightarrow> frees h (json_object_put_d n) p A"
proof (induction arbitrary: n rule: owned.induct)
  case owned_null
  then show ?case by (simp add: frees_def put_d_null)
next
  case (owned_leaf a j)
  then show ?case by (cases n) (auto intro: frees_leaf)
next
  case (owned_string a j b l)
  then show ?case by (cases n) (auto intro: frees_leaf)
next
  case (owned_array a j arr As)
  then obtain m where m: "n = Suc m" by (cases n) auto
  have "list_all2 (frees h (json_object_put_d m)) (al_list arr) As"
  proof (rule list_all2_mono_in [OF owned_array.IH])
    fix p A assume "A \<in> set As" "owned h p A \<and> (\<forall>n. length A \<le> n \<longrightarrow> frees h (json_object_put_d n) p A)"
    with length_concat_child [of A As] owned_array.prems m show "frees h (json_object_put_d m) p A" by auto
  qed
  from frees_array [OF owned_array.hyps(1-5) this owned_array.hyps(6) put_d_null] show ?case by (simp add: m)
next
  case (owned_object a j t As)
  then obtain m where m: "n = Suc m" by (cases n) auto
  have "list_all2 (frees h (json_object_put_d m)) (map snd (lh_items t)) As"
  proof (rule list_all2_mono_in [OF owned_object.IH])
    fix p A assume "A \<in> set As" "owned h p A \<and> (\<forall>n. length A \<le> n \<longrightarrow> frees h (json_object_put_d n) p A)"
    with length_concat_child [of A As] owned_object.prems m show "frees h (json_object_put_d m) p A" by auto
  qed
  from frees_object [OF owned_object.hyps(1-5) this owned_object.hyps(6)] show ?case by (simp add: m)
qed

lemma owned_length_bound:
  assumes "owned (jheap s) p A" "heap_bounded s"
  shows "length A \<le> jnext s"
proof -
  have "set A \<subseteq> {..<jnext s}"
    using owned_alive [OF assms(1)] assms(2) by (auto simp: heap_bounded_def)
  then have "card (set A) \<le> jnext s" using card_mono [of "{..<jnext s}" "set A"] by simp
  then show ?thesis using distinct_card [OF owned_distinct [OF assms(1)]] by simp
qed

lemma json_object_put_owned:
  assumes "owned (jheap s) p A" "heap_bounded s"
  shows "\<exists>r. json_object_put p s = Some (r, remove (set A) s)"
  using put_d_frees [OF assms(1) owned_length_bound [OF assms]]
  by (auto simp: frees_def json_object_put_def)

section \<open>Shared references\<close>

text \<open>An object with more than one reference only loses one.\<close>

lemma json_object_put_shared:
  assumes "jheap s a = Some j" "1 < jo_ref_count j" "jo_ref_count j \<le> INT_MAX"
  shows "json_object_put (Some a) s = Some (0, jset a (j\<lparr>jo_ref_count := jo_ref_count j - 1\<rparr>) s)"
proof -
  have "json_object_put_with put (Some a) s = Some (0, jset a (j\<lparr>jo_ref_count := jo_ref_count j - 1\<rparr>) s)" for put
    using assms by (simp add: json_object_put_with_def c_int_ok_def)
  then show ?thesis by (cases "jnext s") (simp_all add: json_object_put_def)
qed

lemma json_object_get_put:
  assumes "jheap s a = Some j" "1 \<le> jo_ref_count j" "jo_ref_count j < INT_MAX"
  shows "\<exists>s1. json_object_get (Some a) s = Some (Some a, s1) \<and> json_object_put (Some a) s1 = Some (0, s)"
proof -
  let ?s1 = "jset a (j\<lparr>jo_ref_count := jo_ref_count j + 1\<rparr>) s"
  have get: "json_object_get (Some a) s = Some (Some a, ?s1)"
    using assms by (simp add: json_object_get_def c_int_ok_def)
  have "json_object_put (Some a) ?s1
      = Some (0, jset a ((j\<lparr>jo_ref_count := jo_ref_count j + 1\<rparr>)\<lparr>jo_ref_count := jo_ref_count j\<rparr>) ?s1)"
    using json_object_put_shared [of ?s1 a "j\<lparr>jo_ref_count := jo_ref_count j + 1\<rparr>"] assms
    by (simp add: jset_def)
  moreover have "jset a ((j\<lparr>jo_ref_count := jo_ref_count j + 1\<rparr>)\<lparr>jo_ref_count := jo_ref_count j\<rparr>) ?s1 = s"
    using assms(1) by (auto simp: jset_def fun_eq_iff)
  ultimately show ?thesis using get by auto
qed

section \<open>Properties\<close>


abbreviation sample_bool :: json_object where
  "sample_bool \<equiv> \<lparr>jo_type = json_type_boolean, jo_delete = Fn_generic_delete, jo_to_json_string = Some Fn_boolean_to_json_string,
     jo_ref_count = 1, jo_pb = None, jo_data = C_boolean 1, jo_user_delete = None, jo_userdata = None\<rparr>"


text \<open>
  Taking a reference with \<open>json_object_get\<close> and giving it back with \<open>json_object_put\<close>
  restores the state exactly, and nothing is freed.
\<close>

theorem json_object_get_put_identity:
  assumes "jheap s a = Some j" "1 \<le> jo_ref_count j" "jo_ref_count j < INT_MAX"
  shows "\<exists>s1. json_object_get (Some a) s = Some (Some a, s1) \<and> jheap s1 a \<noteq> None \<and> json_object_put (Some a) s1 = Some (0, s)"
  using json_object_get_put [OF assms] assms(1) by (auto simp: json_object_get_def bind_eq_Some_conv)

theorem json_object_get_put_identity_witness:
  "\<exists>s1. json_object_get (Some 0) (jset 0 sample_bool (jstate_init\<lparr>jnext := 1\<rparr>)) = Some (Some 0, s1)
     \<and> json_object_put (Some 0) s1 = Some (0, jset 0 sample_bool (jstate_init\<lparr>jnext := 1\<rparr>))"
  using json_object_get_put_identity [of "jset 0 sample_bool (jstate_init\<lparr>jnext := 1\<rparr>)" 0 sample_bool] by auto

text \<open>The loop over an object with an iterator, as in the header of \<^verbatim>\<open>json_object_iterator.c\<close>.\<close>

primrec iter_pairs ::
  "(string, addr) lh_table \<Rightarrow> json_object_iterator \<Rightarrow> nat \<Rightarrow> json_object_iterator \<Rightarrow> (string \<times> addr option) list option" where
  "iter_pairs t end_it 0 it = (if json_object_iter_equal it end_it then Some [] else None)"
| "iter_pairs t end_it (Suc n) it =
     (if json_object_iter_equal it end_it then Some []
      else do {
        k \<leftarrow> json_object_iter_peek_name t it;
        v \<leftarrow> json_object_iter_peek_value t it;
        it' \<leftarrow> json_object_iter_next t it;
        rest \<leftarrow> iter_pairs t end_it n it';
        Some ((k, v) # rest)
      })"

lemma iter_pairs_lseg:
  "lseg (lh_tab t) p h ord q None \<Longrightarrow> set ord \<subseteq> used (lh_tab t) \<Longrightarrow>
   iter_pairs t None (length ord) h = Some (items_at (lh_tab t) ord)"
proof (induction ord arbitrary: p h)
  case Nil
  then show ?case by (simp add: json_object_iter_equal_def items_at_def)
next
  case (Cons i ord)
  then have i: "h = Some i" "i < length (lh_tab t)" "lseg (lh_tab t) (Some i) (ent_next (lh_tab t ! i)) ord q None" by auto
  from Cons.prems(2) obtain k where "ent_k (lh_tab t ! i) = Key k" by (auto simp: used_def)
  with i Cons.IH [OF i(3)] Cons.prems(2) show ?case
    by (simp add: json_object_iter_equal_def json_object_iter_peek_name_def json_object_iter_peek_value_def
        json_object_iter_next_def iter_entry_def items_at_def)
qed

text \<open>
  C33. An iterator started with \<open>json_object_iter_begin\<close> and advanced up to
  \<open>json_object_iter_end\<close> visits every member of the object once, in the order of insertion, and
  the loop ends after as many steps as there are members.
\<close>

theorem json_object_iterator_visits:
  assumes "jheap s a = Some j" "jo_type j = json_type_object" "jo_data j = C_object t" "lh_inv t"
  shows "\<exists>b en. json_object_iter_begin (Some a) s = Some b \<and> json_object_iter_end (Some a) s = Some en
     \<and> iter_pairs t en (length (lh_items t)) b = Some (lh_items t)"
proof -
  from assms(4) obtain ord where ord: "lh_rep t ord" "lh_items t = items_at (lh_tab t) ord" by (rule lh_invE)
  have "length (lh_items t) = length ord" by (simp add: ord(2) items_at_def)
  with iter_pairs_lseg [OF lh_repD(4) [OF ord(1)]] lh_repD(6) [OF ord(1)] ord(2)
  have "iter_pairs t None (length (lh_items t)) (lh_head t) = Some (lh_items t)" by simp
  moreover have "json_object_iter_begin (Some a) s = Some (lh_head t)" "json_object_iter_end (Some a) s = Some None"
    using assms by (simp_all add: json_object_iter_begin_def json_object_get_object_def obj_table_def
        json_object_iter_end_def json_object_is_type_def)
  ultimately show ?thesis by blast
qed

theorem json_object_iterator_visits_witness:
  "\<exists>t t' b en. lh_kchar_table_new (\<lambda>_. True) 16 = Some t \<and> lh_table_insert (\<lambda>_. True) t ''a'' None = Some t'
     \<and> json_object_iter_begin (Some 0) (jset 0 (sample_bool\<lparr>jo_type := json_type_object, jo_data := C_object t'\<rparr>) jstate_init) = Some b
     \<and> json_object_iter_end (Some 0) (jset 0 (sample_bool\<lparr>jo_type := json_type_object, jo_data := C_object t'\<rparr>) jstate_init) = Some en
     \<and> iter_pairs t' en 1 b = Some [(''a'', None)]"
proof -
  obtain t :: "(string, addr) lh_table" where
    t: "lh_kchar_table_new (\<lambda>_. True) 16 = Some t" "lh_inv t" "lh_items t = []" "lh_size t = 16"
    using kchar_table_new_inv [of 16] by auto
  from lh_table_insert_spec [of t "\<lambda>_. True" "''a''" None] t obtain t' where
    t': "lh_table_insert (\<lambda>_. True) t ''a'' None = Some t'" "lh_inv t'" "lh_items t' = [(''a'', None)]" by auto
  from json_object_iterator_visits [of "jset 0 (sample_bool\<lparr>jo_type := json_type_object, jo_data := C_object t'\<rparr>) jstate_init" 0 _ t'] t t'
  show ?thesis by auto
qed

end
