(* ===== verification/Json_Steps.thy ===== *)
theory Json_Steps
  imports Json_Parse Json_Ownership
begin

text \<open>
  How the parser moves: the loop in terms of single steps, and one lemma per kind of step on a
  tokener of known shape.
\<close>

section \<open>The loop\<close>

lemma loop_peek:
  "PEEK_CHAR len p = Some (True, p') \<Longrightarrow> parse_loop e len False p = parse_loop e len True p'"
  by (subst (1 2) parse_loop.simps) simp

lemma loop_redo:
  "tok_step e len p = Some (Redo, p') \<Longrightarrow> parse_loop e len True p = parse_loop e len True p'"
  by (subst parse_loop.simps) simp

lemma loop_break:
  "tok_step e len p = Some (Break, p') \<Longrightarrow> p_c p' \<noteq> NUL \<Longrightarrow> ADVANCE_CHAR p' = Some p'' \<Longrightarrow>
   parse_loop e len True p = parse_loop e len False p''"
  by (subst parse_loop.simps) simp

lemma loop_out:
  "tok_step e len p = Some (Out, p') \<Longrightarrow> parse_loop e len True p = Some p'"
  by (subst parse_loop.simps) simp

section \<open>Tokeners of known shape\<close>

text \<open>
  The level at \<open>depth\<close> is \<open>lv\<close>; the levels above it hold nothing; the text buffer can hold \<open>L\<close>
  characters; \<open>str\<close> is left of an input that ends with a NUL (its length is given as \<open>-1\<close>).
\<close>

definition empty_level :: "json_tokener_srec \<Rightarrow> bool" where
  "empty_level l \<longleftrightarrow> sr_current l = None \<and> sr_obj_field_name l = None"

definition tok_at ::
  "nat \<Rightarrow> json_tokener_srec list \<Rightarrow> json_tokener_srec \<Rightarrow> json_tokener_srec list \<Rightarrow> string \<Rightarrow> jstate
     \<Rightarrow> pstate \<Rightarrow> bool" where
  "tok_at L lo lv hi str s p \<longleftrightarrow>
     tk_depth (p_tok p) = int (length lo) \<and> tk_stack (p_tok p) = lo @ lv # hi
     \<and> (\<forall>l \<in> set hi. empty_level l)
     \<and> tk_max_depth (p_tok p) = int (length (tk_stack (p_tok p)))
     \<and> (\<exists>pb. tk_pb (p_tok p) = Some pb \<and> pb_ok L pb)
     \<and> 0 \<le> tk_char_offset (p_tok p) \<and> tk_char_offset (p_tok p) + int (length str) \<le> INT_MAX
     \<and> p_str p = str \<and> p_js p = s \<and> tk_err (p_tok p) = json_tokener_success"

abbreviation lvl :: "json_tokener_state \<Rightarrow> json_tokener_state \<Rightarrow> addr option \<Rightarrow> string option \<Rightarrow> json_tokener_srec" where
  "lvl st saved c n \<equiv> \<lparr>sr_state = st, sr_saved_state = saved, sr_current = c, sr_obj_field_name = n\<rparr>"

lemma tok_at_cur: "tok_at L lo lv hi str s p \<Longrightarrow> cur (p_tok p) = Some lv"
  by (simp add: tok_at_def cur_def level_ok_def)

lemma upd_tok_simps [simp]:
  "p_tok (upd_tok f p) = f (p_tok p)" "p_js (upd_tok f p) = p_js p" "p_c (upd_tok f p) = p_c p"
  "p_obj (upd_tok f p) = p_obj p" "p_str (upd_tok f p) = p_str p"
  by (simp_all add: upd_tok_def)

lemma tok_at_upd_cur:
  assumes "tok_at L lo lv hi str s p"
  shows "\<exists>p'. upd_cur f p = Some p' \<and> tok_at L lo (f lv) hi str s p'
     \<and> p' = upd_tok (\<lambda>tok. tok\<lparr>tk_stack := lo @ f lv # hi\<rparr>) p"
  using assms tok_at_cur [OF assms]
  by (auto simp: upd_cur_def tok_at_def upd_tok_def)

text \<open>Fields the shape does not mention.\<close>

lemma tok_at_free [simp]:
  "tok_at L lo lv hi str s (p\<lparr>p_c := c\<rparr>) = tok_at L lo lv hi str s p"
  "tok_at L lo lv hi str s (p\<lparr>p_obj := ob\<rparr>) = tok_at L lo lv hi str s p"
  "tok_at L lo lv hi str s (upd_tok (\<lambda>tok. tok\<lparr>tk_st_pos := g tok\<rparr>) p) = tok_at L lo lv hi str s p"
  "tok_at L lo lv hi str s (upd_tok (\<lambda>tok. tok\<lparr>tk_is_double := b\<rparr>) p) = tok_at L lo lv hi str s p"
  "tok_at L lo lv hi str s (upd_tok (\<lambda>tok. tok\<lparr>tk_quote_char := q\<rparr>) p) = tok_at L lo lv hi str s p"
  "tok_at L lo lv hi str s (upd_tok (\<lambda>tok. tok\<lparr>tk_ucs_char := u tok, tk_st_pos := n\<rparr>) p)
     = tok_at L lo lv hi str s p"
  by (simp_all add: tok_at_def)

lemma tok_at_js:
  "tok_at L lo lv hi str s p \<Longrightarrow> tok_at L lo lv hi str s' (p\<lparr>p_js := s'\<rparr>)"
  by (simp add: tok_at_def)

lemma tok_at_peek:
  assumes "tok_at L lo lv hi (c # str) s p"
  shows "PEEK_CHAR (-1) p = Some (True, p\<lparr>p_c := c\<rparr>)"
  using assms by (simp add: PEEK_CHAR_def tok_at_def)

lemma tok_at_advance:
  assumes "tok_at L lo lv hi (c # str) s p"
  shows "\<exists>p'. ADVANCE_CHAR p = Some p' \<and> tok_at L lo lv hi str s p'
     \<and> p' = upd_tok (\<lambda>tok. tok\<lparr>tk_char_offset := tk_char_offset tok + 1\<rparr>) (p\<lparr>p_str := str\<rparr>)"
  using assms by (auto simp: ADVANCE_CHAR_def tok_at_def c_int_ok_def)

lemma tok_at_next_char:
  assumes "tok_at L lo lv hi (c # d # str) s p" "p_c p \<noteq> NUL"
  shows "\<exists>p'. next_char (-1) p = Some (True, p') \<and> tok_at L lo lv hi (d # str) s p' \<and> p_c p' = d
     \<and> p' = upd_tok (\<lambda>tok. tok\<lparr>tk_char_offset := tk_char_offset tok + 1\<rparr>) (p\<lparr>p_str := d # str, p_c := d\<rparr>)"
proof -
  from tok_at_advance [OF assms(1)] obtain p1 where p1: "ADVANCE_CHAR p = Some p1"
    "tok_at L lo lv hi (d # str) s p1"
    "p1 = upd_tok (\<lambda>tok. tok\<lparr>tk_char_offset := tk_char_offset tok + 1\<rparr>) (p\<lparr>p_str := d # str\<rparr>)" by blast
  with tok_at_peek [OF p1(2)] assms(2) show ?thesis
    by (auto simp: next_char_def upd_tok_def)
qed

text \<open>Steps that end with \<open>break\<close>: the loop goes on with the next character.\<close>

lemma loop_break_at:
  assumes "tok_step e (-1) p = Some (Break, p')" "tok_at L lo lv hi (c # str) s p'" "p_c p' \<noteq> NUL"
  shows "\<exists>p''. parse_loop e (-1) True p = parse_loop e (-1) False p'' \<and> tok_at L lo lv hi str s p''
     \<and> p'' = upd_tok (\<lambda>tok. tok\<lparr>tk_char_offset := tk_char_offset tok + 1\<rparr>) (p'\<lparr>p_str := str\<rparr>)"
  using tok_at_advance [OF assms(2)] loop_break [OF assms(1,3)] by blast

lemma loop_peek_at:
  assumes "tok_at L lo lv hi (c # str) s p"
  shows "parse_loop e (-1) False p = parse_loop e (-1) True (p\<lparr>p_c := c\<rparr>)"
    "tok_at L lo lv hi (c # str) s (p\<lparr>p_c := c\<rparr>)"
  using loop_peek [OF tok_at_peek [OF assms]] assms by simp_all

section \<open>Tight loops\<close>

lemma tight_loop_run:
  assumes "tok_at L lo lv hi (run @ c # str) s p" "\<forall>x \<in> set run. P x \<and> x \<noteq> NUL" "\<not> P c"
    "p_c p = hd (run @ [c])"
  shows "\<exists>p'. tight_loop P (-1) (run @ c # str) acc p = Some (True, acc @ run, p')
     \<and> tok_at L lo lv hi (c # str) s p' \<and> p_c p' = c
     \<and> p' = upd_tok (\<lambda>tok. tok\<lparr>tk_char_offset := tk_char_offset tok + int (length run)\<rparr>) (p\<lparr>p_str := c # str, p_c := c\<rparr>)"
  using assms
proof (induction run arbitrary: p acc)
  case Nil
  then have "p\<lparr>p_str := c # str, p_c := c\<rparr> = p" by (simp add: tok_at_def)
  with Nil show ?case by (auto simp: upd_tok_def)
next
  case (Cons x run)
  have x: "p_c p = x" "P x" "x \<noteq> NUL" using Cons.prems by auto
  have "\<exists>y ys. run @ c # str = y # ys \<and> y = hd (run @ [c])" by (cases run) auto
  then obtain y ys where y: "run @ c # str = y # ys" "y = hd (run @ [c])" by blast
  from Cons.prems(1) y have "tok_at L lo lv hi (x # y # ys) s p" by simp
  from tok_at_next_char [OF this] x obtain p1 where p1: "next_char (-1) p = Some (True, p1)"
    "tok_at L lo lv hi (y # ys) s p1" "p_c p1 = y"
    "p1 = upd_tok (\<lambda>tok. tok\<lparr>tk_char_offset := tk_char_offset tok + 1\<rparr>) (p\<lparr>p_str := y # ys, p_c := y\<rparr>)" by auto
  from Cons.IH [of p1 "acc @ [x]"] p1 y Cons.prems obtain p' where p':
    "tight_loop P (-1) (run @ c # str) (acc @ [x]) p1 = Some (True, (acc @ [x]) @ run, p')"
    "tok_at L lo lv hi (c # str) s p'" "p_c p' = c"
    "p' = upd_tok (\<lambda>tok. tok\<lparr>tk_char_offset := tk_char_offset tok + int (length run)\<rparr>) (p1\<lparr>p_str := c # str, p_c := c\<rparr>)"
    by auto
  from p'(4) have "p' = upd_tok (\<lambda>tok. tok\<lparr>tk_char_offset := tk_char_offset tok + int (length (x # run))\<rparr>)
      (p\<lparr>p_str := c # str, p_c := c\<rparr>)"
    unfolding p1(4) by (simp add: upd_tok_def add.commute add.left_commute)
  with p' p1(1) x show ?case by simp
qed

lemma tight_run:
  assumes "tok_at L lo lv hi (run @ c # str) s p" "\<forall>x \<in> set run. P x \<and> x \<noteq> NUL" "\<not> P c"
    "p_c p = hd (run @ [c])"
  shows "\<exists>p'. tight P (-1) p = Some (True, run, p') \<and> tok_at L lo lv hi (c # str) s p' \<and> p_c p' = c
     \<and> p' = upd_tok (\<lambda>tok. tok\<lparr>tk_char_offset := tk_char_offset tok + int (length run)\<rparr>) (p\<lparr>p_str := c # str, p_c := c\<rparr>)"
proof -
  have "p_str p = run @ c # str" using assms(1) by (simp add: tok_at_def)
  with tight_loop_run [OF assms, of "[]"] show ?thesis by (simp add: tight_def)
qed

text \<open>White space is skipped, and the saved state is resumed at the next character.\<close>

lemma loop_eatws:
  assumes at: "tok_at L lo lv hi (ws @ c # str) s p" "sr_state lv = state_eatws"
    and ws: "\<forall>x \<in> set ws. c_isspace x" "\<not> c_isspace c" "c \<noteq> CHR ''/''"
  shows "\<exists>p'. parse_loop e (-1) False p = parse_loop e (-1) True p'
     \<and> tok_at L lo (lv\<lparr>sr_state := sr_saved_state lv\<rparr>) hi (c # str) s p' \<and> p_c p' = c \<and> p_obj p' = p_obj p"
proof -
  obtain y ys where y: "ws @ c # str = y # ys" "y = hd (ws @ [c])" by (cases ws) auto
  let ?p = "p\<lparr>p_c := y\<rparr>"
  have at1: "tok_at L lo lv hi (ws @ c # str) s ?p" using at(1) by simp
  have loop: "parse_loop e (-1) False p = parse_loop e (-1) True ?p"
    using loop_peek_at(1) [of L lo lv hi y ys s p e] at(1) y(1) by simp
  have "\<forall>x \<in> set ws. c_isspace x \<and> x \<noteq> NUL" using ws(1) by (auto simp: c_isspace_def)
  from tight_run [OF at1 this ws(2)] y(2) obtain p2 where p2: "tight c_isspace (-1) ?p = Some (True, ws, p2)"
    "tok_at L lo lv hi (c # str) s p2" "p_c p2 = c" "p_obj p2 = p_obj p" by auto
  from tok_at_upd_cur [OF p2(2), of "\<lambda>l. l\<lparr>sr_state := sr_saved_state lv\<rparr>"] obtain p3 where
    p3: "set_state (sr_saved_state lv) p2 = Some p3"
      "tok_at L lo (lv\<lparr>sr_state := sr_saved_state lv\<rparr>) hi (c # str) s p3" "p_c p3 = c" "p_obj p3 = p_obj p"
    using p2(3,4) by (auto simp: set_state_def)
  have "tok_step e (-1) ?p = Some (Redo, p3)"
    using tok_at_cur [OF at1] at(2) p2 p3(1) ws(3) tok_at_cur [OF p2(2)]
    by (simp add: tok_step_def step_eatws_def)
  from loop_redo [OF this] loop p3 show ?thesis by auto
qed

section \<open>The text buffer\<close>

definition tok_text :: "nat \<Rightarrow> pstate \<Rightarrow> string \<Rightarrow> bool" where
  "tok_text L p t \<longleftrightarrow> (\<exists>pb. tk_pb (p_tok p) = Some pb \<and> pb_ok L pb \<and> pb_text pb = t \<and> pb_nul pb)"

lemma tok_text_upd [simp]:
  "tok_text L (p\<lparr>p_c := c\<rparr>) t = tok_text L p t" "tok_text L (p\<lparr>p_str := str\<rparr>) t = tok_text L p t"
  "tok_text L (p\<lparr>p_obj := ob\<rparr>) t = tok_text L p t" "tok_text L (p\<lparr>p_js := s\<rparr>) t = tok_text L p t"
  "tok_text L (upd_tok (\<lambda>tok. tok\<lparr>tk_char_offset := f tok\<rparr>) p) t = tok_text L p t"
  "tok_text L (upd_tok (\<lambda>tok. tok\<lparr>tk_stack := st\<rparr>) p) t = tok_text L p t"
  "tok_text L (upd_tok (\<lambda>tok. tok\<lparr>tk_st_pos := g tok\<rparr>) p) t = tok_text L p t"
  "tok_text L (upd_tok (\<lambda>tok. tok\<lparr>tk_is_double := b\<rparr>) p) t = tok_text L p t"
  "tok_text L (upd_tok (\<lambda>tok. tok\<lparr>tk_quote_char := q\<rparr>) p) t = tok_text L p t"
  "tok_text L (upd_tok (\<lambda>tok. tok\<lparr>tk_ucs_char := u tok, tk_st_pos := n\<rparr>) p) t = tok_text L p t"
  by (simp_all add: tok_text_def)

lemma tok_at_pb:
  "tok_at L lo lv hi str s p \<Longrightarrow> pb_ok L pb \<Longrightarrow>
   tok_at L lo lv hi str s (upd_tok (\<lambda>tok. tok\<lparr>tk_pb := Some pb\<rparr>) p)"
  by (simp add: tok_at_def)

lemma tok_pb_reset_at:
  assumes "tok_at L lo lv hi str s p"
  shows "\<exists>pb. tok_pb_reset p = Some (upd_tok (\<lambda>tok. tok\<lparr>tk_pb := Some pb\<rparr>) p)
     \<and> tok_at L lo lv hi str s (upd_tok (\<lambda>tok. tok\<lparr>tk_pb := Some pb\<rparr>) p)
     \<and> tok_text L (upd_tok (\<lambda>tok. tok\<lparr>tk_pb := Some pb\<rparr>) p) []"
proof -
  from assms obtain pb where pb: "tk_pb (p_tok p) = Some pb" "pb_ok L pb" by (auto simp: tok_at_def)
  then obtain pb' where pb': "printbuf_reset pb = Some pb'" "pb_inv pb'" "pb_nul pb'" "pb_text pb' = []"
    "pb_size pb' = pb_size pb" using printbuf_reset_spec [of pb] by (auto simp: pb_ok_def)
  then have "pb_ok L pb'" using pb by (simp add: pb_ok_def)
  with pb pb' tok_at_pb [OF assms, of pb'] show ?thesis
    by (intro exI [of _ pb']) (simp add: tok_pb_reset_def tok_text_def)
qed

lemma tok_pb_append_at:
  assumes "tok_text L p t" "length t + length src \<le> L"
  shows "\<exists>pb. tok_pb_append (\<lambda>_. True) src p = Some (upd_tok (\<lambda>tok. tok\<lparr>tk_pb := Some pb\<rparr>) p)
     \<and> pb_ok L pb \<and> tok_text L (upd_tok (\<lambda>tok. tok\<lparr>tk_pb := Some pb\<rparr>) p) (t @ src)"
proof -
  from assms(1) obtain pb where pb: "tk_pb (p_tok p) = Some pb" "pb_ok L pb" "pb_text pb = t" "pb_nul pb"
    by (auto simp: tok_text_def)
  from pb_put_fast_spec [OF pb(2), of src] pb(3) assms(2) obtain pb' where
    "printbuf_memappend_fast (\<lambda>_. True) pb src (int (length src)) = Some pb'" "pb_ok L pb'"
    "pb_text pb' = t @ src" "pb_nul pb'" by (auto simp: pb_put_fast_def)
  with pb show ?thesis by (intro exI [of _ pb']) (simp add: tok_pb_append_def tok_text_def)
qed

lemma tok_text_read:
  assumes "tok_text L p t"
  shows "\<exists>pb. tk_pb (p_tok p) = Some pb \<and> None \<notin> set (take (nat (pb_bpos pb)) (pb_buf pb))
     \<and> map the (take (nat (pb_bpos pb)) (pb_buf pb)) = t \<and> pb_bpos pb = int (length t)
     \<and> c_str (pb_buf pb) = Some (takeWhile (\<lambda>c. c \<noteq> NUL) t)
     \<and> (\<exists>rest. pb_buf pb = map Some t @ Some NUL # rest)"
proof -
  from assms obtain pb where pb: "tk_pb (p_tok p) = Some pb" "pb_inv pb" "pb_text pb = t" "pb_nul pb"
    by (auto simp: tok_text_def pb_ok_def)
  from pb(2) obtain rest where "pb_buf pb = map Some (pb_text pb) @ rest"
    "pb_bpos pb = int (length (pb_text pb))" by (rule pb_invE)
  then have r: "pb_buf pb = map Some t @ rest" "pb_bpos pb = int (length t)" using pb(3) by simp_all
  have "rest \<noteq> [] \<and> hd rest = Some NUL"
    using pb(4) by (cases rest) (auto simp: r pb_nul_def c_load_def nth_append split: if_splits)
  then obtain rest' where buf: "pb_buf pb = map Some t @ Some NUL # rest'" using r(1) by (cases rest) auto
  have "c_str (pb_buf pb) = Some (takeWhile (\<lambda>c. c \<noteq> NUL) t)" using pb_c_str [OF pb(2,4)] pb(3) by simp
  with pb(1) r(2) buf show ?thesis by (auto simp: comp_def)
qed

end
