(* ===== verification/Json_Leaves.thy ===== *)
theory Json_Leaves
  imports Json_Steps
begin

text \<open>
  Parsing of literals, numbers and strings: from the first character of their text to the
  state that finishes a value, with the new object on the heap.
\<close>

section \<open>New objects\<close>

text \<open>The heap grows: the old objects stay as they are.\<close>

definition grows :: "jstate \<Rightarrow> jstate \<Rightarrow> bool" where
  "grows s s' \<longleftrightarrow> jnext s \<le> jnext s' \<and> (\<forall>a < jnext s. jheap s' a = jheap s a) \<and> jlog s' = jlog s"

definition js_ok :: "jstate \<Rightarrow> bool" where
  "js_ok s \<longleftrightarrow> heap_bounded s \<and> \<not> sscanf_is_broken (jscan s)"

lemma grows_refl [simp]: "grows s s"
  by (simp add: grows_def)

lemma grows_trans: "grows s s' \<Longrightarrow> grows s' s'' \<Longrightarrow> grows s s''"
  by (auto simp: grows_def)

text \<open>\<open>holds n s p v A\<close>: \<open>p\<close> denotes \<open>v\<close>, as the root of a tree of objects not older than \<open>n\<close>.\<close>

definition holds :: "addr \<Rightarrow> jstate \<Rightarrow> addr option \<Rightarrow> json \<Rightarrow> addr list \<Rightarrow> bool" where
  "holds n s p v A \<longleftrightarrow> jdenotes (jheap s) p v \<and> owned (jheap s) p A \<and> set A \<subseteq> {n..<jnext s}"

text \<open>\<dots> and every object made since \<open>n\<close> was the next address is one of them.\<close>

definition built :: "addr \<Rightarrow> jstate \<Rightarrow> addr option \<Rightarrow> json \<Rightarrow> addr list \<Rightarrow> bool" where
  "built n s p v A \<longleftrightarrow> holds n s p v A \<and> set A = {n..<jnext s}"

lemma built_null: "built (jnext s) s None JNull []"
  by (simp add: built_def holds_def denotes_null owned_null)

text \<open>A new object is fresh, and everything else stays.\<close>

lemma new_with_spec:
  assumes "json_object_new_with (\<lambda>_. True) ty f s = Some (a, s')" "js_ok s"
  shows "a = Some (jnext s) \<and> grows s s' \<and> js_ok s' \<and> jnext s' = Suc (jnext s) \<and>
    (\<exists>j0 j. f j0 = Some j \<and> jheap s' = (jheap s)(jnext s := Some j) \<and> jo_type j0 = ty \<and> sole j0
       \<and> jo_delete j0 = Fn_generic_delete)"
proof -
  let ?j0 = "\<lparr>jo_type = ty, jo_delete = Fn_generic_delete, jo_to_json_string = None, jo_ref_count = 1,
    jo_pb = None, jo_data = C_zero, jo_user_delete = None, jo_userdata = None\<rparr>"
  from assms(1) obtain j where j: "f ?j0 = Some j" "a = Some (jnext s)"
    "s' = s\<lparr>jheap := (jheap s)(jnext s := Some j), jnext := Suc (jnext s)\<rparr>"
    by (auto simp: json_object_new_with_def json_object_new_def bind_eq_Some_conv jset_def)
  have "grows s s' \<and> js_ok s' \<and> jnext s' = Suc (jnext s)"
    using assms(2) by (auto simp: j(3) grows_def js_ok_def heap_bounded_def less_Suc_eq)
  moreover have "jheap s' = (jheap s)(jnext s := Some j)" "jo_type ?j0 = ty" "sole ?j0"
    "jo_delete ?j0 = Fn_generic_delete" by (simp_all add: j(3) sole_def)
  ultimately show ?thesis using j(1,2) by blast
qed

lemma new_boolean:
  assumes "js_ok s"
  shows "\<exists>s'. json_object_new_boolean (\<lambda>_. True) b s = Some (Some (jnext s), s') \<and> grows s s' \<and> js_ok s'
     \<and> built (jnext s) s' (Some (jnext s)) (JBool (b \<noteq> 0)) [jnext s]"
proof -
  obtain a s' where n: "json_object_new_boolean (\<lambda>_. True) b s = Some (a, s')"
    by (auto simp: json_object_new_boolean_def json_object_new_with_def json_object_new_def)
  from new_with_spec [OF n [unfolded json_object_new_boolean_def] assms] n show ?thesis
    by (auto simp: built_def holds_def sole_def intro!: denotes_bool owned_leaf)
qed

lemma new_int64:
  assumes "js_ok s"
  shows "\<exists>s'. json_object_new_int64 (\<lambda>_. True) i s = Some (Some (jnext s), s') \<and> grows s s' \<and> js_ok s'
     \<and> built (jnext s) s' (Some (jnext s)) (JInt i) [jnext s]"
proof -
  obtain a s' where n: "json_object_new_int64 (\<lambda>_. True) i s = Some (a, s')"
    by (auto simp: json_object_new_int64_def json_object_new_with_def json_object_new_def)
  from new_with_spec [OF n [unfolded json_object_new_int64_def] assms] n show ?thesis
    by (auto simp: built_def holds_def sole_def intro!: denotes_int owned_leaf)
qed

lemma new_double:
  assumes "js_ok s"
  shows "\<exists>s'. json_object_new_double (\<lambda>_. True) d s = Some (Some (jnext s), s') \<and> grows s s' \<and> js_ok s'
     \<and> built (jnext s) s' (Some (jnext s)) (JDouble d) [jnext s]"
proof -
  obtain a s' where n: "json_object_new_double (\<lambda>_. True) d s = Some (a, s')"
    by (auto simp: json_object_new_double_def json_object_new_with_def json_object_new_def)
  from new_with_spec [OF n [unfolded json_object_new_double_def] assms] n show ?thesis
    by (auto simp: built_def holds_def sole_def intro!: denotes_double owned_leaf)
qed

lemma new_string_len:
  assumes "js_ok s" "int (length str) + 1 \<le> INT_MAX"
  shows "\<exists>s'. json_object_new_string_len (\<lambda>_. True) str (int (length str)) s = Some (Some (jnext s), s')
     \<and> grows s s' \<and> js_ok s' \<and> built (jnext s) s' (Some (jnext s)) (JString str) [jnext s]"
proof -
  obtain a s' where n: "json_object_new_string_len (\<lambda>_. True) str (int (length str)) s = Some (a, s')"
    using assms(2)
    by (auto simp: json_object_new_string_len_def json_object_new_with_def json_object_new_def c_int_ok_def)
  from new_with_spec [OF n [unfolded json_object_new_string_len_def] assms(1)] n show ?thesis
    by (auto simp: built_def holds_def sole_def intro!: denotes_string owned_string)
qed

lemma new_array:
  assumes "js_ok s"
  shows "\<exists>s'. json_object_new_array (\<lambda>_. True) s = Some (Some (jnext s), s') \<and> grows s s' \<and> js_ok s'
     \<and> built (jnext s) s' (Some (jnext s)) (JArray []) [jnext s]"
proof -
  obtain a s' where n: "json_object_new_array (\<lambda>_. True) s = Some (a, s')"
    by (auto simp: json_object_new_array_def json_object_new_with_def json_object_new_def)
  obtain arr :: "addr array_list" where arr: "array_list_new (\<lambda>_. True) = Some arr" by (simp add: array_list_new_def)
  note al = array_list_new_spec [OF arr]
  from new_with_spec [OF n [unfolded json_object_new_array_def] assms] n arr al show ?thesis
    using owned_array [of "jheap s'" "jnext s" _ arr "[]"]
    by (auto simp: built_def holds_def sole_def intro!: denotes_array)
qed

lemma new_object:
  assumes "js_ok s"
  shows "\<exists>s'. json_object_new_object (\<lambda>_. True) s = Some (Some (jnext s), s') \<and> grows s s' \<and> js_ok s'
     \<and> built (jnext s) s' (Some (jnext s)) (JObject []) [jnext s]"
proof -
  obtain t :: "(string, addr) lh_table" where t: "lh_kchar_table_new (\<lambda>_. True) 16 = Some t"
    by (simp add: lh_kchar_table_new_def lh_table_new_def)
  have "lh_table_new (\<lambda>_. True) 16 lh_char_hash (\<lambda>a b. a = b) = Some t"
    using t by (simp add: lh_kchar_table_new_def lh_char_equal_def [abs_def])
  note new = lh_table_new_spec [OF this]
  have inv: "lh_inv t" "lh_items t = []" using new by (auto simp: lh_inv_def)
  obtain a s' where n: "json_object_new_object (\<lambda>_. True) s = Some (a, s')"
    using t by (auto simp: json_object_new_object_def json_object_new_with_def json_object_new_def)
  from new_with_spec [OF n [unfolded json_object_new_object_def] assms] n t inv show ?thesis
    using owned_object [of "jheap s'" "jnext s" _ t "[]"]
    by (auto simp: built_def holds_def sole_def intro!: denotes_object)
qed

section \<open>Finishing a value\<close>

lemma finish_value_at:
  assumes "tok_at L lo lv hi str s p" "new = Some (a, s')"
  shows "\<exists>p'. finish_value new k p = Some (k, p')
     \<and> tok_at L lo (lvl state_eatws state_finish a (sr_obj_field_name lv)) hi str s' p' \<and> p_c p' = p_c p"
proof -
  have "tok_at L lo lv hi str s' (p\<lparr>p_js := s'\<rparr>)" by (rule tok_at_js [OF assms(1)])
  from tok_at_upd_cur [OF this, of "\<lambda>l. l\<lparr>sr_current := a\<rparr>"] obtain p1 where
    p1: "set_current a (p\<lparr>p_js := s'\<rparr>) = Some p1" "tok_at L lo (lv\<lparr>sr_current := a\<rparr>) hi str s' p1" "p_c p1 = p_c p"
    by (auto simp: set_current_def)
  from tok_at_upd_cur [OF p1(2), of "\<lambda>l. l\<lparr>sr_state := state_eatws, sr_saved_state := state_finish\<rparr>"] obtain p2 where
    p2: "set_states state_eatws state_finish p1 = Some p2"
      "tok_at L lo (lv\<lparr>sr_current := a, sr_state := state_eatws, sr_saved_state := state_finish\<rparr>) hi str s' p2"
      "p_c p2 = p_c p" using p1(3) by (auto simp: set_states_def)
  have "lv\<lparr>sr_current := a, sr_state := state_eatws, sr_saved_state := state_finish\<rparr>
      = lvl state_eatws state_finish a (sr_obj_field_name lv)" by simp
  with p1 p2 assms(2) show ?thesis by (auto simp: finish_value_def)
qed

text \<open>A step that leaves the character for the next state is as good as one that reads it again.\<close>

lemma loop_again:
  assumes "tok_at L lo lv hi (c # str) s p" "p_c p = c"
  shows "parse_loop e (-1) True p = parse_loop e (-1) False p"
proof -
  have "p\<lparr>p_c := c\<rparr> = p" using assms(2) by simp
  with loop_peek_at(1) [OF assms(1), of e] show ?thesis by simp
qed

section \<open>Literals\<close>

lemma strncasecmp_prefix:
  "NUL \<notin> set lit \<Longrightarrow> n \<le> length lit \<Longrightarrow> n \<le> length t \<Longrightarrow> take n t = take n lit \<Longrightarrow>
   strncasecmp_eq lit (map Some t @ m) n = Some True"
proof (induction n arbitrary: lit t)
  case (Suc n)
  then obtain c lit' d t' where "lit = c # lit'" "t = d # t'" by (cases lit; cases t) auto
  with Suc show ?case by simp
qed simp

lemma tok_matches_prefix:
  assumes "tok_text L p t" "tk_st_pos (p_tok p) = int k" "int k + 1 \<le> INT_MAX" "NUL \<notin> set lit"
    "min (Suc k) (length lit) \<le> length t" "take (min (Suc k) (length lit)) t = take (min (Suc k) (length lit)) lit"
  shows "tok_matches lit p = Some True"
proof -
  from tok_text_read [OF assms(1)] obtain pb m where pb: "tk_pb (p_tok p) = Some pb" "pb_buf pb = map Some t @ m" by blast
  have "nat (min (int k + 1) (int (length lit))) = min (Suc k) (length lit)" by simp
  with strncasecmp_prefix [of lit "min (Suc k) (length lit)" t m] assms pb show ?thesis
    by (simp add: tok_matches_def c_int_ok_def)
qed

lemma tok_matches_first:
  assumes "tok_text L p (d # t)" "tk_st_pos (p_tok p) = int k" "int k + 1 \<le> INT_MAX" "lit = c # lit'"
    "c_tolower c \<noteq> c_tolower d"
  shows "tok_matches lit p = Some False"
proof -
  from tok_text_read [OF assms(1)] obtain pb m where pb: "tk_pb (p_tok p) = Some pb" "pb_buf pb = Some d # m" by force
  obtain n where "nat (min (int k + 1) (int (length lit))) = Suc n"
    using assms(4) by (cases "nat (min (int k + 1) (int (length lit)))") auto
  with assms pb show ?thesis by (simp add: tok_matches_def c_int_ok_def)
qed

text \<open>
  The characters of a literal are taken one by one, given that each step with the first \<open>k\<close>
  characters in the buffer accepts the next one.
\<close>

definition lit_step :: "cenv \<Rightarrow> nat \<Rightarrow> json_tokener_state \<Rightarrow> string \<Rightarrow> bool" where
  "lit_step e L st lit \<longleftrightarrow> (\<forall>p k lo lv hi str s. tok_at L lo lv hi str s p \<and> sr_state lv = st
     \<and> tok_text L p (take k lit) \<and> tk_st_pos (p_tok p) = int k \<and> k < length lit \<and> p_c p = lit ! k \<longrightarrow>
     (\<exists>p'. tok_step e (-1) p = Some (Break, p') \<and> tok_at L lo lv hi str s p' \<and> tok_text L p' (take (Suc k) lit)
        \<and> tk_st_pos (p_tok p') = int (Suc k) \<and> p_c p' = p_c p))"

lemma lit_run:
  assumes "lit_step e L st lit" "NUL \<notin> set lit"
  shows "k \<le> length lit \<Longrightarrow> tok_at L lo lv hi (drop k lit @ c # str) s p \<Longrightarrow> sr_state lv = st \<Longrightarrow>
     tok_text L p (take k lit) \<Longrightarrow> tk_st_pos (p_tok p) = int k \<Longrightarrow> p_c p = hd (drop k lit @ [c]) \<Longrightarrow>
     \<exists>p'. parse_loop e (-1) True p = parse_loop e (-1) True p' \<and> tok_at L lo lv hi (c # str) s p'
       \<and> tok_text L p' lit \<and> tk_st_pos (p_tok p') = int (length lit) \<and> p_c p' = c"
proof (induction "length lit - k" arbitrary: k p)
  case 0
  then show ?case by (intro exI [of _ p]) auto
next
  case (Suc n)
  then have k: "k < length lit" by simp
  then have d: "drop k lit = lit ! k # drop (Suc k) lit" by (simp add: Cons_nth_drop_Suc)
  then have c: "p_c p = lit ! k" using Suc.prems(6) by simp
  with assms(2) k have nul: "p_c p \<noteq> NUL" by (metis nth_mem)
  from assms(1) Suc.prems k c obtain p1 where p1: "tok_step e (-1) p = Some (Break, p1)"
    "tok_at L lo lv hi (drop k lit @ c # str) s p1" "tok_text L p1 (take (Suc k) lit)"
    "tk_st_pos (p_tok p1) = int (Suc k)" "p_c p1 = p_c p"
    unfolding lit_step_def by blast
  obtain y ys where y: "drop (Suc k) lit @ c # str = y # ys" "y = hd (drop (Suc k) lit @ [c])"
    by (cases "drop (Suc k) lit") auto
  from loop_break_at [OF p1(1)] p1(2) nul p1(5) d obtain p2 where
    p2: "parse_loop e (-1) True p = parse_loop e (-1) False p2"
      "tok_at L lo lv hi (drop (Suc k) lit @ c # str) s p2"
      "p2 = upd_tok (\<lambda>tok. tok\<lparr>tk_char_offset := tk_char_offset tok + 1\<rparr>) (p1\<lparr>p_str := drop (Suc k) lit @ c # str\<rparr>)"
    by auto
  let ?p3 = "p2\<lparr>p_c := y\<rparr>"
  have p3: "parse_loop e (-1) False p2 = parse_loop e (-1) True ?p3"
    using loop_peek_at(1) [of L lo lv hi y ys s p2 e] p2(2) y(1) by simp
  have "\<exists>p'. parse_loop e (-1) True ?p3 = parse_loop e (-1) True p' \<and> tok_at L lo lv hi (c # str) s p'
       \<and> tok_text L p' lit \<and> tk_st_pos (p_tok p') = int (length lit) \<and> p_c p' = c"
  proof (rule Suc.hyps(1))
    show "n = length lit - Suc k" "Suc k \<le> length lit" using Suc.hyps(2) k by simp_all
    show "tok_at L lo lv hi (drop (Suc k) lit @ c # str) s ?p3" using p2(2) by simp
    show "sr_state lv = st" by (rule Suc.prems(3))
    show "tok_text L ?p3 (take (Suc k) lit)" "tk_st_pos (p_tok ?p3) = int (Suc k)"
      using p1(3,4) unfolding p2(3) by simp_all
    show "p_c ?p3 = hd (drop (Suc k) lit @ [c])" using y(2) by simp
  qed
  with p2(1) p3 show ?case by simp
qed

lemma take_Suc_nth: "k < length xs \<Longrightarrow> take k xs @ [xs ! k] = take (Suc k) xs"
  by (simp add: take_Suc_conv_app_nth)

lemma tok_append_char:
  assumes "tok_at L lo lv hi str s p" "tok_text L p t" "length t < L"
  shows "\<exists>p'. tok_pb_append (\<lambda>_. True) [p_c p] p = Some p' \<and> tok_at L lo lv hi str s p'
     \<and> tok_text L p' (t @ [p_c p]) \<and> p_c p' = p_c p \<and> tk_st_pos (p_tok p') = tk_st_pos (p_tok p)"
proof -
  from assms(3) have "length t + length [p_c p] \<le> L" by simp
  from tok_pb_append_at [OF assms(2) this] obtain pb where
    "tok_pb_append (\<lambda>_. True) [p_c p] p = Some (upd_tok (\<lambda>tok. tok\<lparr>tk_pb := Some pb\<rparr>) p)" "pb_ok L pb"
    "tok_text L (upd_tok (\<lambda>tok. tok\<lparr>tk_pb := Some pb\<rparr>) p) (t @ [p_c p])" by blast
  with tok_at_pb [OF assms(1)] show ?thesis by (intro exI [of _ "upd_tok (\<lambda>tok. tok\<lparr>tk_pb := Some pb\<rparr>) p"]) simp
qed

lemma lit_step_null:
  assumes e: "env_mal e = (\<lambda>_. True)" and L: "4 < L"
  shows "lit_step e L state_null ''null''"
  unfolding lit_step_def
proof (intro allI impI, elim conjE)
  fix p k lo lv hi str s
  assume a: "tok_at L lo lv hi str s p" "sr_state lv = state_null" "tok_text L p (take k ''null'')"
    "tk_st_pos (p_tok p) = int k" "k < length ''null''" "p_c p = ''null'' ! k"
  have "length (take k ''null'') < L" using L by (simp only: length_take) simp
  from tok_append_char [OF a(1,3) this] obtain p1 where p1: "tok_pb_append (\<lambda>_. True) [p_c p] p = Some p1"
    "tok_at L lo lv hi str s p1" "tok_text L p1 (take (Suc k) ''null'')" "p_c p1 = p_c p"
    "tk_st_pos (p_tok p1) = int k"
    using a(4,6) take_Suc_nth [OF a(5)] by auto
  have "int k + 1 \<le> INT_MAX" "k \<noteq> 4" using a(5) by auto
  moreover have "tok_matches ''null'' p1 = Some True"
    by (rule tok_matches_prefix [OF p1(3,5)]) (use a(5) in auto)
  ultimately have "tok_step e (-1) p
      = Some (Break, upd_tok (\<lambda>tok. tok\<lparr>tk_st_pos := tk_st_pos tok + 1\<rparr>) p1)"
    using p1 tok_at_cur [OF a(1)] a(2) e by (simp add: tok_step_def step_null_def bump_st_pos_def)
  then show "\<exists>p'. tok_step e (-1) p = Some (Break, p') \<and> tok_at L lo lv hi str s p'
      \<and> tok_text L p' (take (Suc k) ''null'') \<and> tk_st_pos (p_tok p') = int (Suc k) \<and> p_c p' = p_c p"
    using p1 by (intro exI [of _ "upd_tok (\<lambda>tok. tok\<lparr>tk_st_pos := tk_st_pos tok + 1\<rparr>) p1"])
      (simp del: take_Suc_Cons)
qed

text \<open>The text of the booleans; \<open>false\<close> is only tried when the buffer does not start like \<open>true\<close>.\<close>

definition bool_text :: "bool \<Rightarrow> string" where
  "bool_text b = (if b then ''true'' else ''false'')"

lemma bool_matches:
  assumes "tok_text L p (take (Suc k) (bool_text b @ x))" "tk_st_pos (p_tok p) = int k" "k \<le> length (bool_text b)"
  shows "if b then tok_matches ''true'' p = Some True
     else tok_matches ''true'' p = Some False \<and> tok_matches ''false'' p = Some True"
proof (cases b)
  case True
  have "tok_matches ''true'' p = Some True"
    by (rule tok_matches_prefix [OF assms(1,2)]) (use assms(3) True in \<open>auto simp: bool_text_def min_def take_Cons' \<close>)
  with True show ?thesis by simp
next
  case False
  have k: "int k + 1 \<le> INT_MAX" using assms(3) False by (simp add: bool_text_def)
  have "tok_text L p (CHR ''f'' # take k (''alse'' @ x))" using assms(1) False by (simp add: bool_text_def)
  from tok_matches_first [OF this assms(2) k] have "tok_matches ''true'' p = Some False"
    by (simp add: c_tolower_def)
  moreover have "tok_matches ''false'' p = Some True"
    by (rule tok_matches_prefix [OF assms(1,2)]) (use assms(3) False in \<open>auto simp: bool_text_def min_def take_Cons' \<close>)
  ultimately show ?thesis using False by simp
qed

lemma lit_step_bool:
  assumes e: "env_mal e = (\<lambda>_. True)" and L: "5 < L"
  shows "lit_step e L state_boolean (bool_text b)"
  unfolding lit_step_def
proof (intro allI impI, elim conjE)
  fix p k lo lv hi str s
  assume a: "tok_at L lo lv hi str s p" "sr_state lv = state_boolean" "tok_text L p (take k (bool_text b))"
    "tk_st_pos (p_tok p) = int k" "k < length (bool_text b)" "p_c p = bool_text b ! k"
  have "length (bool_text b) \<le> 5" by (simp add: bool_text_def)
  then have "length (take k (bool_text b)) < L" using L by simp
  from tok_append_char [OF a(1,3) this] obtain p1 where p1: "tok_pb_append (\<lambda>_. True) [p_c p] p = Some p1"
    "tok_at L lo lv hi str s p1" "tok_text L p1 (take (Suc k) (bool_text b))" "p_c p1 = p_c p"
    "tk_st_pos (p_tok p1) = int k"
    using a(4,6) take_Suc_nth [OF a(5)] by auto
  from bool_matches [of L p1 k b "[]"] p1 a(5) have
    "if b then tok_matches ''true'' p1 = Some True
     else tok_matches ''true'' p1 = Some False \<and> tok_matches ''false'' p1 = Some True" by simp
  moreover have "if b then k \<noteq> 4 else k \<noteq> 5" using a(5) by (cases b) (simp_all add: bool_text_def)
  ultimately have "tok_step e (-1) p
      = Some (Break, upd_tok (\<lambda>tok. tok\<lparr>tk_st_pos := tk_st_pos tok + 1\<rparr>) p1)"
    using p1 tok_at_cur [OF a(1)] a(2) e
    by (cases b) (simp_all add: tok_step_def step_boolean_def bump_st_pos_def)
  then show "\<exists>p'. tok_step e (-1) p = Some (Break, p') \<and> tok_at L lo lv hi str s p'
      \<and> tok_text L p' (take (Suc k) (bool_text b)) \<and> tk_st_pos (p_tok p') = int (Suc k) \<and> p_c p' = p_c p"
    using p1 by (intro exI [of _ "upd_tok (\<lambda>tok. tok\<lparr>tk_st_pos := tk_st_pos tok + 1\<rparr>) p1"]) simp
qed

text \<open>The first character selects the state; the buffer is emptied.\<close>

lemma start_literal:
  assumes at: "tok_at L lo lv hi str s p" "sr_state lv = state_start"
    and st: "p_c p \<in> set ''Nn'' \<and> st = state_null \<or> p_c p \<in> set ''TtFf'' \<and> st = state_boolean"
  shows "\<exists>p'. tok_step e (-1) p = Some (Redo, p') \<and> tok_at L lo (lv\<lparr>sr_state := st\<rparr>) hi str s p'
     \<and> tok_text L p' [] \<and> tk_st_pos (p_tok p') = 0 \<and> p_c p' = p_c p"
proof -
  from tok_at_upd_cur [OF at(1), of "\<lambda>l. l\<lparr>sr_state := st\<rparr>"] obtain p1 where
    p1: "set_state st p = Some p1" "tok_at L lo (lv\<lparr>sr_state := st\<rparr>) hi str s p1" "p_c p1 = p_c p"
    by (auto simp: set_state_def)
  from tok_pb_reset_at [OF p1(2)] obtain p2 where p2: "tok_pb_reset p1 = Some p2"
    "tok_at L lo (lv\<lparr>sr_state := st\<rparr>) hi str s p2" "tok_text L p2 []" "p_c p2 = p_c p" using p1(3) by auto
  have "tok_step e (-1) p = Some (Redo, upd_tok (\<lambda>tok. tok\<lparr>tk_st_pos := 0\<rparr>) p2)"
    using st tok_at_cur [OF at(1)] at(2) p1(1) p2(1) by (auto simp: tok_step_def step_start_def Let_def)
  with p2 show ?thesis by (intro exI [of _ "upd_tok (\<lambda>tok. tok\<lparr>tk_st_pos := 0\<rparr>) p2"]) simp
qed

text \<open>The whole literal, from the start state to the end of the value.\<close>

lemma parse_null_text:
  assumes e: "env_mal e = (\<lambda>_. True)" and L: "4 < L"
    and at: "tok_at L lo (lvl state_start sv None nm) hi (''null'' @ c # str) s p" "p_c p = CHR ''n''"
  shows "\<exists>p'. parse_loop e (-1) True p = parse_loop e (-1) False p'
     \<and> tok_at L lo (lvl state_eatws state_finish None nm) hi (c # str) s p'"
proof -
  from start_literal [OF at(1), of state_null e] at(2) obtain p1 where
    p1: "tok_step e (-1) p = Some (Redo, p1)" "tok_at L lo (lvl state_null sv None nm) hi (''null'' @ c # str) s p1"
      "tok_text L p1 []" "tk_st_pos (p_tok p1) = 0" "p_c p1 = CHR ''n''" by auto
  from lit_run [OF lit_step_null [OF e L], of 0 lo "lvl state_null sv None nm" hi c str s p1] p1 obtain p2 where
    p2: "parse_loop e (-1) True p1 = parse_loop e (-1) True p2" "tok_at L lo (lvl state_null sv None nm) hi (c # str) s p2"
      "tok_text L p2 ''null''" "tk_st_pos (p_tok p2) = 4" "p_c p2 = c" by auto
  from tok_append_char [OF p2(2,3)] L p2(4,5) obtain p3 where p3: "tok_pb_append (\<lambda>_. True) [p_c p2] p2 = Some p3"
    "tok_at L lo (lvl state_null sv None nm) hi (c # str) s p3" "tok_text L p3 (''null'' @ [c])" "p_c p3 = c"
    "tk_st_pos (p_tok p3) = int 4" by auto
  have m: "tok_matches ''null'' p3 = Some True" by (rule tok_matches_prefix [OF p3(3,5)]) auto
  from tok_at_upd_cur [OF p3(2), of "\<lambda>l. l\<lparr>sr_current := None\<rparr>"] obtain p4 where
    p4: "set_current None p3 = Some p4" "tok_at L lo (lvl state_null sv None nm) hi (c # str) s p4" "p_c p4 = c"
    using p3(4) by (auto simp: set_current_def)
  from tok_at_upd_cur [OF p4(2), of "\<lambda>l. l\<lparr>sr_state := state_eatws, sr_saved_state := state_finish\<rparr>"] obtain p5 where
    p5: "set_states state_eatws state_finish p4 = Some p5"
      "tok_at L lo (lvl state_eatws state_finish None nm) hi (c # str) s p5" "p_c p5 = c"
    using p4(3) by (auto simp: set_states_def)
  have "tok_step e (-1) p2 = Some (Redo, p5)"
    using tok_at_cur [OF p2(2)] p3(1,5) m p4(1) p5(1) e by (simp add: tok_step_def step_null_def)
  with loop_redo [OF p1(1)] p2(1) loop_redo loop_again [OF p5(2,3)] show ?thesis
    using p5(2) by metis
qed

lemma parse_bool_text:
  assumes e: "env_mal e = (\<lambda>_. True)" and L: "5 < L" and s: "js_ok s"
    and at: "tok_at L lo (lvl state_start sv None nm) hi (bool_text b @ c # str) s p" "p_c p = hd (bool_text b)"
  shows "\<exists>p' s'. parse_loop e (-1) True p = parse_loop e (-1) False p'
     \<and> tok_at L lo (lvl state_eatws state_finish (Some (jnext s)) nm) hi (c # str) s' p'
     \<and> grows s s' \<and> js_ok s' \<and> built (jnext s) s' (Some (jnext s)) (JBool b) [jnext s]"
proof -
  let ?n = "length (bool_text b)"
  from start_literal [OF at(1), of state_boolean e] at(2) obtain p1 where
    p1: "tok_step e (-1) p = Some (Redo, p1)" "tok_at L lo (lvl state_boolean sv None nm) hi (bool_text b @ c # str) s p1"
      "tok_text L p1 []" "tk_st_pos (p_tok p1) = 0" "p_c p1 = hd (bool_text b)" by (auto simp: bool_text_def split: if_splits)
  have "NUL \<notin> set (bool_text b)" "bool_text b \<noteq> []" by (simp_all add: bool_text_def)
  from lit_run [OF lit_step_bool [OF e L] this(1), of 0 lo "lvl state_boolean sv None nm" hi c str s p1] p1 this(2)
  obtain p2 where
    p2: "parse_loop e (-1) True p1 = parse_loop e (-1) True p2" "tok_at L lo (lvl state_boolean sv None nm) hi (c # str) s p2"
      "tok_text L p2 (bool_text b)" "tk_st_pos (p_tok p2) = int ?n" "p_c p2 = c" by auto
  have n: "?n = (if b then 4 else 5)" by (simp add: bool_text_def)
  from tok_append_char [OF p2(2,3)] L n p2(4,5) obtain p3 where p3: "tok_pb_append (\<lambda>_. True) [p_c p2] p2 = Some p3"
    "tok_at L lo (lvl state_boolean sv None nm) hi (c # str) s p3" "tok_text L p3 (take (Suc ?n) (bool_text b @ [c]))"
    "p_c p3 = c" "tk_st_pos (p_tok p3) = int ?n" by (auto split: if_splits)
  note m = bool_matches [OF p3(3,5)]
  from new_boolean [OF s, of "if b then 1 else 0"] obtain s' where
    s': "json_object_new_boolean (\<lambda>_. True) (if b then 1 else 0) s = Some (Some (jnext s), s')" "grows s s'" "js_ok s'"
      "built (jnext s) s' (Some (jnext s)) (JBool b) [jnext s]" by (auto split: if_splits)
  from finish_value_at [OF p3(2) s'(1), of Redo] p3(4) obtain p4 where
    p4: "finish_value (json_object_new_boolean (\<lambda>_. True) (if b then 1 else 0) s) Redo p3 = Some (Redo, p4)"
      "tok_at L lo (lvl state_eatws state_finish (Some (jnext s)) nm) hi (c # str) s' p4" "p_c p4 = c" by auto
  have "p_js p3 = s" using p3(2) by (simp add: tok_at_def)
  then have "tok_step e (-1) p2 = Some (Redo, p4)"
    using tok_at_cur [OF p2(2)] p3(1,5) m p4(1) e n by (cases b) (simp_all add: tok_step_def step_boolean_def)
  with loop_redo [OF p1(1)] p2(1) loop_redo loop_again [OF p4(2,3)] show ?thesis
    using p4(2) s'(2-4) by metis
qed

section \<open>Numbers\<close>

lemma int_prefix_itoa: "int_prefix (c_itoa i) = Some i"
proof -
  have ds: "c_dec \<bar>i\<bar> \<noteq> []" "\<forall>c \<in> set (c_dec \<bar>i\<bar>). c_isdigit c"
    using c_dec_digits [of "\<bar>i\<bar>"] by (auto simp: c_dec_nonempty)
  note p = int_prefix_digits [OF ds]
  show ?thesis using p(1,2) by (cases "i < 0") (simp_all add: c_itoa_def digits_val_c_dec)
qed

lemma start_number:
  assumes at: "tok_at L lo lv hi str s p" "sr_state lv = state_start" and c: "p_c p \<in> set ''0123456789-''"
  shows "\<exists>p'. tok_step e (-1) p = Some (Redo, p') \<and> tok_at L lo (lv\<lparr>sr_state := state_number\<rparr>) hi str s p'
     \<and> tok_text L p' [] \<and> \<not> tk_is_double (p_tok p') \<and> p_c p' = p_c p"
proof -
  from tok_at_upd_cur [OF at(1), of "\<lambda>l. l\<lparr>sr_state := state_number\<rparr>"] obtain p1 where
    p1: "set_state state_number p = Some p1" "tok_at L lo (lv\<lparr>sr_state := state_number\<rparr>) hi str s p1" "p_c p1 = p_c p"
    by (auto simp: set_state_def)
  from tok_pb_reset_at [OF p1(2)] obtain p2 where p2: "tok_pb_reset p1 = Some p2"
    "tok_at L lo (lv\<lparr>sr_state := state_number\<rparr>) hi str s p2" "tok_text L p2 []" "p_c p2 = p_c p" using p1(3) by auto
  have "tok_step e (-1) p = Some (Redo, upd_tok (\<lambda>tok. tok\<lparr>tk_is_double := False\<rparr>) p2)"
    using c tok_at_cur [OF at(1)] at(2) p1(1) p2(1) by (auto simp: tok_step_def step_start_def Let_def)
  with p2 show ?thesis by (intro exI [of _ "upd_tok (\<lambda>tok. tok\<lparr>tk_is_double := False\<rparr>) p2"]) simp
qed

text \<open>Up to the conversion: the characters of the number are in the buffer.\<close>

lemma number_scan:
  assumes e: "env_mal e = (\<lambda>_. True)"
    and at: "tok_at L lo (lvl state_start sv None nm) hi (t @ c # str) s p" "p_c p = hd t"
    and t: "t \<noteq> []" "set t \<subseteq> set json_number_chars" "hd t \<in> set ''0123456789-''" "length t \<le> L"
    and c: "c \<notin> set json_number_chars"
  shows "\<exists>p' p1. parse_loop e (-1) True p = parse_loop e (-1) True p1
     \<and> tok_step e (-1) p1 = number_value e p' \<and> tok_at L lo (lvl state_number sv None nm) hi (c # str) s p'
     \<and> tok_text L p' t \<and> p_c p' = c \<and> tk_is_double (p_tok p') = (\<exists>x \<in> set t. x \<in> set ''.eE'')"
proof -
  from start_number [OF at(1), of e] at(2) t(3) obtain p1 where
    p1: "tok_step e (-1) p = Some (Redo, p1)" "tok_at L lo (lvl state_number sv None nm) hi (t @ c # str) s p1"
      "tok_text L p1 []" "\<not> tk_is_double (p_tok p1)" "p_c p1 = hd (t @ [c])" using t(1) by auto
  define P where "P = (\<lambda>x. x \<noteq> NUL \<and> x \<in> set json_number_chars)"
  have "NUL \<notin> set json_number_chars" by simp
  then have run: "\<forall>x \<in> set t. P x \<and> x \<noteq> NUL" "\<not> P c" using t(2) c unfolding P_def by blast+
  from tight_run [OF p1(2) run p1(5)] obtain p2 where
    p2: "tight P (-1) p1 = Some (True, t, p2)" "tok_at L lo (lvl state_number sv None nm) hi (c # str) s p2" "p_c p2 = c"
      "tok_text L p2 []" "\<not> tk_is_double (p_tok p2)" using p1(3,4) by auto
  define D where "D = (\<exists>x \<in> set t. x \<in> set ''.eE'')"
  let ?p3 = "upd_tok (\<lambda>tok. tok\<lparr>tk_is_double := tk_is_double tok \<or> D\<rparr>) p2"
  have p3: "?p3 = upd_tok (\<lambda>tok. tok\<lparr>tk_is_double := D\<rparr>) p2" using p2(5) by (simp add: upd_tok_def)
  have "tok_text L ?p3 []" using p2(4) unfolding p3 by simp
  from tok_pb_append_at [OF this, of t] t(4) obtain pb where
    pb: "tok_pb_append (\<lambda>_. True) t ?p3 = Some (upd_tok (\<lambda>tok. tok\<lparr>tk_pb := Some pb\<rparr>) ?p3)" "pb_ok L pb"
      "tok_text L (upd_tok (\<lambda>tok. tok\<lparr>tk_pb := Some pb\<rparr>) ?p3) t" by auto
  let ?p4 = "upd_tok (\<lambda>tok. tok\<lparr>tk_pb := Some pb\<rparr>) ?p3"
  have "tok_at L lo (lvl state_number sv None nm) hi (c # str) s ?p3" using p2(2) unfolding p3 by simp
  from tok_at_pb [OF this pb(2)] have at4: "tok_at L lo (lvl state_number sv None nm) hi (c # str) s ?p4" .
  have "tok_step e (-1) p1 = step_number e (-1) p1" using tok_at_cur [OF p1(2)] by (simp add: tok_step_def)
  also have "\<dots> = number_value e ?p4"
    unfolding step_number_def P_def [symmetric] p2(1) using pb(1) t(1) e D_def by simp
  finally have "tok_step e (-1) p1 = number_value e ?p4" .
  with loop_redo [OF p1(1)] at4 pb(3) p2(3,5) show ?thesis
    unfolding D_def [symmetric] by (intro exI [of _ ?p4] exI [of _ p1]) simp
qed

lemma takeWhile_no_NUL: "NUL \<notin> set t \<Longrightarrow> takeWhile (\<lambda>c. c \<noteq> NUL) t = t"
  by (auto simp: takeWhile_eq_all_conv)

lemma parse_int_text:
  assumes e: "env_mal e = (\<lambda>_. True)" "env_scan e = scan_d64" and s: "js_ok s"
    and at: "tok_at L lo (lvl state_start sv None nm) hi (c_itoa i @ c # str) s p" "p_c p = hd (c_itoa i)"
    and i: "INT64_MIN \<le> i" "i \<le> INT64_MAX" "length (c_itoa i) \<le> L" and c: "c \<notin> set json_number_chars"
  shows "\<exists>p' s'. parse_loop e (-1) True p = parse_loop e (-1) False p'
     \<and> tok_at L lo (lvl state_eatws state_finish (Some (jnext s)) nm) hi (c # str) s' p'
     \<and> grows s s' \<and> js_ok s' \<and> built (jnext s) s' (Some (jnext s)) (JInt i) [jnext s]"
proof -
  have digits: "set (c_dec \<bar>i\<bar>) \<subseteq> set ''0123456789''" by (rule c_dec_set) simp
  have "set (c_itoa i) \<subseteq> insert CHR ''-'' (set (c_dec \<bar>i\<bar>))" by (cases "i < 0") (auto simp: c_itoa_def)
  moreover have "insert CHR ''-'' (set ''0123456789'') = set ''0123456789-''" by auto
  ultimately have sub: "set (c_itoa i) \<subseteq> set ''0123456789-''" using digits by blast
  have "set ''0123456789-'' \<subseteq> set json_number_chars" "set ''0123456789-'' \<inter> set ''.eE'' = {}" by simp_all
  then have ne: "c_itoa i \<noteq> []" "set (c_itoa i) \<subseteq> set json_number_chars" "\<not> (\<exists>x \<in> set (c_itoa i). x \<in> set ''.eE'')"
    using sub c_dec_nonempty [of i] by (simp add: c_itoa_def, blast, blast)
  moreover have "hd (c_itoa i) \<in> set ''0123456789-''" using sub ne(1) hd_in_set by blast
  ultimately obtain p1 p2 where p2: "parse_loop e (-1) True p = parse_loop e (-1) True p1"
    "tok_step e (-1) p1 = number_value e p2" "tok_at L lo (lvl state_number sv None nm) hi (c # str) s p2"
    "tok_text L p2 (c_itoa i)" "p_c p2 = c" "\<not> tk_is_double (p_tok p2)"
    using number_scan [OF e(1) at _ _ _ i(3) c] by auto
  from tok_text_read [OF p2(4)] obtain pb where pb: "tk_pb (p_tok p2) = Some pb" "c_str (pb_buf pb) = Some (c_itoa i)"
    using takeWhile_no_NUL [OF c_itoa_no_NUL [of i]] by metis
  have js: "p_js p2 = s" using p2(3) by (simp add: tok_at_def)
  from parse_int64_scan_ok [of "jscan s" "c_itoa i"] s obtain st where
    st: "json_parse_int64 scan_d64 (c_itoa i) (jscan s) = Some (Some i, st)" "\<not> sscanf_is_broken st"
    using i by (auto simp: js_ok_def int_prefix_itoa clamp_def)
  let ?s1 = "s\<lparr>jscan := st\<rparr>"
  have ok1: "js_ok ?s1" using s st(2) by (simp add: js_ok_def heap_bounded_def)
  from new_int64 [OF ok1, of i] obtain s' where
    s': "json_object_new_int64 (\<lambda>_. True) i ?s1 = Some (Some (jnext s), s')" "grows ?s1 s'" "js_ok s'"
      "built (jnext s) s' (Some (jnext s)) (JInt i) [jnext s]" by auto
  from finish_value_at [OF tok_at_js [OF p2(3), of ?s1] s'(1), of Redo] p2(5) obtain p4 where
    p4: "finish_value (json_object_new_int64 (\<lambda>_. True) i ?s1) Redo (p2\<lparr>p_js := ?s1\<rparr>) = Some (Redo, p4)"
      "tok_at L lo (lvl state_eatws state_finish (Some (jnext s)) nm) hi (c # str) s' p4" "p_c p4 = c" by auto
  have "number_value e p2 = Some (Redo, p4)"
    using p2(6) pb js st(1) p4(1) e by (simp add: number_value_def parse_int64_s_def)
  with p2(2) have "tok_step e (-1) p1 = Some (Redo, p4)" by simp
  moreover have "grows s s'" using s'(2) by (simp add: grows_def)
  ultimately show ?thesis
    using p2(1) loop_redo loop_again [OF p4(2,3)] p4(2) s'(3,4) by metis
qed

lemma parse_double_text:
  assumes e: "env_mal e = (\<lambda>_. True)" "env_scan_lf e t = Some d" and s: "js_ok s"
    and at: "tok_at L lo (lvl state_start sv None nm) hi (t @ c # str) s p" "p_c p = hd t"
    and t: "t \<noteq> []" "set t \<subseteq> set json_number_chars" "hd t \<in> set ''0123456789-''" "length t \<le> L"
      "\<exists>x \<in> set t. x \<in> set ''.eE''"
    and c: "c \<notin> set json_number_chars"
  shows "\<exists>p' s'. parse_loop e (-1) True p = parse_loop e (-1) False p'
     \<and> tok_at L lo (lvl state_eatws state_finish (Some (jnext s)) nm) hi (c # str) s' p'
     \<and> grows s s' \<and> js_ok s' \<and> built (jnext s) s' (Some (jnext s)) (JDouble d) [jnext s]"
proof -
  from number_scan [OF e(1) at t(1-4) c] t(5) obtain p1 p2 where
    p2: "parse_loop e (-1) True p = parse_loop e (-1) True p1"
      "tok_step e (-1) p1 = number_value e p2" "tok_at L lo (lvl state_number sv None nm) hi (c # str) s p2"
      "tok_text L p2 t" "p_c p2 = c" "tk_is_double (p_tok p2)" by auto
  have "NUL \<notin> set json_number_chars" by simp
  then have "NUL \<notin> set t" using t(2) by blast
  with tok_text_read [OF p2(4)] takeWhile_no_NUL [of t]
  obtain pb where pb: "tk_pb (p_tok p2) = Some pb" "c_str (pb_buf pb) = Some t" by metis
  have js: "p_js p2 = s" using p2(3) by (simp add: tok_at_def)
  from new_double [OF s, of d] obtain s' where
    s': "json_object_new_double (\<lambda>_. True) d s = Some (Some (jnext s), s')" "grows s s'" "js_ok s'"
      "built (jnext s) s' (Some (jnext s)) (JDouble d) [jnext s]" by auto
  from finish_value_at [OF p2(3) s'(1), of Redo] p2(5) obtain p4 where
    p4: "finish_value (json_object_new_double (\<lambda>_. True) d s) Redo p2 = Some (Redo, p4)"
      "tok_at L lo (lvl state_eatws state_finish (Some (jnext s)) nm) hi (c # str) s' p4" "p_c p4 = c" by auto
  have "number_value e p2 = Some (Redo, p4)"
    using p2(6) pb js p4(1) e by (simp add: number_value_def json_parse_double_def)
  with p2(2) have "tok_step e (-1) p1 = Some (Redo, p4)" by simp
  then show ?thesis
    using p2(1) loop_redo loop_again [OF p4(2,3)] p4(2) s'(2-4) by metis
qed

end
