(* ===== verification/Json_Strings.thy ===== *)
theory Json_Strings
  imports Json_Leaves
begin

text \<open>
  Parsing of quoted strings, as values and as member names: the escapes written by the
  serialiser are undone.
\<close>

section \<open>Characters and their escapes\<close>

text \<open>A character that is copied as it is.\<close>

definition plain :: "char \<Rightarrow> bool" where
  "plain c \<longleftrightarrow> short_escape c = None \<and> \<not> of_char c < (0x20 :: nat)"

lemma plain_escape: "plain c \<Longrightarrow> escape_char c = [c]"
  by (simp add: plain_def escape_char_def)

lemma plain_not_special: "plain c \<Longrightarrow> c \<noteq> QUOTE \<and> c \<noteq> BACKSLASH \<and> c \<noteq> NUL"
  by (auto simp: plain_def short_escape_def)

lemma unescape_short: "short_escape c = Some d \<Longrightarrow> unescape d = Some c \<and> d \<noteq> NUL"
  by (auto simp: short_escape_def unescape_def split: if_splits)

text \<open>The control characters without a letter of their own.\<close>

lemma escape_control:
  assumes "short_escape c = None" "of_char c < (0x20 :: nat)"
  shows "escape_char c = BACKSLASH # CHR ''u'' # [CHR ''0'', CHR ''0'',
     json_hex_chars ! (of_char c div 16), json_hex_chars ! (of_char c mod 16)]"
  using assms by (simp add: escape_char_def)

lemma hexdigit_nth: "i < 16 \<Longrightarrow> hexdigit (json_hex_chars ! i) = of_nat i \<and> json_hex_chars ! i \<in> set json_hex_chars"
proof (rule conjI)
  assume i: "i < 16"
  have "list_all (\<lambda>i. hexdigit (json_hex_chars ! i) = of_nat i) [0..<16]" by code_simp
  then show "hexdigit (json_hex_chars ! i) = of_nat i" unfolding list_all_iff set_upt using i by (meson atLeastLessThan_iff le0)
  have "length json_hex_chars = 22" by simp
  then show "json_hex_chars ! i \<in> set json_hex_chars" using i by (intro nth_mem) linarith
qed

lemma nibbles:
  fixes n :: nat
  assumes "n < 256"
  shows "push_bit 4 (of_nat (n div 16)) + of_nat (n mod 16) = (of_nat n :: 32 word)"
proof -
  have "push_bit 4 (of_nat (n div 16) :: 32 word) = of_nat (16 * (n div 16))"
    by (simp add: push_bit_eq_mult mult.commute)
  then have "push_bit 4 (of_nat (n div 16)) + of_nat (n mod 16) = (of_nat (16 * (n div 16) + n mod 16) :: 32 word)"
    by (simp only: of_nat_add)
  also have "16 * (n div 16) + n mod 16 = n" by simp
  finally show ?thesis .
qed

lemma u8_of_char: "u8 (of_nat (of_char c)) = c"
proof -
  have "(of_char c :: nat) < 256" by (metis of_char_mod_256 mod_less_divisor zero_less_numeral)
  moreover have "uint (of_nat n :: 32 word) = int n" if "n < 256" for n
    using that by (simp add: unsigned_of_nat take_bit_nat_eq_self)
  ultimately have "uint (of_nat (of_char c) :: 32 word) = int (of_char c)" by blast
  then show ?thesis unfolding u8_def by simp
qed

lemma utf8_bytes_ascii: "n < 0x80 \<Longrightarrow> utf8_bytes (of_nat n) = Some [u8 (of_nat n)]"
proof -
  assume n: "n < 0x80"
  then have "(of_nat n :: 32 word) < 0x80"
    by (simp add: word_less_nat_alt unsigned_of_nat take_bit_nat_eq_self)
  then show ?thesis by (simp add: utf8_bytes_def)
qed

section \<open>Unicode escapes\<close>

lemma tok_at_restore:
  assumes "tok_at L lo lv hi str s p"
  shows "\<exists>p'. restore_state p = Some (Break, p') \<and> tok_at L lo (lv\<lparr>sr_state := sr_saved_state lv\<rparr>) hi str s p'
     \<and> p' = upd_tok (\<lambda>tok. tok\<lparr>tk_stack := lo @ lv\<lparr>sr_state := sr_saved_state lv\<rparr> # hi\<rparr>) p"
  using tok_at_upd_cur [OF assms, of "\<lambda>l. l\<lparr>sr_state := sr_saved_state lv\<rparr>"] tok_at_cur [OF assms]
  by (auto simp: restore_state_def set_state_def)

text \<open>One of the first three digits.\<close>

lemma unicode_digit:
  assumes at: "tok_at L lo lv hi (h # h' # str) s p" "p_c p = h" and h: "h \<in> set json_hex_chars" "h \<noteq> NUL"
    and k: "tk_st_pos (p_tok p) = int k" "k < 3"
  shows "\<exists>p'. unicode_loop mal (-1) (Suc fuel) 0 p = unicode_loop mal (-1) fuel 0 p'
     \<and> tok_at L lo lv hi (h' # str) s p' \<and> p_c p' = h' \<and> tk_st_pos (p_tok p') = int (Suc k)
     \<and> tk_ucs_char (p_tok p') = tk_ucs_char (p_tok p) + push_bit ((3 - k) * 4) (hexdigit h)
     \<and> (\<forall>t. tok_text L p t \<longrightarrow> tok_text L p' t) \<and> tk_quote_char (p_tok p') = tk_quote_char (p_tok p)"
proof -
  let ?p1 = "upd_tok (\<lambda>tok. tok\<lparr>tk_ucs_char := tk_ucs_char tok + push_bit ((3 - k) * 4) (hexdigit h),
    tk_st_pos := int k + 1\<rparr>) p"
  have n: "nat ((3 - int k) * 4) = (3 - k) * 4" using k(2) by (simp add: nat_mult_distrib nat_diff_distrib)
  have "tok_at L lo lv hi (h # h' # str) s ?p1" using at(1) by simp
  from tok_at_next_char [OF this] at(2) h(2) obtain p2 where
    p2: "next_char (-1) ?p1 = Some (True, p2)" "tok_at L lo lv hi (h' # str) s p2" "p_c p2 = h'"
      "p2 = upd_tok (\<lambda>tok. tok\<lparr>tk_char_offset := tk_char_offset tok + 1\<rparr>) (?p1\<lparr>p_str := h' # str, p_c := h'\<rparr>)" by auto
  have "unicode_loop mal (-1) (Suc fuel) 0 p = unicode_loop mal (-1) fuel 0 p2"
    using at(2) h k p2(1) n by (simp add: Let_def)
  moreover have "\<forall>t. tok_text L p t \<longrightarrow> tok_text L p2 t" unfolding p2(4) by simp
  moreover have "tk_st_pos (p_tok p2) = int (Suc k)" "tk_quote_char (p_tok p2) = tk_quote_char (p_tok p)"
    "tk_ucs_char (p_tok p2) = tk_ucs_char (p_tok p) + push_bit ((3 - k) * 4) (hexdigit h)"
    unfolding p2(4) by simp_all
  ultimately show ?thesis using p2(2,3) by blast
qed

text \<open>The last digit, when the code point is an ASCII character.\<close>

lemma unicode_last_digit:
  assumes at: "tok_at L lo lv hi str s p" "p_c p = h" and h: "h \<in> set json_hex_chars"
    and k: "tk_st_pos (p_tok p) = 3" and u: "tk_ucs_char (p_tok p) + hexdigit h = of_nat n" "n < 0x80"
    and t: "tok_text L p t" "length t < L"
  shows "\<exists>p'. unicode_loop (\<lambda>_. True) (-1) (Suc fuel) 0 p = Some (Break, p')
     \<and> tok_at L lo (lv\<lparr>sr_state := sr_saved_state lv\<rparr>) hi str s p' \<and> p_c p' = h
     \<and> tok_text L p' (t @ [u8 (of_nat n)]) \<and> tk_quote_char (p_tok p') = tk_quote_char (p_tok p)"
proof -
  let ?p1 = "upd_tok (\<lambda>tok. tok\<lparr>tk_ucs_char := tk_ucs_char tok + hexdigit h, tk_st_pos := 4\<rparr>) p"
  have at1: "tok_at L lo lv hi str s ?p1" "tok_text L ?p1 t" using at(1) t(1) by simp_all
  have "length t + length [u8 (of_nat n)] \<le> L" using t(2) by simp
  from tok_pb_append_at [OF at1(2) this] obtain pb where
    pb: "tok_pb_append (\<lambda>_. True) [u8 (of_nat n)] ?p1 = Some (upd_tok (\<lambda>tok. tok\<lparr>tk_pb := Some pb\<rparr>) ?p1)" "pb_ok L pb"
      "tok_text L (upd_tok (\<lambda>tok. tok\<lparr>tk_pb := Some pb\<rparr>) ?p1) (t @ [u8 (of_nat n)])" by auto
  from tok_at_restore [OF tok_at_pb [OF at1(1) pb(2)]] obtain p3 where
    p3: "restore_state (upd_tok (\<lambda>tok. tok\<lparr>tk_pb := Some pb\<rparr>) ?p1) = Some (Break, p3)"
      "tok_at L lo (lv\<lparr>sr_state := sr_saved_state lv\<rparr>) hi str s p3"
      "p3 = upd_tok (\<lambda>tok. tok\<lparr>tk_stack := lo @ lv\<lparr>sr_state := sr_saved_state lv\<rparr> # hi\<rparr>)
              (upd_tok (\<lambda>tok. tok\<lparr>tk_pb := Some pb\<rparr>) ?p1)" by blast
  have "unicode_loop (\<lambda>_. True) (-1) (Suc fuel) 0 p = Some (Break, p3)"
    using at(2) h k u utf8_bytes_ascii [OF u(2)] pb(1) p3(1) by (simp add: Let_def)
  moreover have "tok_text L p3 (t @ [u8 (of_nat n)])" "p_c p3 = h" "tk_quote_char (p_tok p3) = tk_quote_char (p_tok p)"
    using pb(3) at(2) unfolding p3(3) by simp_all
  ultimately show ?thesis using p3(2) by blast
qed

section \<open>Escape sequences\<close>

text \<open>After the backslash: the rest of the escape of \<open>x\<close> puts \<open>x\<close> into the buffer.\<close>

lemma parse_short_escape:
  assumes e: "env_mal e = (\<lambda>_. True)" and x: "short_escape x = Some d"
    and at: "tok_at L lo (lvl state_string_escape st cu nm) hi (d # str) s p"
    and t: "tok_text L p t" "length t < L"
  shows "\<exists>p'. parse_loop e (-1) False p = parse_loop e (-1) False p' \<and> tok_at L lo (lvl st st cu nm) hi str s p'
     \<and> tok_text L p' (t @ [x]) \<and> tk_quote_char (p_tok p') = tk_quote_char (p_tok p)"
proof -
  note d = unescape_short [OF x]
  let ?p1 = "p\<lparr>p_c := d\<rparr>"
  have at1: "tok_at L lo (lvl state_string_escape st cu nm) hi (d # str) s ?p1" "tok_text L ?p1 t" using at t by simp_all
  have "length t + length [x] \<le> L" using t(2) by simp
  from tok_pb_append_at [OF at1(2) this] obtain pb where
    pb: "tok_pb_append (\<lambda>_. True) [x] ?p1 = Some (upd_tok (\<lambda>tok. tok\<lparr>tk_pb := Some pb\<rparr>) ?p1)" "pb_ok L pb"
      "tok_text L (upd_tok (\<lambda>tok. tok\<lparr>tk_pb := Some pb\<rparr>) ?p1) (t @ [x])" by auto
  from tok_at_restore [OF tok_at_pb [OF at1(1) pb(2)]] obtain p3 where
    p3: "restore_state (upd_tok (\<lambda>tok. tok\<lparr>tk_pb := Some pb\<rparr>) ?p1) = Some (Break, p3)"
      "tok_at L lo (lvl st st cu nm) hi (d # str) s p3"
      "p3 = upd_tok (\<lambda>tok. tok\<lparr>tk_stack := lo @ (lvl st st cu nm) # hi\<rparr>)
              (upd_tok (\<lambda>tok. tok\<lparr>tk_pb := Some pb\<rparr>) ?p1)" by auto
  have "tok_step e (-1) ?p1 = Some (Break, p3)"
    using tok_at_cur [OF at1(1)] pb(1) p3(1) d e by (simp add: tok_step_def step_string_escape_def)
  from loop_break_at [OF this p3(2)] d obtain p4 where
    p4: "parse_loop e (-1) True ?p1 = parse_loop e (-1) False p4" "tok_at L lo (lvl st st cu nm) hi str s p4"
      "p4 = upd_tok (\<lambda>tok. tok\<lparr>tk_char_offset := tk_char_offset tok + 1\<rparr>) (p3\<lparr>p_str := str\<rparr>)"
    unfolding p3(3) by auto
  have "tok_text L p4 (t @ [x])" "tk_quote_char (p_tok p4) = tk_quote_char (p_tok p)"
    using pb(3) unfolding p4(3) p3(3) by simp_all
  with loop_peek_at(1) [OF at] p4(1,2) show ?thesis by auto
qed

declare unicode_loop.simps [simp del]

lemma unicode_four:
  assumes at: "tok_at L lo (lvl state_escape_unicode st cu nm) hi (CHR ''0'' # CHR ''0'' # h1 # h2 # str) s p"
    and h: "h1 \<in> set json_hex_chars" "h2 \<in> set json_hex_chars"
    and n: "hexdigit h1 = of_nat (n div 16)" "hexdigit h2 = of_nat (n mod 16)" "n < 0x80"
    and p: "p_c p = CHR ''0''" "tk_st_pos (p_tok p) = 0" "tk_ucs_char (p_tok p) = 0"
    and t: "tok_text L p t" "length t < L"
  shows "\<exists>p'. unicode_loop (\<lambda>_. True) (-1) (Suc (Suc (Suc (Suc f)))) 0 p = Some (Break, p')
     \<and> tok_at L lo (lvl st st cu nm) hi (h2 # str) s p' \<and> p_c p' = h2
     \<and> tok_text L p' (t @ [u8 (of_nat n)]) \<and> tk_quote_char (p_tok p') = tk_quote_char (p_tok p)"
proof -
  have hn: "NUL \<notin> set json_hex_chars" by simp
  have nul: "h1 \<noteq> NUL" "h2 \<noteq> NUL" using h hn by metis+
  let ?lv = "lvl state_escape_unicode st cu nm"
  have z: "hexdigit CHR ''0'' = 0" "CHR ''0'' \<in> set json_hex_chars" by (simp_all add: hexdigit_def)
  have p0: "tk_st_pos (p_tok p) = int 0" using p(2) by simp
  from unicode_digit [OF at p(1) z(2) _ p0, of "\<lambda>_. True" "Suc (Suc (Suc f))"] p(3) t(1) obtain p5 where
    p5: "unicode_loop (\<lambda>_. True) (-1) (Suc (Suc (Suc (Suc f)))) 0 p = unicode_loop (\<lambda>_. True) (-1) (Suc (Suc (Suc f))) 0 p5"
      "tok_at L lo ?lv hi (CHR ''0'' # h1 # h2 # str) s p5" "p_c p5 = CHR ''0''" "tk_st_pos (p_tok p5) = int 1"
      "tk_ucs_char (p_tok p5) = 0" "tok_text L p5 t" "tk_quote_char (p_tok p5) = tk_quote_char (p_tok p)"
    by (auto simp: z)
  from unicode_digit [OF p5(2,3) z(2) _ p5(4), of "\<lambda>_. True" "Suc (Suc f)"] p5(5-7) obtain p6 where
    p6: "unicode_loop (\<lambda>_. True) (-1) (Suc (Suc (Suc f))) 0 p5 = unicode_loop (\<lambda>_. True) (-1) (Suc (Suc f)) 0 p6"
      "tok_at L lo ?lv hi (h1 # h2 # str) s p6" "p_c p6 = h1" "tk_st_pos (p_tok p6) = int 2"
      "tk_ucs_char (p_tok p6) = 0" "tok_text L p6 t" "tk_quote_char (p_tok p6) = tk_quote_char (p_tok p)"
    by (auto simp: z)
  from unicode_digit [OF p6(2,3) h(1) nul(1) p6(4), of "\<lambda>_. True" "Suc f"] p6(5-7) obtain p7 where
    p7: "unicode_loop (\<lambda>_. True) (-1) (Suc (Suc f)) 0 p6 = unicode_loop (\<lambda>_. True) (-1) (Suc f) 0 p7"
      "tok_at L lo ?lv hi (h2 # str) s p7" "p_c p7 = h2" "tk_st_pos (p_tok p7) = 3"
      "tk_ucs_char (p_tok p7) = push_bit 4 (of_nat (n div 16))" "tok_text L p7 t"
      "tk_quote_char (p_tok p7) = tk_quote_char (p_tok p)"
    by (auto simp: n)
  have n': "n < 256" using n(3) by simp
  have "tk_ucs_char (p_tok p7) + hexdigit h2 = of_nat n" using n(2) nibbles [OF n'] p7(5) by simp
  from unicode_last_digit [OF p7(2,3) h(2) p7(4) this n(3) p7(6) t(2), of f] p7(7) p5(1) p6(1) p7(1)
  show ?thesis by auto
qed

lemma parse_control_escape:
  assumes e: "env_mal e = (\<lambda>_. True)" and x: "of_char x < (0x20 :: nat)"
    and h: "h1 = json_hex_chars ! (of_char x div 16)" "h2 = json_hex_chars ! (of_char x mod 16)"
    and at: "tok_at L lo (lvl state_string_escape st cu nm) hi (CHR ''u'' # CHR ''0'' # CHR ''0'' # h1 # h2 # str) s p"
    and t: "tok_text L p t" "length t < L"
  shows "\<exists>p'. parse_loop e (-1) False p = parse_loop e (-1) False p' \<and> tok_at L lo (lvl st st cu nm) hi str s p'
     \<and> tok_text L p' (t @ [x]) \<and> tk_quote_char (p_tok p') = tk_quote_char (p_tok p)"
proof -
  let ?lv = "lvl state_escape_unicode st cu nm" and ?in = "CHR ''0'' # CHR ''0'' # h1 # h2 # str"
  have n: "of_char x < (0x80::nat)" "of_char x div 16 < (16::nat)" "of_char x mod 16 < (16::nat)" using x by auto
  note h1 = hexdigit_nth [OF n(2), folded h, THEN conjunct2] hexdigit_nth [OF n(2), folded h, THEN conjunct1]
    and h2 = hexdigit_nth [OF n(3), folded h, THEN conjunct2] hexdigit_nth [OF n(3), folded h, THEN conjunct1]
  have nul: "h2 \<noteq> NUL" using h2(1) by auto
  let ?p1 = "upd_tok (\<lambda>tok. tok\<lparr>tk_ucs_char := 0, tk_st_pos := 0\<rparr>) (p\<lparr>p_c := CHR ''u''\<rparr>)"
  have "tok_at L lo (lvl state_string_escape st cu nm) hi (CHR ''u'' # ?in) s ?p1" using at by simp
  from tok_at_upd_cur [OF this, of "\<lambda>l. l\<lparr>sr_state := state_escape_unicode\<rparr>"] obtain p2 where
    p2: "set_state state_escape_unicode ?p1 = Some p2" "tok_at L lo ?lv hi (CHR ''u'' # ?in) s p2"
      "p2 = upd_tok (\<lambda>tok. tok\<lparr>tk_stack := lo @ ?lv # hi\<rparr>) ?p1" by (auto simp: set_state_def)
  have step: "tok_step e (-1) (p\<lparr>p_c := CHR ''u''\<rparr>) = Some (Break, p2)"
    using tok_at_cur [OF at] p2(1) by (simp add: tok_step_def step_string_escape_def unescape_def)
  have "p_c p2 \<noteq> NUL" unfolding p2(3) by simp
  from loop_break_at [OF step p2(2) this] obtain p3 where
    p3: "parse_loop e (-1) True (p\<lparr>p_c := CHR ''u''\<rparr>) = parse_loop e (-1) False p3" "tok_at L lo ?lv hi ?in s p3"
      "p3 = upd_tok (\<lambda>tok. tok\<lparr>tk_char_offset := tk_char_offset tok + 1\<rparr>) (p2\<lparr>p_str := ?in\<rparr>)"
    by blast
  let ?p4 = "p3\<lparr>p_c := CHR ''0''\<rparr>"
  have at4: "tok_at L lo ?lv hi ?in s ?p4" using p3(2) by simp
  have f4: "p_c ?p4 = CHR ''0''" "tk_st_pos (p_tok ?p4) = 0" "tk_ucs_char (p_tok ?p4) = 0" "tok_text L ?p4 t"
    "tk_quote_char (p_tok ?p4) = tk_quote_char (p_tok p)"
    using t(1) unfolding p3(3) p2(3) by simp_all
  obtain f where f: "length (p_str ?p4) = Suc (Suc (Suc f))" using at4 by (auto simp: tok_at_def)
  from unicode_four [OF at4 h1(1) h2(1) h1(2) h2(2) n(1) f4(1-4) t(2), of f] f4(5) obtain p8 where
    p8: "unicode_loop (\<lambda>_. True) (-1) (Suc (length (p_str ?p4))) 0 ?p4 = Some (Break, p8)"
      "tok_at L lo (lvl st st cu nm) hi (h2 # str) s p8" "p_c p8 \<noteq> NUL"
      "tok_text L p8 (t @ [x])" "tk_quote_char (p_tok p8) = tk_quote_char (p_tok p)"
    unfolding f u8_of_char using nul by auto
  have "tok_step e (-1) ?p4 = Some (Break, p8)"
    using tok_at_cur [OF at4] e p8(1) by (simp add: tok_step_def step_escape_unicode_def)
  from loop_break_at [OF this p8(2,3)] obtain p9 where
    p9: "parse_loop e (-1) True ?p4 = parse_loop e (-1) False p9" "tok_at L lo (lvl st st cu nm) hi str s p9"
      "p9 = upd_tok (\<lambda>tok. tok\<lparr>tk_char_offset := tk_char_offset tok + 1\<rparr>) (p8\<lparr>p_str := str\<rparr>)" by auto
  have "tok_text L p9 (t @ [x])" "tk_quote_char (p_tok p9) = tk_quote_char (p_tok p)"
    using p8(4,5) unfolding p9(3) by simp_all
  with loop_peek_at(1) [OF at] p3(1) loop_peek_at(1) [OF p3(2)] p9(1,2) show ?thesis by auto
qed

lemma parse_escape:
  assumes e: "env_mal e = (\<lambda>_. True)" and x: "\<not> plain x"
    and at: "tok_at L lo (lvl state_string_escape st cu nm) hi (tl (escape_char x) @ str) s p"
    and t: "tok_text L p t" "length t < L"
  shows "\<exists>p'. parse_loop e (-1) False p = parse_loop e (-1) False p' \<and> tok_at L lo (lvl st st cu nm) hi str s p'
     \<and> tok_text L p' (t @ [x]) \<and> tk_quote_char (p_tok p') = tk_quote_char (p_tok p)"
proof (cases "short_escape x")
  case None
  with x have c: "of_char x < (0x20 :: nat)" by (simp add: plain_def)
  show ?thesis using parse_control_escape [OF e c refl refl _ t] at escape_control [OF None c] by simp
next
  case (Some d)
  then show ?thesis using parse_short_escape [OF e Some _ t] at by (simp add: escape_char_def)
qed

section \<open>Scanning a quoted text\<close>

text \<open>The states \<open>string\<close> and \<open>object_field\<close> collect a text in the same way.\<close>

lemma scan_backslash:
  assumes e: "env_mal e = (\<lambda>_. True)" and st: "st = state_string \<or> st = state_object_field"
    and at: "tok_at L lo (lvl st sv cu nm) hi (run @ BACKSLASH # str) s p" "p_c p = hd (run @ [BACKSLASH])"
      "tk_quote_char (p_tok p) = QUOTE"
    and run: "\<forall>x \<in> set run. plain x" and t: "tok_text L p t" "length t + length run \<le> L"
  shows "\<exists>p'. parse_loop e (-1) True p = parse_loop e (-1) False p'
     \<and> tok_at L lo (lvl state_string_escape st cu nm) hi str s p'
     \<and> tok_text L p' (t @ run) \<and> tk_quote_char (p_tok p') = QUOTE"
proof -
  let ?P = "\<lambda>c. c \<noteq> QUOTE \<and> c \<noteq> BACKSLASH"
  have P: "\<forall>x \<in> set run. ?P x \<and> x \<noteq> NUL" "\<not> ?P BACKSLASH" using run plain_not_special by auto
  from tight_run [OF at(1) P at(2)] obtain p1 where
    p1: "tight ?P (-1) p = Some (True, run, p1)" "tok_at L lo (lvl st sv cu nm) hi (BACKSLASH # str) s p1"
      "p_c p1 = BACKSLASH" "tk_quote_char (p_tok p1) = QUOTE" "tok_text L p1 t" using t(1) at(3) by auto
  from tok_pb_append_at [OF p1(5) t(2)] obtain pb where
    pb: "tok_pb_append (\<lambda>_. True) run p1 = Some (upd_tok (\<lambda>tok. tok\<lparr>tk_pb := Some pb\<rparr>) p1)" "pb_ok L pb"
      "tok_text L (upd_tok (\<lambda>tok. tok\<lparr>tk_pb := Some pb\<rparr>) p1) (t @ run)" by auto
  from tok_at_upd_cur [OF tok_at_pb [OF p1(2) pb(2)],
      of "\<lambda>l. l\<lparr>sr_state := state_string_escape, sr_saved_state := st\<rparr>"] obtain p2 where
    p2: "set_states state_string_escape st (upd_tok (\<lambda>tok. tok\<lparr>tk_pb := Some pb\<rparr>) p1) = Some p2"
      "tok_at L lo (lvl state_string_escape st cu nm) hi (BACKSLASH # str) s p2"
      "p_c p2 = BACKSLASH" "tok_text L p2 (t @ run)" "tk_quote_char (p_tok p2) = QUOTE"
    using p1(3,4) pb(3) by (auto simp: set_states_def)
  have "tok_step e (-1) p = Some (Break, p2)"
    using st tok_at_cur [OF at(1)] at(3) p1(1,3) pb(1) p2(1) e
    by (auto simp: tok_step_def step_string_def step_object_field_def)
  from loop_break_at [OF this p2(2)] p2(3-5) show ?thesis by auto
qed

lemma escape_plain: "\<forall>x \<in> set run. plain x \<Longrightarrow> escape run = run"
  by (induction run) (simp_all add: plain_escape)

lemma escape_char_head: "\<not> plain x \<Longrightarrow> escape_char x = BACKSLASH # tl (escape_char x)"
  by (auto simp: plain_def escape_char_def split: option.splits)

lemma scan_escaped:
  assumes e: "env_mal e = (\<lambda>_. True)" and st: "st = state_string \<or> st = state_object_field"
    and at: "tok_at L lo (lvl st sv cu nm) hi (escape w @ QUOTE # str) s p" "tk_quote_char (p_tok p) = QUOTE"
    and t: "tok_text L p t" "length t + length w \<le> L"
  shows "\<exists>p' sv' run pre. parse_loop e (-1) False p = parse_loop e (-1) True p'
     \<and> tok_at L lo (lvl st sv' cu nm) hi (run @ QUOTE # str) s p' \<and> p_c p' = hd (run @ [QUOTE])
     \<and> (\<forall>x \<in> set run. plain x) \<and> tok_text L p' pre \<and> pre @ run = t @ w \<and> tk_quote_char (p_tok p') = QUOTE"
  using at t
proof (induction "length w" arbitrary: w p t sv rule: less_induct)
  case less
  let ?run = "takeWhile plain w"
  have run: "\<forall>x \<in> set ?run. plain x" by (metis set_takeWhileD)
  show ?case
  proof (cases "dropWhile plain w")
    case Nil
    then have w: "?run = w" using takeWhile_dropWhile_id [of plain w] by simp
    have esc: "escape w = w" using escape_plain [OF run] unfolding w .
    with w esc have "tok_at L lo (lvl st sv cu nm) hi (hd (w @ [QUOTE]) # tl (w @ [QUOTE]) @ str) s p"
      using less.prems(1) by (cases w) auto
    from loop_peek_at(1) [OF this] less.prems(1) [unfolded esc] less.prems(2,3) run [unfolded w] show ?thesis
      by - (rule exI [of _ "p\<lparr>p_c := hd (w @ [QUOTE])\<rparr>"], rule exI [of _ sv], rule exI [of _ w], rule exI [of _ t], simp)
  next
    case (Cons x rest)
    then have x: "\<not> plain x" using hd_dropWhile [of plain w] by auto
    have w: "w = ?run @ x # rest" using takeWhile_dropWhile_id [of plain w] Cons by simp
    have in1: "escape w @ QUOTE # str = ?run @ BACKSLASH # (tl (escape_char x) @ escape rest @ QUOTE # str)"
      using arg_cong [OF w, of escape] escape_plain [OF run] escape_char_head [OF x] by simp
    have len: "length t + length ?run < L" "length (t @ ?run) < L" "length (t @ ?run @ [x]) + length rest \<le> L"
      "length rest < length w" using less.prems(4) arg_cong [OF w, of length] by simp_all
    let ?b = "hd (?run @ [BACKSLASH])"
    let ?p1 = "p\<lparr>p_c := ?b\<rparr>"
    have "\<exists>u. ?run @ BACKSLASH # v = ?b # u" for v by (cases ?run) auto
    with loop_peek_at less.prems(1) [unfolded in1]
    have p1: "parse_loop e (-1) False p = parse_loop e (-1) True ?p1"
      "tok_at L lo (lvl st sv cu nm) hi (?run @ BACKSLASH # (tl (escape_char x) @ escape rest @ QUOTE # str)) s ?p1"
      by (metis, simp)
    have "p_c ?p1 = ?b" "tk_quote_char (p_tok ?p1) = QUOTE" "tok_text L ?p1 t" using less.prems by simp_all
    from scan_backslash [OF e st p1(2) this(1,2) run this(3)] len(1) obtain p2 where
      p2: "parse_loop e (-1) True ?p1 = parse_loop e (-1) False p2"
        "tok_at L lo (lvl state_string_escape st cu nm) hi (tl (escape_char x) @ escape rest @ QUOTE # str) s p2"
        "tok_text L p2 (t @ ?run)" "tk_quote_char (p_tok p2) = QUOTE" by auto
    from parse_escape [OF e x p2(2,3) len(2)] p2(4) obtain p3 where
      p3: "parse_loop e (-1) False p2 = parse_loop e (-1) False p3"
        "tok_at L lo (lvl st st cu nm) hi (escape rest @ QUOTE # str) s p3"
        "tok_text L p3 (t @ ?run @ [x])" "tk_quote_char (p_tok p3) = QUOTE" by auto
    have eq: "(t @ ?run @ [x]) @ rest = t @ w" using w by simp
    show ?thesis
      using less.hyps [OF len(4) p3(2,4,3) len(3)] p1(1) p2(1) p3(1) unfolding eq by simp
  qed
qed

text \<open>The end of the text: the whole of it is in the buffer, and the state decides what to do with it.\<close>

lemma scan_quote:
  assumes at: "tok_at L lo lv hi (run @ QUOTE # str) s p" "p_c p = hd (run @ [QUOTE])"
    and run: "\<forall>x \<in> set run. plain x" and t: "tok_text L p t" "length t + length run \<le> L"
  shows "\<exists>p1 p2. tight (\<lambda>c. c \<noteq> QUOTE \<and> c \<noteq> BACKSLASH) (-1) p = Some (True, run, p1)
     \<and> tok_pb_append (\<lambda>_. True) run p1 = Some p2 \<and> tok_at L lo lv hi (QUOTE # str) s p2 \<and> p_c p2 = QUOTE
     \<and> tok_text L p2 (t @ run) \<and> tk_quote_char (p_tok p2) = tk_quote_char (p_tok p)"
proof -
  let ?P = "\<lambda>c. c \<noteq> QUOTE \<and> c \<noteq> BACKSLASH"
  have P: "\<forall>x \<in> set run. ?P x \<and> x \<noteq> NUL" "\<not> ?P QUOTE" using run plain_not_special by auto
  from tight_run [OF at(1) P at(2)] obtain p1 where
    p1: "tight ?P (-1) p = Some (True, run, p1)" "tok_at L lo lv hi (QUOTE # str) s p1"
      "p_c p1 = QUOTE" "tk_quote_char (p_tok p1) = tk_quote_char (p_tok p)" "tok_text L p1 t" using t(1) by auto
  from tok_pb_append_at [OF p1(5) t(2)] tok_at_pb [OF p1(2)] p1 show ?thesis by fastforce
qed

lemma parse_string_text:
  assumes e: "env_mal e = (\<lambda>_. True)" and s: "js_ok s"
    and at: "tok_at L lo (lvl state_start sv None nm) hi (QUOTE # escape w @ QUOTE # str) s p" "p_c p = QUOTE"
    and w: "length w \<le> L" "int (length w) + 1 \<le> INT_MAX"
  shows "\<exists>p' s'. parse_loop e (-1) True p = parse_loop e (-1) False p'
     \<and> tok_at L lo (lvl state_eatws state_finish (Some (jnext s)) nm) hi str s' p'
     \<and> grows s s' \<and> js_ok s' \<and> built (jnext s) s' (Some (jnext s)) (JString w) [jnext s]"
proof -
  from tok_at_upd_cur [OF at(1), of "\<lambda>l. l\<lparr>sr_state := state_string\<rparr>"] obtain p1 where
    p1: "set_state state_string p = Some p1" "p_c p1 = QUOTE"
      "tok_at L lo (lvl state_string sv None nm) hi (QUOTE # escape w @ QUOTE # str) s p1" 
    using at(2) by (auto simp: set_state_def)
  from tok_pb_reset_at [OF p1(3)] p1(2) obtain p2 where p2: "tok_pb_reset p1 = Some p2" "p_c p2 = QUOTE"
    "tok_at L lo (lvl state_string sv None nm) hi (QUOTE # escape w @ QUOTE # str) s p2" "tok_text L p2 []" by auto
  let ?p3 = "upd_tok (\<lambda>tok. tok\<lparr>tk_quote_char := QUOTE\<rparr>) p2"
  have step: "tok_step e (-1) p = Some (Break, ?p3)"
    using tok_at_cur [OF at(1)] at(2) p1(1) p2(1) by (simp add: tok_step_def step_start_def)
  have "tok_at L lo (lvl state_string sv None nm) hi (QUOTE # escape w @ QUOTE # str) s ?p3" using p2(3) by simp
  from loop_break_at [OF step this] p2(2,4) obtain p4 where
    p4: "parse_loop e (-1) True p = parse_loop e (-1) False p4" "tk_quote_char (p_tok p4) = QUOTE"
      "tok_at L lo (lvl state_string sv None nm) hi (escape w @ QUOTE # str) s p4" "tok_text L p4 []" by auto
  from scan_escaped [OF e _ p4(3,2,4)] w(1) obtain p5 sv' run t where
    p5: "parse_loop e (-1) False p4 = parse_loop e (-1) True p5" "p_c p5 = hd (run @ [QUOTE])"
      "tok_at L lo (lvl state_string sv' None nm) hi (run @ QUOTE # str) s p5" "\<forall>x \<in> set run. plain x"
      "tok_text L p5 t" "t @ run = w" "tk_quote_char (p_tok p5) = QUOTE" by auto
  have "length t + length run \<le> L" using w(1) p5(6) by auto
  from scan_quote [OF p5(3,2,4,5) this] p5(6,7) obtain p6 p7 where
    p6: "tight (\<lambda>c. c \<noteq> QUOTE \<and> c \<noteq> BACKSLASH) (-1) p5 = Some (True, run, p6)"
      "tok_pb_append (\<lambda>_. True) run p6 = Some p7"
      "tok_at L lo (lvl state_string sv' None nm) hi (QUOTE # str) s p7" "p_c p7 = QUOTE" "tok_text L p7 w" by auto
  from tok_text_read [OF p6(5)] obtain pb where pb: "tk_pb (p_tok p7) = Some pb"
    "None \<notin> set (take (nat (pb_bpos pb)) (pb_buf pb))" "map the (take (nat (pb_bpos pb)) (pb_buf pb)) = w"
    "pb_bpos pb = int (length w)" by blast
  from new_string_len [OF s w(2)] obtain s' where
    s': "json_object_new_string_len (\<lambda>_. True) w (int (length w)) s = Some (Some (jnext s), s')" "grows s s'" "js_ok s'"
      "built (jnext s) s' (Some (jnext s)) (JString w) [jnext s]" by auto
  from finish_value_at [OF p6(3) s'(1), of Break] p6(4) obtain p8 where
    p8: "finish_value (json_object_new_string_len (\<lambda>_. True) w (int (length w)) s) Break p7 = Some (Break, p8)"
      "tok_at L lo (lvl state_eatws state_finish (Some (jnext s)) nm) hi (QUOTE # str) s' p8" "p_c p8 = QUOTE" by auto
  have "p_js p7 = s" using p6(3) by (simp add: tok_at_def)
  then have "tok_step e (-1) p5 = Some (Break, p8)"
    using tok_at_cur [OF p5(3)] p5(7) p6(1,2,4) e pb p8(1) by (simp add: tok_step_def step_string_def)
  from loop_break_at [OF this p8(2)] p8(3) p4(1) p5(1) s'(2-4) show ?thesis by auto
qed

lemma parse_name_text:
  assumes e: "env_mal e = (\<lambda>_. True)" and st: "st = state_object_field_start \<or> st = state_object_field_start_after_sep"
    and at: "tok_at L lo (lvl st sv cu nm) hi (QUOTE # escape w @ QUOTE # str) s p" "p_c p = QUOTE"
    and w: "length w \<le> L" "NUL \<notin> set w"
  shows "\<exists>p'. parse_loop e (-1) True p = parse_loop e (-1) False p'
     \<and> tok_at L lo (lvl state_eatws state_object_field_end cu (Some w)) hi str s p'"
proof -
  let ?p0 = "upd_tok (\<lambda>tok. tok\<lparr>tk_quote_char := QUOTE\<rparr>) p"
  have "tok_at L lo (lvl st sv cu nm) hi (QUOTE # escape w @ QUOTE # str) s ?p0" "p_c ?p0 = QUOTE" using at by simp_all
  from tok_pb_reset_at [OF this(1)] this(2) obtain p1 where p1: "tok_pb_reset ?p0 = Some p1" "p_c p1 = QUOTE"
    "tok_at L lo (lvl st sv cu nm) hi (QUOTE # escape w @ QUOTE # str) s p1" "tok_text L p1 []"
    "tk_quote_char (p_tok p1) = QUOTE" by auto
  from tok_at_upd_cur [OF p1(3), of "\<lambda>l. l\<lparr>sr_state := state_object_field\<rparr>"] p1(2,4,5) obtain p2 where
    p2: "set_state state_object_field p1 = Some p2" "p_c p2 = QUOTE" "tok_text L p2 []" "tk_quote_char (p_tok p2) = QUOTE"
      "tok_at L lo (lvl state_object_field sv cu nm) hi (QUOTE # escape w @ QUOTE # str) s p2" 
    by (auto simp: set_state_def)
  have step: "tok_step e (-1) p = Some (Break, p2)"
    using st tok_at_cur [OF at(1)] at(2) p1(1) p2(1) by (auto simp: tok_step_def step_object_field_start_def)
  from loop_break_at [OF step p2(5)] p2(2-4) obtain p4 where
    p4: "parse_loop e (-1) True p = parse_loop e (-1) False p4" "tk_quote_char (p_tok p4) = QUOTE"
      "tok_at L lo (lvl state_object_field sv cu nm) hi (escape w @ QUOTE # str) s p4" "tok_text L p4 []" by auto
  from scan_escaped [OF e _ p4(3,2,4)] w(1) obtain p5 sv' run t where
    p5: "parse_loop e (-1) False p4 = parse_loop e (-1) True p5" "p_c p5 = hd (run @ [QUOTE])"
      "tok_at L lo (lvl state_object_field sv' cu nm) hi (run @ QUOTE # str) s p5" "\<forall>x \<in> set run. plain x"
      "tok_text L p5 t" "t @ run = w" "tk_quote_char (p_tok p5) = QUOTE" by auto
  have "length t + length run \<le> L" using w(1) p5(6) by auto
  from scan_quote [OF p5(3,2,4,5) this] p5(6) obtain p6 p7 where
    p6: "tight (\<lambda>c. c \<noteq> QUOTE \<and> c \<noteq> BACKSLASH) (-1) p5 = Some (True, run, p6)"
      "tok_pb_append (\<lambda>_. True) run p6 = Some p7"
      "tok_at L lo (lvl state_object_field sv' cu nm) hi (QUOTE # str) s p7" "p_c p7 = QUOTE" "tok_text L p7 w" by auto
  from tok_text_read [OF p6(5)] takeWhile_no_NUL [OF w(2)]
  obtain pb where pb: "tk_pb (p_tok p7) = Some pb" "c_str (pb_buf pb) = Some w" by auto
  from tok_at_upd_cur [OF p6(3), of "\<lambda>l. l\<lparr>sr_obj_field_name := Some w\<rparr>"] p6(4) obtain p8 where
    p8: "upd_cur (\<lambda>l. l\<lparr>sr_obj_field_name := Some w\<rparr>) p7 = Some p8" "p_c p8 = QUOTE"
      "tok_at L lo (lvl state_object_field sv' cu (Some w)) hi (QUOTE # str) s p8" by auto
  from tok_at_upd_cur [OF p8(3), of "\<lambda>l. l\<lparr>sr_state := state_eatws, sr_saved_state := state_object_field_end\<rparr>"] p8(2)
  obtain p9 where
    p9: "set_states state_eatws state_object_field_end p8 = Some p9" "p_c p9 = QUOTE"
      "tok_at L lo (lvl state_eatws state_object_field_end cu (Some w)) hi (QUOTE # str) s p9" by (auto simp: set_states_def)
  have "tok_step e (-1) p5 = Some (Break, p9)"
    using tok_at_cur [OF p5(3)] p5(7) p6(1,2,4) e pb p8(1) p9(1)
    by (simp add: tok_step_def step_object_field_def goto_state_def)
  from loop_break_at [OF this p9(3)] p9(2) p4(1) p5(1) show ?thesis by auto
qed

end
