(* ===== verification/Json_Roundtrip.thy ===== *)
theory Json_Roundtrip
  imports Json_Strings
begin

text \<open>
  Reading back what was printed: the text that \<open>json_object_to_json_string_ext\<close> makes of a value
  is parsed to an object that denotes the same value, with any of the format flags.
\<close>

section \<open>Objects under construction\<close>

lemma list_all2_join:
  assumes "list_all2 P ps As" "list_all2 Q ps ws" "\<And>p B w. B \<in> set As \<Longrightarrow> P p B \<Longrightarrow> Q p w \<Longrightarrow> R p w"
  shows "list_all2 R ps ws"
  using assms by (auto simp: list_all2_conv_all_nth) (metis nth_mem)

text \<open>What a tree denotes depends on the objects it owns only.\<close>

lemma jdenotes_frame:
  "owned h p A \<Longrightarrow> jdenotes h p v \<Longrightarrow> (\<And>x. x \<in> set A \<Longrightarrow> h' x = h x) \<Longrightarrow> jdenotes h' p v"
proof (induction arbitrary: v rule: owned.induct)
  case owned_null
  then show ?case by (auto elim: jdenotes_NoneE intro: denotes_null)
next
  case (owned_leaf a j)
  from owned_leaf.prems(1) show ?case using owned_leaf.hyps owned_leaf.prems(2)
    by cases (auto intro: jdenotes.intros)
next
  case (owned_string a j b l)
  from owned_string.prems(1) show ?case using owned_string.hyps owned_string.prems(2)
    by cases (auto intro: jdenotes.intros)
next
  case (owned_array a j arr As)
  from owned_array.prems(1) owned_array.hyps obtain vs where v: "v = JArray vs" "jo_type j = json_type_array"
    "jo_to_json_string j = Some Fn_array_to_json_string" "list_all2 (jdenotes h) (al_list arr) vs" by cases auto
  have "list_all2 (jdenotes h') (al_list arr) vs"
    by (rule list_all2_join [OF owned_array.IH v(4)]) (use owned_array.prems(2) in auto)
  with v owned_array show ?case by (auto intro: denotes_array)
next
  case (owned_object a j t As)
  from owned_object.prems(1) owned_object.hyps obtain kvs where v: "v = JObject kvs" "jo_type j = json_type_object"
    "jo_to_json_string j = Some Fn_object_to_json_string" "map fst (lh_items t) = map fst kvs"
    "list_all2 (jdenotes h) (map snd (lh_items t)) (map snd kvs)" by cases auto
  have "list_all2 (jdenotes h') (map snd (lh_items t)) (map snd kvs)"
    by (rule list_all2_join [OF owned_object.IH v(5)]) (use owned_object.prems(2) in auto)
  with v owned_object show ?case by (auto intro: denotes_object)
qed

lemma frame_children:
  assumes "list_all2 (owned h) ps As" "list_all2 (jdenotes h) ps ws" "\<And>x. x \<in> set (concat As) \<Longrightarrow> h' x = h x"
  shows "list_all2 (owned h') ps As" "list_all2 (jdenotes h') ps ws"
proof -
  show "list_all2 (owned h') ps As"
    by (rule list_all2_mono_in [OF assms(1)]) (use assms(3) in \<open>auto intro: owned_frame\<close>)
  show "list_all2 (jdenotes h') ps ws"
    by (rule list_all2_join [OF assms(1,2)]) (use assms(3) in \<open>auto intro: jdenotes_frame\<close>)
qed

lemma holds_frame:
  assumes "holds n s p v A" "\<And>x. x \<in> set A \<Longrightarrow> jheap s' x = jheap s x" "jnext s \<le> jnext s'"
  shows "holds n s' p v A"
  using assms owned_frame [of "jheap s" p A "jheap s'"] jdenotes_frame [of "jheap s" p A v "jheap s'"]
  unfolding holds_def by fastforce

lemma holds_grows: "holds n s p v A \<Longrightarrow> grows s s' \<Longrightarrow> holds n s' p v A"
  by (rule holds_frame [of n s p v A s']) (auto simp: holds_def grows_def)

lemma holds_jset: "holds n s p v A \<Longrightarrow> a \<notin> set A \<Longrightarrow> holds n (jset a j s) p v A"
  by (rule holds_frame) auto

lemma grows_jset: "grows s s' \<Longrightarrow> jnext s \<le> a \<Longrightarrow> grows s (jset a j s')"
  by (simp add: grows_def)

lemma js_ok_jset: "js_ok s \<Longrightarrow> jheap s a \<noteq> None \<Longrightarrow> js_ok (jset a j s)"
  by (auto simp: js_ok_def heap_bounded_def)

subsection \<open>Arrays\<close>

definition arr_open :: "addr \<Rightarrow> jstate \<Rightarrow> addr \<Rightarrow> json list \<Rightarrow> addr list \<Rightarrow> bool" where
  "arr_open n s a vs A \<longleftrightarrow> holds n s (Some a) (JArray vs) A
     \<and> (\<exists>j arr. jheap s a = Some j \<and> jo_data j = C_array (Some arr) \<and> al_size arr \<le> max 32 (2 * int (length vs)))"

lemma arr_open_add:
  assumes s: "js_ok s" and a: "arr_open n s a vs A" and q: "holds m s q v B" "set A \<subseteq> {..<m}" "n \<le> m"
    and l: "4 * int (length vs) + 64 \<le> INT_MAX"
  shows "\<exists>s' j. json_object_array_add (\<lambda>_. True) a q s = Some (0, s') \<and> arr_open n s' a (vs @ [v]) (A @ B)
     \<and> js_ok s' \<and> s' = jset a j s"
proof -
  from a obtain j arr where j: "jheap s a = Some j" "jo_data j = C_array (Some arr)"
    "al_size arr \<le> max 32 (2 * int (length vs))" "owned (jheap s) (Some a) A" "jdenotes (jheap s) (Some a) (JArray vs)"
    "set A \<subseteq> {n..<jnext s}" by (auto simp: arr_open_def holds_def)
  from j(4) j(1,2) obtain As where As: "sole j" "jo_delete j = Fn_array_delete" "al_inv arr"
    "list_all2 (owned (jheap s)) (al_list arr) As" "distinct (a # concat As)" "A = a # concat As" by cases auto
  from j(5) j(1,2) have d: "jo_type j = json_type_array" "jo_to_json_string j = Some Fn_array_to_json_string"
    "list_all2 (jdenotes (jheap s)) (al_list arr) vs" by (cases, auto)+
  have len: "al_length arr = int (length vs)"
    using As(3) list_all2_lengthD [OF d(3)] by (auto elim: al_invE)
  have b: "al_size arr * 2 \<le> INT_MAX" "al_length arr + 1 \<le> INT_MAX" using j(3) l len by auto
  from array_list_add_spec [where mal = "\<lambda>_. True", OF As(3) b, of "json_object_array_entry_free json_object_put" q s]
  obtain arr' where
    arr': "array_list_add (\<lambda>_. True) (json_object_array_entry_free json_object_put) arr q s = Some (0, arr', s)"
      "al_inv arr'" "al_list arr' = al_list arr @ [q]" "al_size arr' \<le> max (al_size arr) (2 * (al_length arr + 1))" by auto
  let ?j = "j\<lparr>jo_data := C_array (Some arr')\<rparr>"
  let ?s = "jset a ?j s"
  have add: "json_object_array_add (\<lambda>_. True) a q s = Some (0, ?s)"
    using j arr'(1) by (simp add: json_object_array_add_def arr_list_def set_array_def)
  have B: "set B \<subseteq> {m..<jnext s}" "distinct B" using q(1) owned_distinct by (auto simp: holds_def)
  have "set A \<inter> set B = {}" using B(1) q(2) by fastforce
  then have nin: "a \<notin> set (concat As)" "a \<notin> set B" and disj: "set (concat As) \<inter> set B = {}" "distinct B"
    using As(5,6) B(2) by auto
  have old: "list_all2 (owned (jheap ?s)) (al_list arr) As" "list_all2 (jdenotes (jheap ?s)) (al_list arr) vs"
    by (rule frame_children [OF As(4) d(3)], use nin(1) in auto)+
  have new: "owned (jheap ?s) q B" "jdenotes (jheap ?s) q v"
    using holds_jset [OF q(1) nin(2)] by (auto simp: holds_def)
  have kids: "list_all2 (owned (jheap ?s)) (al_list arr') (As @ [B])" "list_all2 (jdenotes (jheap ?s)) (al_list arr') (vs @ [v])"
    using old new arr'(3) by (auto intro: list_all2_appendI)
  have at: "jheap ?s a = Some ?j" by simp
  have "owned (jheap ?s) (Some a) (a # concat (As @ [B]))"
    using As nin disj kids(1) by (intro owned_array [where h = "jheap ?s", OF at _ _ _ arr'(2)]) (auto simp: sole_def)
  moreover have "jdenotes (jheap ?s) (Some a) (JArray (vs @ [v]))"
    using d kids(2) by (intro denotes_array [where h = "jheap ?s", OF at _ _ _ arr'(2)]) auto
  moreover have "al_size arr' \<le> max 32 (2 * int (length (vs @ [v])))" using arr'(4) j(3) len by auto
  ultimately have "arr_open n ?s a (vs @ [v]) (A @ B)"
    using As(6) j(6) q by (auto simp: arr_open_def holds_def)
  with add js_ok_jset [OF s] j(1) show ?thesis by blast
qed

subsection \<open>Objects\<close>

definition obj_open :: "nat \<Rightarrow> addr \<Rightarrow> jstate \<Rightarrow> addr \<Rightarrow> (string \<times> json) list \<Rightarrow> addr list \<Rightarrow> bool" where
  "obj_open L n s a kvs A \<longleftrightarrow> holds n s (Some a) (JObject kvs) A
     \<and> (\<exists>j t. jheap s a = Some j \<and> jo_data j = C_object t \<and> lh_ok L t)"

lemma object_add_fresh:
  assumes "jheap s a = Some j" "jo_data j = C_object t" "lh_ok L t" "k \<notin> fst ` set (lh_items t)" "length (lh_items t) < L"
  shows "\<exists>t'. json_object_object_add (\<lambda>_. True) a k q s = Some (jset a (j\<lparr>jo_data := C_object t'\<rparr>) s)
     \<and> lh_ok L t' \<and> lh_items t' = lh_items t @ [(k, q)]"
proof -
  have inv: "lh_inv t" using assms(3) by (simp add: lh_ok_def)
  then obtain ord where ord: "lh_rep t ord" "lh_items t = items_at (lh_tab t) ord" by (rule lh_invE)
  let ?t = "t\<lparr>lh_lookups := lh_lookups t + 1\<rparr>"
  from lh_lookup_entry_rep [OF ord(1), of k] obtain r where r: "lh_table_lookup_entry t k = Some (r, ?t)"
    "\<forall>i. r = Some i \<longrightarrow> i \<in> set ord \<and> ent_k (lh_tab t ! i) = Key k" by blast
  have "r = None"
  proof (rule ccontr)
    assume "r \<noteq> None"
    then obtain i where "i \<in> set ord" "ent_k (lh_tab t ! i) = Key k" using r(2) by auto
    then have "k \<in> fst ` set (lh_items t)" unfolding ord(2) items_at_def by force
    with assms(4) show False by simp
  qed
  moreover have it: "lh_items ?t = lh_items t" by simp
  have "lh_ok L ?t" using assms(3) by (simp add: lh_ok_def)
  from lh_ok_insert [where mal = "\<lambda>_. True", OF this, of k q] assms(4,5) it obtain t' where
    "lh_table_insert (\<lambda>_. True) ?t k q = Some t'" "lh_ok L t'" "lh_items t' = lh_items t @ [(k, q)]" by auto
  ultimately show ?thesis
    using assms(1,2) r(1)
    by (intro exI [of _ t']) (simp add: json_object_object_add_def obj_table_def set_table_def)
qed

lemma obj_open_add:
  assumes s: "js_ok s" and a: "obj_open L n s a kvs A" and q: "holds m s q v B" "set A \<subseteq> {..<m}" "n \<le> m"
    and k: "k \<notin> fst ` set kvs" "length kvs < L"
  shows "\<exists>s' j. json_object_object_add (\<lambda>_. True) a k q s = Some s' \<and> obj_open L n s' a (kvs @ [(k, v)]) (A @ B)
     \<and> js_ok s' \<and> s' = jset a j s"
proof -
  from a obtain j t where j: "jheap s a = Some j" "jo_data j = C_object t" "lh_ok L t"
    "owned (jheap s) (Some a) A" "jdenotes (jheap s) (Some a) (JObject kvs)"
    "set A \<subseteq> {n..<jnext s}" by (auto simp: obj_open_def holds_def)
  from j(4) j(1,2) obtain As where As: "sole j" "jo_delete j = Fn_object_delete"
    "list_all2 (owned (jheap s)) (map snd (lh_items t)) As" "distinct (a # concat As)" "A = a # concat As" by cases auto
  from j(5) j(1,2) have d: "jo_type j = json_type_object" "jo_to_json_string j = Some Fn_object_to_json_string"
    "map fst (lh_items t) = map fst kvs" "list_all2 (jdenotes (jheap s)) (map snd (lh_items t)) (map snd kvs)"
    by (cases, auto)+
  have "fst ` set (lh_items t) = fst ` set kvs" using arg_cong [OF d(3), of set] by simp
  moreover have "length (lh_items t) = length kvs" using arg_cong [OF d(3), of length] by simp
  ultimately obtain t' where
    t': "json_object_object_add (\<lambda>_. True) a k q s = Some (jset a (j\<lparr>jo_data := C_object t'\<rparr>) s)"
      "lh_ok L t'" "lh_items t' = lh_items t @ [(k, q)]" using object_add_fresh [OF j(1-3), of k q] k by auto
  let ?s = "jset a (j\<lparr>jo_data := C_object t'\<rparr>) s"
  have inv: "lh_inv t'" using t'(2) by (simp add: lh_ok_def)
  have B: "set B \<subseteq> {m..<jnext s}" "distinct B" using q(1) owned_distinct by (auto simp: holds_def)
  have "set A \<inter> set B = {}" using B(1) q(2) by fastforce
  then have nin: "a \<notin> set (concat As)" "a \<notin> set B" and disj: "set (concat As) \<inter> set B = {}" "distinct B"
    using As(4,5) B(2) by auto
  have old: "list_all2 (owned (jheap ?s)) (map snd (lh_items t)) As"
      "list_all2 (jdenotes (jheap ?s)) (map snd (lh_items t)) (map snd kvs)"
    by (rule frame_children [OF As(3) d(4)], use nin(1) in auto)+
  have new: "owned (jheap ?s) q B" "jdenotes (jheap ?s) q v"
    using holds_jset [OF q(1) nin(2)] by (auto simp: holds_def)
  have kids: "list_all2 (owned (jheap ?s)) (map snd (lh_items t')) (As @ [B])"
    "list_all2 (jdenotes (jheap ?s)) (map snd (lh_items t')) (map snd (kvs @ [(k, v)]))"
    "map fst (lh_items t') = map fst (kvs @ [(k, v)])"
    using old new t'(3) d(3) by (auto intro: list_all2_appendI)
  have at: "jheap ?s a = Some (j\<lparr>jo_data := C_object t'\<rparr>)" by simp
  have "owned (jheap ?s) (Some a) (a # concat (As @ [B]))"
    using As nin disj inv kids(1) by (intro owned_object [where h = "jheap ?s", OF at _ _ _ inv]) (auto simp: sole_def)
  moreover have "jdenotes (jheap ?s) (Some a) (JObject (kvs @ [(k, v)]))"
    using d inv kids by (intro denotes_object [where h = "jheap ?s", OF at _ _ _ inv]) auto
  ultimately have "obj_open L n ?s a (kvs @ [(k, v)]) (A @ B)"
    using As(5) j(6) q t'(2) by (auto simp: obj_open_def holds_def)
  with t'(1) js_ok_jset [OF s] j(1) show ?thesis by blast
qed

section \<open>Nested values\<close>

text \<open>The value needs at most \<open>n\<close> levels above the one it starts at.\<close>

fun nests :: "json \<Rightarrow> nat \<Rightarrow> bool" where
  "nests (JArray vs) n \<longleftrightarrow> vs = [] \<or> 0 < n \<and> (\<forall>v \<in> set vs. nests v (n - 1))"
| "nests (JObject kvs) n \<longleftrightarrow> kvs = [] \<or> 0 < n \<and> (\<forall>(k, v) \<in> set kvs. nests v (n - 1))"
| "nests _ n \<longleftrightarrow> True"

abbreviation fresh_level :: json_tokener_srec where
  "fresh_level \<equiv> lvl state_eatws state_start None None"

text \<open>The text \<open>t\<close>, met where a value may start, leaves a new object for \<open>v\<close> at the level.\<close>

definition parses :: "cenv \<Rightarrow> nat \<Rightarrow> json \<Rightarrow> string \<Rightarrow> bool" where
  "parses e L v t \<longleftrightarrow> t \<noteq> [] \<and> \<not> c_isspace (hd t) \<and> hd t \<notin> set ''/]}''
     \<and> (\<forall>lo hi sv c str s p. tok_at L lo (lvl state_start sv None None) hi (t @ c # str) s p \<longrightarrow> p_c p = hd t
          \<longrightarrow> js_ok s \<longrightarrow> nests v (length hi) \<longrightarrow> c \<notin> set json_number_chars
          \<longrightarrow> (\<exists>p' s' q A hi'. parse_loop e (-1) True p = parse_loop e (-1) False p'
                 \<and> tok_at L lo (lvl state_eatws state_finish q None) hi' (c # str) s' p' \<and> length hi' = length hi
                 \<and> grows s s' \<and> js_ok s' \<and> built (jnext s) s' q v A))"

lemma parsesD:
  assumes "parses e L v t" "tok_at L lo (lvl state_start sv None None) hi (t @ c # str) s p" "p_c p = hd t"
    "js_ok s" "nests v (length hi)" "c \<notin> set json_number_chars"
  obtains p' s' q A hi' where "parse_loop e (-1) True p = parse_loop e (-1) False p'"
    "tok_at L lo (lvl state_eatws state_finish q None) hi' (c # str) s' p'" "length hi' = length hi"
    "grows s s'" "js_ok s'" "built (jnext s) s' q v A"
  using assms unfolding parses_def by blast

lemma put_None [simp]: "json_object_put None s = Some (0, s)"
  by (simp add: json_object_put_def put_d_null)

lemma reset_level_at:
  assumes "tk_stack tok = xs @ h # ys" "json_object_put (sr_current h) s = Some (r, s')"
  shows "json_tokener_reset_level tok (int (length xs)) s = Some (tok\<lparr>tk_stack := xs @ fresh_level # ys\<rparr>, s')"
  using assms by (simp add: json_tokener_reset_level_def level_ok_def)

lemma push_level_at:
  assumes at: "tok_at L lo lv (h # hi) str s p"
  shows "\<exists>p'. push_level st p = Some (Redo, p') \<and> tok_at L (lo @ [lv\<lparr>sr_state := st\<rparr>]) fresh_level hi str s p'
     \<and> p_c p' = p_c p"
proof -
  from tok_at_upd_cur [OF at, of "\<lambda>l. l\<lparr>sr_state := st\<rparr>"] obtain p1 where
    p1: "set_state st p = Some p1" "tok_at L lo (lv\<lparr>sr_state := st\<rparr>) (h # hi) str s p1" "p_c p1 = p_c p"
    by (auto simp: set_state_def)
  have h: "sr_current h = None" using p1(2) by (auto simp: tok_at_def empty_level_def)
  let ?lo = "lo @ [lv\<lparr>sr_state := st\<rparr>]"
  let ?tok = "(p_tok p1)\<lparr>tk_depth := int (length ?lo)\<rparr>"
  let ?tok' = "?tok\<lparr>tk_stack := ?lo @ fresh_level # hi\<rparr>"
  have st: "tk_stack ?tok = ?lo @ h # hi" "tk_depth (p_tok p1) = int (length lo)" "p_js p1 = s"
    using p1(2) by (auto simp: tok_at_def)
  have reset: "json_tokener_reset_level ?tok (int (length ?lo)) s = Some (?tok', s)"
    using reset_level_at [OF st(1), of s] h by simp
  have "\<not> tk_depth (p_tok p) \<ge> tk_max_depth (p_tok p) - 1" using at by (auto simp: tok_at_def)
  then have "push_level st p = Some (Redo, p1\<lparr>p_tok := ?tok', p_js := s\<rparr>)"
    using p1(1) st(2,3) reset by (simp add: push_level_def Let_def add.commute)
  moreover have "tok_at L ?lo fresh_level hi str s (p1\<lparr>p_tok := ?tok', p_js := s\<rparr>)"
    using p1(2) by (auto simp: tok_at_def)
  ultimately show ?thesis using p1(3) by auto
qed

text \<open>A reference is taken and the one of the level dropped: the state stays as it is.\<close>

lemma get_put_owned:
  assumes "owned (jheap s) q A"
  shows "\<exists>s1. json_object_get q s = Some (q, s1) \<and> (\<exists>r. json_object_put q s1 = Some (r, s))"
proof (cases q)
  case None
  then show ?thesis by (simp add: json_object_get_def)
next
  case (Some a)
  from assms obtain j where j: "jheap s a = Some j" "jo_ref_count j = 1"
    unfolding Some by (cases rule: owned.cases) (auto simp: sole_def)
  from json_object_get_put [OF this(1)] j(2) Some show ?thesis by force
qed

lemma step_finish_at:
  assumes at: "tok_at L (lo @ [lv]) (lvl state_finish sv q nm) hi str s p" and q: "owned (jheap s) q A"
  shows "\<exists>p'. tok_step e (-1) p = Some (Redo, p') \<and> tok_at L lo lv (fresh_level # hi) str s p'
     \<and> p_c p' = p_c p \<and> p_obj p' = q"
proof -
  from get_put_owned [OF q] obtain s1 r where
    s1: "json_object_get q s = Some (q, s1)" "json_object_put q s1 = Some (r, s)" by auto
  let ?d = "int (length (lo @ [lv]))"
  let ?tok' = "(p_tok p)\<lparr>tk_stack := (lo @ [lv]) @ fresh_level # hi\<rparr>"
  have st: "tk_stack (p_tok p) = (lo @ [lv]) @ lvl state_finish sv q nm # hi" "tk_depth (p_tok p) = ?d" "p_js p = s"
    using at by (auto simp: tok_at_def)
  have reset: "json_tokener_reset_level (p_tok p) ?d s1 = Some (?tok', s)"
    using reset_level_at [OF st(1)] s1(2) by simp
  let ?p = "p\<lparr>p_tok := ?tok'\<lparr>tk_depth := int (length lo)\<rparr>, p_js := s, p_obj := q\<rparr>"
  have "tok_step e (-1) p = Some (Redo, ?p)"
    using tok_at_cur [OF at] st(2,3) s1(1) reset by (simp add: tok_step_def step_finish_def)
  moreover have "tok_at L lo lv (fresh_level # hi) str s ?p"
    using at by (auto simp: tok_at_def empty_level_def)
  ultimately show ?thesis by auto
qed

text \<open>Characters that a step may look at after white space.\<close>

abbreviation solid :: "char \<Rightarrow> bool" where
  "solid c \<equiv> \<not> c_isspace c \<and> c \<noteq> CHR ''/''"

lemma eatws_resume:
  assumes "tok_at L lo (lvl state_eatws st cu nm) hi (c # str) s p" "p_c p = c" "solid c"
  shows "\<exists>p'. parse_loop e (-1) True p = parse_loop e (-1) True p' \<and> tok_at L lo (lvl st st cu nm) hi (c # str) s p'
     \<and> p_c p' = c \<and> p_obj p' = p_obj p"
  using loop_again [OF assms(1,2), of e] loop_eatws [of L lo _ hi "[]" c str s p e] assms by fastforce

lemma parse_nested:
  assumes v: "parses e L v t" and step: "tok_step e (-1) p = push_level st p"
    and at: "tok_at L lo (lvl st0 sv cu nm) hi (t @ ws @ c # str) s p" "p_c p = hd t"
    and s: "js_ok s" and hi: "0 < length hi" "nests v (length hi - 1)"
    and ws: "\<forall>x \<in> set ws. c_isspace x" "solid c" "hd (ws @ [c]) \<notin> set json_number_chars"
  shows "\<exists>p' s' q A hi'. parse_loop e (-1) True p = parse_loop e (-1) True p'
     \<and> tok_at L lo (lvl st sv cu nm) hi' (c # str) s' p' \<and> p_c p' = c \<and> p_obj p' = q \<and> length hi' = length hi
     \<and> grows s s' \<and> js_ok s' \<and> built (jnext s) s' q v A"
proof -
  from hi(1) obtain h hs where h: "hi = h # hs" by (cases hi) auto
  from v obtain y ys where t: "t = y # ys" "solid y" unfolding parses_def by (cases t) auto
  obtain z zs where z: "ws @ c # str = z # zs" "z = hd (ws @ [c])" by (cases ws) auto
  from push_level_at [OF at(1) [unfolded h], of st] at(2) t(1) obtain p1 where
    p1: "push_level st p = Some (Redo, p1)" "p_c p1 = y"
      "tok_at L (lo @ [lvl st sv cu nm]) fresh_level hs (y # ys @ z # zs) s p1" using z(1) by auto
  from eatws_resume [OF p1(3,2) t(2), of e] obtain p2 where
    p2: "parse_loop e (-1) True p1 = parse_loop e (-1) True p2" "p_c p2 = hd t"
      "tok_at L (lo @ [lvl st sv cu nm]) (lvl state_start state_start None None) hs (t @ z # zs) s p2" using t(1) by auto
  have "nests v (length hs)" "z \<notin> set json_number_chars" using hi(2) h ws(3) z(2) by auto
  with parsesD [OF v p2(3,2) s] obtain p3 s' q A hs' where
    p3: "parse_loop e (-1) True p2 = parse_loop e (-1) False p3" "length hs' = length hs"
      "tok_at L (lo @ [lvl st sv cu nm]) (lvl state_eatws state_finish q None) hs' (ws @ c # str) s' p3"
      "grows s s'" "js_ok s'" "built (jnext s) s' q v A" unfolding z(1) by metis
  from loop_eatws [OF p3(3) _ ws(1), of e] ws(2) obtain p4 where
    p4: "parse_loop e (-1) False p3 = parse_loop e (-1) True p4" "p_c p4 = c"
      "tok_at L (lo @ [lvl st sv cu nm]) (lvl state_finish state_finish q None) hs' (c # str) s' p4" by auto
  have "owned (jheap s') q A" using p3(6) by (simp add: built_def holds_def)
  from step_finish_at [OF p4(3) this, of e] p4(2) obtain p5 where
    p5: "tok_step e (-1) p4 = Some (Redo, p5)" "tok_at L lo (lvl st sv cu nm) (fresh_level # hs') (c # str) s' p5"
      "p_c p5 = c" "p_obj p5 = q" by auto
  have "parse_loop e (-1) True p = parse_loop e (-1) True p5"
    using loop_redo [of e "-1" p p1] step p1(1) p2(1) p3(1) p4(1) loop_redo [OF p5(1)] by simp
  with p5 p3 h show ?thesis
    by (intro exI [of _ p5] exI [of _ s'] exI [of _ q] exI [of _ A] exI [of _ "fresh_level # hs'"]) simp
qed

section \<open>Arrays\<close>

lemma goto_state_at:
  assumes "tok_at L lo (lvl st sv cu nm) hi (c # str) s p" "tok_step e (-1) p = goto_state st' p" "p_c p \<noteq> NUL"
  shows "\<exists>p'. parse_loop e (-1) True p = parse_loop e (-1) False p' \<and> tok_at L lo (lvl state_eatws st' cu nm) hi str s p'"
proof -
  from tok_at_upd_cur [OF assms(1), of "\<lambda>l. l\<lparr>sr_state := state_eatws, sr_saved_state := st'\<rparr>"] assms(3) obtain p1 where
    p1: "set_states state_eatws st' p = Some p1" "tok_at L lo (lvl state_eatws st' cu nm) hi (c # str) s p1" "p_c p1 \<noteq> NUL"
    by (auto simp: set_states_def)
  with assms(2) have "tok_step e (-1) p = Some (Break, p1)" by (simp add: goto_state_def)
  from loop_break_at [OF this p1(2,3)] show ?thesis by blast
qed

text \<open>One element and the white space after it.\<close>

lemma parse_element:
  assumes e: "env_mal e = (\<lambda>_. True)" and st: "st = state_array \<or> st = state_array_after_sep"
    and v: "parses e L v t"
    and at: "tok_at L lo (lvl state_eatws st (Some a) nm) hi (ws0 @ t @ ws @ c # str) s p"
    and a: "arr_open n s a vs A" "js_ok s" "4 * int (length vs) + 64 \<le> INT_MAX" "set A = {n..<jnext s}"
    and hi: "0 < length hi" "nests v (length hi - 1)"
    and ws: "\<forall>x \<in> set ws0. c_isspace x" "\<forall>x \<in> set ws. c_isspace x" "solid c" "hd (ws @ [c]) \<notin> set json_number_chars"
  shows "\<exists>p' s' A' hi'. parse_loop e (-1) False p = parse_loop e (-1) True p'
     \<and> tok_at L lo (lvl state_array_sep state_array_sep (Some a) nm) hi' (c # str) s' p' \<and> p_c p' = c
     \<and> length hi' = length hi \<and> js_ok s' \<and> arr_open n s' a (vs @ [v]) A' \<and> set A' = {n..<jnext s'}
     \<and> (\<forall>s0. grows s0 s \<longrightarrow> jnext s0 \<le> n \<longrightarrow> grows s0 s')"
proof -
  from v obtain y ys where t: "t = y # ys" "solid y" "y \<noteq> CHR '']''" unfolding parses_def by (cases t) auto
  from loop_eatws [of L lo _ hi ws0 y "ys @ ws @ c # str" s p e] at t ws(1) obtain p1 where
    p1: "parse_loop e (-1) False p = parse_loop e (-1) True p1" "p_c p1 = hd t"
      "tok_at L lo (lvl st st (Some a) nm) hi (t @ ws @ c # str) s p1" by fastforce
  have "tok_step e (-1) p1 = push_level state_array_add p1"
    using st tok_at_cur [OF p1(3)] p1(2) t(1,3) by (auto simp: tok_step_def step_array_def)
  from parse_nested [OF v this p1(3,2) a(2) hi ws(2-4)] obtain p2 s2 q B hi' where
    p2: "parse_loop e (-1) True p1 = parse_loop e (-1) True p2" "p_c p2 = c" "p_obj p2 = q" "length hi' = length hi"
      "tok_at L lo (lvl state_array_add st (Some a) nm) hi' (c # str) s2 p2"
      "grows s s2" "js_ok s2" "built (jnext s) s2 q v B" by blast
  have q: "holds (jnext s) s2 q v B" "set B = {jnext s..<jnext s2}" using p2(8) by (simp_all add: built_def)
  have ao: "arr_open n s2 a vs A" "set A \<subseteq> {..<jnext s}" "n \<le> jnext s" "n \<le> a"
  proof -
    have b: "holds n s (Some a) (JArray vs) A" using a(1) by (simp add: arr_open_def)
    then have "a \<in> set A" by (auto simp: holds_def elim: owned_SomeE)
    with b show "set A \<subseteq> {..<jnext s}" "n \<le> jnext s" "n \<le> a" by (auto simp: holds_def)
    from \<open>a \<in> set A\<close> b p2(6) have "jheap s2 a = jheap s a" by (auto simp: holds_def grows_def)
    with holds_grows [OF b p2(6)] a(1) show "arr_open n s2 a vs A" by (simp add: arr_open_def)
  qed
  from arr_open_add [OF p2(7) ao(1) q(1) ao(2,3) a(3)] obtain s3 j where
    s3: "json_object_array_add (\<lambda>_. True) a q s2 = Some (0, s3)" "arr_open n s3 a (vs @ [v]) (A @ B)" "js_ok s3" "s3 = jset a j s2"
    by blast
  from tok_at_upd_cur [OF tok_at_js [OF p2(5), of s3], of "\<lambda>l. l\<lparr>sr_state := state_eatws, sr_saved_state := state_array_sep\<rparr>"]
  obtain p3 where
    p3: "set_states state_eatws state_array_sep (p2\<lparr>p_js := s3\<rparr>) = Some p3" "p_c p3 = c"
      "tok_at L lo (lvl state_eatws state_array_sep (Some a) nm) hi' (c # str) s3 p3" using p2(2) by (auto simp: set_states_def)
  have "p_js p2 = s2" using p2(5) by (simp add: tok_at_def)
  then have "tok_step e (-1) p2 = Some (Redo, p3)"
    using tok_at_cur [OF p2(5)] p2(3) s3(1) p3(1) e by (simp add: tok_step_def step_array_add_def)
  from loop_redo [OF this] eatws_resume [OF p3(3,2) ws(3), of e] obtain p4 where
    p4: "parse_loop e (-1) True p2 = parse_loop e (-1) True p4" "p_c p4 = c"
      "tok_at L lo (lvl state_array_sep state_array_sep (Some a) nm) hi' (c # str) s3 p4" by auto
  have "\<forall>s0. grows s0 s \<longrightarrow> jnext s0 \<le> n \<longrightarrow> grows s0 s3"
    using grows_trans [OF _ p2(6)] grows_jset ao(4) s3(4) by (meson le_trans)
  moreover have "set (A @ B) = {n..<jnext s3}" using a(4) q(2) ao(3) p2(6) s3(4) by (auto simp: grows_def)
  moreover have "parse_loop e (-1) False p = parse_loop e (-1) True p4" using p1(1) p2(1) p4(1) by simp
  ultimately show ?thesis using p2(4) p4(2,3) s3(2,3) by blast
qed

text \<open>
  The text after the first child: the other children, each after a comma and white space, then
  white space and the closing bracket.
\<close>

abbreviation spaces :: "string \<Rightarrow> bool" where
  "spaces ws \<equiv> \<forall>x \<in> set ws. c_isspace x"

definition gap :: "string \<Rightarrow> (string \<times> string) list \<Rightarrow> string" where
  "gap wc r = (if r = [] then wc else [])"

fun tail :: "string \<Rightarrow> char \<Rightarrow> (string \<times> string) list \<Rightarrow> string" where
  "tail wc br [] = [br]"
| "tail wc br ((w, t) # r) = CHR '','' # w @ t @ gap wc r @ tail wc br r"

lemma c_isspace_set: "c_isspace c \<longleftrightarrow> c \<in> {CHR '' '', CHR 0x09, NEWLINE, CHR 0x0B, CHR 0x0C, CHR 0x0D}"
  by (auto simp: c_isspace_def)

lemma c_isspace_not_number: "c_isspace c \<Longrightarrow> c \<notin> set json_number_chars"
  by (auto simp: c_isspace_set)

lemma tail_head:
  assumes "spaces wc" "br = CHR '']'' \<or> br = CHR ''}''"
  obtains c u where "tail wc br r = c # u" "solid c" "hd (gap wc r @ [c]) \<notin> set json_number_chars" "spaces (gap wc r)"
proof (cases r)
  case Nil
  have "solid br" "br \<notin> set json_number_chars" using assms(2) by (auto simp: c_isspace_set)
  then show ?thesis using Nil assms(1) c_isspace_not_number [of "hd wc"] that [of br "[]"]
    by (cases wc) (auto simp: gap_def)
next
  case (Cons wt r')
  obtain w t where wt: "wt = (w, t)" by fastforce
  show ?thesis using that [of "CHR '',''" "w @ t @ gap wc r' @ tail wc br r'"] Cons wt by (simp add: gap_def c_isspace_set)
qed

lemma append_Cons_eq_snoc: "xs @ y # ys = (xs @ [y]) @ ys"
  by simp

lemma array_tail:
  assumes e: "env_mal e = (\<lambda>_. True)" and r: "list_all2 (\<lambda>(w, t) v. parses e L v t \<and> spaces w) r us" and wc: "spaces wc"
    and at: "tok_at L lo (lvl state_array_sep sv (Some a) nm) hi (tail wc CHR '']'' r @ str) s p" "p_c p = hd (tail wc CHR '']'' r)"
    and a: "arr_open n s a vs A" "js_ok s" "4 * int (length vs + length us) + 64 \<le> INT_MAX" "set A = {n..<jnext s}"
    and hi: "us \<noteq> [] \<Longrightarrow> 0 < length hi" "\<forall>v \<in> set us. nests v (length hi - 1)"
  shows "\<exists>p' s' A' hi'. parse_loop e (-1) True p = parse_loop e (-1) False p'
     \<and> tok_at L lo (lvl state_eatws state_finish (Some a) nm) hi' str s' p' \<and> length hi' = length hi \<and> js_ok s'
     \<and> arr_open n s' a (vs @ us) A' \<and> set A' = {n..<jnext s'} \<and> (\<forall>s0. grows s0 s \<longrightarrow> jnext s0 \<le> n \<longrightarrow> grows s0 s')"
  using r at a hi
proof (induction r us arbitrary: sv hi s p vs A rule: list_all2_induct)
  case Nil
  have at: "tok_at L lo (lvl state_array_sep sv (Some a) nm) hi (CHR '']'' # str) s p" "p_c p = CHR '']''" using Nil by simp_all
  then have "tok_step e (-1) p = goto_state state_finish p"
    using tok_at_cur [OF at(1)] by (simp add: tok_step_def step_array_sep_def)
  from goto_state_at [OF at(1) this] at(2) Nil show ?case by fastforce
next
  case (Cons wt r v us)
  obtain w t where wt: "wt = (w, t)" by fastforce
  have pv: "parses e L v t" "spaces w" using Cons.hyps(1) wt by auto
  from tail_head [OF wc, of "CHR '']''" r] obtain c u where
    c: "tail wc CHR '']'' r = c # u" "solid c" "hd (gap wc r @ [c]) \<notin> set json_number_chars" "spaces (gap wc r)" by auto
  have at: "tok_at L lo (lvl state_array_sep sv (Some a) nm) hi (CHR '','' # w @ t @ gap wc r @ c # u @ str) s p"
    "p_c p = CHR '',''" using Cons.prems(1,2) wt c(1) by simp_all
  then have "tok_step e (-1) p = goto_state state_array_after_sep p"
    using tok_at_cur [OF at(1)] by (simp add: tok_step_def step_array_sep_def)
  from goto_state_at [OF at(1) this] at(2) obtain p1 where
    p1: "parse_loop e (-1) True p = parse_loop e (-1) False p1"
      "tok_at L lo (lvl state_eatws state_array_after_sep (Some a) nm) hi (w @ t @ gap wc r @ c # u @ str) s p1" by auto
  have b: "4 * int (length vs) + 64 \<le> INT_MAX" "0 < length hi" "nests v (length hi - 1)" using Cons.prems by auto
  from parse_element [OF e _ pv(1) p1(2) Cons.prems(3,4) b(1) Cons.prems(6) b(2,3) pv(2) c(4,2,3)] obtain p2 s2 A2 hi2 where
    p2: "parse_loop e (-1) False p1 = parse_loop e (-1) True p2"
      "tok_at L lo (lvl state_array_sep state_array_sep (Some a) nm) hi2 (c # u @ str) s2 p2" "p_c p2 = c"
      "length hi2 = length hi" "js_ok s2" "arr_open n s2 a (vs @ [v]) A2" "set A2 = {n..<jnext s2}"
      "\<forall>s0. grows s0 s \<longrightarrow> jnext s0 \<le> n \<longrightarrow> grows s0 s2" by blast
  have "tok_at L lo (lvl state_array_sep state_array_sep (Some a) nm) hi2 (tail wc CHR '']'' r @ str) s2 p2"
    "p_c p2 = hd (tail wc CHR '']'' r)" "4 * int (length (vs @ [v]) + length us) + 64 \<le> INT_MAX"
    "us \<noteq> [] \<Longrightarrow> 0 < length hi2" "\<forall>v \<in> set us. nests v (length hi2 - 1)"
    using p2(2,3,4) c(1) Cons.prems by simp_all
  from Cons.IH [OF this(1,2) p2(6,5) this(3) p2(7) this(4,5)] obtain p3 s3 A3 hi3 where
    p3: "parse_loop e (-1) True p2 = parse_loop e (-1) False p3"
      "tok_at L lo (lvl state_eatws state_finish (Some a) nm) hi3 str s3 p3" "length hi3 = length hi2" "js_ok s3"
      "arr_open n s3 a ((vs @ [v]) @ us) A3" "set A3 = {n..<jnext s3}"
      "\<forall>s0. grows s0 s2 \<longrightarrow> jnext s0 \<le> n \<longrightarrow> grows s0 s3" by blast
  moreover have "parse_loop e (-1) True p = parse_loop e (-1) False p3" using p1(1) p2(1) p3(1) by simp
  ultimately show ?case using p2(4,8) unfolding append_Cons_eq_snoc [of _ _ us] by metis
qed

lemma start_container:
  assumes at: "tok_at L lo (lvl state_start sv None None) hi (br # str) s p" "p_c p = br"
    and br: "br = CHR ''['' \<and> st = state_array \<and> json_object_new_array (env_mal e) s = Some (a, s')
           \<or> br = CHR ''{'' \<and> st = state_object_field_start \<and> json_object_new_object (env_mal e) s = Some (a, s')"
  shows "\<exists>p'. parse_loop e (-1) True p = parse_loop e (-1) False p' \<and> tok_at L lo (lvl state_eatws st a None) hi str s' p'"
proof -
  from tok_at_upd_cur [OF at(1), of "\<lambda>l. l\<lparr>sr_state := state_eatws, sr_saved_state := st\<rparr>"] at(2) obtain p1 where
    p1: "set_states state_eatws st p = Some p1" "tok_at L lo (lvl state_eatws st None None) hi (br # str) s p1" "p_c p1 = br"
    by (auto simp: set_states_def)
  from tok_at_upd_cur [OF tok_at_js [OF p1(2), of s'], of "\<lambda>l. l\<lparr>sr_current := a\<rparr>"] p1(3) obtain p2 where
    p2: "set_current a (p1\<lparr>p_js := s'\<rparr>) = Some p2" "tok_at L lo (lvl state_eatws st a None) hi (br # str) s' p2" "p_c p2 = br"
    by (auto simp: set_current_def)
  have "p_js p1 = s" using p1(2) by (simp add: tok_at_def)
  then have "tok_step e (-1) p = Some (Break, p2)"
    using br tok_at_cur [OF at(1)] at(2) p1(1) p2(1) by (auto simp: tok_step_def step_start_def)
  from loop_break_at [OF this p2(2)] p2(3) br show ?thesis by auto
qed

lemma arr_open_new:
  assumes "js_ok s"
  shows "\<exists>s'. json_object_new_array (\<lambda>_. True) s = Some (Some (jnext s), s') \<and> grows s s' \<and> js_ok s'
     \<and> arr_open (jnext s) s' (jnext s) [] [jnext s] \<and> set [jnext s] = {jnext s..<jnext s'}"
proof -
  obtain j s' where n: "json_object_new_array (\<lambda>_. True) s = Some (Some (jnext s), s')"
    "jheap s' (jnext s) = Some j" "\<exists>arr. jo_data j = C_array (Some arr) \<and> al_size arr = 32"
    by (auto simp: json_object_new_array_def json_object_new_with_def json_object_new_def array_list_new_def jset_def)
  with new_array [OF assms] show ?thesis by (auto simp: arr_open_def built_def)
qed

lemma parse_array_empty:
  assumes e: "env_mal e = (\<lambda>_. True)" and ws: "spaces ws"
  shows "parses e L (JArray []) (CHR ''['' # ws @ '']'')"
  unfolding parses_def
proof (intro conjI allI impI)
  fix lo hi sv c str s p
  assume at: "tok_at L lo (lvl state_start sv None None) hi ((CHR ''['' # ws @ '']'') @ c # str) s p"
    "p_c p = hd (CHR ''['' # ws @ '']'')" and s: "js_ok s"
  from arr_open_new [OF s] obtain s' where s': "json_object_new_array (\<lambda>_. True) s = Some (Some (jnext s), s')"
    "grows s s'" "js_ok s'" "built (jnext s) s' (Some (jnext s)) (JArray []) [jnext s]" by (auto simp: arr_open_def built_def)
  from start_container [of L lo sv hi "CHR ''[''" "ws @ CHR '']'' # c # str" s p state_array e] at e s'(1) obtain p1 where
    p1: "parse_loop e (-1) True p = parse_loop e (-1) False p1"
      "tok_at L lo (lvl state_eatws state_array (Some (jnext s)) None) hi (ws @ CHR '']'' # c # str) s' p1" by auto
  from loop_eatws [OF p1(2) _ ws, of e] obtain p2 where
    p2: "parse_loop e (-1) False p1 = parse_loop e (-1) True p2" "p_c p2 = CHR '']''"
      "tok_at L lo (lvl state_array state_array (Some (jnext s)) None) hi (CHR '']'' # c # str) s' p2"
    by (auto simp: c_isspace_set)
  then have "tok_step e (-1) p2 = goto_state state_finish p2"
    using tok_at_cur [OF p2(3)] by (simp add: tok_step_def step_array_def)
  from goto_state_at [OF p2(3) this] p2(1,2) p1(1) s'
  show "\<exists>p' s' q A hi'. parse_loop e (-1) True p = parse_loop e (-1) False p'
                 \<and> tok_at L lo (lvl state_eatws state_finish q None) hi' (c # str) s' p' \<and> length hi' = length hi
                 \<and> grows s s' \<and> js_ok s' \<and> built (jnext s) s' q (JArray []) A" by fastforce
qed (simp_all add: c_isspace_set)

lemma parse_array:
  assumes e: "env_mal e = (\<lambda>_. True)" and v: "parses e L v t" "spaces w"
    and r: "list_all2 (\<lambda>(w, t) v. parses e L v t \<and> spaces w) r us" and wc: "spaces wc"
    and len: "4 * int (length (v # us)) + 64 \<le> INT_MAX"
  shows "parses e L (JArray (v # us)) (CHR ''['' # w @ t @ gap wc r @ tail wc CHR '']'' r)"
  unfolding parses_def
proof (intro conjI allI impI)
  fix lo hi sv c0 str s p
  assume at: "tok_at L lo (lvl state_start sv None None) hi ((CHR ''['' # w @ t @ gap wc r @ tail wc CHR '']'' r) @ c0 # str) s p"
    "p_c p = hd (CHR ''['' # w @ t @ gap wc r @ tail wc CHR '']'' r)" and s: "js_ok s" and hi: "nests (JArray (v # us)) (length hi)"
  from tail_head [OF wc, of "CHR '']''" r] obtain c u where
    c: "tail wc CHR '']'' r = c # u" "solid c" "hd (gap wc r @ [c]) \<notin> set json_number_chars" "spaces (gap wc r)" by auto
  let ?in = "w @ t @ gap wc r @ c # u @ c0 # str"
  from arr_open_new [OF s] obtain s' where s': "json_object_new_array (\<lambda>_. True) s = Some (Some (jnext s), s')"
    "grows s s'" "js_ok s'" "arr_open (jnext s) s' (jnext s) [] [jnext s]" "set [jnext s] = {jnext s..<jnext s'}" by auto
  have "tok_at L lo (lvl state_start sv None None) hi (CHR ''['' # ?in) s p" "p_c p = CHR ''[''" using at c(1) by simp_all
  from start_container [OF this, of state_array e] e s'(1) obtain p1 where
    p1: "parse_loop e (-1) True p = parse_loop e (-1) False p1"
      "tok_at L lo (lvl state_eatws state_array (Some (jnext s)) None) hi ?in s' p1" by auto
  have b: "4 * int (length ([] :: json list)) + 64 \<le> INT_MAX" "0 < length hi" "nests v (length hi - 1)" using hi by auto
  from parse_element [OF e _ v(1) p1(2) s'(4,3) b(1) s'(5) b(2,3) v(2) c(4,2,3)] obtain p2 s2 A2 hi2 where
    p2: "parse_loop e (-1) False p1 = parse_loop e (-1) True p2"
      "tok_at L lo (lvl state_array_sep state_array_sep (Some (jnext s)) None) hi2 (c # u @ c0 # str) s2 p2" "p_c p2 = c"
      "length hi2 = length hi" "js_ok s2" "arr_open (jnext s) s2 (jnext s) [v] A2" "grows s s2"
      "set A2 = {jnext s..<jnext s2}" using s'(2) by fastforce
  have "tok_at L lo (lvl state_array_sep state_array_sep (Some (jnext s)) None) hi2 (tail wc CHR '']'' r @ c0 # str) s2 p2"
    "p_c p2 = hd (tail wc CHR '']'' r)" "4 * int (length [v] + length us) + 64 \<le> INT_MAX"
    "us \<noteq> [] \<Longrightarrow> 0 < length hi2" "\<forall>v \<in> set us. nests v (length hi2 - 1)"
    using p2(2,3,4) c(1) hi len by simp_all
  from array_tail [OF e r wc this(1,2) p2(6,5) this(3) p2(8) this(4,5)] p2(4,7) p1(1) p2(1)
  show "\<exists>p' s' q A hi'. parse_loop e (-1) True p = parse_loop e (-1) False p'
                 \<and> tok_at L lo (lvl state_eatws state_finish q None) hi' (c0 # str) s' p' \<and> length hi' = length hi
                 \<and> grows s s' \<and> js_ok s' \<and> built (jnext s) s' q (JArray (v # us)) A"
    by (fastforce simp: arr_open_def built_def)
qed (simp_all add: c_isspace_set)

section \<open>Objects\<close>

definition member_text :: "cenv \<Rightarrow> nat \<Rightarrow> string \<Rightarrow> json \<Rightarrow> string \<Rightarrow> bool" where
  "member_text e L k v x \<longleftrightarrow> length k \<le> L \<and> NUL \<notin> set k
     \<and> (\<exists>w t. x = QUOTE # escape k @ QUOTE # CHR '':'' # w @ t \<and> spaces w \<and> parses e L v t)"

lemma not_number_punct [simp]: "solid QUOTE" "solid CHR '':''"
  by (simp_all add: c_isspace_set)

text \<open>The name, the colon and the white space after it.\<close>

lemma parse_member_name:
  assumes e: "env_mal e = (\<lambda>_. True)" and st: "st = state_object_field_start \<or> st = state_object_field_start_after_sep"
    and at: "tok_at L lo (lvl state_eatws st cu nm) hi (w0 @ QUOTE # escape k @ QUOTE # CHR '':'' # w @ y # str) s p"
    and k: "length k \<le> L" "NUL \<notin> set k" and w: "spaces w0" "spaces w" "solid y"
  shows "\<exists>p'. parse_loop e (-1) False p = parse_loop e (-1) True p' \<and> p_c p' = y
     \<and> tok_at L lo (lvl state_object_value state_object_value cu (Some k)) hi (y # str) s p'"
proof -
  from loop_eatws [OF at _ w(1), of e] obtain p1 where
    p1: "parse_loop e (-1) False p = parse_loop e (-1) True p1" "p_c p1 = QUOTE"
      "tok_at L lo (lvl st st cu nm) hi (QUOTE # escape k @ QUOTE # CHR '':'' # w @ y # str) s p1" by (auto simp: c_isspace_set)
  from parse_name_text [OF e st p1(3,2) k] obtain p2 where
    p2: "parse_loop e (-1) True p1 = parse_loop e (-1) False p2"
      "tok_at L lo (lvl state_eatws state_object_field_end cu (Some k)) hi (CHR '':'' # w @ y # str) s p2" by blast
  from loop_eatws [of L lo _ hi "[]" _ _ s p2 e] p2(2) obtain p3 where
    p3: "parse_loop e (-1) False p2 = parse_loop e (-1) True p3" "p_c p3 = CHR '':''"
      "tok_at L lo (lvl state_object_field_end state_object_field_end cu (Some k)) hi (CHR '':'' # w @ y # str) s p3"
    by (fastforce simp: c_isspace_set)
  then have "tok_step e (-1) p3 = goto_state state_object_value p3"
    using tok_at_cur [OF p3(3)] by (simp add: tok_step_def step_object_field_end_def)
  from goto_state_at [OF p3(3) this] p3(2) obtain p4 where
    p4: "parse_loop e (-1) True p3 = parse_loop e (-1) False p4"
      "tok_at L lo (lvl state_eatws state_object_value cu (Some k)) hi (w @ y # str) s p4" by auto
  from loop_eatws [OF p4(2) _ w(2), of e] w(3) p1(1) p2(1) p3(1) p4(1) show ?thesis by auto
qed

lemma parse_member:
  assumes e: "env_mal e = (\<lambda>_. True)" and st: "st = state_object_field_start \<or> st = state_object_field_start_after_sep"
    and x: "member_text e L k v x"
    and at: "tok_at L lo (lvl state_eatws st (Some a) nm) hi (w0 @ x @ ws @ c # str) s p"
    and a: "obj_open L n s a kvs A" "js_ok s" "length kvs < L" "k \<notin> fst ` set kvs" "set A = {n..<jnext s}"
    and hi: "0 < length hi" "nests v (length hi - 1)"
    and ws: "spaces w0" "spaces ws" "solid c" "hd (ws @ [c]) \<notin> set json_number_chars"
  shows "\<exists>p' s' A' hi'. parse_loop e (-1) False p = parse_loop e (-1) True p'
     \<and> tok_at L lo (lvl state_object_sep state_object_sep (Some a) None) hi' (c # str) s' p' \<and> p_c p' = c
     \<and> length hi' = length hi \<and> js_ok s' \<and> obj_open L n s' a (kvs @ [(k, v)]) A'
     \<and> set A' = {n..<jnext s'} \<and> (\<forall>s0. grows s0 s \<longrightarrow> jnext s0 \<le> n \<longrightarrow> grows s0 s')"
proof -
  from x obtain w t where x': "x = QUOTE # escape k @ QUOTE # CHR '':'' # w @ t" "spaces w" "parses e L v t" "length k \<le> L" "NUL \<notin> set k"
    by (auto simp: member_text_def)
  from x'(3) obtain y ys where t: "t = y # ys" "solid y" unfolding parses_def by (cases t) auto
  have "tok_at L lo (lvl state_eatws st (Some a) nm) hi (w0 @ QUOTE # escape k @ QUOTE # CHR '':'' # w @ y # ys @ ws @ c # str) s p"
    using at x'(1) t(1) by simp
  from parse_member_name [OF e st this x'(4,5) ws(1) x'(2) t(2)] t(1) obtain p1 where
    p1: "parse_loop e (-1) False p = parse_loop e (-1) True p1" "p_c p1 = hd t"
      "tok_at L lo (lvl state_object_value state_object_value (Some a) (Some k)) hi (t @ ws @ c # str) s p1" by auto
  have "tok_step e (-1) p1 = push_level state_object_value_add p1"
    using tok_at_cur [OF p1(3)] by (simp add: tok_step_def step_object_value_def)
  from parse_nested [OF x'(3) this p1(3,2) a(2) hi ws(2-4)] obtain p2 s2 q B hi' where
    p2: "parse_loop e (-1) True p1 = parse_loop e (-1) True p2" "p_c p2 = c" "p_obj p2 = q" "length hi' = length hi"
      "tok_at L lo (lvl state_object_value_add state_object_value (Some a) (Some k)) hi' (c # str) s2 p2"
      "grows s s2" "js_ok s2" "built (jnext s) s2 q v B" by blast
  have q: "holds (jnext s) s2 q v B" "set B = {jnext s..<jnext s2}" using p2(8) by (simp_all add: built_def)
  have ao: "obj_open L n s2 a kvs A" "set A \<subseteq> {..<jnext s}" "n \<le> jnext s" "n \<le> a"
  proof -
    have b: "holds n s (Some a) (JObject kvs) A" using a(1) by (simp add: obj_open_def)
    then have "a \<in> set A" by (auto simp: holds_def elim: owned_SomeE)
    with b show "set A \<subseteq> {..<jnext s}" "n \<le> jnext s" "n \<le> a" by (auto simp: holds_def)
    from \<open>a \<in> set A\<close> b p2(6) have "jheap s2 a = jheap s a" by (auto simp: holds_def grows_def)
    with holds_grows [OF b p2(6)] a(1) show "obj_open L n s2 a kvs A" by (simp add: obj_open_def)
  qed
  from obj_open_add [OF p2(7) ao(1) q(1) ao(2,3) a(4,3)] obtain s3 j where
    s3: "json_object_object_add (\<lambda>_. True) a k q s2 = Some s3" "obj_open L n s3 a (kvs @ [(k, v)]) (A @ B)" "js_ok s3" "s3 = jset a j s2"
    by blast
  from tok_at_upd_cur [OF tok_at_js [OF p2(5), of s3], of "\<lambda>l. l\<lparr>sr_obj_field_name := None\<rparr>"] p2(2) obtain p3 where
    p3: "upd_cur (\<lambda>l. l\<lparr>sr_obj_field_name := None\<rparr>) (p2\<lparr>p_js := s3\<rparr>) = Some p3" "p_c p3 = c"
      "tok_at L lo (lvl state_object_value_add state_object_value (Some a) None) hi' (c # str) s3 p3" by auto
  from tok_at_upd_cur [OF p3(3), of "\<lambda>l. l\<lparr>sr_state := state_eatws, sr_saved_state := state_object_sep\<rparr>"] p3(2) obtain p4 where
    p4: "set_states state_eatws state_object_sep p3 = Some p4" "p_c p4 = c"
      "tok_at L lo (lvl state_eatws state_object_sep (Some a) None) hi' (c # str) s3 p4" by (auto simp: set_states_def)
  have "p_js p2 = s2" using p2(5) by (simp add: tok_at_def)
  then have "tok_step e (-1) p2 = Some (Redo, p4)"
    using tok_at_cur [OF p2(5)] p2(3) s3(1) p3(1) p4(1) e by (simp add: tok_step_def step_object_value_add_def)
  from loop_redo [OF this] eatws_resume [OF p4(3,2) ws(3), of e] obtain p5 where
    p5: "parse_loop e (-1) True p2 = parse_loop e (-1) True p5" "p_c p5 = c"
      "tok_at L lo (lvl state_object_sep state_object_sep (Some a) None) hi' (c # str) s3 p5" by auto
  have "\<forall>s0. grows s0 s \<longrightarrow> jnext s0 \<le> n \<longrightarrow> grows s0 s3"
    using grows_trans [OF _ p2(6)] grows_jset ao(4) s3(4) by (meson le_trans)
  moreover have "set (A @ B) = {n..<jnext s3}" using a(5) q(2) ao(3) p2(6) s3(4) by (auto simp: grows_def)
  moreover have "parse_loop e (-1) False p = parse_loop e (-1) True p5" using p1(1) p2(1) p5(1) by simp
  ultimately show ?thesis using p2(4) p5(2,3) s3(2,3) by blast
qed

lemma object_tail:
  assumes e: "env_mal e = (\<lambda>_. True)" and r: "list_all2 (\<lambda>(w, x) (k, v). member_text e L k v x \<and> spaces w) r us" and wc: "spaces wc"
    and at: "tok_at L lo (lvl state_object_sep sv (Some a) None) hi (tail wc CHR ''}'' r @ str) s p" "p_c p = hd (tail wc CHR ''}'' r)"
    and a: "obj_open L n s a kvs A" "js_ok s" "length kvs + length us \<le> L" "distinct (map fst (kvs @ us))" "set A = {n..<jnext s}"
    and hi: "us \<noteq> [] \<Longrightarrow> 0 < length hi" "\<forall>(k, v) \<in> set us. nests v (length hi - 1)"
  shows "\<exists>p' s' A' hi'. parse_loop e (-1) True p = parse_loop e (-1) False p'
     \<and> tok_at L lo (lvl state_eatws state_finish (Some a) None) hi' str s' p' \<and> length hi' = length hi \<and> js_ok s'
     \<and> obj_open L n s' a (kvs @ us) A' \<and> set A' = {n..<jnext s'} \<and> (\<forall>s0. grows s0 s \<longrightarrow> jnext s0 \<le> n \<longrightarrow> grows s0 s')"
  using r at a hi
proof (induction r us arbitrary: sv hi s p kvs A rule: list_all2_induct)
  case Nil
  have at: "tok_at L lo (lvl state_object_sep sv (Some a) None) hi (CHR ''}'' # str) s p" "p_c p = CHR ''}''" using Nil by simp_all
  then have "tok_step e (-1) p = goto_state state_finish p"
    using tok_at_cur [OF at(1)] by (simp add: tok_step_def step_object_sep_def)
  from goto_state_at [OF at(1) this] at(2) Nil show ?case by fastforce
next
  case (Cons wt r kv us)
  obtain w x k v where wt: "wt = (w, x)" "kv = (k, v)" by fastforce
  have pv: "member_text e L k v x" "spaces w" using Cons.hyps(1) wt by auto
  from tail_head [OF wc, of "CHR ''}''" r] obtain c u where
    c: "tail wc CHR ''}'' r = c # u" "solid c" "hd (gap wc r @ [c]) \<notin> set json_number_chars" "spaces (gap wc r)" by auto
  have at: "tok_at L lo (lvl state_object_sep sv (Some a) None) hi (CHR '','' # w @ x @ gap wc r @ c # u @ str) s p"
    "p_c p = CHR '',''" using Cons.prems(1,2) wt c(1) by simp_all
  then have "tok_step e (-1) p = goto_state state_object_field_start_after_sep p"
    using tok_at_cur [OF at(1)] by (simp add: tok_step_def step_object_sep_def)
  from goto_state_at [OF at(1) this] at(2) obtain p1 where
    p1: "parse_loop e (-1) True p = parse_loop e (-1) False p1"
      "tok_at L lo (lvl state_eatws state_object_field_start_after_sep (Some a) None) hi (w @ x @ gap wc r @ c # u @ str) s p1" by auto
  have b: "length kvs < L" "k \<notin> fst ` set kvs" "0 < length hi" "nests v (length hi - 1)" using Cons.prems wt(2) by auto
  from parse_member [OF e _ pv(1) p1(2) Cons.prems(3,4) b(1,2) Cons.prems(7) b(3,4) pv(2) c(4,2,3)] obtain p2 s2 A2 hi2 where
    p2: "parse_loop e (-1) False p1 = parse_loop e (-1) True p2"
      "tok_at L lo (lvl state_object_sep state_object_sep (Some a) None) hi2 (c # u @ str) s2 p2" "p_c p2 = c"
      "length hi2 = length hi" "js_ok s2" "obj_open L n s2 a (kvs @ [kv]) A2" "set A2 = {n..<jnext s2}"
      "\<forall>s0. grows s0 s \<longrightarrow> jnext s0 \<le> n \<longrightarrow> grows s0 s2" unfolding wt(2) by blast
  have "tok_at L lo (lvl state_object_sep state_object_sep (Some a) None) hi2 (tail wc CHR ''}'' r @ str) s2 p2"
    "p_c p2 = hd (tail wc CHR ''}'' r)" "length (kvs @ [kv]) + length us \<le> L" "distinct (map fst ((kvs @ [kv]) @ us))"
    "us \<noteq> [] \<Longrightarrow> 0 < length hi2" "\<forall>(k, v) \<in> set us. nests v (length hi2 - 1)"
    using p2(2,3,4) c(1) Cons.prems by simp_all
  from Cons.IH [OF this(1,2) p2(6,5) this(3,4) p2(7) this(5,6)] obtain p3 s3 A3 hi3 where
    p3: "parse_loop e (-1) True p2 = parse_loop e (-1) False p3"
      "tok_at L lo (lvl state_eatws state_finish (Some a) None) hi3 str s3 p3" "length hi3 = length hi2" "js_ok s3"
      "obj_open L n s3 a ((kvs @ [kv]) @ us) A3" "set A3 = {n..<jnext s3}"
      "\<forall>s0. grows s0 s2 \<longrightarrow> jnext s0 \<le> n \<longrightarrow> grows s0 s3" by blast
  moreover have "parse_loop e (-1) True p = parse_loop e (-1) False p3" using p1(1) p2(1) p3(1) by simp
  ultimately show ?case using p2(4,8) unfolding append_Cons_eq_snoc [of _ _ us] by metis
qed

lemma obj_open_new:
  assumes "js_ok s" "8 * int L + 64 \<le> INT_MAX"
  shows "\<exists>s'. json_object_new_object (\<lambda>_. True) s = Some (Some (jnext s), s') \<and> grows s s' \<and> js_ok s'
     \<and> obj_open L (jnext s) s' (jnext s) [] [jnext s] \<and> set [jnext s] = {jnext s..<jnext s'}"
proof -
  from new_object [OF assms(1)] obtain s' where n: "json_object_new_object (\<lambda>_. True) s = Some (Some (jnext s), s')"
    "grows s s'" "js_ok s'" "built (jnext s) s' (Some (jnext s)) (JObject []) [jnext s]" by auto
  obtain t :: "(string, addr) lh_table" where t: "lh_kchar_table_new (\<lambda>_. True) 16 = Some t" "lh_size t = 16"
    by (auto simp: lh_kchar_table_new_def lh_table_new_def)
  then obtain j where j: "jheap s' (jnext s) = Some j" "jo_data j = C_object t" using n(1)
    by (auto simp: json_object_new_object_def json_object_new_with_def json_object_new_def jset_def)
  from n(4) j have "lh_inv t" "lh_items t = []" by (auto simp: built_def holds_def elim!: jdenotes_SomeE)
  with t(2) assms(2) have "lh_ok L t" by (simp add: lh_ok_def)
  with n j show ?thesis by (auto simp: obj_open_def built_def)
qed

lemma parse_object_empty:
  assumes e: "env_mal e = (\<lambda>_. True)" and ws: "spaces ws"
  shows "parses e L (JObject []) (CHR ''{'' # ws @ ''}'')"
  unfolding parses_def
proof (intro conjI allI impI)
  fix lo hi sv c str s p
  assume at: "tok_at L lo (lvl state_start sv None None) hi ((CHR ''{'' # ws @ ''}'') @ c # str) s p"
    "p_c p = hd (CHR ''{'' # ws @ ''}'')" and s: "js_ok s"
  from new_object [OF s] obtain s' where s': "json_object_new_object (\<lambda>_. True) s = Some (Some (jnext s), s')"
    "grows s s'" "js_ok s'" "built (jnext s) s' (Some (jnext s)) (JObject []) [jnext s]" by auto
  from start_container [of L lo sv hi "CHR ''{''" "ws @ CHR ''}'' # c # str" s p state_object_field_start e] at e s'(1) obtain p1 where
    p1: "parse_loop e (-1) True p = parse_loop e (-1) False p1"
      "tok_at L lo (lvl state_eatws state_object_field_start (Some (jnext s)) None) hi (ws @ CHR ''}'' # c # str) s' p1" by auto
  from loop_eatws [OF p1(2) _ ws, of e] obtain p2 where
    p2: "parse_loop e (-1) False p1 = parse_loop e (-1) True p2" "p_c p2 = CHR ''}''"
      "tok_at L lo (lvl state_object_field_start state_object_field_start (Some (jnext s)) None) hi (CHR ''}'' # c # str) s' p2"
    by (auto simp: c_isspace_set)
  then have "tok_step e (-1) p2 = goto_state state_finish p2"
    using tok_at_cur [OF p2(3)] by (simp add: tok_step_def step_object_field_start_def)
  from goto_state_at [OF p2(3) this] p2(1,2) p1(1) s'
  show "\<exists>p' s' q A hi'. parse_loop e (-1) True p = parse_loop e (-1) False p'
                 \<and> tok_at L lo (lvl state_eatws state_finish q None) hi' (c # str) s' p' \<and> length hi' = length hi
                 \<and> grows s s' \<and> js_ok s' \<and> built (jnext s) s' q (JObject []) A" by fastforce
qed (simp_all add: c_isspace_set)

lemma parse_object:
  assumes e: "env_mal e = (\<lambda>_. True)" and v: "member_text e L k v x" "spaces w"
    and r: "list_all2 (\<lambda>(w, x) (k, v). member_text e L k v x \<and> spaces w) r us" and wc: "spaces wc"
    and len: "length ((k, v) # us) \<le> L" "8 * int L + 64 \<le> INT_MAX" and dist: "distinct (map fst ((k, v) # us))"
  shows "parses e L (JObject ((k, v) # us)) (CHR ''{'' # w @ x @ gap wc r @ tail wc CHR ''}'' r)"
  unfolding parses_def
proof (intro conjI allI impI)
  fix lo hi sv c0 str s p
  assume at: "tok_at L lo (lvl state_start sv None None) hi ((CHR ''{'' # w @ x @ gap wc r @ tail wc CHR ''}'' r) @ c0 # str) s p"
    "p_c p = hd (CHR ''{'' # w @ x @ gap wc r @ tail wc CHR ''}'' r)" and s: "js_ok s"
    and hi: "nests (JObject ((k, v) # us)) (length hi)"
  from tail_head [OF wc, of "CHR ''}''" r] obtain c u where
    c: "tail wc CHR ''}'' r = c # u" "solid c" "hd (gap wc r @ [c]) \<notin> set json_number_chars" "spaces (gap wc r)" by auto
  let ?in = "w @ x @ gap wc r @ c # u @ c0 # str"
  from obj_open_new [OF s len(2)] obtain s' where s': "json_object_new_object (\<lambda>_. True) s = Some (Some (jnext s), s')"
    "grows s s'" "js_ok s'" "obj_open L (jnext s) s' (jnext s) [] [jnext s]" "set [jnext s] = {jnext s..<jnext s'}" by auto
  have "tok_at L lo (lvl state_start sv None None) hi (CHR ''{'' # ?in) s p" "p_c p = CHR ''{''" using at c(1) by simp_all
  from start_container [OF this, of state_object_field_start e] e s'(1) obtain p1 where
    p1: "parse_loop e (-1) True p = parse_loop e (-1) False p1"
      "tok_at L lo (lvl state_eatws state_object_field_start (Some (jnext s)) None) hi ?in s' p1" by auto
  have b: "length ([] :: (string \<times> json) list) < L" "k \<notin> fst ` set []" "0 < length hi" "nests v (length hi - 1)" using hi len(1) by auto
  from parse_member [OF e _ v(1) p1(2) s'(4,3) b(1,2) s'(5) b(3,4) v(2) c(4,2,3)] obtain p2 s2 A2 hi2 where
    p2: "parse_loop e (-1) False p1 = parse_loop e (-1) True p2"
      "tok_at L lo (lvl state_object_sep state_object_sep (Some (jnext s)) None) hi2 (c # u @ c0 # str) s2 p2" "p_c p2 = c"
      "length hi2 = length hi" "js_ok s2" "obj_open L (jnext s) s2 (jnext s) [(k, v)] A2" "grows s s2"
      "set A2 = {jnext s..<jnext s2}" using s'(2) by fastforce
  have "tok_at L lo (lvl state_object_sep state_object_sep (Some (jnext s)) None) hi2 (tail wc CHR ''}'' r @ c0 # str) s2 p2"
    "p_c p2 = hd (tail wc CHR ''}'' r)" "length [(k, v)] + length us \<le> L" "distinct (map fst ([(k, v)] @ us))"
    "us \<noteq> [] \<Longrightarrow> 0 < length hi2" "\<forall>(k, v) \<in> set us. nests v (length hi2 - 1)"
    using p2(2,3,4) c(1) hi len(1) dist by simp_all
  from object_tail [OF e r wc this(1,2) p2(6,5) this(3,4) p2(8) this(5,6)] p2(4,7) p1(1) p2(1)
  show "\<exists>p' s' q A hi'. parse_loop e (-1) True p = parse_loop e (-1) False p'
                 \<and> tok_at L lo (lvl state_eatws state_finish q None) hi' (c0 # str) s' p' \<and> length hi' = length hi
                 \<and> grows s s' \<and> js_ok s' \<and> built (jnext s) s' q (JObject ((k, v) # us)) A"
    by (fastforce simp: obj_open_def built_def)
qed (simp_all add: c_isspace_set)

section \<open>Printed values\<close>

text \<open>The texts between and after the children, in the shape of the lemmas above.\<close>

definition sep_space :: "32 word \<Rightarrow> nat \<Rightarrow> string" where
  "sep_space flags lv = (if pretty flags then [NEWLINE] else []) @ (if spaced flags then '' '' else []) @ indent_text flags (Suc lv)"

definition close_space :: "32 word \<Rightarrow> nat \<Rightarrow> bool \<Rightarrow> string" where
  "close_space flags lv had = (if pretty flags then (if had then [NEWLINE] else []) @ indent_text flags lv else [])
     @ (if spaced flags then '' '' else [])"

lemma spaces_sep: "spaces (sep_space flags lv)"
  by (auto simp: sep_space_def indent_text_def c_isspace_set)

lemma spaces_close: "spaces (close_space flags lv had)"
  by (auto simp: close_space_def indent_text_def c_isspace_set)

lemma join_close:
  "join_children flags lv True ts @ close_text flags lv True [b]
     = gap (close_space flags lv True) (map (Pair (sep_space flags lv)) ts)
       @ tail (close_space flags lv True) b (map (Pair (sep_space flags lv)) ts)"
  by (induction ts) (auto simp: child_prefix_def close_text_def close_space_def sep_space_def gap_def)

lemma container_text:
  "open_text flags [o'] @ join_children flags lv False (t # ts) @ close_text flags lv True [b]
     = o' # sep_space flags lv @ t @ gap (close_space flags lv True) (map (Pair (sep_space flags lv)) ts)
       @ tail (close_space flags lv True) b (map (Pair (sep_space flags lv)) ts)"
  unfolding join_close [symmetric] by (simp add: open_text_def child_prefix_def sep_space_def)

lemma container_text_empty:
  "open_text flags [o'] @ join_children flags lv False [] @ close_text flags lv False [b]
     = o' # ((if pretty flags then [NEWLINE] else []) @ close_space flags lv False) @ [b]"
  by (simp add: open_text_def close_text_def close_space_def)

text \<open>The text of a finite double is a number for the parser, with a point in it.\<close>

lemma double_text_number:
  assumes "dbl_finite d"
  shows "set (double_text flags d) \<subseteq> set ''-.0123456789''" "hd (double_text flags d) \<in> set ''0123456789-''"
    "CHR ''.'' \<in> set (double_text flags d)"
proof -
  let ?sgn = "if dbl_neg d then ''-'' else ''''"
  let ?n = "if dbl_scale d \<ge> 0 then dbl_mant d * 2 ^ nat (dbl_scale d) * 10 ^ 6
            else div_nearest (dbl_mant d * 10 ^ 6) (2 ^ nat (- dbl_scale d))"
  define ip where "ip = ?sgn @ c_dec (?n div 10 ^ 6)"
  define fp where "fp = pad6 (?n mod 10 ^ 6)"
  define D where "D = set ''0123456789''"
  have n: "0 \<le> ?n" using dbl_mant_nonneg by (auto intro!: div_nearest_nonneg mult_nonneg_nonneg)
  then have p: "0 \<le> ?n div 10 ^ 6" "0 \<le> ?n mod 10 ^ 6" by (simp_all add: pos_imp_zdiv_nonneg_iff)
  have out: "fmt_f d = ip @ ''.'' @ fp" using assms by (simp add: fmt_f_def Let_def ip_def fp_def)
  have ip: "set ip \<subseteq> insert CHR ''-'' D" "ip \<noteq> []" and fp: "set fp \<subseteq> D"
    using c_dec_set [OF p(1)] pad6_set [OF p(2)] c_dec_nonempty [of "?n div 10 ^ 6"]
    unfolding D_def ip_def fp_def by auto
  have dot: "CHR ''.'' \<notin> insert CHR ''-'' D" by (simp add: D_def)
  then have tw: "takeWhile (\<lambda>c. c \<noteq> CHR ''.'') (fmt_f d) = ip"
    unfolding out using ip(1) by (subst takeWhile_append2) auto
  have dr: "drop (Suc (length ip)) (fmt_f d) = fp" "CHR ''.'' \<in> set (fmt_f d)" unfolding out by simp_all
  have "set (strip_zeros fp) \<subseteq> set fp" "set (take 1 fp) \<subseteq> set fp"
    using set_dropWhileD [of _ "\<lambda>c. c = CHR ''0''" "rev fp"] set_take_subset by (fastforce simp: strip_zeros_def)+
  then have "\<exists>fp'. double_text flags d = ip @ CHR ''.'' # fp' \<and> set fp' \<subseteq> set fp"
    unfolding double_text_def Let_def tw dr(1) using out dr(2)
    by (cases "flag_set flags JSON_C_TO_STRING_NOZERO"; cases "strip_zeros fp = []") simp_all
  then obtain fp' where dt: "double_text flags d = ip @ CHR ''.'' # fp'" "set fp' \<subseteq> D" using fp by blast
  have eq: "insert CHR ''-'' D = set ''0123456789-''" "insert CHR ''.'' (insert CHR ''-'' D) = set ''-.0123456789''"
    by (auto simp: D_def)
  have "set (double_text flags d) \<subseteq> insert CHR ''.'' (insert CHR ''-'' D)" unfolding dt(1) using dt(2) ip(1) by auto
  then show "set (double_text flags d) \<subseteq> set ''-.0123456789''" unfolding eq(2) .
  have "hd ip \<in> insert CHR ''-'' D" using hd_in_set [OF ip(2)] ip(1) by blast
  then show "hd (double_text flags d) \<in> set ''0123456789-''" unfolding dt(1) hd_append2 [OF ip(2)] eq(1) .
  show "CHR ''.'' \<in> set (double_text flags d)" unfolding dt(1) by simp
qed

subsection \<open>Leaves\<close>

lemma parsesI_leaf:
  assumes t: "t \<noteq> []" "\<not> c_isspace (hd t)" "hd t \<notin> set ''/]}''"
    and run: "\<And>lo hi sv c str s p. tok_at L lo (lvl state_start sv None None) hi (t @ c # str) s p \<Longrightarrow> p_c p = hd t \<Longrightarrow>
       js_ok s \<Longrightarrow> c \<notin> set json_number_chars \<Longrightarrow> \<exists>p' s' q A. parse_loop e (-1) True p = parse_loop e (-1) False p'
                 \<and> tok_at L lo (lvl state_eatws state_finish q None) hi (c # str) s' p'
                 \<and> grows s s' \<and> js_ok s' \<and> built (jnext s) s' q v A"
  shows "parses e L v t"
  unfolding parses_def
proof (intro conjI allI impI)
  fix lo hi sv c str s p
  assume "tok_at L lo (lvl state_start sv None None) hi (t @ c # str) s p" "p_c p = hd t" "js_ok s" "c \<notin> set json_number_chars"
  from run [OF this] show "\<exists>p' s' q A hi'. parse_loop e (-1) True p = parse_loop e (-1) False p'
                 \<and> tok_at L lo (lvl state_eatws state_finish q None) hi' (c # str) s' p' \<and> length hi' = length hi
                 \<and> grows s s' \<and> js_ok s' \<and> built (jnext s) s' q v A" by blast
qed (use t in simp_all)

lemma parses_null:
  assumes "env_mal e = (\<lambda>_. True)" "5 < L"
  shows "parses e L JNull ''null''"
proof (rule parsesI_leaf)
  fix lo hi sv c str s p
  assume "tok_at L lo (lvl state_start sv None None) hi (''null'' @ c # str) s p" "p_c p = hd ''null''" "js_ok s"
  then show "\<exists>p' s' q A. parse_loop e (-1) True p = parse_loop e (-1) False p'
       \<and> tok_at L lo (lvl state_eatws state_finish q None) hi (c # str) s' p'
       \<and> grows s s' \<and> js_ok s' \<and> built (jnext s) s' q JNull A"
    using parse_null_text [OF assms(1), of L lo sv None hi c str s p] assms(2) built_null [of s] grows_refl [of s]
    by fastforce
qed (simp_all add: c_isspace_set)

lemma parses_bool:
  assumes "env_mal e = (\<lambda>_. True)" "5 < L"
  shows "parses e L (JBool b) (bool_text b)"
proof (rule parsesI_leaf)
  fix lo hi sv c str s p
  assume "tok_at L lo (lvl state_start sv None None) hi (bool_text b @ c # str) s p" "p_c p = hd (bool_text b)" "js_ok s"
  then show "\<exists>p' s' q A. parse_loop e (-1) True p = parse_loop e (-1) False p'
       \<and> tok_at L lo (lvl state_eatws state_finish q None) hi (c # str) s' p'
       \<and> grows s s' \<and> js_ok s' \<and> built (jnext s) s' q (JBool b) A"
    using parse_bool_text [OF assms, of s lo sv None hi b c str p] by blast
qed (simp_all add: bool_text_def c_isspace_set)

lemma parses_string:
  assumes "env_mal e = (\<lambda>_. True)" "length w \<le> L" "int (length w) + 1 \<le> INT_MAX"
  shows "parses e L (JString w) ([QUOTE] @ escape w @ [QUOTE])"
proof (rule parsesI_leaf)
  fix lo hi sv c str s p
  assume "tok_at L lo (lvl state_start sv None None) hi (([QUOTE] @ escape w @ [QUOTE]) @ c # str) s p"
    "p_c p = hd ([QUOTE] @ escape w @ [QUOTE])" "js_ok s"
  then show "\<exists>p' s' q A. parse_loop e (-1) True p = parse_loop e (-1) False p'
       \<and> tok_at L lo (lvl state_eatws state_finish q None) hi (c # str) s' p'
       \<and> grows s s' \<and> js_ok s' \<and> built (jnext s) s' q (JString w) A"
    using parse_string_text [OF assms(1) _ _ _ assms(2,3), of s lo sv None hi "c # str" p] by fastforce
qed (simp_all add: c_isspace_set)

lemma number_head: "y \<in> set ''0123456789-'' \<Longrightarrow> \<not> c_isspace y \<and> y \<notin> set ''/]}''"
  by (auto simp: c_isspace_set)

lemma parses_int:
  assumes "env_mal e = (\<lambda>_. True)" "env_scan e = scan_d64" "INT64_MIN \<le> i" "i \<le> INT64_MAX" "length (c_itoa i) \<le> L"
  shows "parses e L (JInt i) (c_itoa i)"
proof (rule parsesI_leaf)
  have digits: "set (c_dec \<bar>i\<bar>) \<subseteq> set ''0123456789''" by (rule c_dec_set) simp
  have "set (c_itoa i) \<subseteq> insert CHR ''-'' (set (c_dec \<bar>i\<bar>))" by (cases "i < 0") (auto simp: c_itoa_def)
  moreover have "insert CHR ''-'' (set ''0123456789'') = set ''0123456789-''" by auto
  ultimately have sub: "set (c_itoa i) \<subseteq> set ''0123456789-''" using digits by blast
  show ne: "c_itoa i \<noteq> []" using c_dec_nonempty by (simp add: c_itoa_def)
  have "hd (c_itoa i) \<in> set ''0123456789-''" using sub hd_in_set [OF ne] by blast
  from number_head [OF this] show "\<not> c_isspace (hd (c_itoa i))" "hd (c_itoa i) \<notin> set ''/]}''" by simp_all
next
  fix lo hi sv c str s p
  assume "tok_at L lo (lvl state_start sv None None) hi (c_itoa i @ c # str) s p" "p_c p = hd (c_itoa i)"
    "js_ok s" "c \<notin> set json_number_chars"
  then show "\<exists>p' s' q A. parse_loop e (-1) True p = parse_loop e (-1) False p'
       \<and> tok_at L lo (lvl state_eatws state_finish q None) hi (c # str) s' p'
       \<and> grows s s' \<and> js_ok s' \<and> built (jnext s) s' q (JInt i) A"
    using parse_int_text [OF assms(1,2) _ _ _ assms(3-5)] by blast
qed

lemma parses_double:
  assumes "env_mal e = (\<lambda>_. True)" "env_scan_lf e (double_text flags d) = Some d" "dbl_finite d" "length (double_text flags d) \<le> L"
  shows "parses e L (JDouble d) (double_text flags d)"
proof (rule parsesI_leaf)
  note n = double_text_number [OF assms(3), of flags]
  show ne: "double_text flags d \<noteq> []" by (rule double_text_nonempty)
  from number_head [OF n(2)] show "\<not> c_isspace (hd (double_text flags d))" "hd (double_text flags d) \<notin> set ''/]}''" by simp_all
  have "set ''-.0123456789'' \<subseteq> set json_number_chars" by simp
  then have sub: "set (double_text flags d) \<subseteq> set json_number_chars" using n(1) by blast
  have pt: "\<exists>x \<in> set (double_text flags d). x \<in> set ''.eE''" by (rule bexI [OF _ n(3)]) simp
  fix lo hi sv c str s p
  assume "tok_at L lo (lvl state_start sv None None) hi (double_text flags d @ c # str) s p"
    "p_c p = hd (double_text flags d)" "js_ok s" "c \<notin> set json_number_chars"
  then show "\<exists>p' s' q A. parse_loop e (-1) True p = parse_loop e (-1) False p'
       \<and> tok_at L lo (lvl state_eatws state_finish q None) hi (c # str) s' p'
       \<and> grows s s' \<and> js_ok s' \<and> built (jnext s) s' q (JDouble d) A"
    using parse_double_text [OF assms(1,2) _ _ _ ne sub n(2) assms(4) pt] by blast
qed

subsection \<open>All values\<close>

text \<open>
  What the reader can give back: integers of 64 bits, finite doubles that the scanner maps back
  to themselves, and objects with distinct names that hold no NUL.
\<close>

fun readable :: "cenv \<Rightarrow> 32 word \<Rightarrow> json \<Rightarrow> bool" where
  "readable e flags (JInt i) \<longleftrightarrow> INT64_MIN \<le> i \<and> i \<le> INT64_MAX"
| "readable e flags (JDouble d) \<longleftrightarrow> dbl_finite d \<and> env_scan_lf e (double_text flags d) = Some d"
| "readable e flags (JArray vs) \<longleftrightarrow> (\<forall>v \<in> set vs. readable e flags v)"
| "readable e flags (JObject kvs) \<longleftrightarrow> distinct (map fst kvs) \<and> (\<forall>(k, v) \<in> set kvs. NUL \<notin> set k \<and> readable e flags v)"
| "readable e flags _ \<longleftrightarrow> True"

lemma length_escape: "length w \<le> length (escape w)"
proof (induction w)
  case (Cons c w)
  have "1 \<le> length (escape_char c)" by (auto simp: escape_char_def split: option.split)
  with Cons show ?case by simp
qed simp

lemma length_join_count: "\<forall>t \<in> set ts. t \<noteq> [] \<Longrightarrow> length ts \<le> length (join_children flags lv had ts)"
proof (induction ts arbitrary: had)
  case (Cons t ts)
  have "1 \<le> length t" using Cons.prems by (simp add: Suc_le_eq)
  moreover have "length ts \<le> length (join_children flags lv True ts)" using Cons.prems by (intro Cons.IH) simp
  ultimately show ?case by simp
qed simp

lemma jprint_nonempty: "jprint flags lv v \<noteq> []"
  using double_text_nonempty c_dec_nonempty by (cases v) (simp_all add: open_text_def c_itoa_def)

lemma printed_array:
  assumes e: "env_mal e = (\<lambda>_. True)" and len: "length (jprint flags lv (JArray vs)) \<le> L" "4 * int L + 64 \<le> INT_MAX"
    and IH: "\<And>v. v \<in> set vs \<Longrightarrow> length (jprint flags (Suc lv) v) \<le> L \<Longrightarrow> parses e L v (jprint flags (Suc lv) v)"
  shows "parses e L (JArray vs) (jprint flags lv (JArray vs))"
proof (cases vs)
  case Nil
  have "spaces ((if pretty flags then [NEWLINE] else []) @ close_space flags lv False)"
    using spaces_close [of flags lv False] by (auto simp: c_isspace_set)
  from parse_array_empty [OF e this] show ?thesis using Nil container_text_empty [of flags "CHR ''[''" lv "CHR '']''"] by simp
next
  case (Cons v us)
  let ?f = "jprint flags (Suc lv)"
  have child: "parses e L u (?f u)" if "u \<in> set vs" for u
  proof (rule IH [OF that])
    have "length (?f u) \<le> length (join_children flags lv False (map ?f vs))" by (rule length_join_children) (use that in simp)
    then show "length (?f u) \<le> L" using len(1) by simp
  qed
  have "length vs \<le> length (join_children flags lv False (map ?f vs))"
    using length_join_count [of "map ?f vs" flags lv False] jprint_nonempty by simp
  then have "length vs \<le> L" using len(1) by simp
  then have b: "4 * int (length (v # us)) + 64 \<le> INT_MAX" using len(2) Cons by simp
  have "list_all2 (\<lambda>(w, t) v. parses e L v t \<and> spaces w) (map (Pair (sep_space flags lv)) (map ?f us)) us"
    using child Cons spaces_sep [of flags lv] by (auto simp: list_all2_map1 list_all2_same)
  from parse_array [OF e child spaces_sep this spaces_close b, of flags lv flags lv True]
  show ?thesis using Cons container_text [of flags "CHR ''[''" lv "?f v" "map ?f us" "CHR '']''"] by simp
qed

lemma printed_object:
  assumes e: "env_mal e = (\<lambda>_. True)" and len: "length (jprint flags lv (JObject kvs)) \<le> L" "8 * int L + 64 \<le> INT_MAX"
    and keys: "distinct (map fst kvs)" "\<And>k v. (k, v) \<in> set kvs \<Longrightarrow> NUL \<notin> set k"
    and IH: "\<And>k v. (k, v) \<in> set kvs \<Longrightarrow> length (jprint flags (Suc lv) v) \<le> L \<Longrightarrow> parses e L v (jprint flags (Suc lv) v)"
  shows "parses e L (JObject kvs) (jprint flags lv (JObject kvs))"
proof (cases kvs)
  case Nil
  have "spaces ((if pretty flags then [NEWLINE] else []) @ close_space flags lv False)"
    using spaces_close [of flags lv False] by (auto simp: c_isspace_set)
  from parse_object_empty [OF e this] show ?thesis using Nil container_text_empty [of flags "CHR ''{''" lv "CHR ''}''"] by simp
next
  case (Cons kv us)
  obtain k v where kv: "kv = (k, v)" by fastforce
  let ?f = "\<lambda>(k, v). key_text flags k @ jprint flags (Suc lv) v"
  have child: "member_text e L k v (?f (k, v))" if "(k, v) \<in> set kvs" for k v
  proof -
    have "length (?f (k, v)) \<le> length (join_children flags lv False (map ?f kvs))"
      by (rule length_join_children) (use that in force)
    then have l: "length (?f (k, v)) \<le> L" using len(1) by simp
    then have "length k \<le> L" "length (jprint flags (Suc lv) v) \<le> L"
      using length_escape [of k] by (simp_all add: key_text_def split: if_splits)
    then show ?thesis unfolding member_text_def using keys(2) [OF that] IH [OF that]
      by (intro conjI exI [of _ "if spaced flags then '' '' else []"] exI [of _ "jprint flags (Suc lv) v"])
         (auto simp: key_text_def c_isspace_set)
  qed
  have "length kvs \<le> length (join_children flags lv False (map ?f kvs))"
    using length_join_count [of "map ?f kvs" flags lv False] by (simp add: key_text_def case_prod_beta)
  then have b: "length ((k, v) # us) \<le> L" using len(1) Cons kv by simp
  have "list_all2 (\<lambda>(w, x) (k, v). member_text e L k v x \<and> spaces w) (map (Pair (sep_space flags lv)) (map ?f us)) us"
    using child Cons spaces_sep [of flags lv] by (auto simp: list_all2_map1 list_all2_same)
  from parse_object [OF e child spaces_sep this spaces_close b len(2), of flags lv flags lv True]
  show ?thesis using Cons kv keys(1) container_text [of flags "CHR ''{''" lv "?f (k, v)" "map ?f us" "CHR ''}''"] by simp
qed

lemma printed_parses:
  assumes e: "env_mal e = (\<lambda>_. True)" "env_scan e = scan_d64" and L: "5 < L" "8 * int L + 64 \<le> INT_MAX"
  shows "readable e flags v \<Longrightarrow> length (jprint flags lv v) \<le> L \<Longrightarrow> parses e L v (jprint flags lv v)"
proof (induction v arbitrary: lv)
  case JNull
  then show ?case using parses_null [OF e(1) L(1)] by simp
next
  case (JBool b)
  then show ?case using parses_bool [OF e(1) L(1), of b] by (simp add: bool_text_def)
next
  case (JInt i)
  then show ?case using parses_int [OF e] by simp
next
  case (JDouble d)
  then show ?case using parses_double [OF e(1)] by simp
next
  case (JString w)
  then have "length w \<le> L" using length_escape [of w] by simp
  then show ?case using parses_string [OF e(1), of w L] L by simp
next
  case (JArray vs)
  show ?case by (rule printed_array [OF e(1) JArray.prems(2)]) (use JArray L in auto)
next
  case (JObject kvs)
  show ?case by (rule printed_object [OF e(1) JObject.prems(2) L(2)]) (use JObject in \<open>fastforce+\<close>)
qed

section \<open>A whole text\<close>

lemma parse_out_at:
  assumes at: "tok_at L [] (lvl state_finish sv q None) hi str s p" and q: "owned (jheap s) q A"
  shows "parse_out p = Some (q, (p_tok p)\<lparr>tk_stack := fresh_level # hi\<rparr>, s)"
proof -
  from get_put_owned [OF q] obtain s1 r where
    s1: "json_object_get q s = Some (q, s1)" "json_object_put q s1 = Some (r, s)" by auto
  have st: "tk_stack (p_tok p) = [] @ lvl state_finish sv q None # hi" "tk_depth (p_tok p) = 0" "p_js p = s"
    "tk_err (p_tok p) = json_tokener_success" using at by (auto simp: tok_at_def)
  from reset_level_at [OF st(1), of s1] s1(2)
  have "reset_levels (p_tok p) 0 s1 = Some ((p_tok p)\<lparr>tk_stack := fresh_level # hi\<rparr>, s)"
    by (simp add: reset_levels_def)
  then show ?thesis using tok_at_cur [OF at] st s1(1) by (simp add: parse_out_def)
qed

lemma free_at:
  assumes "tk_stack tok = fresh_level # hi" "tk_depth tok = 0"
  shows "json_tokener_free tok s = Some s"
  using reset_level_at [of tok "[]" fresh_level hi s] assms
  by (simp add: json_tokener_free_def json_tokener_reset_def reset_levels_def)

lemma tokener_new_at:
  assumes "4 * int L + 64 \<le> INT_MAX"
  shows "\<exists>tok. json_tokener_new (\<lambda>_. True) s = Some (Some tok, s) \<and> tk_depth tok = 0 \<and> tk_max_depth tok = 32
     \<and> tk_stack tok = fresh_level # replicate 31 zero_srec \<and> (\<exists>pb. tk_pb tok = Some pb \<and> pb_ok L pb)"
proof -
  obtain pb where pb: "printbuf_new (\<lambda>_. True) = Some pb" by (simp add: printbuf_new_def)
  define t0 where "t0 = \<lparr>tk_pb = Some pb, tk_max_depth = 32, tk_depth = 0, tk_is_double = False,
           tk_st_pos = 0, tk_char_offset = 0, tk_err = json_tokener_success, tk_ucs_char = 0,
           tk_quote_char = NUL, tk_stack = zero_srec # replicate 31 zero_srec, tk_flags = 0\<rparr>"
  have rep: "replicate 32 zero_srec = zero_srec # replicate 31 zero_srec" by (simp add: eval_nat_numeral)
  have "tk_stack t0 = [] @ zero_srec # replicate 31 zero_srec" "sr_current zero_srec = None" by (simp_all add: t0_def zero_srec_def)
  from reset_level_at [OF this(1), of s 0 s] this(2) have
    "json_tokener_reset_level t0 0 s = Some (t0\<lparr>tk_stack := fresh_level # replicate 31 zero_srec\<rparr>, s)" by simp
  then have "json_tokener_reset t0 s = Some (t0\<lparr>tk_stack := fresh_level # replicate 31 zero_srec\<rparr>, s)"
    by (simp add: json_tokener_reset_def reset_levels_def t0_def)
  then have "json_tokener_new (\<lambda>_. True) s = Some (Some (t0\<lparr>tk_stack := fresh_level # replicate 31 zero_srec\<rparr>), s)"
    using pb rep by (simp add: json_tokener_new_def json_tokener_new_ex_def t0_def)
  then show ?thesis using pb_ok_new [OF assms pb] by (simp add: t0_def)
qed

lemma parse_verbose_text:
  assumes e: "env_mal e = (\<lambda>_. True)" and v: "parses e L v t" "nests v 31" and s: "js_ok s"
    and L: "4 * int L + 64 \<le> INT_MAX" "int (length t) + 1 \<le> INT_MAX"
  shows "\<exists>q A s'. json_tokener_parse_verbose e t s = Some (q, Some json_tokener_success, s')
     \<and> grows s s' \<and> js_ok s' \<and> built (jnext s) s' q v A"
proof -
  from tokener_new_at [OF L(1), of s] obtain tok where
    tok: "json_tokener_new (\<lambda>_. True) s = Some (Some tok, s)" "tk_depth tok = 0" "tk_max_depth tok = 32"
      "tk_stack tok = fresh_level # replicate 31 zero_srec" "\<exists>pb. tk_pb tok = Some pb \<and> pb_ok L pb" by blast
  define hs where "hs = replicate 31 zero_srec"
  have hs: "length hs = 31" "\<forall>l \<in> set hs. empty_level l" by (auto simp: hs_def empty_level_def zero_srec_def)
  from v(1) obtain y ys where t: "t = y # ys" "solid y" unfolding parses_def by (cases t) auto
  let ?p = "\<lparr>p_tok = tok\<lparr>tk_char_offset := 0, tk_err := json_tokener_success\<rparr>, p_js = s,
             p_c = CHR 0x01, p_obj = None, p_str = t @ [NUL]\<rparr>"
  have at: "tok_at L [] fresh_level hs (y # ys @ [NUL]) s ?p"
    using tok(2,3,5) tok(4) [folded hs_def] hs t(1) L(2) by (auto simp: tok_at_def)
  from loop_eatws [of L "[]" _ _ "[]" _ _ s ?p e] at t obtain p1 where
    p1: "parse_loop e (-1) False ?p = parse_loop e (-1) True p1" "p_c p1 = hd t"
      "tok_at L [] (lvl state_start state_start None None) hs (t @ NUL # []) s p1" by fastforce
  have "NUL \<notin> set json_number_chars" "nests v (length hs)" using v(2) hs(1) by simp_all
  then obtain p2 s' q A hi where
    p2: "parse_loop e (-1) True p1 = parse_loop e (-1) False p2"
      "tok_at L [] (lvl state_eatws state_finish q None) hi (NUL # []) s' p2"
      "grows s s'" "js_ok s'" "built (jnext s) s' q v A" by (metis parsesD [OF v(1) p1(3,2) s])
  from loop_eatws [of L "[]" _ hi "[]" NUL "[]" s' p2 e] p2(2) obtain p3 where
    p3: "parse_loop e (-1) False p2 = parse_loop e (-1) True p3"
      "tok_at L [] (lvl state_finish state_finish q None) hi [NUL] s' p3" by (fastforce simp: c_isspace_set)
  have "tk_depth (p_tok p3) = 0" "tk_err (p_tok p3) = json_tokener_success" using p3(2) by (auto simp: tok_at_def)
  then have out: "parse_loop e (-1) True p3 = Some p3"
    using tok_at_cur [OF p3(2)] by (intro loop_out) (simp add: tok_step_def step_finish_def)
  have "owned (jheap s') q A" using p2(5) by (simp add: built_def holds_def)
  from parse_out_at [OF p3(2) this] have po: "parse_out p3 = Some (q, (p_tok p3)\<lparr>tk_stack := fresh_level # hi\<rparr>, s')" .
  have "json_tokener_parse_ex e tok (t @ [NUL]) (-1) s = Some (q, (p_tok p3)\<lparr>tk_stack := fresh_level # hi\<rparr>, s')"
    using p1(1) p2(1) p3(1) out po by (simp add: json_tokener_parse_ex_def)
  moreover have "json_tokener_free ((p_tok p3)\<lparr>tk_stack := fresh_level # hi\<rparr>) s' = Some s'"
    by (rule free_at [where hi = hi]) (use p3(2) in \<open>simp_all add: tok_at_def\<close>)
  ultimately have "json_tokener_parse_verbose e t s = Some (q, Some json_tokener_success, s')"
    using tok(1) e \<open>tk_err (p_tok p3) = json_tokener_success\<close> by (simp add: json_tokener_parse_verbose_def)
  with p2(3-5) show ?thesis by blast
qed

end
