(* ===== verification/Nl_List.thy ===== *)
theory Nl_List
  imports C_Prelude
begin

text \<open>
  The doubly linked lists of \<^verbatim>\<open>include/netlink/list.h\<close>.  A node is a pair of pointers inside of
  another struct; a list is a circle of nodes through its head.  The nodes are references of
  any type, and the memory gives the two pointers of every allocated node.  \<open>nl_path\<close> relates the
  pointers to the list of the nodes on the way from one node to another.
\<close>

section \<open>Operations\<close>

record 'r links =
  lnext :: "'r \<Rightarrow> 'r option"
  lprev :: "'r \<Rightarrow> 'r option"

definition is_node :: "'r links \<Rightarrow> 'r \<Rightarrow> bool" where
  "is_node L r \<longleftrightarrow> lnext L r \<noteq> None \<and> lprev L r \<noteq> None"

definition nl_init_list_head :: "'r \<Rightarrow> 'r links \<Rightarrow> 'r links" where
  "nl_init_list_head r L = L\<lparr>lnext := (lnext L)(r \<mapsto> r), lprev := (lprev L)(r \<mapsto> r)\<rparr>"

text \<open>The two pointers as assignments.\<close>

definition set_next :: "'r \<Rightarrow> 'r \<Rightarrow> 'r links \<Rightarrow> 'r links option" where
  "set_next r q L = (if is_node L r then Some (L\<lparr>lnext := (lnext L)(r \<mapsto> q)\<rparr>) else None)"

definition set_prev :: "'r \<Rightarrow> 'r \<Rightarrow> 'r links \<Rightarrow> 'r links option" where
  "set_prev r q L = (if is_node L r then Some (L\<lparr>lprev := (lprev L)(r \<mapsto> q)\<rparr>) else None)"

definition nl_list_add :: "'r \<Rightarrow> 'r \<Rightarrow> 'r \<Rightarrow> 'r links \<Rightarrow> 'r links option" where
  "nl_list_add obj prev nxt L = do {
     L \<leftarrow> set_next prev obj L;
     L \<leftarrow> set_prev obj prev L;
     L \<leftarrow> set_prev nxt obj L;
     set_next obj nxt L
   }"

definition nl_list_add_tail :: "'r \<Rightarrow> 'r \<Rightarrow> 'r links \<Rightarrow> 'r links option" where
  "nl_list_add_tail obj head L = do { p \<leftarrow> lprev L head; nl_list_add obj p head L }"

definition nl_list_add_head :: "'r \<Rightarrow> 'r \<Rightarrow> 'r links \<Rightarrow> 'r links option" where
  "nl_list_add_head obj head L = do { n \<leftarrow> lnext L head; nl_list_add obj head n L }"

definition nl_list_del :: "'r \<Rightarrow> 'r links \<Rightarrow> 'r links option" where
  "nl_list_del obj L = do {
     n \<leftarrow> lnext L obj;
     p \<leftarrow> lprev L obj;
     L \<leftarrow> set_prev n p L;
     p \<leftarrow> lprev L obj;
     n \<leftarrow> lnext L obj;
     set_next p n L
   }"

definition nl_list_empty :: "'r links \<Rightarrow> 'r \<Rightarrow> bool option" where
  "nl_list_empty L head = map_option (\<lambda>n. n = head) (lnext L head)"

definition nl_list_at_tail :: "'r links \<Rightarrow> 'r \<Rightarrow> 'r \<Rightarrow> bool option" where
  "nl_list_at_tail L pos head = map_option (\<lambda>n. n = head) (lnext L pos)"

definition nl_list_at_head :: "'r links \<Rightarrow> 'r \<Rightarrow> 'r \<Rightarrow> bool option" where
  "nl_list_at_head L pos head = map_option (\<lambda>p. p = head) (lprev L pos)"

text \<open>
  \<open>nl_list_for_each_entry\<close> with a body that leaves the links alone: the entries it visits.  A list
  whose circle does not come back to its head has no result.
\<close>

partial_function (option) nl_list_from :: "'r links \<Rightarrow> 'r \<Rightarrow> 'r \<Rightarrow> 'r list option" where
  "nl_list_from L head pos =
     (if pos = head then Some []
      else do { n \<leftarrow> lnext L pos; xs \<leftarrow> nl_list_from L head n; Some (pos # xs) })"

definition nl_list_for_each_entry :: "'r links \<Rightarrow> 'r \<Rightarrow> 'r list option" where
  "nl_list_for_each_entry L head = do { n \<leftarrow> lnext L head; nl_list_from L head n }"

text \<open>The memory of a node is released.\<close>

definition drop_node :: "'r \<Rightarrow> 'r links \<Rightarrow> 'r links" where
  "drop_node r L = L\<lparr>lnext := (lnext L)(r := None), lprev := (lprev L)(r := None)\<rparr>"

section \<open>Paths\<close>

fun nl_path :: "'r links \<Rightarrow> 'r \<Rightarrow> 'r list \<Rightarrow> 'r \<Rightarrow> bool" where
  "nl_path L a [] b \<longleftrightarrow> lnext L a = Some b \<and> lprev L b = Some a"
| "nl_path L a (x # xs) b \<longleftrightarrow> lnext L a = Some x \<and> lprev L x = Some a \<and> nl_path L x xs b"

text \<open>The list with the head \<open>h\<close> holds the nodes \<open>xs\<close>.\<close>

definition nl_list :: "'r links \<Rightarrow> 'r \<Rightarrow> 'r list \<Rightarrow> bool" where
  "nl_list L h xs \<longleftrightarrow> nl_path L h xs h \<and> distinct (h # xs)"

lemma nl_path_append:
  "nl_path L a (xs @ x # ys) b \<longleftrightarrow> nl_path L a xs x \<and> nl_path L x ys b"
  by (induction xs arbitrary: a) auto

lemma nl_path_frame:
  "nl_path L a xs b \<Longrightarrow> \<forall>r \<in> insert a (set xs). lnext L' r = lnext L r \<Longrightarrow>
   \<forall>r \<in> insert b (set xs). lprev L' r = lprev L r \<Longrightarrow> nl_path L' a xs b"
  by (induction xs arbitrary: a) auto

lemma nl_path_ends: "nl_path L a xs b \<Longrightarrow> lnext L a = Some (hd (xs @ [b])) \<and> lprev L b = Some (last (a # xs))"
  by (induction xs arbitrary: a) auto

lemma nl_list_nodes:
  assumes "nl_list L h xs" "r \<in> insert h (set xs)"
  shows "is_node L r"
proof -
  have "(\<forall>r \<in> insert a (set xs). lnext L r \<noteq> None) \<and> (\<forall>r \<in> insert b (set xs). lprev L r \<noteq> None)"
    if "nl_path L a xs b" for a b
    using that by (induction xs arbitrary: a) auto
  from this [of h h] show ?thesis
    using assms by (auto simp: nl_list_def is_node_def)
qed

lemma nl_list_frame:
  "nl_list L h xs \<Longrightarrow> \<forall>r \<in> insert h (set xs). lnext L' r = lnext L r \<and> lprev L' r = lprev L r \<Longrightarrow>
   nl_list L' h xs"
  by (auto simp: nl_list_def intro: nl_path_frame)

lemma nl_list_init: "nl_list (nl_init_list_head h L) h []"
  by (simp add: nl_list_def nl_init_list_head_def)

lemma nl_list_from_path:
  "nl_path L a xs h \<Longrightarrow> h \<notin> set xs \<Longrightarrow> do { n \<leftarrow> lnext L a; nl_list_from L h n } = Some xs"
proof (induction xs arbitrary: a)
  case Nil
  then show ?case by (simp add: nl_list_from.simps)
next
  case (Cons x xs)
  from Cons.prems have x: "lnext L a = Some x" "x \<noteq> h" and p: "nl_path L x xs h" "h \<notin> set xs"
    by auto
  from p(1) obtain n where n: "lnext L x = Some n"
    using nl_path_ends by fast
  have "nl_list_from L h n = Some xs"
    using Cons.IH [OF p] n by simp
  then show ?case
    using x n by (simp add: nl_list_from.simps [of L h x])
qed

lemma nl_list_for_each: "nl_list L h xs \<Longrightarrow> nl_list_for_each_entry L h = Some xs"
  by (simp add: nl_list_for_each_entry_def nl_list_def nl_list_from_path)

lemma nl_list_empty_iff: "nl_list L h xs \<Longrightarrow> nl_list_empty L h = Some (xs = [])"
  by (cases xs) (auto simp: nl_list_def nl_list_empty_def)

lemma nl_list_member_not_empty: "nl_list L h xs \<Longrightarrow> x \<in> set xs \<Longrightarrow> nl_list_empty L x = Some False"
proof -
  assume l: "nl_list L h xs" and "x \<in> set xs"
  then obtain ys zs where xs: "xs = ys @ x # zs"
    by (meson split_list)
  then have "nl_path L x zs h"
    using l by (simp add: nl_list_def nl_path_append)
  then have "lnext L x = Some (hd (zs @ [h]))"
    using nl_path_ends by fast
  moreover have "hd (zs @ [h]) \<noteq> x"
    using l xs by (cases zs) (auto simp: nl_list_def)
  ultimately show ?thesis
    by (simp add: nl_list_empty_def)
qed

section \<open>The operations on lists\<close>

lemma nl_list_add_tail_correct:
  assumes l: "nl_list L h xs" and x: "is_node L x" "x \<notin> set (h # xs)"
  obtains L' where "nl_list_add_tail x h L = Some L'" "nl_list L' h (xs @ [x])"
    "\<And>r. r \<notin> set (h # x # xs) \<Longrightarrow> lnext L' r = lnext L r \<and> lprev L' r = lprev L r"
    "\<And>r. is_node L' r = is_node L r"
proof
  define p where "p = last (h # xs)"
  let ?L = "L\<lparr>lnext := (lnext L)(p \<mapsto> x, x \<mapsto> h), lprev := (lprev L)(x \<mapsto> p, h \<mapsto> x)\<rparr>"
  have p: "lprev L h = Some p" "p \<in> insert h (set xs)"
    using l nl_path_ends [of L h xs h] by (auto simp: nl_list_def p_def)
  have n: "is_node L p" "is_node L h"
    using nl_list_nodes [OF l] p(2) by auto
  have px: "p \<noteq> x" using p(2) x(2) by auto
  show "nl_list_add_tail x h L = Some ?L"
    using p(1) n x px by (simp add: nl_list_add_tail_def nl_list_add_def set_next_def set_prev_def is_node_def)
  have "nl_path ?L h (xs @ [x]) h"
  proof (cases xs rule: rev_cases)
    case Nil
    then show ?thesis using x by (auto simp: p_def)
  next
    case (snoc ys y)
    have q: "nl_path L h ys y" using l snoc by (simp add: nl_list_def nl_path_append)
    have "nl_path ?L h ys y"
      by (rule nl_path_frame [OF q]) (use l x snoc in \<open>auto simp: nl_list_def p_def\<close>)
    then show ?thesis using x l snoc by (auto simp: nl_path_append nl_list_def p_def)
  qed
  then show "nl_list ?L h (xs @ [x])"
    using l x by (auto simp: nl_list_def)
  show "lnext ?L r = lnext L r \<and> lprev ?L r = lprev L r" if "r \<notin> set (h # x # xs)" for r
    using that p(2) by auto
  show "is_node ?L r = is_node L r" for r
    using n x by (auto simp: is_node_def)
qed

lemma nl_list_del_correct:
  assumes l: "nl_list L h (xs @ x # ys)"
  obtains L' where "nl_list_del x L = Some L'" "nl_list L' h (xs @ ys)"
    "\<And>r. r \<notin> set (h # xs @ ys) \<Longrightarrow> lnext L' r = lnext L r \<and> lprev L' r = lprev L r"
    "\<And>r. is_node L' r = is_node L r"
proof
  define p n where "p = last (h # xs)" and "n = hd (ys @ [h])"
  let ?L = "L\<lparr>lnext := (lnext L)(p \<mapsto> n), lprev := (lprev L)(n \<mapsto> p)\<rparr>"
  have pa: "nl_path L h xs x" "nl_path L x ys h" and d: "distinct (h # xs @ x # ys)"
    using l by (auto simp: nl_list_def nl_path_append)
  have lx: "lprev L x = Some p" "lnext L x = Some n"
    using nl_path_ends [OF pa(1)] nl_path_ends [OF pa(2)] by (auto simp: p_def n_def)
  have mem: "p \<in> insert h (set xs)" "n \<in> insert h (set ys)"
    by (simp add: p_def, cases ys, auto simp: n_def)
  have nodes: "is_node L p" "is_node L n"
    using nl_list_nodes [OF l] mem by auto
  have ne: "n \<noteq> x" "p \<noteq> x" using mem d by auto
  show "nl_list_del x L = Some ?L"
    using lx nodes ne by (simp add: nl_list_del_def set_next_def set_prev_def is_node_def)
  have "nl_path ?L h (xs @ ys) h"
  proof (cases xs rule: rev_cases)
    case Nil
    show ?thesis
    proof (cases ys)
      case Nil
      then show ?thesis using \<open>xs = []\<close> by (simp add: p_def n_def)
    next
      case (Cons z zs)
      have "nl_path ?L z zs h"
        by (rule nl_path_frame [of L]) (use pa(2) d \<open>xs = []\<close> Cons in \<open>auto simp: p_def n_def\<close>)
      then show ?thesis using \<open>xs = []\<close> Cons by (simp add: p_def n_def)
    qed
  next
    case (snoc us u)
    have u: "nl_path ?L h us u"
      by (rule nl_path_frame [of L]) (use pa(1) d snoc mem(2) in \<open>auto simp: nl_path_append p_def\<close>)
    show ?thesis
    proof (cases ys)
      case Nil
      then show ?thesis using u snoc by (simp add: nl_path_append p_def n_def)
    next
      case (Cons z zs)
      have "nl_path ?L z zs h"
        by (rule nl_path_frame [of L]) (use pa(2) d snoc Cons in \<open>auto simp: p_def n_def\<close>)
      then show ?thesis using u snoc Cons by (simp add: nl_path_append p_def n_def)
    qed
  qed
  then show "nl_list ?L h (xs @ ys)"
    using d by (simp add: nl_list_def)
  show "lnext ?L r = lnext L r \<and> lprev ?L r = lprev L r" if "r \<notin> set (h # xs @ ys)" for r
    using that mem by auto
  show "is_node ?L r = is_node L r" for r
    using nodes by (auto simp: is_node_def)
qed

end
