(* ===== verification/Net_Bytes.thy ===== *)
theory Net_Bytes
  imports C_Prelude
begin

text \<open>
  Bytes of the netlink messages.  A message buffer is a block of byte cells and a pointer into
  it is an offset; an integer field of a C structure is stored little-endian, as the LP64 x86
  targets of the repository do.  The theory gives the loads and stores of the four unsigned
  widths, one interface for them (\<open>wire_int\<close>), and the alignment macros that the
  netlink headers share.
\<close>

unbundle bit_operations_syntax

named_theorems wire \<open>what a load yields after a store\<close>

type_synonym byte = "8 word"

text \<open>Address families.\<close>

abbreviation (input) AF_UNSPEC :: int where "AF_UNSPEC \<equiv> 0"
abbreviation (input) AF_INET :: int where "AF_INET \<equiv> 2"
abbreviation (input) AF_INET6 :: int where "AF_INET6 \<equiv> 10"
abbreviation (input) AF_DECnet :: int where "AF_DECnet \<equiv> 12"
abbreviation (input) AF_LLC :: int where "AF_LLC \<equiv> 26"

section \<open>Reading a run of bytes\<close>

definition c_read :: "'a cells \<Rightarrow> int \<Rightarrow> int \<Rightarrow> 'a list option" where
  "c_read m off n =
     (if 0 \<le> off \<and> 0 \<le> n \<and> off + n \<le> int (length m)
      then those (take (nat n) (drop (nat off) m)) else None)"

text \<open>Only the sign of a result of \<open>memcmp\<close> is specified; it is \<open>-1\<close>, 0 or 1 here.\<close>

fun bytes_cmp :: "byte list \<Rightarrow> byte list \<Rightarrow> int" where
  "bytes_cmp (x # xs) (y # ys) = (if x < y then -1 else if y < x then 1 else bytes_cmp xs ys)"
| "bytes_cmp _ _ = 0"

text \<open>The block holds the given values from an offset on.\<close>

definition bytes_at :: "'a cells \<Rightarrow> nat \<Rightarrow> 'a list \<Rightarrow> bool" where
  "bytes_at m i xs \<longleftrightarrow> i + length xs \<le> length m \<and> take (length xs) (drop i m) = map Some xs"

lemma those_map_Some [simp]: "those (map Some xs) = Some xs"
  by (induction xs) auto

lemma those_eq_Some: "those ys = Some xs \<longleftrightarrow> ys = map Some xs"
  by (induction ys arbitrary: xs) (auto split: option.splits)

lemma bytes_at_nth:
  "bytes_at m i xs \<longleftrightarrow>
     i + length xs \<le> length m \<and> (\<forall>k < length xs. m ! (i + k) = Some (xs ! k))"
  by (auto simp: bytes_at_def list_eq_iff_nth_eq)

lemma bytes_at_Nil [simp]: "bytes_at m i [] \<longleftrightarrow> i \<le> length m"
  by (simp add: bytes_at_def)

lemma bytes_at_append:
  "bytes_at m i (xs @ ys) \<longleftrightarrow> bytes_at m i xs \<and> bytes_at m (i + length xs) ys"
  by (auto simp: bytes_at_def take_add add.commute add.left_commute)

lemma c_read_bytes:
  "bytes_at m i xs \<Longrightarrow> off = int i \<Longrightarrow> n = int (length xs) \<Longrightarrow> c_read m off n = Some xs"
  by (simp add: c_read_def bytes_at_def flip: of_nat_add)

lemma c_read_Some:
  assumes "c_read m off n = Some xs"
  shows "0 \<le> off \<and> n = int (length xs) \<and> bytes_at m (nat off) xs"
proof -
  have r: "0 \<le> off" "0 \<le> n" "off + n \<le> int (length m)"
    and t: "take (nat n) (drop (nat off) m) = map Some xs"
    using assms by (auto simp: c_read_def those_eq_Some split: if_splits)
  have "nat n = length xs"
    using arg_cong [OF t, of length] r by simp
  then show ?thesis
    using r t by (auto simp: bytes_at_def)
qed

text \<open>A store changes the bytes it writes and no others.\<close>

lemma c_write_bytes_at: "c_write m off xs = Some m' \<Longrightarrow> bytes_at m' (nat off) xs"
  by (auto simp: c_write_def bytes_at_def split: if_splits)

lemma c_write_nth:
  assumes "c_write m off xs = Some m'" "k < length m"
  shows "m' ! k =
    (if nat off \<le> k \<and> k < nat off + length xs then Some (xs ! (k - nat off)) else m ! k)"
  using assms by (auto simp: c_write_def nth_append split: if_splits)

lemma bytes_at_c_write_other:
  assumes w: "c_write m off xs = Some m'"
    and d: "j + length ys \<le> nat off \<or> nat off + length xs \<le> j"
  shows "bytes_at m' j ys \<longleftrightarrow> bytes_at m j ys"
proof -
  have "m' ! (j + k) = m ! (j + k)" if "k < length ys" "j + length ys \<le> length m" for k
    using c_write_nth [OF w, of "j + k"] d that by auto
  then show ?thesis
    by (auto simp: bytes_at_nth c_write_length [OF w])
qed

lemma c_write_Nil: "c_write m off [] = Some m' \<Longrightarrow> m' = m"
  by (auto simp: c_write_def split: if_splits)

lemma c_write_ex: "i + length xs \<le> length m \<Longrightarrow> \<exists>m'. c_write m (int i) xs = Some m'"
  by (simp add: c_write_def flip: of_nat_add)

lemma c_write_at: "c_write m (int i) xs = Some m' \<Longrightarrow> bytes_at m' i xs"
  using c_write_bytes_at [of m "int i"] by simp

lemma c_write_other:
  "c_write m (int i) xs = Some m' \<Longrightarrow> j + length ys \<le> i \<or> i + length xs \<le> j \<Longrightarrow>
   bytes_at m' j ys \<longleftrightarrow> bytes_at m j ys"
  by (rule bytes_at_c_write_other) auto

section \<open>Integers on the wire\<close>

primrec le_bytes :: "nat \<Rightarrow> nat \<Rightarrow> byte list" where
  "le_bytes 0 v = []"
| "le_bytes (Suc n) v = word_of_nat v # le_bytes n (v div 256)"

primrec le_nat :: "byte list \<Rightarrow> nat" where
  "le_nat [] = 0"
| "le_nat (b # bs) = unat b + 256 * le_nat bs"

lemma length_le_bytes [simp]: "length (le_bytes n v) = n"
  by (induction n arbitrary: v) auto

lemma le_nat_le_bytes [simp]: "le_nat (le_bytes n v) = v mod 256 ^ n"
  by (induction n arbitrary: v) (auto simp: unat_of_nat mod_mult2_eq)

definition put_u8 :: "byte cells \<Rightarrow> int \<Rightarrow> 8 word \<Rightarrow> byte cells option" where
  "put_u8 m off w = c_write m off (le_bytes 1 (unat w))"

definition get_u8 :: "byte cells \<Rightarrow> int \<Rightarrow> 8 word option" where
  "get_u8 m off = map_option (\<lambda>bs. word_of_nat (le_nat bs)) (c_read m off 1)"

definition put_u16 :: "byte cells \<Rightarrow> int \<Rightarrow> 16 word \<Rightarrow> byte cells option" where
  "put_u16 m off w = c_write m off (le_bytes 2 (unat w))"

definition get_u16 :: "byte cells \<Rightarrow> int \<Rightarrow> 16 word option" where
  "get_u16 m off = map_option (\<lambda>bs. word_of_nat (le_nat bs)) (c_read m off 2)"

definition put_u32 :: "byte cells \<Rightarrow> int \<Rightarrow> 32 word \<Rightarrow> byte cells option" where
  "put_u32 m off w = c_write m off (le_bytes 4 (unat w))"

definition get_u32 :: "byte cells \<Rightarrow> int \<Rightarrow> 32 word option" where
  "get_u32 m off = map_option (\<lambda>bs. word_of_nat (le_nat bs)) (c_read m off 4)"

definition put_u64 :: "byte cells \<Rightarrow> int \<Rightarrow> 64 word \<Rightarrow> byte cells option" where
  "put_u64 m off w = c_write m off (le_bytes 8 (unat w))"

definition get_u64 :: "byte cells \<Rightarrow> int \<Rightarrow> 64 word option" where
  "get_u64 m off = map_option (\<lambda>bs. word_of_nat (le_nat bs)) (c_read m off 8)"

text \<open>
  The interface of one width: how many bytes a value takes, and that decoding its bytes gives
  the value back.  The facts about loads and stores are proved once from these laws.
\<close>

locale wire_int =
  fixes enc :: "'v \<Rightarrow> byte list"
    and dec :: "byte list \<Rightarrow> 'v"
    and width :: nat
    and store :: "byte cells \<Rightarrow> int \<Rightarrow> 'v \<Rightarrow> byte cells option"
    and load :: "byte cells \<Rightarrow> int \<Rightarrow> 'v option"
  assumes enc_length: "length (enc v) = width"
    and dec_enc: "dec (enc v) = v"
    and store_eq: "store m off v = c_write m off (enc v)"
    and load_eq: "load m off = map_option dec (c_read m off (int width))"
begin

lemma load_bytes: "bytes_at m i (enc v) \<Longrightarrow> load m (int i) = Some v"
  by (simp add: load_eq dec_enc enc_length c_read_bytes [of m i "enc v"])

lemma load_stored: "store m (int i) v = Some m' \<Longrightarrow> load m' (int i) = Some v"
  using c_write_bytes_at [of m "int i" "enc v" m'] load_bytes by (simp add: store_eq)

lemma store_in:
  "i + width \<le> length m \<Longrightarrow>
   store m (int i) v = Some (take i m @ map Some (enc v) @ drop (i + width) m)"
  by (simp add: store_eq c_write_def enc_length flip: of_nat_add)

lemma store_bytes_at: "store m (int i) v = Some m' \<Longrightarrow> bytes_at m' i (enc v)"
  using c_write_bytes_at [of m "int i" "enc v" m'] by (simp add: store_eq)

lemma store_length: "store m off v = Some m' \<Longrightarrow> length m' = length m"
  by (simp add: store_eq c_write_length)

lemma store_other:
  "store m (int i) v = Some m' \<Longrightarrow> j + length ys \<le> i \<or> i + width \<le> j \<Longrightarrow>
   bytes_at m' j ys \<longleftrightarrow> bytes_at m j ys"
  by (rule bytes_at_c_write_other) (auto simp: store_eq enc_length)

end

lemma unat_mod_width:
  "unat (v :: 8 word) mod 256 = unat v"
  "unat (w :: 16 word) mod 65536 = unat w"
  "unat (x :: 32 word) mod 4294967296 = unat x"
  "unat (y :: 64 word) mod 18446744073709551616 = unat y"
proof -
  have "unat v < 2 ^ LENGTH(8)" "unat w < 2 ^ LENGTH(16)"
    "unat x < 2 ^ LENGTH(32)" "unat y < 2 ^ LENGTH(64)"
    by (rule unsigned_less)+
  then show "unat v mod 256 = unat v" "unat w mod 65536 = unat w"
    "unat x mod 4294967296 = unat x" "unat y mod 18446744073709551616 = unat y"
    by simp_all
qed

interpretation u8: wire_int "\<lambda>w. le_bytes 1 (unat w)" "\<lambda>bs. word_of_nat (le_nat bs)" 1 put_u8 get_u8
  by unfold_locales (auto simp: put_u8_def get_u8_def unat_mod_width)

interpretation u16: wire_int "\<lambda>w. le_bytes 2 (unat w)" "\<lambda>bs. word_of_nat (le_nat bs)" 2 put_u16 get_u16
  by unfold_locales (auto simp: put_u16_def get_u16_def unat_mod_width)

interpretation u32: wire_int "\<lambda>w. le_bytes 4 (unat w)" "\<lambda>bs. word_of_nat (le_nat bs)" 4 put_u32 get_u32
  by unfold_locales (auto simp: put_u32_def get_u32_def unat_mod_width)

interpretation u64: wire_int "\<lambda>w. le_bytes 8 (unat w)" "\<lambda>bs. word_of_nat (le_nat bs)" 8 put_u64 get_u64
  by unfold_locales (auto simp: put_u64_def get_u64_def unat_mod_width)

section \<open>Alignment\<close>

text \<open>
  \<open>NLMSG_ALIGN\<close> is computed in the unsigned type of its argument (its constant is
  \<open>4U\<close>), \<open>NLA_ALIGN\<close> in \<open>int\<close>.
\<close>

definition NLMSG_ALIGN :: "'a::len word \<Rightarrow> 'a word" where
  "NLMSG_ALIGN n = (n + 3) AND NOT 3"

definition NLA_ALIGN :: "int \<Rightarrow> int" where
  "NLA_ALIGN n = (n + 3) AND NOT 3"

text \<open>The least multiple of four that is not smaller.\<close>

definition up4 :: "nat \<Rightarrow> nat" where
  "up4 n = (n + 3) div 4 * 4"

lemma and_not_mask:
  fixes k :: "'a::{ring_bit_operations}"
  shows "k AND NOT b = k - (k AND b)"
proof -
  have "(k AND NOT b) + (k AND b) = (k AND NOT b) OR (k AND b)"
    by (rule disjunctive_add_eq_or, rule bit_eqI) (auto simp: bit_simps)
  also have "\<dots> = k"
    by (rule bit_eqI) (auto simp: bit_simps)
  finally show ?thesis
    by (simp add: eq_diff_eq)
qed

lemma int_mask_4: "k AND NOT 3 = k div 4 * (4 :: int)"
proof -
  have "k AND 3 = k mod 4"
    using take_bit_eq_mask [of 2 k] by (simp add: take_bit_eq_mod mask_eq_exp_minus_1)
  then show ?thesis
    unfolding and_not_mask by (simp add: minus_mod_eq_div_mult)
qed

lemma word_mask_4:
  assumes "2 < LENGTH('a)"
  shows "unat ((w :: 'a::len word) AND NOT 3) = unat w div 4 * 4"
proof -
  have 3: "uint (3 :: 'a word) = 3"
    using assms power_increasing [of 3 "LENGTH('a)" "2 :: int"]
    by (simp add: uint_word_ariths unsigned_numeral take_bit_int_eq_self)
  have "uint (w AND NOT 3) = uint w AND take_bit LENGTH('a) (NOT 3)"
    unfolding unsigned_and_eq unsigned_not_eq 3 ..
  also have "\<dots> = take_bit LENGTH('a) (uint w AND NOT 3)"
    unfolding take_bit_and by (simp add: take_bit_int_eq_self)
  also have "\<dots> = take_bit LENGTH('a) (uint w div 4 * 4)"
    unfolding int_mask_4 ..
  also have "\<dots> = uint w div 4 * 4"
  proof (rule take_bit_int_eq_self)
    have "uint w div 4 * 4 \<le> uint w" by presburger
    then show "uint w div 4 * 4 < 2 ^ LENGTH('a)"
      using uint_bounded [of w] by (rule le_less_trans)
  qed (simp add: pos_imp_zdiv_nonneg_iff)
  finally have "int (unat (w AND NOT 3)) = int (unat w div 4 * 4)"
    by (simp add: zdiv_int)
  then show ?thesis by (simp only: of_nat_eq_iff)
qed

lemma NLA_ALIGN_eq: "NLA_ALIGN n = (n + 3) div 4 * 4"
  unfolding NLA_ALIGN_def int_mask_4 ..

lemma NLA_ALIGN_int: "NLA_ALIGN (int n) = int (up4 n)"
  by (simp add: NLA_ALIGN_eq up4_def zdiv_int)

lemma up4_facts:
  "n \<le> up4 n" "up4 n < n + 4" "up4 n mod 4 = 0" "4 dvd n \<Longrightarrow> up4 n = n"
  unfolding up4_def by (presburger)+

lemma up4_0 [simp]: "up4 0 = 0"
  by (simp add: up4_def)

lemma unat_NLMSG_ALIGN:
  assumes "2 < LENGTH('a)" "unat w + 3 < 2 ^ LENGTH('a)"
  shows "unat (NLMSG_ALIGN (w :: 'a::len word)) = up4 (unat w)"
proof -
  have "unat (3 :: 'a word) = 3"
    using assms by (simp add: unsigned_numeral take_bit_nat_eq_self)
  then have "unat (w + 3) = unat w + 3"
    using assms(2) by (simp add: unat_word_ariths)
  then show ?thesis
    unfolding NLMSG_ALIGN_def up4_def using word_mask_4 [OF assms(1), of "w + 3"] by simp
qed

section \<open>Numbers that fit their word\<close>

lemma unat_word_small: "n < 2 ^ LENGTH('a) \<Longrightarrow> unat (word_of_nat n :: 'a::len word) = n"
  by (simp add: unat_of_nat)

lemma align_len:
  assumes "n \<le> 2 ^ 31" "4 dvd n"
  shows "NLMSG_ALIGN (word_of_nat n :: 32 word) = word_of_nat n"
proof -
  have n: "unat (word_of_nat n :: 32 word) = n"
    using assms by (intro unat_word_small) simp
  have "unat (NLMSG_ALIGN (word_of_nat n :: 32 word)) = up4 n"
    using unat_NLMSG_ALIGN [of "word_of_nat n :: 32 word"] assms n by simp
  then have "unat (NLMSG_ALIGN (word_of_nat n :: 32 word)) = unat (word_of_nat n :: 32 word)"
    using n assms up4_facts(4) [of n] by simp
  then show ?thesis by (rule unsigned_word_eqI)
qed

lemma ucast_of_nat:
  "LENGTH('b) \<le> LENGTH('a) \<Longrightarrow>
   (ucast (word_of_nat n :: 'a::len word) :: 'b::len word) = word_of_nat n"
  by transfer (simp add: take_bit_take_bit min_def)

lemma ucast_up_of_nat:
  "n < 2 ^ 32 \<Longrightarrow> (ucast (word_of_nat n :: 32 word) :: 64 word) = word_of_nat n"
  by transfer (simp add: take_bit_int_eq_self)

lemma uint_of_unat: "unat w = n \<Longrightarrow> uint w = int n"
  by (simp add: uint_nat del: of_nat_unat)

lemma sint_small: "int n < 2 ^ 31 \<Longrightarrow> sint (word_of_nat n :: 32 word) = int n"
  by (simp add: signed_of_nat signed_take_bit_int_eq_self)

section \<open>Initialised blocks\<close>

definition initialised :: "'a cells \<Rightarrow> bool" where
  "initialised m \<longleftrightarrow> None \<notin> set m"

lemma those_initialised: "None \<notin> set ys \<Longrightarrow> \<exists>xs. those ys = Some xs"
  by (induction ys) (auto split: option.splits, metis not_None_eq)

lemma c_read_initialised:
  assumes "initialised m" "0 \<le> p" "0 \<le> n" "p + n \<le> int (length m)"
  shows "\<exists>bs. c_read m p n = Some bs"
proof -
  have "None \<notin> set (take (nat n) (drop (nat p) m))"
    using assms(1) in_set_takeD in_set_dropD unfolding initialised_def by metis
  then show ?thesis
    using assms(2-) those_initialised by (simp add: c_read_def)
qed

lemma get_u16_initialised:
  "initialised m \<Longrightarrow> 0 \<le> p \<Longrightarrow> p + 2 \<le> int (length m) \<Longrightarrow> \<exists>l. get_u16 m p = Some l"
  using c_read_initialised [of m p 2] by (auto simp: get_u16_def)

lemma c_load_initialised:
  "initialised m \<Longrightarrow> 0 \<le> p \<Longrightarrow> p < int (length m) \<Longrightarrow> \<exists>c. c_load m p = Some c"
  unfolding initialised_def c_load_def
  by (metis (no_types, lifting) nat_less_iff not_None_eq nth_mem)

lemma get_u32_initialised:
  "initialised m \<Longrightarrow> 0 \<le> p \<Longrightarrow> p + 4 \<le> int (length m) \<Longrightarrow> \<exists>l. get_u32 m p = Some l"
  using c_read_initialised [of m p 4] by (auto simp: get_u32_def)

lemma c_write_initialised: "initialised m \<Longrightarrow> c_write m off xs = Some m' \<Longrightarrow> initialised m'"
  by (auto simp: initialised_def c_write_def split: if_splits dest: in_set_takeD in_set_dropD)

end
