(* ===== verification/Nl_Msg.thy ===== *)
theory Nl_Msg
  imports Net_Bytes
begin

text \<open>
  Netlink messages: \<open>lib/msg.c\<close> of the bundled libnl with the header structures of
  \<open>include/linux/netlink.h\<close>.  A message owns one block of bytes that starts with
  \<open>struct nlmsghdr\<close>; its header fields are loads and stores in that block, and a
  pointer to a header or to an attribute is an offset into a block.  \<open>size_t\<close> is a
  64-bit word and \<open>__u32\<close> a 32-bit word, so every sum wraps the way the code's does;
  signed sums are checked.  \<open>BUG()\<close> asserts, hence has no result.
\<close>

abbreviation (input) NLMSG_HDRLEN :: int where "NLMSG_HDRLEN \<equiv> 16"
abbreviation (input) NLMSG_ALIGNTO :: int where "NLMSG_ALIGNTO \<equiv> 4"

abbreviation (input) NLE_NOMEM :: int where "NLE_NOMEM \<equiv> 5"
abbreviation (input) NLE_INVAL :: int where "NLE_INVAL \<equiv> 7"
abbreviation (input) NLE_RANGE :: int where "NLE_RANGE \<equiv> 8"
abbreviation (input) NLE_AF_NOSUPPORT :: int where "NLE_AF_NOSUPPORT \<equiv> 11"
abbreviation (input) NLE_NOADDR :: int where "NLE_NOADDR \<equiv> 19"
abbreviation (input) NLE_MSG_TOOSHORT :: int where "NLE_MSG_TOOSHORT \<equiv> 21"

section \<open>Data\<close>

record nlmsghdr =
  nlmsg_len :: "32 word"
  nlmsg_type :: "16 word"
  nlmsg_flags :: "16 word"
  nlmsg_seq :: "32 word"
  nlmsg_pid :: "32 word"

record sockaddr_nl =
  nl_family :: "16 word"
  nl_pad :: "16 word"
  nl_pid :: "32 word"
  nl_groups :: "32 word"

record ucred =
  cr_pid :: int
  cr_uid :: "32 word"
  cr_gid :: "32 word"

record nl_msg =
  nm_protocol :: int
  nm_flags :: int
  nm_src :: sockaddr_nl
  nm_dst :: sockaddr_nl
  nm_creds :: ucred
  nm_nlh :: "byte cells"
  nm_size :: "64 word"
  nm_refcnt :: int

definition zero_sockaddr :: sockaddr_nl where
  "zero_sockaddr = \<lparr>nl_family = 0, nl_pad = 0, nl_pid = 0, nl_groups = 0\<rparr>"

text \<open>The fields of the header at an offset.\<close>

definition hdr_len :: "byte cells \<Rightarrow> int \<Rightarrow> 32 word option" where
  "hdr_len m p = get_u32 m p"

definition hdr_type :: "byte cells \<Rightarrow> int \<Rightarrow> 16 word option" where
  "hdr_type m p = get_u16 m (p + 4)"

definition get_nlmsghdr :: "byte cells \<Rightarrow> int \<Rightarrow> nlmsghdr option" where
  "get_nlmsghdr m p = do {
     l \<leftarrow> get_u32 m p;
     t \<leftarrow> get_u16 m (p + 4);
     f \<leftarrow> get_u16 m (p + 6);
     s \<leftarrow> get_u32 m (p + 8);
     i \<leftarrow> get_u32 m (p + 12);
     Some \<lparr>nlmsg_len = l, nlmsg_type = t, nlmsg_flags = f, nlmsg_seq = s, nlmsg_pid = i\<rparr>
   }"

text \<open>The four fields other than the length, as several functions assign them together.\<close>

definition put_hdr_fields ::
    "byte cells \<Rightarrow> 16 word \<Rightarrow> 16 word \<Rightarrow> 32 word \<Rightarrow> 32 word \<Rightarrow> byte cells option" where
  "put_hdr_fields m t f s i = do {
     m \<leftarrow> put_u16 m 4 t;
     m \<leftarrow> put_u16 m 6 f;
     m \<leftarrow> put_u32 m 8 s;
     put_u32 m 12 i
   }"

section \<open>Size calculations\<close>

definition nlmsg_size :: "int \<Rightarrow> int option" where
  "nlmsg_size payload = do { c_assert (c_int_ok (NLMSG_HDRLEN + payload)); Some (NLMSG_HDRLEN + payload) }"

definition nlmsg_msg_size :: "int \<Rightarrow> int option" where
  "nlmsg_msg_size payload = nlmsg_size payload"

definition nlmsg_total_size :: "int \<Rightarrow> int option" where
  "nlmsg_total_size payload = do {
     n \<leftarrow> nlmsg_msg_size payload;
     Some (sint (NLMSG_ALIGN (word_of_int n :: 32 word)))
   }"

definition nlmsg_padlen :: "int \<Rightarrow> int option" where
  "nlmsg_padlen payload = do {
     t \<leftarrow> nlmsg_total_size payload;
     n \<leftarrow> nlmsg_msg_size payload;
     c_assert (c_int_ok (t - n));
     Some (t - n)
   }"

section \<open>Access to a message\<close>

definition nlmsg_data :: "int \<Rightarrow> int" where
  "nlmsg_data p = p + NLMSG_HDRLEN"

definition nlmsg_tail :: "byte cells \<Rightarrow> int \<Rightarrow> int option" where
  "nlmsg_tail m p = do { l \<leftarrow> hdr_len m p; Some (p + uint (NLMSG_ALIGN l)) }"

definition nlmsg_datalen :: "byte cells \<Rightarrow> int \<Rightarrow> int option" where
  "nlmsg_datalen m p = do { l \<leftarrow> hdr_len m p; Some (sint (l - word_of_int NLMSG_HDRLEN)) }"

definition nlmsg_attrdata :: "int \<Rightarrow> int \<Rightarrow> int" where
  "nlmsg_attrdata p hdrlen = nlmsg_data p + uint (NLMSG_ALIGN (word_of_int hdrlen :: 32 word))"

definition nlmsg_attrlen :: "byte cells \<Rightarrow> int \<Rightarrow> int \<Rightarrow> int option" where
  "nlmsg_attrlen m p hdrlen = do {
     n \<leftarrow> nlmsg_datalen m p;
     Some (max (sint (word_of_int n - NLMSG_ALIGN (word_of_int hdrlen :: 32 word))) 0)
   }"

definition nlmsg_valid_hdr :: "byte cells \<Rightarrow> int \<Rightarrow> int \<Rightarrow> bool option" where
  "nlmsg_valid_hdr m p hdrlen = do {
     l \<leftarrow> hdr_len m p;
     n \<leftarrow> nlmsg_msg_size hdrlen;
     Some (\<not> l < word_of_int n)
   }"

definition nlmsg_ok :: "byte cells \<Rightarrow> int \<Rightarrow> int \<Rightarrow> bool option" where
  "nlmsg_ok m p remaining =
     (if remaining < 16 then Some False
      else do {
        l \<leftarrow> hdr_len m p;
        Some (16 \<le> uint l \<and> l \<le> word_of_int remaining)
      })"

definition nlmsg_next :: "byte cells \<Rightarrow> int \<Rightarrow> int \<Rightarrow> (int \<times> int) option" where
  "nlmsg_next m p remaining = do {
     l \<leftarrow> hdr_len m p;
     let totlen = sint (NLMSG_ALIGN l);
     c_assert (c_int_ok (remaining - totlen));
     Some (p + totlen, remaining - totlen)
   }"

section \<open>Allocation and references\<close>

text \<open>
  \<open>calloc\<close> yields zeroed cells.  \<open>sizeof (struct nl_msg)\<close> is 72 bytes.  The
  outer \<open>option\<close> is definedness, the inner one the returned pointer.
\<close>

definition nlmsg_alloc_len :: "malloc_fn \<Rightarrow> 64 word \<Rightarrow> nl_msg option option" where
  "nlmsg_alloc_len mal len =
     (let len = (if len < 16 then 16 else len) in
      if \<not> mal 72 then Some None
      else if \<not> mal (uint len) then Some None
      else do {
        n \<leftarrow> nlmsg_total_size 0;
        b \<leftarrow> put_u32 (replicate (unat len) (Some 0)) 0 (word_of_int n);
        Some (Some \<lparr>nm_protocol = -1, nm_flags = 0, nm_src = zero_sockaddr, nm_dst = zero_sockaddr,
          nm_creds = \<lparr>cr_pid = 0, cr_uid = 0, cr_gid = 0\<rparr>, nm_nlh = b, nm_size = len,
          nm_refcnt = 1\<rparr>)
      })"

text \<open>\<open>default_msg_size\<close> is a file-scope variable, here an argument.\<close>

definition nlmsg_alloc :: "malloc_fn \<Rightarrow> 64 word \<Rightarrow> nl_msg option option" where
  "nlmsg_alloc mal default_msg_size = nlmsg_alloc_len mal default_msg_size"

definition nlmsg_alloc_size :: "malloc_fn \<Rightarrow> 64 word \<Rightarrow> nl_msg option option" where
  "nlmsg_alloc_size mal mx = nlmsg_alloc_len mal mx"

definition nlmsg_inherit ::
    "malloc_fn \<Rightarrow> 64 word \<Rightarrow> nlmsghdr option \<Rightarrow> nl_msg option option" where
  "nlmsg_inherit mal default_msg_size hdr = do {
     nm \<leftarrow> nlmsg_alloc mal default_msg_size;
     case (nm, hdr) of
       (Some nm, Some h) \<Rightarrow> do {
         b \<leftarrow> put_hdr_fields (nm_nlh nm) (nlmsg_type h) (nlmsg_flags h) (nlmsg_seq h) (nlmsg_pid h);
         Some (Some (nm\<lparr>nm_nlh := b\<rparr>))
       }
     | _ \<Rightarrow> Some nm
   }"

definition nlmsg_alloc_simple :: "malloc_fn \<Rightarrow> 64 word \<Rightarrow> int \<Rightarrow> int \<Rightarrow> nl_msg option option" where
  "nlmsg_alloc_simple mal default_msg_size nlmsgtype flags =
     nlmsg_inherit mal default_msg_size
       (Some \<lparr>nlmsg_len = 0, nlmsg_type = word_of_int nlmsgtype, nlmsg_flags = word_of_int flags,
              nlmsg_seq = 0, nlmsg_pid = 0\<rparr>)"

text \<open>\<open>nlmsg_set_default_size\<close> returns the new value of \<open>default_msg_size\<close>.\<close>

definition nlmsg_set_default_size :: "64 word \<Rightarrow> 64 word option" where
  "nlmsg_set_default_size mx = do {
     n \<leftarrow> nlmsg_total_size 0;
     Some (if mx < word_of_int n then word_of_int n else mx)
   }"

definition nlmsg_convert :: "malloc_fn \<Rightarrow> byte cells \<Rightarrow> int \<Rightarrow> nl_msg option option" where
  "nlmsg_convert mal hdr p = do {
     l \<leftarrow> hdr_len hdr p;
     nm \<leftarrow> nlmsg_alloc_len mal (ucast (NLMSG_ALIGN l));
     case nm of None \<Rightarrow> Some None
     | Some nm \<Rightarrow> do {
         src \<leftarrow> c_read hdr p (uint l);
         b \<leftarrow> c_memcpy (nm_nlh nm) 0 src (uint l);
         Some (Some (nm\<lparr>nm_nlh := b\<rparr>))
       }
   }"

definition nlmsg_get :: "nl_msg \<Rightarrow> nl_msg option" where
  "nlmsg_get msg = do {
     c_assert (c_int_ok (nm_refcnt msg + 1));
     Some (msg\<lparr>nm_refcnt := nm_refcnt msg + 1\<rparr>)
   }"

text \<open>\<open>nlmsg_free\<close>: the message that is left, or \<open>None\<close> once it is freed.\<close>

definition nlmsg_free :: "nl_msg option \<Rightarrow> nl_msg option option" where
  "nlmsg_free msg = (case msg of None \<Rightarrow> Some None
     | Some msg \<Rightarrow> do {
         c_assert (c_int_ok (nm_refcnt msg - 1));
         let r = nm_refcnt msg - 1;
         c_assert (\<not> r < 0);
         Some (if r \<le> 0 then None else Some (msg\<lparr>nm_refcnt := r\<rparr>))
       })"

section \<open>Construction\<close>

text \<open>\<open>nlmsg_reserve\<close> returns the offset of the room, or \<open>None\<close> for \<open>NULL\<close>.\<close>

definition nlmsg_reserve :: "nl_msg \<Rightarrow> 64 word \<Rightarrow> int \<Rightarrow> (int option \<times> nl_msg) option" where
  "nlmsg_reserve n len pad = do {
     l \<leftarrow> hdr_len (nm_nlh n) 0;
     let nlen = (ucast l :: 64 word);
     let tlen = (if pad \<noteq> 0 then (len + word_of_int (pad - 1)) AND word_of_int (NOT (pad - 1)) else len);
     if tlen + nlen > nm_size n then Some (None, n)
     else do {
       b \<leftarrow> put_u32 (nm_nlh n) 0 (l + ucast tlen);
       b \<leftarrow> (if tlen > len then c_memset b (uint nlen + uint len) 0 (uint (tlen - len)) else Some b);
       Some (Some (uint nlen), n\<lparr>nm_nlh := b\<rparr>)
     }
   }"

definition nlmsg_append :: "nl_msg \<Rightarrow> byte list \<Rightarrow> 64 word \<Rightarrow> int \<Rightarrow> (int \<times> nl_msg) option" where
  "nlmsg_append n data len pad = do {
     (tmp, n) \<leftarrow> nlmsg_reserve n len pad;
     case tmp of None \<Rightarrow> Some (- NLE_NOMEM, n)
     | Some p \<Rightarrow> do {
         b \<leftarrow> c_memcpy (nm_nlh n) p data (uint len);
         Some (0, n\<lparr>nm_nlh := b\<rparr>)
       }
   }"

text \<open>\<open>realloc\<close> keeps the old cells; the new ones are uninitialised.\<close>

definition nlmsg_expand :: "malloc_fn \<Rightarrow> nl_msg \<Rightarrow> 64 word \<Rightarrow> (int \<times> nl_msg) option" where
  "nlmsg_expand mal n newlen =
     (if newlen \<le> nm_size n then Some (- NLE_INVAL, n)
      else if \<not> mal (uint newlen) then Some (- NLE_NOMEM, n)
      else Some (0, n\<lparr>nm_nlh := take (unat newlen) (nm_nlh n)
                        @ replicate (unat newlen - length (nm_nlh n)) None,
                     nm_size := newlen\<rparr>))"

text \<open>\<open>nlmsg_put\<close>: \<open>True\<close> when it returns the header, \<open>False\<close> for \<open>NULL\<close>.\<close>

definition nlmsg_put ::
    "nl_msg \<Rightarrow> 32 word \<Rightarrow> 32 word \<Rightarrow> int \<Rightarrow> int \<Rightarrow> int \<Rightarrow> (bool \<times> nl_msg) option" where
  "nlmsg_put n pid sq type payload flags = do {
     l \<leftarrow> hdr_len (nm_nlh n) 0;
     c_assert (\<not> l < word_of_int NLMSG_HDRLEN);
     b \<leftarrow> put_u16 (nm_nlh n) 4 (word_of_int type);
     b \<leftarrow> put_u16 b 6 (word_of_int flags);
     b \<leftarrow> put_u32 b 12 pid;
     b \<leftarrow> put_u32 b 8 sq;
     let n = n\<lparr>nm_nlh := b\<rparr>;
     if payload > 0 then do {
       (r, n) \<leftarrow> nlmsg_reserve n (word_of_int payload) NLMSG_ALIGNTO;
       Some (r \<noteq> None, n)
     }
     else Some (True, n)
   }"

section \<open>Attributes of a message object\<close>

abbreviation (input) NL_MSG_CRED_PRESENT :: int where "NL_MSG_CRED_PRESENT \<equiv> 1"

definition nlmsg_set_proto :: "nl_msg \<Rightarrow> int \<Rightarrow> nl_msg" where
  "nlmsg_set_proto msg protocol = msg\<lparr>nm_protocol := protocol\<rparr>"

definition nlmsg_get_proto :: "nl_msg \<Rightarrow> int" where
  "nlmsg_get_proto msg = nm_protocol msg"

definition nlmsg_get_max_size :: "nl_msg \<Rightarrow> 64 word" where
  "nlmsg_get_max_size msg = nm_size msg"

definition nlmsg_set_src :: "nl_msg \<Rightarrow> sockaddr_nl \<Rightarrow> nl_msg" where
  "nlmsg_set_src msg addr = msg\<lparr>nm_src := addr\<rparr>"

definition nlmsg_set_dst :: "nl_msg \<Rightarrow> sockaddr_nl \<Rightarrow> nl_msg" where
  "nlmsg_set_dst msg addr = msg\<lparr>nm_dst := addr\<rparr>"

definition nlmsg_set_creds :: "nl_msg \<Rightarrow> ucred \<Rightarrow> nl_msg" where
  "nlmsg_set_creds msg creds =
     msg\<lparr>nm_creds := creds, nm_flags := nm_flags msg OR NL_MSG_CRED_PRESENT\<rparr>"

definition nlmsg_get_creds :: "nl_msg \<Rightarrow> ucred option" where
  "nlmsg_get_creds msg = (if nm_flags msg AND NL_MSG_CRED_PRESENT \<noteq> 0 then Some (nm_creds msg) else None)"

end
