(* ===== verification/Nl_Hash.thy ===== *)
theory Nl_Hash
  imports Net_Bytes
begin

text \<open>
  The hash function of \<^verbatim>\<open>lib/hash.c\<close>, on a little-endian machine.  \<open>hashlittle\<close> has three
  bodies, one for each alignment of the key: it reads words, half words or bytes.  The theorems
  say that the mixing step loses no information and that the three bodies compute the same
  function of the bytes of the key, without reading outside of it.
\<close>

section \<open>Operations\<close>

definition rot :: "32 word \<Rightarrow> nat \<Rightarrow> 32 word" where
  "rot x k = push_bit k x OR drop_bit (32 - k) x"

type_synonym hstate = "32 word \<times> 32 word \<times> 32 word"

definition mix :: "hstate \<Rightarrow> hstate" where
  "mix = (\<lambda>(a, b, c).
     let a = a - c; a = a XOR rot c 4;  c = c + b;
         b = b - a; b = b XOR rot a 6;  a = a + c;
         c = c - b; c = c XOR rot b 8;  b = b + a;
         a = a - c; a = a XOR rot c 16; c = c + b;
         b = b - a; b = b XOR rot a 19; a = a + c;
         c = c - b; c = c XOR rot b 4;  b = b + a
     in (a, b, c))"

definition final :: "hstate \<Rightarrow> hstate" where
  "final = (\<lambda>(a, b, c).
     let c = c XOR b; c = c - rot b 14;
         a = a XOR c; a = a - rot c 11;
         b = b XOR a; b = b - rot a 25;
         c = c XOR b; c = c - rot b 16;
         a = a XOR c; a = a - rot c 4;
         b = b XOR a; b = b - rot a 14;
         c = c XOR b; c = c - rot b 24
     in (a, b, c))"

text \<open>
  What the code adds to one of the three words for the \<open>n\<close> bytes of the key that belong to it,
  four of them or, at the end of the key, less: a load of the width of the body, and single
  bytes where the key ends before the load would.
\<close>

definition part32 :: "byte cells \<Rightarrow> int \<Rightarrow> nat \<Rightarrow> 32 word option" where
  "part32 m k n =
     (if n \<ge> 4 then get_u32 m k
      else do {
        x \<leftarrow> (if n \<ge> 3 then map_option (\<lambda>b. push_bit 16 (ucast b)) (c_load m (k + 2)) else Some 0);
        y \<leftarrow> (if n \<ge> 2 then map_option (\<lambda>b. push_bit 8 (ucast b)) (c_load m (k + 1)) else Some 0);
        z \<leftarrow> (if n \<ge> 1 then map_option ucast (c_load m k) else Some 0);
        Some (x + y + z)
      })"

definition part16 :: "byte cells \<Rightarrow> int \<Rightarrow> nat \<Rightarrow> 32 word option" where
  "part16 m k n =
     (if n \<ge> 4 then do { x \<leftarrow> get_u16 m k; y \<leftarrow> get_u16 m (k + 2); Some (ucast x + push_bit 16 (ucast y)) }
      else if n = 3 then do { y \<leftarrow> c_load m (k + 2); x \<leftarrow> get_u16 m k; Some (push_bit 16 (ucast y) + ucast x) }
      else if n = 2 then map_option ucast (get_u16 m k)
      else if n = 1 then map_option ucast (c_load m k)
      else Some 0)"

definition part8 :: "byte cells \<Rightarrow> int \<Rightarrow> nat \<Rightarrow> 32 word option" where
  "part8 m k n = do {
     w \<leftarrow> (if n \<ge> 4 then map_option (\<lambda>b. push_bit 24 (ucast b)) (c_load m (k + 3)) else Some 0);
     x \<leftarrow> (if n \<ge> 3 then map_option (\<lambda>b. push_bit 16 (ucast b)) (c_load m (k + 2)) else Some 0);
     y \<leftarrow> (if n \<ge> 2 then map_option (\<lambda>b. push_bit 8 (ucast b)) (c_load m (k + 1)) else Some 0);
     z \<leftarrow> (if n \<ge> 1 then map_option ucast (c_load m k) else Some 0);
     Some (w + x + y + z)
   }"

text \<open>Add the parts of a block of at most twelve bytes to the three words.\<close>

definition add_block :: "(byte cells \<Rightarrow> int \<Rightarrow> nat \<Rightarrow> 32 word option) \<Rightarrow> byte cells \<Rightarrow> int \<Rightarrow> nat \<Rightarrow> hstate \<Rightarrow> hstate option" where
  "add_block part m k n s = do {
     let (a, b, c) = s;
     z \<leftarrow> part m (k + 8) (n - 8);
     y \<leftarrow> part m (k + 4) (n - 4);
     x \<leftarrow> part m k n;
     Some (a + x, b + y, c + z)
   }"

text \<open>The loop over the blocks before the last one: the pointer and the length it leaves.\<close>

function hash_blocks ::
    "(byte cells \<Rightarrow> int \<Rightarrow> nat \<Rightarrow> 32 word option) \<Rightarrow> byte cells \<Rightarrow> int \<Rightarrow> nat \<Rightarrow> hstate \<Rightarrow> (int \<times> nat \<times> hstate) option" where
  "hash_blocks part m k len s =
     (if len > 12 then do {
        s \<leftarrow> add_block part m k 12 s;
        hash_blocks part m (k + 12) (len - 12) (mix s)
      }
      else Some (k, len, s))"
  by pat_completeness auto
termination by (relation "measure (\<lambda>(_, _, _, len, _). len)") auto

declare hash_blocks.simps [simp del]

text \<open>
  The body for one way of reading.  The result is the hash and \<open>*val2\<close>; a key without bytes in
  its last block needs no mixing.
\<close>

definition hash_body ::
    "(byte cells \<Rightarrow> int \<Rightarrow> nat \<Rightarrow> 32 word option) \<Rightarrow> byte cells \<Rightarrow> int \<Rightarrow> nat \<Rightarrow> hstate \<Rightarrow> 32 word \<Rightarrow> (32 word \<times> 32 word) option" where
  "hash_body part m k len s val2 = do {
     (k, len, s) \<leftarrow> hash_blocks part m k len s;
     if len = 0 then Some (snd (snd s), val2)
     else do {
       s \<leftarrow> add_block part m k len s;
       let (a, b, c) = final s;
       Some (c, b)
     }
   }"

text \<open>The key starts at the offset \<open>k\<close> of a block, at an address with the remainder \<open>al\<close> modulo 4.\<close>

definition hashlittle ::
    "nat \<Rightarrow> byte cells \<Rightarrow> int \<Rightarrow> 64 word \<Rightarrow> 32 word \<Rightarrow> (32 word \<times> 32 word) option" where
  "hashlittle al m k len val2 =
     (let s0 = 0xdeadbeef + ucast len + val2
      in hash_body (if al mod 4 = 0 then part32 else if al mod 2 = 0 then part16 else part8)
           m k (unat len) (s0, s0, s0) val2)"

definition nl_hash_any :: "nat \<Rightarrow> byte cells \<Rightarrow> int \<Rightarrow> 64 word \<Rightarrow> 32 word \<Rightarrow> 32 word option" where
  "nl_hash_any al m k len base = map_option fst (hashlittle al m k len base)"

section \<open>Mixing is reversible\<close>

text \<open>One line of \<open>mix\<close> and of \<open>final\<close>, with the three words turned for the next line.\<close>

definition mix_line :: "nat \<Rightarrow> hstate \<Rightarrow> hstate" where
  "mix_line k = (\<lambda>(x, y, z). (y, z + y, (x - z) XOR rot z k))"

definition final_line :: "nat \<Rightarrow> hstate \<Rightarrow> hstate" where
  "final_line k = (\<lambda>(x, y, z). (y, z, (x XOR z) - rot z k))"

lemma mix_lines: "mix = mix_line 4 \<circ> mix_line 19 \<circ> mix_line 16 \<circ> mix_line 8 \<circ> mix_line 6 \<circ> mix_line 4"
  by (rule ext) (simp only: mix_def mix_line_def o_apply split_beta Let_def prod.sel)

lemma final_lines:
  "final = final_line 24 \<circ> final_line 14 \<circ> final_line 4 \<circ> final_line 16 \<circ> final_line 25 \<circ> final_line 11 \<circ> final_line 14
     \<circ> (\<lambda>(a, b, c). (c, a, b))"
  by (rule ext) (simp only: final_def final_line_def o_apply split_beta Let_def prod.sel)

lemma xor_cancel: "(x XOR y) XOR y = (x :: 'a::len word)"
  by (simp add: xor.assoc)

lemma bij_mix_line: "bij (mix_line k)"
proof (rule o_bij)
  let ?inv = "\<lambda>(y, z, x). ((x XOR rot (z - y) k) + (z - y), y, z - y)"
  show "?inv \<circ> mix_line k = id" "mix_line k \<circ> ?inv = id"
    by (auto simp: mix_line_def xor_cancel)
qed

lemma bij_final_line: "bij (final_line k)"
proof (rule o_bij)
  let ?inv = "\<lambda>(y, z, x). ((x + rot z k) XOR z, y, z)"
  show "?inv \<circ> final_line k = id" "final_line k \<circ> ?inv = id"
    by (auto simp: final_line_def xor_cancel)
qed

text \<open>
  The mixing steps lose no information: \<open>mix\<close>, applied between the blocks of a key, and
  \<open>final\<close>, applied at its end, are bijections of the three words.
\<close>

theorem mix_final_bij: "bij mix \<and> bij final"
proof -
  have "bij (\<lambda>(a :: 32 word, b :: 32 word, c :: 32 word). (c, a, b))"
    by (rule o_bij [where g = "\<lambda>(c, a, b). (a, b, c)"]) auto
  then show ?thesis
    unfolding mix_lines final_lines by (intro conjI bij_comp bij_mix_line bij_final_line)
qed

section \<open>The three bodies agree\<close>

text \<open>The number that at most four bytes stand for, and the hash as a function of the bytes.\<close>

definition le_word :: "byte list \<Rightarrow> 32 word" where
  "le_word bs = word_of_nat (le_nat bs)"

definition add_bytes :: "byte list \<Rightarrow> hstate \<Rightarrow> hstate" where
  "add_bytes bs = (\<lambda>(a, b, c).
     (a + le_word (take 4 bs), b + le_word (take 4 (drop 4 bs)), c + le_word (take 4 (drop 8 bs))))"

function hash_bytes :: "byte list \<Rightarrow> hstate \<Rightarrow> 32 word \<Rightarrow> 32 word \<times> 32 word" where
  "hash_bytes bs s val2 =
     (if length bs > 12 then hash_bytes (drop 12 bs) (mix (add_bytes (take 12 bs) s)) val2
      else if bs = [] then (snd (snd s), val2)
      else (let (a, b, c) = final (add_bytes bs s) in (c, b)))"
  by pat_completeness auto
termination by (relation "measure (\<lambda>(bs, _). length bs)") auto

declare hash_bytes.simps [simp del]

lemma bytes_at_take: "bytes_at m i bs \<Longrightarrow> bytes_at m i (take j bs)"
  using bytes_at_append [of m i "take j bs" "drop j bs"] by simp

lemma bytes_at_drop: "bytes_at m i bs \<Longrightarrow> j \<le> length bs \<Longrightarrow> bytes_at m (i + j) (drop j bs)"
  using bytes_at_append [of m i "take j bs" "drop j bs"] by (simp add: min.absorb2)

text \<open>What a way of reading must do: give the number of the first four bytes, or of what is left.\<close>

locale key_reader =
  fixes part :: "byte cells \<Rightarrow> int \<Rightarrow> nat \<Rightarrow> 32 word option"
  assumes part_word: "bytes_at m i bs \<Longrightarrow> part m (int i) (length bs) = Some (le_word (take 4 bs))"
    and part_none: "part m k 0 = Some 0"
begin

lemma add_block_bytes:
  assumes "bytes_at m i bs" "length bs \<le> 12"
  shows "add_block part m (int i) (length bs) s = Some (add_bytes bs s)"
proof -
  have *: "part m (int (i + j)) (length bs - j) = Some (le_word (take 4 (drop j bs)))" for j
  proof (cases "j \<le> length bs")
    case True
    then have "bytes_at m (i + j) (drop j bs)"
      using assms(1) by (simp add: bytes_at_drop)
    then show ?thesis using part_word by fastforce
  next
    case False
    then show ?thesis using part_none by (simp add: le_word_def)
  qed
  show ?thesis
    using * [of 0] * [of 4] * [of 8] by (simp add: add_block_def add_bytes_def split_beta)
qed

lemma hash_body_bytes:
  "bytes_at m i bs \<Longrightarrow> hash_body part m (int i) (length bs) s val2 = Some (hash_bytes bs s val2)"
proof (induction bs s val2 arbitrary: i rule: hash_bytes.induct)
  case (1 bs s val2)
  show ?case
  proof (cases "length bs > 12")
    case True
    have at: "bytes_at m i (take 12 bs)" "bytes_at m (i + 12) (drop 12 bs)"
      using 1(2) True by (simp_all add: bytes_at_take bytes_at_drop)
    have "hash_body part m (int i) (length bs) s val2
        = hash_body part m (int (i + 12)) (length (drop 12 bs)) (mix (add_bytes (take 12 bs) s)) val2"
      using add_block_bytes [OF at(1), of s] True by (simp add: hash_body_def hash_blocks.simps [of _ _ _ "length bs"] min_def)
    then show ?thesis
      using 1(1) [OF True at(2)] True by (simp add: hash_bytes.simps [of bs])
  next
    case False
    then show ?thesis
      using add_block_bytes [OF 1(2), of s]
      by (auto simp: hash_body_def hash_blocks.simps [of _ _ _ "length bs"] hash_bytes.simps [of bs] split_beta)
  qed
qed

end

text \<open>Reads inside of the key.\<close>

lemma key_byte:
  "bytes_at m i bs \<Longrightarrow> j < length bs \<Longrightarrow> c_load m (int i + int j) = Some (bs ! j)"
  by (auto simp: c_load_def bytes_at_nth nat_add_distrib)

lemma key_bytes:
  assumes "bytes_at m i bs" "0 < length bs"
  shows "c_load m (int i) = Some (bs ! 0)"
    "1 < length bs \<Longrightarrow> c_load m (int i + 1) = Some (bs ! 1)"
    "2 < length bs \<Longrightarrow> c_load m (int i + 2) = Some (bs ! 2)"
    "3 < length bs \<Longrightarrow> c_load m (int i + 3) = Some (bs ! 3)"
  using assms key_byte [of m i bs 0] key_byte [of m i bs 1] key_byte [of m i bs 2] key_byte [of m i bs 3]
  by simp_all

lemma key_read:
  assumes "bytes_at m i bs" "j + n \<le> length bs"
  shows "c_read m (int i + int j) (int n) = Some (take n (drop j bs))"
proof -
  have "bytes_at m (i + j) (take n (drop j bs))"
    using assms by (intro bytes_at_take bytes_at_drop) auto
  then show ?thesis
    using assms(2) by (intro c_read_bytes [where i = "i + j"]) auto
qed

lemma key_words:
  assumes "bytes_at m i bs"
  shows "4 \<le> length bs \<Longrightarrow> get_u32 m (int i) = Some (le_word (take 4 bs))"
    "2 \<le> length bs \<Longrightarrow> get_u16 m (int i) = Some (word_of_nat (le_nat (take 2 bs)))"
    "4 \<le> length bs \<Longrightarrow> get_u16 m (int i + 2) = Some (word_of_nat (le_nat (take 2 (drop 2 bs))))"
  using key_read [OF assms, of 0 4] key_read [OF assms, of 0 2] key_read [OF assms, of 2 2]
  by (simp_all add: get_u32_def get_u16_def le_word_def)

lemma push_bytes:
  "push_bit 8 (ucast (x :: byte)) = (word_of_nat (256 * unat x) :: 32 word)"
  "push_bit 16 (ucast x) = (word_of_nat (65536 * unat x) :: 32 word)"
  "push_bit 24 (ucast x) = (word_of_nat (16777216 * unat x) :: 32 word)"
  by (simp_all add: push_bit_eq_mult mult.commute)

lemma key_cases:
  obtains "bs = []" | a where "bs = [a]" | a b where "bs = [a, b]" | a b c where "bs = [a, b, c]"
  | a b c d r where "bs = a # b # c # d # r"
  by (metis list.exhaust)

lemma half_words:
  fixes a b :: byte
  shows "ucast (ucast a + ucast b * 256 :: 16 word) = (ucast a + ucast b * 256 :: 32 word)"
proof -
  have "unat a + unat b * 256 < 65536"
    using unsigned_less [of a, where 'a = nat] unsigned_less [of b, where 'a = nat] by simp
  then have "unat (word_of_nat (unat a + unat b * 256) :: 16 word) = unat a + unat b * 256"
    by (simp add: unat_of_nat del: of_nat_add of_nat_mult)
  then have "(ucast (word_of_nat (unat a + unat b * 256) :: 16 word) :: 32 word) = word_of_nat (unat a + unat b * 256)"
    by (metis of_nat_unat)
  then show ?thesis
    by simp
qed

lemmas part_simps = part32_def part16_def part8_def le_word_def push_bit_eq_mult half_words algebra_simps

interpretation k32: key_reader part32
proof
  show "part32 m (int i) (length bs) = Some (le_word (take 4 bs))" if "bytes_at m i bs" for m i bs
    using key_bytes [OF that] key_words [OF that] by (cases bs rule: key_cases) (simp_all add: part_simps)
qed (simp add: part32_def)

interpretation k16: key_reader part16
proof
  show "part16 m (int i) (length bs) = Some (le_word (take 4 bs))" if "bytes_at m i bs" for m i bs
    using key_bytes [OF that] key_words [OF that] by (cases bs rule: key_cases) (simp_all add: part_simps)
qed (simp add: part16_def)

interpretation k8: key_reader part8
proof
  show "part8 m (int i) (length bs) = Some (le_word (take 4 bs))" if "bytes_at m i bs" for m i bs
    using key_bytes [OF that] key_words [OF that] by (cases bs rule: key_cases) (simp_all add: part_simps)
qed (simp add: part8_def)

definition hash_start :: "byte list \<Rightarrow> 32 word \<Rightarrow> hstate" where
  "hash_start bs val2 = (let s = 0xdeadbeef + word_of_nat (length bs) + val2 in (s, s, s))"

lemma hashlittle_bytes:
  assumes "bytes_at m i bs" "length bs < 2 ^ 64"
  shows "hashlittle al m (int i) (word_of_nat (length bs)) val2
       = Some (hash_bytes bs (hash_start bs val2) val2)"
proof -
  have len: "unat (word_of_nat (length bs) :: 64 word) = length bs"
    using assms(2) by (simp add: unat_of_nat)
  then have "(ucast (word_of_nat (length bs) :: 64 word) :: 32 word) = word_of_nat (length bs)"
    by (metis of_nat_unat)
  then show ?thesis
    using len assms(1)
    by (simp add: hashlittle_def hash_start_def Let_def k32.hash_body_bytes k16.hash_body_bytes k8.hash_body_bytes)
qed

text \<open>
  C19. Whatever the alignment of the key, \<open>hashlittle\<close> computes the same hash and the same second
  hash: the three bodies, which read words, half words and bytes, agree with one function of the
  bytes of the key.  The key may lie at the very end of its block, so no body reads past it.
\<close>

theorem hashlittle_alignment:
  assumes "bytes_at m i bs" "length bs < 2 ^ 64"
  shows "hashlittle al m (int i) (word_of_nat (length bs)) val2
       = Some (hash_bytes bs (hash_start bs val2) val2)"
  by (rule hashlittle_bytes [OF assms])

theorem hashlittle_alignment_witness:
  "hashlittle 0 (map Some [1, 2, 3, 4, 5]) 0 5 0 = hashlittle 1 (map Some [9, 1, 2, 3, 4, 5]) 1 5 0"
  using hashlittle_alignment [of "map Some [1, 2, 3, 4, 5]" 0 "[1, 2, 3, 4, 5]" 0 0]
    hashlittle_alignment [of "map Some [9, 1, 2, 3, 4, 5]" 1 "[1, 2, 3, 4, 5]" 1 0]
  by (simp add: bytes_at_def)

end
