(* ===== verification/Nl_Object.thy ===== *)
theory Nl_Object
  imports Nl_List Nl_Msg Nl_Hash
begin

text \<open>
  \<^verbatim>\<open>lib/object.c\<close> and \<^verbatim>\<open>lib/hashtable.c\<close> of libnl: reference-counted objects of any kind, and the
  chained hash table that caches keep of them.  A kind of object is described by a table of
  functions (\<open>nl_object_ops\<close>); the kinds, the tables of the caches and the allocator are the
  arguments \<open>E\<close> of the operations.  The memory is a state with the live objects, the live caches
  and the links of their lists.  An object whose count drops to zero while it is in a cache is
  taken out of the cache by \<open>nl_object_free\<close>, so \<open>nl_cache_remove\<close> of \<^verbatim>\<open>lib/cache.c\<close> is defined here.
\<close>

abbreviation (input) NLE_EXIST :: int where "NLE_EXIST \<equiv> 6"
abbreviation (input) NLE_OPNOTSUPP :: int where "NLE_OPNOTSUPP \<equiv> 10"
abbreviation (input) NLE_OBJ_NOTFOUND :: int where "NLE_OBJ_NOTFOUND \<equiv> 12"
abbreviation (input) NLE_MSGTYPE_NOSUPPORT :: int where "NLE_MSGTYPE_NOSUPPORT \<equiv> 22"
abbreviation (input) NLE_OBJ_MISMATCH :: int where "NLE_OBJ_MISMATCH \<equiv> 23"

section \<open>Objects and their kinds\<close>

text \<open>
  The header that all objects share; \<open>ce_list\<close> is in the links of the state, and \<open>ce_data\<close> is what
  the kind adds.  The operations table of an object is an address and never NULL:
  \<open>nl_object_alloc\<close> makes all objects.
\<close>

record 'd nl_object =
  ce_refcnt :: int
  ce_ops :: nat
  ce_cache :: "nat option"
  ce_msgtype :: int
  ce_flags :: "32 word"
  ce_mask :: "32 word"
  ce_data :: 'd

text \<open>
  The functions of a kind, \<open>None\<close> for NULL.  \<open>oo_zero\<close> is the data of a struct of zeros.  The
  constructor, the copying and the update function write into the data (and the mask) of one
  object, which they return.
\<close>

record 'd nl_object_ops =
  oo_name :: string
  oo_size :: nat
  oo_zero :: 'd
  oo_id_attrs :: "32 word"
  oo_constructor :: "('d \<Rightarrow> 'd) option"
  oo_free_data :: bool
  oo_clone :: "('d nl_object \<Rightarrow> 'd nl_object \<Rightarrow> (int \<times> 'd) option) option"
  oo_compare :: "('d nl_object \<Rightarrow> 'd nl_object \<Rightarrow> 32 word \<Rightarrow> 32 word \<Rightarrow> 32 word option) option"
  oo_update :: "('d nl_object \<Rightarrow> 'd nl_object \<Rightarrow> int \<times> 'd \<times> 32 word) option"
  oo_keygen :: "('d nl_object \<Rightarrow> 32 word \<Rightarrow> 32 word option) option"
  oo_id_attrs_get :: "('d nl_object \<Rightarrow> 32 word) option"

text \<open>A chain of the hash table: the key and the object of every node.\<close>

record nl_hash_table =
  ht_size :: int
  ht_nodes :: "(32 word \<times> nat) list list"

text \<open>A cache; the head of its list, \<open>c_items\<close>, is in the links of the state.\<close>

record nl_cache =
  c_nitems :: int
  c_iarg1 :: int
  c_iarg2 :: int
  c_refcnt :: int
  c_flags :: "32 word"
  hashtable :: "nl_hash_table option"
  c_ops :: nat

record nl_cache_ops =
  co_name :: string
  co_protocol :: int
  co_hash_size :: int
  co_flags :: "32 word"
  co_obj_ops :: nat
  co_msgtypes :: "(int \<times> int) list"

datatype lref = Items nat | Obj nat

record 'd nlstate =
  nobjs :: "nat \<Rightarrow> 'd nl_object option"
  ncaches :: "nat \<Rightarrow> nl_cache option"
  nlinks :: "lref links"
  nnext :: nat
  nlog :: "(nat \<times> int) list"

record 'd nlenv =
  e_ops :: "nat \<Rightarrow> 'd nl_object_ops"
  e_cops :: "nat \<Rightarrow> nl_cache_ops"
  e_mal :: malloc_fn

definition set_obj :: "nat \<Rightarrow> 'd nl_object \<Rightarrow> 'd nlstate \<Rightarrow> 'd nlstate" where
  "set_obj p ob s = s\<lparr>nobjs := (nobjs s)(p \<mapsto> ob)\<rparr>"

definition set_cache :: "nat \<Rightarrow> nl_cache \<Rightarrow> 'd nlstate \<Rightarrow> 'd nlstate" where
  "set_cache c ca s = s\<lparr>ncaches := (ncaches s)(c \<mapsto> ca)\<rparr>"

abbreviation obj_ops :: "'d nlenv \<Rightarrow> 'd nl_object \<Rightarrow> 'd nl_object_ops" where
  "obj_ops E ob \<equiv> e_ops E (ce_ops ob)"

text \<open>\<open>sizeof (struct nl_object)\<close>.\<close>

abbreviation (input) NL_OBJECT_SIZE :: nat where "NL_OBJECT_SIZE \<equiv> 56"

section \<open>Creation, comparison and marks\<close>

definition nl_object_alloc :: "'d nlenv \<Rightarrow> nat \<Rightarrow> 'd nlstate \<Rightarrow> (nat option \<times> 'd nlstate) option" where
  "nl_object_alloc E t s =
     (let ops = e_ops E t in
      if oo_size ops < NL_OBJECT_SIZE then None
      else if \<not> e_mal E (int (oo_size ops)) then Some (None, s)
      else let p = nnext s;
               d = (case oo_constructor ops of None \<Rightarrow> oo_zero ops | Some f \<Rightarrow> f (oo_zero ops));
               new = \<lparr>ce_refcnt = 1, ce_ops = t, ce_cache = None, ce_msgtype = 0, ce_flags = 0, ce_mask = 0, ce_data = d\<rparr>
           in Some (Some p, s\<lparr>nobjs := (nobjs s)(p \<mapsto> new), nlinks := nl_init_list_head (Obj p) (nlinks s), nnext := p + 1\<rparr>))"

definition nl_object_update :: "'d nlenv \<Rightarrow> nat \<Rightarrow> nat \<Rightarrow> 'd nlstate \<Rightarrow> (int \<times> 'd nlstate) option" where
  "nl_object_update E dst src s = do {
     d \<leftarrow> nobjs s dst;
     o2 \<leftarrow> nobjs s src;
     case oo_update (obj_ops E d) of
       None \<Rightarrow> Some (- NLE_OPNOTSUPP, s)
     | Some f \<Rightarrow> (case f d o2 of (err, v, mk) \<Rightarrow> Some (err, set_obj dst (d\<lparr>ce_data := v, ce_mask := mk\<rparr>) s))
   }"

definition nl_object_get :: "nat \<Rightarrow> 'd nlstate \<Rightarrow> 'd nlstate option" where
  "nl_object_get p s = do {
     ob \<leftarrow> nobjs s p;
     c_assert (c_int_ok (ce_refcnt ob + 1));
     Some (set_obj p (ob\<lparr>ce_refcnt := ce_refcnt ob + 1\<rparr>) s)
   }"

definition nl_object_shared :: "'d nl_object \<Rightarrow> bool" where
  "nl_object_shared ob \<longleftrightarrow> ce_refcnt ob > 1"

abbreviation (input) NL_OBJ_MARK :: "32 word" where "NL_OBJ_MARK \<equiv> 1"

definition nl_object_mark :: "'d nl_object \<Rightarrow> 'd nl_object" where
  "nl_object_mark ob = ob\<lparr>ce_flags := ce_flags ob OR NL_OBJ_MARK\<rparr>"

definition nl_object_unmark :: "'d nl_object \<Rightarrow> 'd nl_object" where
  "nl_object_unmark ob = ob\<lparr>ce_flags := ce_flags ob AND NOT NL_OBJ_MARK\<rparr>"

definition nl_object_is_marked :: "'d nl_object \<Rightarrow> bool" where
  "nl_object_is_marked ob \<longleftrightarrow> ce_flags ob AND NL_OBJ_MARK \<noteq> 0"

text \<open>The attributes that \<open>nl_object_identical\<close> compares, when the two objects agree on them.\<close>

definition required_attrs :: "'d nlenv \<Rightarrow> 'd nl_object \<Rightarrow> 'd nl_object \<Rightarrow> 32 word option" where
  "required_attrs E a b =
     (let ops = obj_ops E a;
          req = (case oo_id_attrs_get ops of
                   Some f \<Rightarrow> if f a \<noteq> f b then None else Some (f a)
                 | None \<Rightarrow> if oo_id_attrs ops \<noteq> 0 then Some (oo_id_attrs ops) else Some 0xFFFFFFFF)
      in map_option (\<lambda>r. if r = 0xFFFFFFFF then ce_mask a AND ce_mask b else r) req)"

definition nl_object_identical :: "'d nlenv \<Rightarrow> 'd nl_object \<Rightarrow> 'd nl_object \<Rightarrow> bool option" where
  "nl_object_identical E a b =
     (if ce_ops a \<noteq> ce_ops b then Some False
      else case required_attrs E a b of
        None \<Rightarrow> Some False
      | Some r \<Rightarrow>
          if ce_mask a AND r \<noteq> r \<or> ce_mask b AND r \<noteq> r then Some False
          else (case oo_compare (obj_ops E a) of
                  None \<Rightarrow> Some False
                | Some cmp \<Rightarrow> map_option (\<lambda>d. d = 0) (cmp a b r 0)))"

definition nl_object_diff :: "'d nlenv \<Rightarrow> 'd nl_object \<Rightarrow> 'd nl_object \<Rightarrow> 32 word option" where
  "nl_object_diff E a b =
     (if ce_ops a \<noteq> ce_ops b then Some 0xFFFFFFFF
      else case oo_compare (obj_ops E a) of
        None \<Rightarrow> Some 0xFFFFFFFF
      | Some cmp \<Rightarrow> cmp a b 0xFFFFFFFF 0)"

abbreviation (input) LOOSE_COMPARISON :: "32 word" where "LOOSE_COMPARISON \<equiv> 1"

definition nl_object_match_filter :: "'d nlenv \<Rightarrow> 'd nl_object \<Rightarrow> 'd nl_object \<Rightarrow> bool option" where
  "nl_object_match_filter E ob flt =
     (if ce_ops ob \<noteq> ce_ops flt then Some False
      else case oo_compare (obj_ops E ob) of
        None \<Rightarrow> Some False
      | Some cmp \<Rightarrow> map_option (\<lambda>d. d = 0) (cmp ob flt (ce_mask flt) LOOSE_COMPARISON))"

definition nl_object_keygen :: "'d nlenv \<Rightarrow> 'd nl_object \<Rightarrow> 32 word \<Rightarrow> 32 word option" where
  "nl_object_keygen E ob sz =
     (case oo_keygen (obj_ops E ob) of None \<Rightarrow> Some 0 | Some f \<Rightarrow> f ob sz)"

definition nl_object_get_id_attrs :: "'d nlenv \<Rightarrow> 'd nl_object \<Rightarrow> 32 word" where
  "nl_object_get_id_attrs E ob =
     (case oo_id_attrs_get (obj_ops E ob) of Some f \<Rightarrow> f ob | None \<Rightarrow> oo_id_attrs (obj_ops E ob))"

section \<open>Hash tables\<close>

text \<open>
  \<open>calloc\<close> refuses a negative size, which it sees as a huge number.  The nodes of an empty table
  are all NULL.
\<close>

definition nl_hash_table_alloc :: "malloc_fn \<Rightarrow> int \<Rightarrow> nl_hash_table option" where
  "nl_hash_table_alloc mal sz =
     (if \<not> mal 16 then None
      else if sz < 0 \<or> \<not> mal (8 * sz) then None
      else Some \<lparr>ht_size = sz, ht_nodes = replicate (nat sz) []\<rparr>)"

definition ht_chain :: "nl_hash_table \<Rightarrow> 32 word \<Rightarrow> (32 word \<times> nat) list option" where
  "ht_chain ht k = (if unat k < length (ht_nodes ht) then Some (ht_nodes ht ! unat k) else None)"

definition set_chain :: "nl_hash_table \<Rightarrow> 32 word \<Rightarrow> (32 word \<times> nat) list \<Rightarrow> nl_hash_table" where
  "set_chain ht k ch = ht\<lparr>ht_nodes := (ht_nodes ht)[unat k := ch]\<rparr>"

text \<open>The walk along a chain: the position of the first node with an identical object.\<close>

fun chain_search :: "'d nlenv \<Rightarrow> 'd nlstate \<Rightarrow> (32 word \<times> nat) list \<Rightarrow> 'd nl_object \<Rightarrow> nat option option" where
  "chain_search E s [] ob = Some None"
| "chain_search E s ((k, q) # ch) ob = do {
     node \<leftarrow> nobjs s q;
     same \<leftarrow> nl_object_identical E node ob;
     if same then Some (Some 0) else map_option (map_option Suc) (chain_search E s ch ob)
   }"

definition nl_hash_table_lookup :: "'d nlenv \<Rightarrow> 'd nlstate \<Rightarrow> nl_hash_table \<Rightarrow> nat \<Rightarrow> nat option option" where
  "nl_hash_table_lookup E s ht p = do {
     ob \<leftarrow> nobjs s p;
     k \<leftarrow> nl_object_keygen E ob (word_of_int (ht_size ht));
     ch \<leftarrow> ht_chain ht k;
     i \<leftarrow> chain_search E s ch ob;
     Some (map_option (\<lambda>i. snd (ch ! i)) i)
   }"

definition nl_hash_table_add ::
    "'d nlenv \<Rightarrow> nl_hash_table \<Rightarrow> nat \<Rightarrow> 'd nlstate \<Rightarrow> (int \<times> nl_hash_table \<times> 'd nlstate) option" where
  "nl_hash_table_add E ht p s = do {
     ob \<leftarrow> nobjs s p;
     k \<leftarrow> nl_object_keygen E ob (word_of_int (ht_size ht));
     ch \<leftarrow> ht_chain ht k;
     i \<leftarrow> chain_search E s ch ob;
     if i \<noteq> None then Some (- NLE_EXIST, ht, s)
     else if \<not> e_mal E 24 then Some (- NLE_NOMEM, ht, s)
     else do {
       s \<leftarrow> nl_object_get p s;
       Some (0, set_chain ht k ((k, p) # ch), s)
     }
   }"

section \<open>Release\<close>

text \<open>
  \<open>nl_object_put\<close>, \<open>nl_hash_table_del\<close> and \<open>nl_cache_remove\<close> over the function \<open>fr\<close> that
  \<open>nl_object_put\<close> calls when the last reference is gone.
\<close>

definition nl_object_put_with ::
    "(nat \<Rightarrow> 'd nlstate \<Rightarrow> 'd nlstate option) \<Rightarrow> nat \<Rightarrow> 'd nlstate \<Rightarrow> 'd nlstate option" where
  "nl_object_put_with fr p s = do {
     ob \<leftarrow> nobjs s p;
     let n = ce_refcnt ob - 1;
     c_assert (c_int_ok n);
     let s = set_obj p (ob\<lparr>ce_refcnt := n\<rparr>) s;
     c_assert (n \<ge> 0);
     if n \<le> 0 then fr p s else Some s
   }"

definition nl_hash_table_del_with ::
    "(nat \<Rightarrow> 'd nlstate \<Rightarrow> 'd nlstate option) \<Rightarrow> 'd nlenv \<Rightarrow> nl_hash_table \<Rightarrow> nat \<Rightarrow> 'd nlstate
     \<Rightarrow> (int \<times> nl_hash_table \<times> 'd nlstate) option" where
  "nl_hash_table_del_with fr E ht p s = do {
     ob \<leftarrow> nobjs s p;
     k \<leftarrow> nl_object_keygen E ob (word_of_int (ht_size ht));
     ch \<leftarrow> ht_chain ht k;
     i \<leftarrow> chain_search E s ch ob;
     case i of
       None \<Rightarrow> Some (- NLE_OBJ_NOTFOUND, ht, s)
     | Some i \<Rightarrow> do {
         s \<leftarrow> nl_object_put_with fr p s;
         Some (0, set_chain ht k (take i ch @ drop (i + 1) ch), s)
       }
   }"

definition nl_cache_remove_with ::
    "(nat \<Rightarrow> 'd nlstate \<Rightarrow> 'd nlstate option) \<Rightarrow> 'd nlenv \<Rightarrow> nat \<Rightarrow> 'd nlstate \<Rightarrow> 'd nlstate option" where
  "nl_cache_remove_with fr E p s = do {
     ob \<leftarrow> nobjs s p;
     case ce_cache ob of
       None \<Rightarrow> Some s
     | Some c \<Rightarrow> do {
         ca \<leftarrow> ncaches s c;
         s \<leftarrow> (case hashtable ca of
                 None \<Rightarrow> Some s
               | Some ht \<Rightarrow> do {
                   (_, ht, s) \<leftarrow> nl_hash_table_del_with fr E ht p s;
                   ca \<leftarrow> ncaches s c;
                   Some (set_cache c (ca\<lparr>hashtable := Some ht\<rparr>) s)
                 });
         L \<leftarrow> nl_list_del (Obj p) (nlinks s);
         let s = s\<lparr>nlinks := L\<rparr>;
         ob \<leftarrow> nobjs s p;
         s \<leftarrow> nl_object_put_with fr p (set_obj p (ob\<lparr>ce_cache := None\<rparr>) s);
         ca \<leftarrow> ncaches s c;
         c_assert (c_int_ok (c_nitems ca - 1));
         Some (set_cache c (ca\<lparr>c_nitems := c_nitems ca - 1\<rparr>) s)
       }
   }"

text \<open>
  The end of an object.  The data is released with it; a second release of the same memory has no
  result.  \<open>nl_object_free\<close> may be entered again through the cache, but only with a count of
  zero, and then the nested call does not return from taking a reference away; a depth of two
  is enough.
\<close>

definition release_obj :: "nat \<Rightarrow> 'd nlstate \<Rightarrow> 'd nlstate" where
  "release_obj p s = s\<lparr>nobjs := (nobjs s)(p := None), nlinks := drop_node (Obj p) (nlinks s)\<rparr>"

primrec nl_object_free_d :: "nat \<Rightarrow> 'd nlenv \<Rightarrow> nat \<Rightarrow> 'd nlstate \<Rightarrow> 'd nlstate option" where
  "nl_object_free_d 0 E p s = None"
| "nl_object_free_d (Suc d) E p s = do {
     ob \<leftarrow> nobjs s p;
     s \<leftarrow> (if ce_cache ob \<noteq> None then nl_cache_remove_with (nl_object_free_d d E) E p s else Some s);
     _ \<leftarrow> nobjs s p;
     Some (release_obj p s)
   }"

definition nl_object_free :: "'d nlenv \<Rightarrow> nat option \<Rightarrow> 'd nlstate \<Rightarrow> 'd nlstate option" where
  "nl_object_free E p s = (case p of None \<Rightarrow> Some s | Some p \<Rightarrow> nl_object_free_d 2 E p s)"

definition nl_object_put :: "'d nlenv \<Rightarrow> nat option \<Rightarrow> 'd nlstate \<Rightarrow> 'd nlstate option" where
  "nl_object_put E p s = (case p of None \<Rightarrow> Some s | Some p \<Rightarrow> nl_object_put_with (nl_object_free_d 2 E) p s)"

definition nl_hash_table_del ::
    "'d nlenv \<Rightarrow> nl_hash_table \<Rightarrow> nat \<Rightarrow> 'd nlstate \<Rightarrow> (int \<times> nl_hash_table \<times> 'd nlstate) option" where
  "nl_hash_table_del E = nl_hash_table_del_with (nl_object_free_d 2 E) E"

definition nl_cache_remove :: "'d nlenv \<Rightarrow> nat \<Rightarrow> 'd nlstate \<Rightarrow> 'd nlstate option" where
  "nl_cache_remove E = nl_cache_remove_with (nl_object_free_d 2 E) E"

text \<open>Freeing a table puts every object of every chain, in order.\<close>

fun put_nodes :: "'d nlenv \<Rightarrow> (32 word \<times> nat) list \<Rightarrow> 'd nlstate \<Rightarrow> 'd nlstate option" where
  "put_nodes E [] s = Some s"
| "put_nodes E ((k, p) # ch) s = do { s \<leftarrow> nl_object_put E (Some p) s; put_nodes E ch s }"

definition nl_hash_table_free :: "'d nlenv \<Rightarrow> nl_hash_table \<Rightarrow> 'd nlstate \<Rightarrow> 'd nlstate option" where
  "nl_hash_table_free E ht s = put_nodes E (concat (ht_nodes ht)) s"

definition nl_hash :: "nat \<Rightarrow> byte cells \<Rightarrow> int \<Rightarrow> 64 word \<Rightarrow> 32 word \<Rightarrow> 32 word option" where
  "nl_hash al m k len initval = nl_hash_any al m k len initval"

text \<open>
  A copy has the data of the original and nothing of its lists and references.  All objects are
  longer than the header, so there is data to copy.
\<close>

definition nl_object_clone :: "'d nlenv \<Rightarrow> nat option \<Rightarrow> 'd nlstate \<Rightarrow> (nat option \<times> 'd nlstate) option" where
  "nl_object_clone E p s =
     (case p of
        None \<Rightarrow> Some (None, s)
      | Some p \<Rightarrow> do {
          ob \<leftarrow> nobjs s p;
          (q, s) \<leftarrow> nl_object_alloc E (ce_ops ob) s;
          case q of
            None \<Rightarrow> Some (None, s)
          | Some q \<Rightarrow> do {
              new \<leftarrow> nobjs s q;
              let new = new\<lparr>ce_msgtype := ce_msgtype ob, ce_mask := ce_mask ob, ce_data := ce_data ob\<rparr>;
              case oo_clone (obj_ops E ob) of
                None \<Rightarrow> do { c_assert (\<not> oo_free_data (obj_ops E ob)); Some (Some q, set_obj q new s) }
              | Some f \<Rightarrow> do {
                  (err, d) \<leftarrow> f new ob;
                  let s = set_obj q (new\<lparr>ce_data := d\<rparr>) s;
                  if err < 0 then do { s \<leftarrow> nl_object_free E (Some q) s; Some (None, s) }
                  else Some (Some q, s)
                }
            }
        })"

section \<open>What a release comes to\<close>

lemma chain_search_bounds: "chain_search E s ch ob = Some (Some i) \<Longrightarrow> i < length ch"
  by (induction ch arbitrary: i) (auto simp: bind_eq_Some_conv split: if_splits)

lemma put_with_zero: "nobjs s p = Some ob \<Longrightarrow> ce_refcnt ob \<le> 0 \<Longrightarrow> nl_object_put_with fr p s = None"
  by (simp add: nl_object_put_with_def c_assert_def)

lemma del_with_zero:
  assumes "nobjs s p = Some ob" "ce_refcnt ob \<le> 0" "nl_hash_table_del_with fr E ht p s = Some (r, ht', s')"
  shows "s' = s"
  using assms by (auto simp: nl_hash_table_del_with_def bind_eq_Some_conv put_with_zero split: option.splits)

lemma remove_with_zero:
  assumes ob: "nobjs s p = Some ob" "ce_refcnt ob \<le> 0" "ce_cache ob = Some c"
  shows "nl_cache_remove_with fr E p s = None"
proof (rule ccontr)
  assume "nl_cache_remove_with fr E p s \<noteq> None"
  then obtain ca s1 L t ob2 where ca: "ncaches s c = Some ca"
    and h: "(case hashtable ca of None \<Rightarrow> Some s
               | Some ht \<Rightarrow> do { (_, ht, s) \<leftarrow> nl_hash_table_del_with fr E ht p s;
                   ca \<leftarrow> ncaches s c; Some (set_cache c (ca\<lparr>hashtable := Some ht\<rparr>) s) }) = Some s1"
    and o2: "nobjs s1 p = Some ob2"
    and t: "nl_object_put_with fr p (set_obj p (ob2\<lparr>ce_cache := None\<rparr>) (s1\<lparr>nlinks := L\<rparr>)) = Some t"
    using ob by (auto simp: nl_cache_remove_with_def bind_eq_Some_conv)
  have "nobjs s1 = nobjs s"
    using h by (auto simp: bind_eq_Some_conv set_cache_def dest: del_with_zero [OF ob(1,2)] split: option.splits)
  then show False
    using t o2 ob by (simp add: put_with_zero set_obj_def)
qed

lemma free_d_zero:
  assumes "nobjs s p = Some ob" "ce_refcnt ob \<le> 0"
  shows "nl_object_free_d (Suc d) E p s = (if ce_cache ob = None then Some (release_obj p s) else None)"
  using assms by (auto simp: remove_with_zero)

text \<open>What \<open>nl_object_put\<close> does, without the nesting.\<close>

lemma nl_object_put_eq:
  "nl_object_put E (Some p) s = do {
     ob \<leftarrow> nobjs s p;
     c_assert (c_int_ok (ce_refcnt ob - 1) \<and> ce_refcnt ob \<ge> 1 \<and> (ce_refcnt ob = 1 \<longrightarrow> ce_cache ob = None));
     if ce_refcnt ob = 1 then Some (release_obj p s) else Some (set_obj p (ob\<lparr>ce_refcnt := ce_refcnt ob - 1\<rparr>) s)
   }"
proof (cases "nobjs s p")
  case (Some ob)
  then show ?thesis
    by (auto simp: nl_object_put_def nl_object_put_with_def c_assert_def numeral_2_eq_2 free_d_zero set_obj_def
        release_obj_def simp del: nl_object_free_d.simps)
qed (simp add: nl_object_put_def nl_object_put_with_def)

text \<open>The depth does not matter.\<close>

lemma put_with_depth: "nl_object_put_with (nl_object_free_d (Suc d) E) = nl_object_put_with (nl_object_free_d 2 E)"
proof (intro ext)
  fix p s
  show "nl_object_put_with (nl_object_free_d (Suc d) E) p s = nl_object_put_with (nl_object_free_d 2 E) p s"
    by (cases "nobjs s p")
      (auto simp: nl_object_put_with_def c_assert_def Let_def numeral_2_eq_2 free_d_zero set_obj_def simp del: nl_object_free_d.simps)
qed

lemma nl_object_free_d_enough: "nl_object_free_d (Suc (Suc d)) E p s = nl_object_free_d 2 E p s"
proof -
  have "nl_cache_remove_with (nl_object_free_d (Suc e) E) = nl_cache_remove_with (nl_object_free_d 2 E)" for e
    unfolding nl_cache_remove_with_def nl_hash_table_del_with_def put_with_depth ..
  from this [of d] this [of 0] show ?thesis
    by (simp only: numeral_2_eq_2 nl_object_free_d.simps(2) [where d = "Suc _"])
qed

end
