(* ===== verification/Nl_Cache.thy ===== *)
theory Nl_Cache
  imports Nl_Object
begin

text \<open>
  \<^verbatim>\<open>lib/cache.c\<close> of libnl: a cache is a list of objects of one kind, with a hash table when the
  kind has a key function.  The receive functions, which wait on a socket, are not part of the
  model; what they do with each object they receive is (\<open>pickup_cb\<close>, \<open>nl_cache_include\<close>), and so is
  the removal of obsolete objects after a resynchronisation.  Calls of the change callback are
  entries of the log \<open>nlog\<close>.
\<close>

section \<open>Loops over the objects of a cache\<close>

text \<open>
  \<open>nl_list_for_each_entry\<close> reads the next link after the body, \<open>nl_list_for_each_entry_safe\<close>
  before it.  Meeting the head of another list has no result.
\<close>

partial_function (option) for_each ::
    "(nat \<Rightarrow> 'd nlstate \<Rightarrow> 'd nlstate option) \<Rightarrow> lref \<Rightarrow> lref \<Rightarrow> 'd nlstate \<Rightarrow> 'd nlstate option" where
  "for_each body head pos s =
     (if pos = head then Some s
      else case pos of
        Items _ \<Rightarrow> None
      | Obj p \<Rightarrow> do { s \<leftarrow> body p s; n \<leftarrow> lnext (nlinks s) pos; for_each body head n s })"

partial_function (option) for_each_safe ::
    "(nat \<Rightarrow> 'd nlstate \<Rightarrow> 'd nlstate option) \<Rightarrow> lref \<Rightarrow> lref \<Rightarrow> lref \<Rightarrow> 'd nlstate \<Rightarrow> 'd nlstate option" where
  "for_each_safe body head pos nxt s =
     (if pos = head then Some s
      else case pos of
        Items _ \<Rightarrow> None
      | Obj p \<Rightarrow> do { s \<leftarrow> body p s; n \<leftarrow> lnext (nlinks s) nxt; for_each_safe body head nxt n s })"

definition cache_for_each :: "(nat \<Rightarrow> 'd nlstate \<Rightarrow> 'd nlstate option) \<Rightarrow> nat \<Rightarrow> 'd nlstate \<Rightarrow> 'd nlstate option" where
  "cache_for_each body c s = do { pos \<leftarrow> lnext (nlinks s) (Items c); for_each body (Items c) pos s }"

definition cache_for_each_safe :: "(nat \<Rightarrow> 'd nlstate \<Rightarrow> 'd nlstate option) \<Rightarrow> nat \<Rightarrow> 'd nlstate \<Rightarrow> 'd nlstate option" where
  "cache_for_each_safe body c s = do {
     pos \<leftarrow> lnext (nlinks s) (Items c);
     nxt \<leftarrow> lnext (nlinks s) pos;
     for_each_safe body (Items c) pos nxt s
   }"

text \<open>The objects of a cache, for loops that only read.\<close>

fun entries :: "lref list \<Rightarrow> nat list option" where
  "entries [] = Some []"
| "entries (Obj p # rs) = map_option ((#) p) (entries rs)"
| "entries (Items _ # rs) = None"

definition cache_entries :: "'d nlstate \<Rightarrow> nat \<Rightarrow> nat list option" where
  "cache_entries s c = do { rs \<leftarrow> nl_list_for_each_entry (nlinks s) (Items c); entries rs }"

section \<open>Access\<close>

definition nl_cache_nitems :: "nl_cache \<Rightarrow> int" where
  "nl_cache_nitems ca = c_nitems ca"

text \<open>Test of an object against an optional filter, and the first object that passes a test.\<close>

definition passes :: "'d nlenv \<Rightarrow> 'd nlstate \<Rightarrow> nat option \<Rightarrow> nat \<Rightarrow> bool option" where
  "passes E s flt p =
     (case flt of
        None \<Rightarrow> Some True
      | Some f \<Rightarrow> do { ob \<leftarrow> nobjs s p; fo \<leftarrow> nobjs s f; nl_object_match_filter E ob fo })"

fun count_passing :: "(nat \<Rightarrow> bool option) \<Rightarrow> nat list \<Rightarrow> int option" where
  "count_passing t [] = Some 0"
| "count_passing t (p # ps) = do { b \<leftarrow> t p; n \<leftarrow> count_passing t ps; Some (if b then n + 1 else n) }"

fun first_passing :: "(nat \<Rightarrow> bool option) \<Rightarrow> nat list \<Rightarrow> nat option option" where
  "first_passing t [] = Some None"
| "first_passing t (p # ps) = do { b \<leftarrow> t p; if b then Some (Some p) else first_passing t ps }"

definition nl_cache_nitems_filter :: "'d nlenv \<Rightarrow> 'd nlstate \<Rightarrow> nat \<Rightarrow> nat option \<Rightarrow> int option" where
  "nl_cache_nitems_filter E s c flt = do { ps \<leftarrow> cache_entries s c; count_passing (passes E s flt) ps }"

definition nl_cache_is_empty :: "'d nlstate \<Rightarrow> nat \<Rightarrow> bool option" where
  "nl_cache_is_empty s c = nl_list_empty (nlinks s) (Items c)"

text \<open>The object that contains a list node.\<close>

definition nl_list_entry :: "lref \<Rightarrow> nat option" where
  "nl_list_entry r = (case r of Obj p \<Rightarrow> Some p | Items _ \<Rightarrow> None)"

definition nl_cache_get_first :: "'d nlstate \<Rightarrow> nat \<Rightarrow> nat option option" where
  "nl_cache_get_first s c = do {
     e \<leftarrow> nl_list_empty (nlinks s) (Items c);
     if e then Some None
     else do { r \<leftarrow> lnext (nlinks s) (Items c); p \<leftarrow> nl_list_entry r; Some (Some p) }
   }"

definition nl_cache_get_last :: "'d nlstate \<Rightarrow> nat \<Rightarrow> nat option option" where
  "nl_cache_get_last s c = do {
     e \<leftarrow> nl_list_empty (nlinks s) (Items c);
     if e then Some None
     else do { r \<leftarrow> lprev (nlinks s) (Items c); p \<leftarrow> nl_list_entry r; Some (Some p) }
   }"

definition nl_cache_get_next :: "'d nlstate \<Rightarrow> nat \<Rightarrow> nat option option" where
  "nl_cache_get_next s p = do {
     ob \<leftarrow> nobjs s p;
     c \<leftarrow> ce_cache ob;
     t \<leftarrow> nl_list_at_tail (nlinks s) (Obj p) (Items c);
     if t then Some None
     else do { r \<leftarrow> lnext (nlinks s) (Obj p); q \<leftarrow> nl_list_entry r; Some (Some q) }
   }"

definition nl_cache_get_prev :: "'d nlstate \<Rightarrow> nat \<Rightarrow> nat option option" where
  "nl_cache_get_prev s p = do {
     ob \<leftarrow> nobjs s p;
     c \<leftarrow> ce_cache ob;
     t \<leftarrow> nl_list_at_head (nlinks s) (Obj p) (Items c);
     if t then Some None
     else do { r \<leftarrow> lprev (nlinks s) (Obj p); q \<leftarrow> nl_list_entry r; Some (Some q) }
   }"

section \<open>Modification\<close>

abbreviation (input) NL_MAX_HASH_ENTRIES :: int where "NL_MAX_HASH_ENTRIES \<equiv> 1024"

definition nl_cache_alloc :: "'d nlenv \<Rightarrow> nat \<Rightarrow> 'd nlstate \<Rightarrow> nat option \<times> 'd nlstate" where
  "nl_cache_alloc E t s =
     (if \<not> e_mal E 56 then (None, s)
      else let ops = e_cops E t;
               c = nnext s;
               ht = (if oo_keygen (e_ops E (co_obj_ops ops)) \<noteq> None
                     then nl_hash_table_alloc (e_mal E) (if co_hash_size ops \<noteq> 0 then co_hash_size ops else NL_MAX_HASH_ENTRIES)
                     else None);
               ca = \<lparr>c_nitems = 0, c_iarg1 = 0, c_iarg2 = 0, c_refcnt = 1, c_flags = co_flags ops, hashtable = ht, c_ops = t\<rparr>
           in (Some c, s\<lparr>ncaches := (ncaches s)(c \<mapsto> ca), nlinks := nl_init_list_head (Items c) (nlinks s), nnext := c + 1\<rparr>))"

definition cache_add :: "'d nlenv \<Rightarrow> nat \<Rightarrow> nat \<Rightarrow> 'd nlstate \<Rightarrow> (int \<times> 'd nlstate) option" where
  "cache_add E c p s = do {
     ob \<leftarrow> nobjs s p;
     let s = set_obj p (ob\<lparr>ce_cache := Some c\<rparr>) s;
     ca \<leftarrow> ncaches s c;
     (ret, s) \<leftarrow> (case hashtable ca of
         None \<Rightarrow> Some (0, s)
       | Some ht \<Rightarrow> do {
           (ret, ht, s) \<leftarrow> nl_hash_table_add E ht p s;
           if ret < 0 then do { ob \<leftarrow> nobjs s p; Some (ret, set_obj p (ob\<lparr>ce_cache := None\<rparr>) s) }
           else Some (ret, set_cache c (ca\<lparr>hashtable := Some ht\<rparr>) s)
         });
     if ret < 0 then Some (ret, s)
     else do {
       L \<leftarrow> nl_list_add_tail (Obj p) (Items c) (nlinks s);
       ca \<leftarrow> ncaches s c;
       c_assert (c_int_ok (c_nitems ca + 1));
       Some (0, set_cache c (ca\<lparr>c_nitems := c_nitems ca + 1\<rparr>) (s\<lparr>nlinks := L\<rparr>))
     }
   }"

definition nl_cache_add :: "'d nlenv \<Rightarrow> nat \<Rightarrow> nat \<Rightarrow> 'd nlstate \<Rightarrow> (int \<times> 'd nlstate) option" where
  "nl_cache_add E c p s = do {
     ca \<leftarrow> ncaches s c;
     ob \<leftarrow> nobjs s p;
     if co_obj_ops (e_cops E (c_ops ca)) \<noteq> ce_ops ob then Some (- NLE_OBJ_MISMATCH, s)
     else do {
       e \<leftarrow> nl_list_empty (nlinks s) (Obj p);
       (new, s) \<leftarrow> (if \<not> e then nl_object_clone E (Some p) s
                     else do { s \<leftarrow> nl_object_get p s; Some (Some p, s) });
       case new of
         None \<Rightarrow> Some (- NLE_NOMEM, s)
       | Some q \<Rightarrow> do {
           (ret, s) \<leftarrow> cache_add E c q s;
           if ret < 0 then do { s \<leftarrow> nl_object_put E (Some q) s; Some (ret, s) } else Some (ret, s)
         }
     }
   }"

definition nl_cache_move :: "'d nlenv \<Rightarrow> nat \<Rightarrow> nat \<Rightarrow> 'd nlstate \<Rightarrow> (int \<times> 'd nlstate) option" where
  "nl_cache_move E c p s = do {
     ca \<leftarrow> ncaches s c;
     ob \<leftarrow> nobjs s p;
     if co_obj_ops (e_cops E (c_ops ca)) \<noteq> ce_ops ob then Some (- NLE_OBJ_MISMATCH, s)
     else do {
       s \<leftarrow> nl_object_get p s;
       e \<leftarrow> nl_list_empty (nlinks s) (Obj p);
       s \<leftarrow> (if \<not> e then nl_cache_remove E p s else Some s);
       cache_add E c p s
     }
   }"

definition nl_cache_clear :: "'d nlenv \<Rightarrow> nat \<Rightarrow> 'd nlstate \<Rightarrow> 'd nlstate option" where
  "nl_cache_clear E c s = cache_for_each_safe (nl_cache_remove E) c s"

definition nl_cache_release :: "'d nlenv \<Rightarrow> nat \<Rightarrow> 'd nlstate \<Rightarrow> 'd nlstate option" where
  "nl_cache_release E c s = do {
     s \<leftarrow> nl_cache_clear E c s;
     ca \<leftarrow> ncaches s c;
     s \<leftarrow> (case hashtable ca of None \<Rightarrow> Some s | Some ht \<Rightarrow> nl_hash_table_free E ht s);
     Some (s\<lparr>ncaches := (ncaches s)(c := None), nlinks := drop_node (Items c) (nlinks s)\<rparr>)
   }"

definition nl_cache_get :: "nat \<Rightarrow> 'd nlstate \<Rightarrow> 'd nlstate option" where
  "nl_cache_get c s = do {
     ca \<leftarrow> ncaches s c;
     c_assert (c_int_ok (c_refcnt ca + 1));
     Some (set_cache c (ca\<lparr>c_refcnt := c_refcnt ca + 1\<rparr>) s)
   }"

definition nl_cache_free :: "'d nlenv \<Rightarrow> nat option \<Rightarrow> 'd nlstate \<Rightarrow> 'd nlstate option" where
  "nl_cache_free E c s =
     (case c of
        None \<Rightarrow> Some s
      | Some c \<Rightarrow> do {
          ca \<leftarrow> ncaches s c;
          let n = c_refcnt ca - 1;
          c_assert (c_int_ok n);
          let s = set_cache c (ca\<lparr>c_refcnt := n\<rparr>) s;
          if n \<le> 0 then nl_cache_release E c s else Some s
        })"

definition nl_cache_put :: "'d nlenv \<Rightarrow> nat option \<Rightarrow> 'd nlstate \<Rightarrow> 'd nlstate option" where
  "nl_cache_put E c s = nl_cache_free E c s"

text \<open>New caches with copies of the objects of another one; the results of the additions are ignored.\<close>

definition nl_cache_subset :: "'d nlenv \<Rightarrow> nat \<Rightarrow> nat \<Rightarrow> 'd nlstate \<Rightarrow> (nat option \<times> 'd nlstate) option" where
  "nl_cache_subset E orig flt s = do {
     ca \<leftarrow> ncaches s orig;
     case nl_cache_alloc E (c_ops ca) s of
       (None, s) \<Rightarrow> Some (None, s)
     | (Some c, s) \<Rightarrow> do {
         s \<leftarrow> cache_for_each (\<lambda>p s. do {
             b \<leftarrow> passes E s (Some flt) p;
             if b then map_option snd (nl_cache_add E c p s) else Some s
           }) orig s;
         Some (Some c, s)
       }
   }"

definition nl_cache_clone :: "'d nlenv \<Rightarrow> nat \<Rightarrow> 'd nlstate \<Rightarrow> (nat option \<times> 'd nlstate) option" where
  "nl_cache_clone E orig s = do {
     ca \<leftarrow> ncaches s orig;
     case nl_cache_alloc E (c_ops ca) s of
       (None, s) \<Rightarrow> Some (None, s)
     | (Some c, s) \<Rightarrow> do {
         s \<leftarrow> cache_for_each (\<lambda>p s. map_option snd (nl_cache_add E c p s)) orig s;
         Some (Some c, s)
       }
   }"

definition nl_cache_set_arg1 :: "int \<Rightarrow> nl_cache \<Rightarrow> nl_cache" where
  "nl_cache_set_arg1 v ca = ca\<lparr>c_iarg1 := v\<rparr>"

definition nl_cache_set_arg2 :: "int \<Rightarrow> nl_cache \<Rightarrow> nl_cache" where
  "nl_cache_set_arg2 v ca = ca\<lparr>c_iarg2 := v\<rparr>"

definition nl_cache_set_flags :: "32 word \<Rightarrow> nl_cache \<Rightarrow> nl_cache" where
  "nl_cache_set_flags f ca = ca\<lparr>c_flags := c_flags ca OR f\<rparr>"

section \<open>Search\<close>

text \<open>Found objects come with a new reference.\<close>

definition found :: "nat option \<Rightarrow> 'd nlstate \<Rightarrow> (nat option \<times> 'd nlstate) option" where
  "found r s = (case r of None \<Rightarrow> Some (None, s) | Some q \<Rightarrow> do { s \<leftarrow> nl_object_get q s; Some (Some q, s) })"

definition cache_fast_lookup :: "'d nlenv \<Rightarrow> nl_hash_table \<Rightarrow> nat \<Rightarrow> 'd nlstate \<Rightarrow> (nat option \<times> 'd nlstate) option" where
  "cache_fast_lookup E ht needle s = do { r \<leftarrow> nl_hash_table_lookup E s ht needle; found r s }"

definition identical_to :: "'d nlenv \<Rightarrow> 'd nlstate \<Rightarrow> nat \<Rightarrow> nat \<Rightarrow> bool option" where
  "identical_to E s needle p = do { ob \<leftarrow> nobjs s p; n \<leftarrow> nobjs s needle; nl_object_identical E ob n }"

definition nl_cache_search :: "'d nlenv \<Rightarrow> nat \<Rightarrow> nat \<Rightarrow> 'd nlstate \<Rightarrow> (nat option \<times> 'd nlstate) option" where
  "nl_cache_search E c needle s = do {
     ca \<leftarrow> ncaches s c;
     case hashtable ca of
       Some ht \<Rightarrow> cache_fast_lookup E ht needle s
     | None \<Rightarrow> do {
         ps \<leftarrow> cache_entries s c;
         r \<leftarrow> first_passing (identical_to E s needle) ps;
         found r s
       }
   }"

definition nl_cache_find :: "'d nlenv \<Rightarrow> nat \<Rightarrow> nat \<Rightarrow> 'd nlstate \<Rightarrow> (nat option \<times> 'd nlstate) option" where
  "nl_cache_find E c flt s = do {
     ca \<leftarrow> ncaches s c;
     fo \<leftarrow> nobjs s flt;
     case hashtable ca of
       Some ht \<Rightarrow>
         if nl_object_get_id_attrs E fo = ce_mask fo then cache_fast_lookup E ht flt s
         else do { ps \<leftarrow> cache_entries s c; r \<leftarrow> first_passing (passes E s (Some flt)) ps; found r s }
     | None \<Rightarrow> do { ps \<leftarrow> cache_entries s c; r \<leftarrow> first_passing (passes E s (Some flt)) ps; found r s }
   }"

definition nl_cache_mark_all :: "nat \<Rightarrow> 'd nlstate \<Rightarrow> 'd nlstate option" where
  "nl_cache_mark_all c s =
     cache_for_each (\<lambda>p s. do { ob \<leftarrow> nobjs s p; Some (set_obj p (nl_object_mark ob) s) }) c s"

definition nl_cache_foreach_filter ::
    "'d nlenv \<Rightarrow> (nat \<Rightarrow> 'd nlstate \<Rightarrow> 'd nlstate option) \<Rightarrow> nat option \<Rightarrow> nat \<Rightarrow> 'd nlstate \<Rightarrow> 'd nlstate option" where
  "nl_cache_foreach_filter E cb flt c s =
     cache_for_each_safe (\<lambda>p s. do {
         b \<leftarrow> passes E s flt p;
         if \<not> b then Some s
         else do { s \<leftarrow> nl_object_get p s; s \<leftarrow> cb p s; nl_object_put E (Some p) s }
       }) c s"

definition nl_cache_foreach ::
    "'d nlenv \<Rightarrow> (nat \<Rightarrow> 'd nlstate \<Rightarrow> 'd nlstate option) \<Rightarrow> nat \<Rightarrow> 'd nlstate \<Rightarrow> 'd nlstate option" where
  "nl_cache_foreach E cb c s = nl_cache_foreach_filter E cb None c s"

section \<open>Received objects\<close>

definition pickup_cb :: "'d nlenv \<Rightarrow> nat \<Rightarrow> nat \<Rightarrow> 'd nlstate \<Rightarrow> (int \<times> 'd nlstate) option" where
  "pickup_cb E c p s = do {
     (old, s) \<leftarrow> nl_cache_search E c p s;
     case old of
       None \<Rightarrow> nl_cache_add E c p s
     | Some q \<Rightarrow> do {
         (r, s) \<leftarrow> nl_object_update E q p s;
         if r = 0 then do { s \<leftarrow> nl_object_put E (Some q) s; Some (0, s) }
         else do {
           s \<leftarrow> nl_cache_remove E q s;
           s \<leftarrow> nl_object_put E (Some q) s;
           nl_cache_add E c p s
         }
       }
   }"

abbreviation (input) NL_ACT_NEW :: int where "NL_ACT_NEW \<equiv> 1"
abbreviation (input) NL_ACT_DEL :: int where "NL_ACT_DEL \<equiv> 2"
abbreviation (input) NL_ACT_CHANGE :: int where "NL_ACT_CHANGE \<equiv> 5"

text \<open>A call of the change callback, if there is one.\<close>

definition call_cb :: "bool \<Rightarrow> nat \<Rightarrow> int \<Rightarrow> 'd nlstate \<Rightarrow> 'd nlstate" where
  "call_cb cb p act s = (if cb then s\<lparr>nlog := nlog s @ [(p, act)]\<rparr> else s)"

text \<open>The part for a new object, after the old one was taken out of the cache.\<close>

definition include_new :: "'d nlenv \<Rightarrow> nat \<Rightarrow> nat \<Rightarrow> nat option \<Rightarrow> bool \<Rightarrow> 'd nlstate \<Rightarrow> 'd nlstate option" where
  "include_new E c p old cb s = do {
     (_, s) \<leftarrow> nl_cache_move E c p s;
     case old of
       None \<Rightarrow> Some (call_cb cb p NL_ACT_NEW s)
     | Some q \<Rightarrow> do {
         oq \<leftarrow> nobjs s q;
         ob \<leftarrow> nobjs s p;
         d \<leftarrow> nl_object_diff E oq ob;
         nl_object_put E (Some q) (call_cb (cb \<and> d \<noteq> 0) p NL_ACT_CHANGE s)
       }
   }"

definition cache_include :: "'d nlenv \<Rightarrow> nat \<Rightarrow> nat \<Rightarrow> int \<Rightarrow> bool \<Rightarrow> 'd nlstate \<Rightarrow> (int \<times> 'd nlstate) option" where
  "cache_include E c p act cb s =
     (if act \<noteq> NL_ACT_NEW \<and> act \<noteq> NL_ACT_DEL then Some (0, s)
      else do {
        (old, s) \<leftarrow> nl_cache_search E c p s;
        case old of
          None \<Rightarrow> do { s \<leftarrow> (if act = NL_ACT_NEW then include_new E c p None cb s else Some s); Some (0, s) }
        | Some q \<Rightarrow> do {
            (r, s) \<leftarrow> nl_object_update E q p s;
            if r = 0 then do { s \<leftarrow> nl_object_put E (Some q) (call_cb cb q NL_ACT_CHANGE s); Some (0, s) }
            else do {
              s \<leftarrow> nl_cache_remove E q s;
              s \<leftarrow> (if act = NL_ACT_DEL then nl_object_put E (Some q) (call_cb cb q NL_ACT_DEL s)
                    else include_new E c p (Some q) cb s);
              Some (0, s)
            }
          }
      })"

definition nl_cache_include :: "'d nlenv \<Rightarrow> nat \<Rightarrow> nat \<Rightarrow> bool \<Rightarrow> 'd nlstate \<Rightarrow> (int \<times> 'd nlstate) option" where
  "nl_cache_include E c p cb s = do {
     ca \<leftarrow> ncaches s c;
     ob \<leftarrow> nobjs s p;
     let ops = e_cops E (c_ops ca);
     if co_obj_ops ops \<noteq> ce_ops ob then Some (- NLE_OBJ_MISMATCH, s)
     else case find (\<lambda>mt. fst mt = ce_msgtype ob) (co_msgtypes ops) of
       Some mt \<Rightarrow> cache_include E c p (snd mt) cb s
     | None \<Rightarrow> Some (- NLE_MSGTYPE_NOSUPPORT, s)
   }"

text \<open>The end of \<open>nl_cache_resync\<close>: objects that are still marked are obsolete.\<close>

definition resync_sweep :: "'d nlenv \<Rightarrow> bool \<Rightarrow> nat \<Rightarrow> 'd nlstate \<Rightarrow> 'd nlstate option" where
  "resync_sweep E cb c s =
     cache_for_each_safe (\<lambda>p s. do {
         ob \<leftarrow> nobjs s p;
         if nl_object_is_marked ob then do {
           s \<leftarrow> nl_object_get p s;
           s \<leftarrow> nl_cache_remove E p s;
           nl_object_put E (Some p) (call_cb cb p NL_ACT_DEL s)
         }
         else Some s
       }) c s"

end
