(* ===== verification/Nl_Cache_Props.thy ===== *)
theory Nl_Cache_Props
  imports Nl_Cache
begin

text \<open>
  The caches of \<^verbatim>\<open>lib/cache.c\<close> as lists of objects.  \<open>cache_wf\<close> relates the links, the hash table
  and the counter of a cache to the list of its objects, \<open>nl_inv\<close> says that this holds for all
  caches and that every object is referenced as often as the caches hold it, at least.  The laws
  that the functions of a kind of objects must obey are the locale \<open>object_kinds\<close>.
\<close>

section \<open>The laws of a kind\<close>

text \<open>What the functions of a kind may look at.\<close>

definition view :: "'d nl_object \<Rightarrow> nat \<times> 32 word \<times> 'd" where
  "view ob = (ce_ops ob, ce_mask ob, ce_data ob)"

definition same_id :: "('d nl_object \<Rightarrow> 'k option) \<Rightarrow> 'd nl_object \<Rightarrow> 'd nl_object \<Rightarrow> bool" where
  "same_id oid a b \<longleftrightarrow> oid a = oid b \<and> oid a \<noteq> None"

lemma same_id_trans: "same_id oid a c \<Longrightarrow> same_id oid b c \<Longrightarrow> same_id oid a b"
  unfolding same_id_def by metis

text \<open>
  An identity for well-formed objects: two objects are identical when they have the same one, and
  then they have the same key.  Keys are below the size of the table.
\<close>

locale object_kinds =
  fixes E :: "'d nlenv"
    and good :: "'d nl_object \<Rightarrow> bool"
    and oid :: "'d nl_object \<Rightarrow> 'k option"
  assumes identical_oid: "good a \<Longrightarrow> good b \<Longrightarrow> nl_object_identical E a b = Some (same_id oid a b)"
    and diff_total: "good a \<Longrightarrow> good b \<Longrightarrow> \<exists>d. nl_object_diff E a b = Some d"
    and diff_view: "view a = view a' \<Longrightarrow> view b = view b' \<Longrightarrow> nl_object_diff E a b = nl_object_diff E a' b'"
    and key_range: "good a \<Longrightarrow> sz \<noteq> 0 \<Longrightarrow> \<exists>k < sz. nl_object_keygen E a sz = Some k"
    and key_oid: "good a \<Longrightarrow> good b \<Longrightarrow> same_id oid a b \<Longrightarrow> nl_object_keygen E a sz = nl_object_keygen E b sz"
    and view_only: "view a = view b \<Longrightarrow> good a = good b \<and> oid a = oid b \<and> nl_object_keygen E a sz = nl_object_keygen E b sz"

section \<open>The invariant\<close>

text \<open>The hash table of a cache with the objects \<open>ps\<close>.\<close>

definition table_wf ::
    "'d nlenv \<Rightarrow> ('d nl_object \<Rightarrow> 'k option) \<Rightarrow> (nat \<Rightarrow> 'd nl_object option) \<Rightarrow> nl_hash_table \<Rightarrow> nat list \<Rightarrow> bool" where
  "table_wf E oid objs ht ps \<longleftrightarrow>
     0 < ht_size ht \<and> ht_size ht \<le> INT_MAX \<and> length (ht_nodes ht) = nat (ht_size ht)
   \<and> (\<forall>i < length (ht_nodes ht). \<forall>(k, p) \<in> set (ht_nodes ht ! i).
        p \<in> set ps \<and> unat k = i \<and> (\<exists>ob. objs p = Some ob \<and> nl_object_keygen E ob (word_of_int (ht_size ht)) = Some k))
   \<and> (\<forall>p \<in> set ps. \<exists>ob k. objs p = Some ob \<and> oid ob \<noteq> None
        \<and> nl_object_keygen E ob (word_of_int (ht_size ht)) = Some k \<and> (k, p) \<in> set (ht_nodes ht ! unat k))
   \<and> (\<forall>ch \<in> set (ht_nodes ht). distinct (map snd ch))
   \<and> (\<forall>p \<in> set ps. \<forall>q \<in> set ps. oid (the (objs p)) = oid (the (objs q)) \<longrightarrow> p = q)"

definition cache_wf ::
    "'d nlenv \<Rightarrow> ('d nl_object \<Rightarrow> bool) \<Rightarrow> ('d nl_object \<Rightarrow> 'k option) \<Rightarrow> 'd nlstate \<Rightarrow> nat \<Rightarrow> nl_cache \<Rightarrow> nat list \<Rightarrow> bool" where
  "cache_wf E good oid s c ca ps \<longleftrightarrow>
     nl_list (nlinks s) (Items c) (map Obj ps)
   \<and> c_nitems ca = int (length ps) \<and> c_nitems ca \<le> INT_MAX
   \<and> (\<forall>p \<in> set ps. \<exists>ob. nobjs s p = Some ob \<and> ce_cache ob = Some c
        \<and> ce_ops ob = co_obj_ops (e_cops E (c_ops ca)) \<and> good ob)
   \<and> (\<forall>ht. hashtable ca = Some ht \<longrightarrow> table_wf E oid (nobjs s) ht ps)"

text \<open>The references that caches hold to an object: one for the list, one for the table.\<close>

definition refs_held :: "nl_cache \<Rightarrow> int" where
  "refs_held ca = (if hashtable ca = None then 1 else 2)"

definition held :: "'d nlstate \<Rightarrow> 'd nl_object \<Rightarrow> int" where
  "held s ob = (case ce_cache ob of None \<Rightarrow> 0 | Some c \<Rightarrow> (case ncaches s c of None \<Rightarrow> 0 | Some ca \<Rightarrow> refs_held ca))"

definition obj_wf :: "'d nlstate \<Rightarrow> (nat \<Rightarrow> nat list) \<Rightarrow> nat \<Rightarrow> 'd nl_object \<Rightarrow> bool" where
  "obj_wf s A p ob \<longleftrightarrow>
     is_node (nlinks s) (Obj p) \<and> 1 \<le> ce_refcnt ob \<and> ce_refcnt ob \<le> INT_MAX \<and> held s ob \<le> ce_refcnt ob
   \<and> (\<forall>c. ce_cache ob = Some c \<longrightarrow> ncaches s c \<noteq> None \<and> p \<in> set (A c))"

definition nl_inv ::
    "'d nlenv \<Rightarrow> ('d nl_object \<Rightarrow> bool) \<Rightarrow> ('d nl_object \<Rightarrow> 'k option) \<Rightarrow> 'd nlstate \<Rightarrow> (nat \<Rightarrow> nat list) \<Rightarrow> bool" where
  "nl_inv E good oid s A \<longleftrightarrow>
     (\<forall>c ca. ncaches s c = Some ca \<longrightarrow> cache_wf E good oid s c ca (A c))
   \<and> (\<forall>p ob. nobjs s p = Some ob \<longrightarrow> obj_wf s A p ob)
   \<and> (\<forall>a \<ge> nnext s. nobjs s a = None \<and> ncaches s a = None)"

lemma nl_inv_cache: "nl_inv E good oid s A \<Longrightarrow> ncaches s c = Some ca \<Longrightarrow> cache_wf E good oid s c ca (A c)"
  by (simp add: nl_inv_def)

lemma nl_inv_obj: "nl_inv E good oid s A \<Longrightarrow> nobjs s p = Some ob \<Longrightarrow> obj_wf s A p ob"
  by (simp add: nl_inv_def)

section \<open>The hash table\<close>

lemma table_wf_frame_aux:
  assumes t: "table_wf E oid objs ht ps"
    and v: "\<forall>p \<in> set ps. \<exists>a b. objs p = Some a \<and> objs' p = Some b \<and> oid b = oid a
              \<and> (\<forall>sz. nl_object_keygen E b sz = nl_object_keygen E a sz)"
  shows "table_wf E oid objs' ht ps"
proof -
  have node: "\<exists>ob. objs' p = Some ob \<and> nl_object_keygen E ob sz = Some k"
    if "objs p = Some ob" "nl_object_keygen E ob sz = Some k" "p \<in> set ps" for p ob sz k
    using v that by fastforce
  have item: "\<exists>ob k. objs' p = Some ob \<and> oid ob \<noteq> None \<and> nl_object_keygen E ob sz = Some k \<and> Q k"
    if "p \<in> set ps" "\<exists>ob k. objs p = Some ob \<and> oid ob \<noteq> None \<and> nl_object_keygen E ob sz = Some k \<and> Q k" for p sz Q
    using v that by fastforce
  have ids: "oid (the (objs' p)) = oid (the (objs p))" if "p \<in> set ps" for p
    using v that by force
  show ?thesis
    unfolding table_wf_def
  proof (intro conjI ballI allI impI)
    fix i x
    assume "i < length (ht_nodes ht)" "x \<in> set (ht_nodes ht ! i)"
    then show "case x of (k, p) \<Rightarrow> p \<in> set ps \<and> unat k = i
        \<and> (\<exists>ob. objs' p = Some ob \<and> nl_object_keygen E ob (word_of_int (ht_size ht)) = Some k)"
      using t node by (fastforce simp: table_wf_def)
  next
    fix p
    assume p: "p \<in> set ps"
    then show "\<exists>ob k. objs' p = Some ob \<and> oid ob \<noteq> None
        \<and> nl_object_keygen E ob (word_of_int (ht_size ht)) = Some k \<and> (k, p) \<in> set (ht_nodes ht ! unat k)"
      using t by (intro item) (auto simp: table_wf_def)
  qed (use t ids in \<open>auto simp: table_wf_def\<close>)
qed

lemma table_nodes:
  assumes "table_wf E oid objs ht ps" "i < length (ht_nodes ht)" "(k, p) \<in> set (ht_nodes ht ! i)"
  shows "p \<in> set ps" "unat k = i"
    "\<exists>ob. objs p = Some ob \<and> nl_object_keygen E ob (word_of_int (ht_size ht)) = Some k"
  using assms by (auto simp: table_wf_def)

lemma table_item:
  assumes "table_wf E oid objs ht ps" "p \<in> set ps"
  obtains ob k where "objs p = Some ob" "oid ob \<noteq> None"
    "nl_object_keygen E ob (word_of_int (ht_size ht)) = Some k" "(k, p) \<in> set (ht_nodes ht ! unat k)"
  using assms by (fastforce simp: table_wf_def)

lemma table_ids:
  assumes "table_wf E oid objs ht ps" "p \<in> set ps" "q \<in> set ps" "objs p = Some a" "objs q = Some b" "same_id oid a b"
  shows "p = q"
  using assms by (fastforce simp: table_wf_def same_id_def)

lemma table_size_word:
  assumes "table_wf E oid objs ht ps"
  shows "unat (word_of_int (ht_size ht) :: 32 word) = length (ht_nodes ht)" "(word_of_int (ht_size ht) :: 32 word) \<noteq> 0"
proof -
  have "0 < ht_size ht" "ht_size ht < 2 ^ 32" "length (ht_nodes ht) = nat (ht_size ht)"
    using assms by (auto simp: table_wf_def)
  then show u: "unat (word_of_int (ht_size ht) :: 32 word) = length (ht_nodes ht)"
    by (simp add: unsigned_of_int take_bit_int_eq_self flip: nat_take_bit_eq)
  then show "(word_of_int (ht_size ht) :: 32 word) \<noteq> 0"
    using \<open>0 < ht_size ht\<close> \<open>length (ht_nodes ht) = nat (ht_size ht)\<close> by (metis length_greater_0_conv nat_eq_iff not_less_iff_gr_or_eq unat_0 zero_less_nat_eq list.size(3))
qed

lemma table_distinct: "table_wf E oid objs ht ps \<Longrightarrow> ch \<in> set (ht_nodes ht) \<Longrightarrow> distinct (map snd ch)"
  by (simp add: table_wf_def)

lemma in_set_update: "x \<in> set (xs[i := y]) \<Longrightarrow> x = y \<or> x \<in> set xs"
  using set_update_subset_insert [of xs i y] by blast

text \<open>A table to which an object is added at the front of its chain, and one that loses an object.\<close>

lemma table_insert:
  assumes t: "table_wf E oid objs ht ps" and p: "p \<notin> set ps" "objs p = Some ob" "oid ob \<noteq> None"
    and k: "nl_object_keygen E ob (word_of_int (ht_size ht)) = Some k" "unat k < length (ht_nodes ht)"
    and new: "\<forall>q \<in> set ps. oid (the (objs q)) \<noteq> oid ob"
  shows "table_wf E oid objs (set_chain ht k ((k, p) # ht_nodes ht ! unat k)) (ps @ [p])"
  unfolding table_wf_def
proof (intro conjI ballI allI impI)
  let ?ht = "set_chain ht k ((k, p) # ht_nodes ht ! unat k)"
  have sz: "ht_size ?ht = ht_size ht" "length (ht_nodes ?ht) = length (ht_nodes ht)"
    by (simp_all add: set_chain_def)
  then show "0 < ht_size ?ht" "ht_size ?ht \<le> INT_MAX" "length (ht_nodes ?ht) = nat (ht_size ?ht)"
    using t by (simp_all add: table_wf_def)
  show "case x of (l, q) \<Rightarrow> q \<in> set (ps @ [p]) \<and> unat l = i
      \<and> (\<exists>ob. objs q = Some ob \<and> nl_object_keygen E ob (word_of_int (ht_size ?ht)) = Some l)"
    if "i < length (ht_nodes ?ht)" "x \<in> set (ht_nodes ?ht ! i)" for i x
    using that p k table_nodes [OF t, of i "fst x" "snd x"] sz
    by (cases x; cases "i = unat k") (auto simp: set_chain_def)
  show "\<exists>ob l. objs q = Some ob \<and> oid ob \<noteq> None
      \<and> nl_object_keygen E ob (word_of_int (ht_size ?ht)) = Some l \<and> (l, q) \<in> set (ht_nodes ?ht ! unat l)"
    if "q \<in> set (ps @ [p])" for q
  proof (cases "q = p")
    case True
    then show ?thesis using p k sz by (auto simp: set_chain_def)
  next
    case False
    then have "q \<in> set ps" using that by simp
    then obtain a l where a: "objs q = Some a" "oid a \<noteq> None"
        "nl_object_keygen E a (word_of_int (ht_size ht)) = Some l" "(l, q) \<in> set (ht_nodes ht ! unat l)"
      by (rule table_item [OF t])
    moreover have "(l, q) \<in> set (ht_nodes ?ht ! unat l)"
      using a(4) k(2) by (cases "unat l = unat k") (auto simp: set_chain_def)
    ultimately show ?thesis using sz by metis
  qed
  show "distinct (map snd ch)" if "ch \<in> set (ht_nodes ?ht)" for ch
  proof -
    note d = table_distinct [OF t]
    have "p \<notin> snd ` set (ht_nodes ht ! unat k)"
      using table_nodes(1) [OF t k(2)] p(1) by force
    then have "distinct (map snd ((k, p) # ht_nodes ht ! unat k))"
      using d [OF nth_mem [OF k(2)]] by simp
    then show ?thesis
      using that d by (auto simp: set_chain_def dest!: in_set_update)
  qed
  show "q = r" if "q \<in> set (ps @ [p])" "r \<in> set (ps @ [p])" "oid (the (objs q)) = oid (the (objs r))" for q r
    using that t new p(2) by (fastforce simp: table_wf_def)
qed

lemma table_remove:
  assumes t: "table_wf E oid objs ht (xs @ p # ys)" and d: "distinct (xs @ p # ys)"
    and k: "unat k < length (ht_nodes ht)" "ht_nodes ht ! unat k = l @ (k, p) # r"
  shows "table_wf E oid objs (set_chain ht k (l @ r)) (xs @ ys)"
  unfolding table_wf_def
proof (intro conjI ballI allI impI)
  let ?ht = "set_chain ht k (l @ r)"
  have sz: "ht_size ?ht = ht_size ht" "length (ht_nodes ?ht) = length (ht_nodes ht)"
    by (simp_all add: set_chain_def)
  then show "0 < ht_size ?ht" "ht_size ?ht \<le> INT_MAX" "length (ht_nodes ?ht) = nat (ht_size ?ht)"
    using t by (simp_all add: table_wf_def)
  have dk: "distinct (map snd (l @ (k, p) # r))"
    using table_distinct [OF t nth_mem [OF k(1)]] k(2) by simp
  show "case x of (j, q) \<Rightarrow> q \<in> set (xs @ ys) \<and> unat j = i
      \<and> (\<exists>ob. objs q = Some ob \<and> nl_object_keygen E ob (word_of_int (ht_size ?ht)) = Some j)"
    if "i < length (ht_nodes ?ht)" "x \<in> set (ht_nodes ?ht ! i)" for i x
  proof -
    obtain j q where x: "x = (j, q)" by fastforce
    have i: "i < length (ht_nodes ht)" using that sz by simp
    have m: "(j, q) \<in> set (ht_nodes ht ! i)"
      using that x k by (cases "i = unat k") (auto simp: set_chain_def)
    note n = table_nodes [OF t i m]
    have "q \<noteq> p"
    proof
      assume "q = p"
      obtain a where "objs p = Some a" "nl_object_keygen E a (word_of_int (ht_size ht)) = Some k"
        using table_nodes(3) [OF t k(1)] k(2) by force
      then have "j = k" using n(3) \<open>q = p\<close> by auto
      then have "(k, p) \<in> set (l @ r)" using that x n(2) k \<open>q = p\<close> by (auto simp: set_chain_def)
      then show False using dk by force
    qed
    then show ?thesis using n x sz by auto
  qed
  show "\<exists>ob j. objs q = Some ob \<and> oid ob \<noteq> None
      \<and> nl_object_keygen E ob (word_of_int (ht_size ?ht)) = Some j \<and> (j, q) \<in> set (ht_nodes ?ht ! unat j)"
    if "q \<in> set (xs @ ys)" for q
  proof -
    have "q \<in> set (xs @ p # ys)" using that by auto
    then obtain a j where a: "objs q = Some a" "oid a \<noteq> None"
        "nl_object_keygen E a (word_of_int (ht_size ht)) = Some j" "(j, q) \<in> set (ht_nodes ht ! unat j)"
      by (rule table_item [OF t])
    have "q \<noteq> p" using that d by auto
    then have "(j, q) \<in> set (ht_nodes ?ht ! unat j)"
      using a(4) k by (cases "unat j = unat k") (auto simp: set_chain_def)
    then show ?thesis using a sz by metis
  qed
  show "distinct (map snd ch)" if "ch \<in> set (ht_nodes ?ht)" for ch
  proof -
    have "distinct (map snd (l @ r))" using dk by auto
    then show ?thesis
      using that table_distinct [OF t] by (auto simp: set_chain_def dest!: in_set_update)
  qed
  show "q = r" if "q \<in> set (xs @ ys)" "r \<in> set (xs @ ys)" "oid (the (objs q)) = oid (the (objs r))" for q r
    using that t by (fastforce simp: table_wf_def)
qed

lemma table_empty:
  "0 < sz \<Longrightarrow> sz \<le> INT_MAX \<Longrightarrow> nl_hash_table_alloc mal sz = Some ht \<Longrightarrow> table_wf E oid objs ht []"
  by (auto simp: table_wf_def nl_hash_table_alloc_def split: if_splits)

section \<open>Searching\<close>

text \<open>The object of a list that is identical to a given one.\<close>

definition find_id :: "('d nl_object \<Rightarrow> 'k option) \<Rightarrow> 'd nlstate \<Rightarrow> nat list \<Rightarrow> 'd nl_object \<Rightarrow> nat option" where
  "find_id oid s ps ob = find (\<lambda>q. same_id oid (the (nobjs s q)) ob) ps"

lemma find_id_None: "find_id oid s ps ob = None \<longleftrightarrow> (\<forall>q \<in> set ps. \<not> same_id oid (the (nobjs s q)) ob)"
  by (auto simp: find_id_def find_None_iff)

lemma find_id_Some: "find_id oid s ps ob = Some q \<Longrightarrow> q \<in> set ps \<and> same_id oid (the (nobjs s q)) ob"
  by (auto simp: find_id_def find_Some_iff)

lemma entries_map [simp]: "entries (map Obj ps) = Some ps"
  by (induction ps) auto

lemma cache_wf_entries: "cache_wf E good oid s c ca ps \<Longrightarrow> cache_entries s c = Some ps"
  by (auto simp: cache_wf_def cache_entries_def dest: nl_list_for_each)

lemma cache_wf_item:
  assumes "cache_wf E good oid s c ca ps" "p \<in> set ps"
  obtains ob where "nobjs s p = Some ob" "ce_cache ob = Some c" "ce_ops ob = co_obj_ops (e_cops E (c_ops ca))" "good ob"
  using assms by (auto simp: cache_wf_def)

lemma cache_wf_list: "cache_wf E good oid s c ca ps \<Longrightarrow> nl_list (nlinks s) (Items c) (map Obj ps)"
  by (simp add: cache_wf_def)

lemma cache_wf_table: "cache_wf E good oid s c ca ps \<Longrightarrow> hashtable ca = Some ht \<Longrightarrow> table_wf E oid (nobjs s) ht ps"
  by (simp add: cache_wf_def)

lemma cache_wf_good: "cache_wf E good oid s c ca ps \<Longrightarrow> \<forall>p \<in> set ps. \<exists>n. nobjs s p = Some n \<and> good n"
  by (metis cache_wf_item)

lemma cache_wf_distinct: "cache_wf E good oid s c ca ps \<Longrightarrow> distinct ps"
  by (auto simp: cache_wf_def nl_list_def distinct_map)

context object_kinds
begin

lemma chain_search_absent:
  "good ob \<Longrightarrow> \<forall>(k, q) \<in> set ch. \<exists>n. nobjs s q = Some n \<and> good n \<and> \<not> same_id oid n ob \<Longrightarrow>
   chain_search E s ch ob = Some None"
  by (induction ch) (auto simp: identical_oid)

lemma chain_search_present:
  "good ob \<Longrightarrow> nobjs s q = Some n \<Longrightarrow> good n \<Longrightarrow> same_id oid n ob \<Longrightarrow>
   \<forall>(k, q) \<in> set l. \<exists>n. nobjs s q = Some n \<and> good n \<and> \<not> same_id oid n ob \<Longrightarrow>
   chain_search E s (l @ (k, q) # r) ob = Some (Some (length l))"
  by (induction l) (auto simp: identical_oid)

lemma table_key:
  assumes t: "table_wf E oid objs ht ps" and g: "good ob"
  obtains k where "nl_object_keygen E ob (word_of_int (ht_size ht)) = Some k" "unat k < length (ht_nodes ht)"
    "ht_chain ht k = Some (ht_nodes ht ! unat k)"
proof -
  obtain k where k: "k < word_of_int (ht_size ht)" "nl_object_keygen E ob (word_of_int (ht_size ht)) = Some k"
    using key_range [OF g table_size_word(2) [OF t]] by auto
  then have "unat k < length (ht_nodes ht)"
    using table_size_word(1) [OF t] by (simp add: word_less_nat_alt)
  then show thesis using that k by (simp add: ht_chain_def)
qed

lemma table_search:
  assumes t: "table_wf E oid (nobjs s) ht ps" and items: "\<forall>p \<in> set ps. \<exists>n. nobjs s p = Some n \<and> good n"
    and g: "good ob" and k: "nl_object_keygen E ob (word_of_int (ht_size ht)) = Some k" "unat k < length (ht_nodes ht)"
  shows "find_id oid s ps ob = None \<Longrightarrow> chain_search E s (ht_nodes ht ! unat k) ob = Some None"
    and "q \<in> set ps \<Longrightarrow> same_id oid (the (nobjs s q)) ob \<Longrightarrow>
      \<exists>l r. ht_nodes ht ! unat k = l @ (k, q) # r \<and> chain_search E s (ht_nodes ht ! unat k) ob = Some (Some (length l))"
proof -
  have node: "p \<in> set ps \<and> (\<exists>n. nobjs s p = Some n \<and> good n)" if "(j, p) \<in> set (ht_nodes ht ! unat k)" for j p
    using table_nodes(1) [OF t k(2) that] items by auto
  show "chain_search E s (ht_nodes ht ! unat k) ob = Some None" if "find_id oid s ps ob = None"
    by (rule chain_search_absent [OF g]) (use node that in \<open>fastforce simp: find_id_None\<close>)
  assume q: "q \<in> set ps" "same_id oid (the (nobjs s q)) ob"
  then obtain n where n: "nobjs s q = Some n" "good n" using items by auto
  obtain a j where j: "nobjs s q = Some a" "nl_object_keygen E a (word_of_int (ht_size ht)) = Some j"
      "(j, q) \<in> set (ht_nodes ht ! unat j)"
    by (rule table_item [OF t q(1)])
  have "j = k" using key_oid [OF n(2) g, of "word_of_int (ht_size ht)"] q(2) n(1) j k(1) by simp
  then obtain l r where lr: "ht_nodes ht ! unat k = l @ (k, q) # r"
    using j(3) split_list by fast
  have "\<not> same_id oid m ob" if "(i, p) \<in> set l" "nobjs s p = Some m" for i p m
  proof
    assume "same_id oid m ob"
    then have "same_id oid m n" using q(2) n by (auto intro: same_id_trans)
    moreover have "p \<in> set ps" using node that lr by auto
    ultimately have "p = q" using table_ids [OF t _ q(1) that(2) n(1)] by blast
    moreover have "distinct (map snd (ht_nodes ht ! unat k))"
      using table_distinct [OF t nth_mem [OF k(2)]] .
    ultimately show False using that(1) lr by force
  qed
  then have "chain_search E s (l @ (k, q) # r) ob = Some (Some (length l))"
    using node lr q(2) n g by (intro chain_search_present) fastforce+
  then show "\<exists>l r. ht_nodes ht ! unat k = l @ (k, q) # r
      \<and> chain_search E s (ht_nodes ht ! unat k) ob = Some (Some (length l))"
    using lr by auto
qed

lemma hash_lookup_find:
  assumes t: "table_wf E oid (nobjs s) ht ps" and items: "\<forall>p \<in> set ps. \<exists>n. nobjs s p = Some n \<and> good n"
    and p: "nobjs s p = Some ob" "good ob"
  shows "nl_hash_table_lookup E s ht p = Some (find_id oid s ps ob)"
proof -
  obtain k where k: "nl_object_keygen E ob (word_of_int (ht_size ht)) = Some k" "unat k < length (ht_nodes ht)"
      "ht_chain ht k = Some (ht_nodes ht ! unat k)"
    by (rule table_key [OF t p(2)])
  show ?thesis
  proof (cases "find_id oid s ps ob")
    case None
    then show ?thesis
      using table_search(1) [OF t items p(2) k(1,2)] p(1) k by (simp add: nl_hash_table_lookup_def)
  next
    case (Some q)
    then obtain l r where "ht_nodes ht ! unat k = l @ (k, q) # r"
        "chain_search E s (ht_nodes ht ! unat k) ob = Some (Some (length l))"
      using table_search(2) [OF t items p(2) k(1,2)] find_id_Some by blast
    then show ?thesis using Some p(1) k by (simp add: nl_hash_table_lookup_def)
  qed
qed

lemma first_passing_find:
  "\<forall>p \<in> set ps. \<exists>n. nobjs s p = Some n \<and> good n \<Longrightarrow> nobjs s p = Some ob \<Longrightarrow> good ob \<Longrightarrow>
   first_passing (identical_to E s p) ps = Some (find_id oid s ps ob)"
  by (induction ps) (auto simp: identical_to_def identical_oid find_id_def)

lemma cache_search_eq:
  assumes w: "cache_wf E good oid s c ca ps" and c: "ncaches s c = Some ca"
    and p: "nobjs s p = Some ob" "good ob"
  shows "nl_cache_search E c p s = found (find_id oid s ps ob) s"
proof -
  note items = cache_wf_good [OF w]
  show ?thesis
  proof (cases "hashtable ca")
    case None
    then show ?thesis
      using c cache_wf_entries [OF w] first_passing_find [OF items p] by (simp add: nl_cache_search_def)
  next
    case (Some ht)
    then have "table_wf E oid (nobjs s) ht ps" using w by (simp add: cache_wf_def)
    then show ?thesis
      using Some c hash_lookup_find [OF _ items p] by (simp add: nl_cache_search_def cache_fast_lookup_def)
  qed
qed

end

section \<open>Keeping the invariant\<close>

lemma nl_inv_disjoint:
  assumes inv: "nl_inv E good oid s A" and d: "ncaches s c = Some ca" "ncaches s e = Some ea" "p \<in> set (A c)" "p \<in> set (A e)"
  shows "c = e"
proof -
  obtain a b where "nobjs s p = Some a" "ce_cache a = Some c" "nobjs s p = Some b" "ce_cache b = Some e"
    by (metis cache_wf_item [OF nl_inv_cache [OF inv d(1)] d(3)] cache_wf_item [OF nl_inv_cache [OF inv d(2)] d(4)])
  then show ?thesis by simp
qed

context object_kinds
begin

lemma cache_wf_frame:
  assumes w: "cache_wf E good oid s c ca ps"
    and l: "\<forall>r \<in> insert (Items c) (Obj ` set ps). lnext (nlinks s') r = lnext (nlinks s) r \<and> lprev (nlinks s') r = lprev (nlinks s) r"
    and v: "\<forall>p \<in> set ps. \<forall>a. nobjs s p = Some a \<longrightarrow> (\<exists>b. nobjs s' p = Some b \<and> view b = view a \<and> ce_cache b = ce_cache a)"
  shows "cache_wf E good oid s' c ca ps"
proof -
  have items: "\<exists>b. nobjs s' p = Some b \<and> ce_cache b = Some c \<and> ce_ops b = co_obj_ops (e_cops E (c_ops ca)) \<and> good b"
    if p: "p \<in> set ps" for p
  proof -
    obtain a where a: "nobjs s p = Some a" "ce_cache a = Some c" "ce_ops a = co_obj_ops (e_cops E (c_ops ca))" "good a"
      by (rule cache_wf_item [OF w p])
    then obtain b where "nobjs s' p = Some b" "view b = view a" "ce_cache b = ce_cache a"
      using v p by blast
    then show ?thesis using a view_only [of b a] by (auto simp: view_def)
  qed
  have "table_wf E oid (nobjs s') ht ps" if h: "hashtable ca = Some ht" for ht
  proof (rule table_wf_frame_aux)
    show "table_wf E oid (nobjs s) ht ps" using w h by (simp add: cache_wf_def)
    show "\<forall>p\<in>set ps. \<exists>a b. nobjs s p = Some a \<and> nobjs s' p = Some b \<and> oid b = oid a
        \<and> (\<forall>sz. nl_object_keygen E b sz = nl_object_keygen E a sz)"
    proof
      fix p assume p: "p \<in> set ps"
      obtain a where a: "nobjs s p = Some a" by (rule cache_wf_item [OF w p])
      then obtain b where "nobjs s' p = Some b" "view b = view a"
        using v p by blast
      then show "\<exists>a b. nobjs s p = Some a \<and> nobjs s' p = Some b \<and> oid b = oid a
          \<and> (\<forall>sz. nl_object_keygen E b sz = nl_object_keygen E a sz)"
        using a view_only [of b a] by auto
    qed
  qed
  moreover have "nl_list (nlinks s') (Items c) (map Obj ps)"
    by (rule nl_list_frame [OF cache_wf_list [OF w]]) (use l in auto)
  ultimately show ?thesis
    using w items by (simp add: cache_wf_def)
qed

text \<open>A step that changes one object and the cache it enters or leaves.\<close>

lemma nl_inv_step:
  assumes inv: "nl_inv E good oid s A"
    and objs: "\<forall>q. q \<noteq> p \<longrightarrow> nobjs s' q = nobjs s q"
    and caches: "\<forall>d. d \<noteq> c \<longrightarrow> ncaches s' d = ncaches s d"
    and c: "ncaches s c = Some ca" "ncaches s' c = Some ca'" "refs_held ca' = refs_held ca"
    and w: "cache_wf E good oid s' c ca' ps'"
    and p: "\<forall>d. d \<noteq> c \<longrightarrow> ncaches s d \<noteq> None \<longrightarrow> p \<notin> set (A d)" "p < nnext s"
      "\<forall>ob. nobjs s' p = Some ob \<longrightarrow> obj_wf s' (A(c := ps')) p ob"
    and m: "\<forall>q \<in> set (A c). q \<noteq> p \<longrightarrow> q \<in> set ps'"
    and l: "\<forall>r. r \<notin> insert (Items c) (Obj ` insert p (set (A c))) \<longrightarrow>
        lnext (nlinks s') r = lnext (nlinks s) r \<and> lprev (nlinks s') r = lprev (nlinks s) r"
      "\<forall>r. r \<noteq> Obj p \<longrightarrow> is_node (nlinks s') r = is_node (nlinks s) r"
    and n: "nnext s' = nnext s"
  shows "nl_inv E good oid s' (A(c := ps'))"
  unfolding nl_inv_def
proof (intro conjI allI impI)
  fix d da
  assume d: "ncaches s' d = Some da"
  show "cache_wf E good oid s' d da ((A(c := ps')) d)"
  proof (cases "d = c")
    case True
    then show ?thesis using w c d by simp
  next
    case False
    then have sd: "ncaches s d = Some da" using caches d by simp
    have other: "q \<noteq> p \<and> q \<notin> set (A c)" if "q \<in> set (A d)" for q
      using p(1) sd False that nl_inv_disjoint [OF inv sd c(1)] by auto
    have "cache_wf E good oid s' d da (A d)"
      by (rule cache_wf_frame [OF nl_inv_cache [OF inv sd]]) (use other objs l(1) False in auto)
    then show ?thesis using False by simp
  qed
next
  fix q ob
  assume q: "nobjs s' q = Some ob"
  show "obj_wf s' (A(c := ps')) q ob"
  proof (cases "q = p")
    case True
    then show ?thesis using p(3) q by simp
  next
    case False
    then have o1: "obj_wf s A q ob" using nl_inv_obj [OF inv] objs q by simp
    have "held s' ob = held s ob"
      using c caches by (auto simp: held_def split: option.splits) (metis option.inject option.distinct(1))+
    then show ?thesis
      using o1 False l(2) caches c m by (fastforce simp: obj_wf_def)
  qed
next
  fix a assume a: "nnext s' \<le> a"
  then have "nobjs s a = None" "ncaches s a = None" using inv n by (auto simp: nl_inv_def)
  then show "nobjs s' a = None" "ncaches s' a = None"
    using a n p(2) objs caches c(1) by (metis not_less, metis option.distinct(1))
qed

end

section \<open>Adding to a cache\<close>

text \<open>An object that is in no cache may enter the cache \<open>c\<close>.\<close>

definition may_add :: "'d nlenv \<Rightarrow> ('d nl_object \<Rightarrow> bool) \<Rightarrow> 'd nlstate \<Rightarrow> nat \<Rightarrow> nl_cache \<Rightarrow> nat \<Rightarrow> 'd nl_object \<Rightarrow> bool" where
  "may_add E good s c ca p ob \<longleftrightarrow>
     ncaches s c = Some ca \<and> c_nitems ca < INT_MAX \<and> nobjs s p = Some ob \<and> ce_cache ob = None
   \<and> ce_ops ob = co_obj_ops (e_cops E (c_ops ca)) \<and> good ob \<and> ce_refcnt ob < INT_MAX"

text \<open>The object as a member of the cache.\<close>

definition member :: "nat \<Rightarrow> nl_cache \<Rightarrow> 'd nl_object \<Rightarrow> 'd nl_object" where
  "member c ca ob = ob\<lparr>ce_cache := Some c, ce_refcnt := ce_refcnt ob + refs_held ca - 1\<rparr>"

text \<open>The object \<open>p\<close> was put at the end of \<open>c\<close>; nothing else changed.\<close>

definition added :: "'d nlstate \<Rightarrow> nat \<Rightarrow> nl_cache \<Rightarrow> nat \<Rightarrow> 'd nl_object \<Rightarrow> 'd nlstate \<Rightarrow> bool" where
  "added s c ca p ob s' \<longleftrightarrow>
     nobjs s' = (nobjs s)(p \<mapsto> member c ca ob)
   \<and> (\<exists>ht. (ht = None \<longleftrightarrow> hashtable ca = None)
         \<and> ncaches s' = (ncaches s)(c \<mapsto> ca\<lparr>hashtable := ht, c_nitems := c_nitems ca + 1\<rparr>))
   \<and> nnext s' = nnext s \<and> nlog s' = nlog s"

lemma view_member [simp]: "view (member c ca ob) = view ob"
  by (simp add: view_def member_def)

lemma view_update [simp]: "view (ob\<lparr>ce_refcnt := n\<rparr>) = view ob" "view (ob\<lparr>ce_cache := x\<rparr>) = view ob"
  by (simp_all add: view_def)

lemma not_member:
  assumes "nl_inv E good oid s A" "ncaches s d = Some da" "nobjs s p = Some ob" "ce_cache ob \<noteq> Some d"
  shows "p \<notin> set (A d)"
  using assms by (metis cache_wf_item nl_inv_cache option.inject)

lemma live_below: "nl_inv E good oid s A \<Longrightarrow> nobjs s p = Some ob \<Longrightarrow> p < nnext s"
  unfolding nl_inv_def by (metis not_less option.distinct(1))

context object_kinds
begin

lemma cache_add_tail:
  assumes inv: "nl_inv E good oid s A" and a: "may_add E good s c ca p ob"
    and s1: "nobjs s1 = (nobjs s)(p \<mapsto> member c ca ob)" "ncaches s1 = (ncaches s)(c \<mapsto> ca\<lparr>hashtable := ht'\<rparr>)"
      "nlinks s1 = nlinks s" "nnext s1 = nnext s"
    and ht: "ht' = None \<longleftrightarrow> hashtable ca = None"
      "\<forall>ht. ht' = Some ht \<longrightarrow> table_wf E oid (nobjs s1) ht (A c @ [p])"
  obtains L where "nl_list_add_tail (Obj p) (Items c) (nlinks s1) = Some L"
    "nl_inv E good oid (set_cache c (ca\<lparr>hashtable := ht', c_nitems := c_nitems ca + 1\<rparr>) (s1\<lparr>nlinks := L\<rparr>)) (A(c := A c @ [p]))"
proof -
  have c: "ncaches s c = Some ca" and p: "nobjs s p = Some ob" "ce_cache ob = None"
    using a by (auto simp: may_add_def)
  note w = nl_inv_cache [OF inv c] and wo = nl_inv_obj [OF inv p(1)]
  have pA: "p \<notin> set (A d)" if "ncaches s d \<noteq> None" for d
    using not_member [OF inv _ p(1)] that p(2) by auto
  then have pc: "p \<notin> set (A c)" using c by simp
  have n: "is_node (nlinks s) (Obj p)" "Obj p \<notin> set (Items c # map Obj (A c))"
    using wo pc by (auto simp: obj_wf_def)
  obtain L where L: "nl_list_add_tail (Obj p) (Items c) (nlinks s) = Some L"
      "nl_list L (Items c) (map Obj (A c) @ [Obj p])"
      "\<And>r. r \<notin> set (Items c # Obj p # map Obj (A c)) \<Longrightarrow> lnext L r = lnext (nlinks s) r \<and> lprev L r = lprev (nlinks s) r"
      "\<And>r. is_node L r = is_node (nlinks s) r"
    using nl_list_add_tail_correct [OF cache_wf_list [OF w] n] by metis
  let ?ca = "ca\<lparr>hashtable := ht', c_nitems := c_nitems ca + 1\<rparr>"
  let ?s = "set_cache c ?ca (s1\<lparr>nlinks := L\<rparr>)"
  have rh: "refs_held ?ca = refs_held ca" using ht(1) by (simp add: refs_held_def)
  have m: "ce_cache (member c ca ob) = Some c" "ce_ops (member c ca ob) = co_obj_ops (e_cops E (c_ops ca))"
    "good (member c ca ob)"
    using a view_only [of "member c ca ob" ob] by (auto simp: may_add_def member_def)
  have "nl_inv E good oid ?s (A(c := A c @ [p]))"
  proof (rule nl_inv_step [OF inv])
    have "\<exists>b. nobjs s1 q = Some b \<and> ce_cache b = Some c \<and> ce_ops b = co_obj_ops (e_cops E (c_ops ca)) \<and> good b"
      if "q \<in> set (A c @ [p])" for q
      using that m s1(1) cache_wf_item [OF w, of q] by (cases "q = p") auto
    then show "cache_wf E good oid ?s c ?ca (A c @ [p])"
      using L(2) w ht(2) a by (simp add: cache_wf_def set_cache_def may_add_def)
    have "obj_wf ?s (A(c := A c @ [p])) p (member c ca ob)"
      using wo a L(4) n rh by (auto simp: obj_wf_def held_def set_cache_def member_def refs_held_def may_add_def)
    then show "\<forall>ob. nobjs ?s p = Some ob \<longrightarrow> obj_wf ?s (A(c := A c @ [p])) p ob"
      using s1(1) by (simp add: set_cache_def)
  qed (use s1 c rh pA live_below [OF inv p(1)] L(3,4) in \<open>auto simp: set_cache_def\<close>)
  then show thesis using that L(1) s1(3) by simp
qed

end

lemma set_obj_back: "nobjs s p = Some ob \<Longrightarrow> ce_cache ob = None \<Longrightarrow>
    set_obj p (ob\<lparr>ce_cache := None\<rparr>) (set_obj p x s) = s"
  by (cases s; cases ob) (auto simp: set_obj_def)

lemma find_id_cong:
  "\<forall>q \<in> set ps. nobjs s' q = nobjs s q \<Longrightarrow> oid a = oid b \<Longrightarrow> find_id oid s' ps a = find_id oid s ps b"
  unfolding find_id_def same_id_def by (induction ps) auto

context object_kinds
begin

lemma cache_add_list:
  assumes inv: "nl_inv E good oid s A" and a: "may_add E good s c ca p ob" and h: "hashtable ca = None"
  obtains s' where "cache_add E c p s = Some (0, s')" "added s c ca p ob s'" "nl_inv E good oid s' (A(c := A c @ [p]))"
proof -
  have c: "ncaches s c = Some ca" and p: "nobjs s p = Some ob" using a by (auto simp: may_add_def)
  let ?s = "set_obj p (ob\<lparr>ce_cache := Some c\<rparr>) s"
  have m: "member c ca ob = ob\<lparr>ce_cache := Some c\<rparr>" using h by (simp add: member_def refs_held_def)
  have ca: "ca\<lparr>hashtable := None\<rparr> = ca" using h by simp
  obtain L where L: "nl_list_add_tail (Obj p) (Items c) (nlinks ?s) = Some L"
      "nl_inv E good oid (set_cache c (ca\<lparr>hashtable := None, c_nitems := c_nitems ca + 1\<rparr>) (?s\<lparr>nlinks := L\<rparr>)) (A(c := A c @ [p]))"
    by (rule cache_add_tail [OF inv a, of ?s None]) (use m ca c h in \<open>auto simp: set_obj_def\<close>)
  have "cache_add E c p s = Some (0, set_cache c (ca\<lparr>c_nitems := c_nitems ca + 1\<rparr>) (?s\<lparr>nlinks := L\<rparr>))"
    using L(1) c p h a nl_inv_cache [OF inv c]
    by (simp add: cache_add_def set_obj_def c_int_ok_def may_add_def cache_wf_def)
  moreover have "added s c ca p ob (set_cache c (ca\<lparr>c_nitems := c_nitems ca + 1\<rparr>) (?s\<lparr>nlinks := L\<rparr>))"
    using m h ca by (auto simp: added_def set_cache_def set_obj_def intro!: exI [of _ None])
  ultimately show thesis using that L(2) ca by simp
qed

lemma cache_add_hash:
  assumes inv: "nl_inv E good oid s A" and a: "may_add E good s c ca p ob" and h: "hashtable ca = Some ht"
    and id: "oid ob \<noteq> None"
  shows "find_id oid s (A c) ob \<noteq> None \<Longrightarrow> cache_add E c p s = Some (- NLE_EXIST, s)"
    and "find_id oid s (A c) ob = None \<Longrightarrow> \<not> e_mal E 24 \<Longrightarrow> cache_add E c p s = Some (- NLE_NOMEM, s)"
    and "find_id oid s (A c) ob = None \<Longrightarrow> e_mal E 24 \<Longrightarrow>
      \<exists>s'. cache_add E c p s = Some (0, s') \<and> added s c ca p ob s' \<and> nl_inv E good oid s' (A(c := A c @ [p]))"
proof -
  have c: "ncaches s c = Some ca" and p: "nobjs s p = Some ob" "ce_cache ob = None" "good ob"
    using a by (auto simp: may_add_def)
  note w = nl_inv_cache [OF inv c]
  have pc: "p \<notin> set (A c)" using not_member [OF inv c p(1)] p(2) by simp
  define ob1 where "ob1 = ob\<lparr>ce_cache := Some c\<rparr>"
  define s1 where "s1 = set_obj p ob1 s"
  have v1: "good ob1" "oid ob1 = oid ob" "\<And>sz. nl_object_keygen E ob1 sz = nl_object_keygen E ob sz"
    using view_only [of ob1 ob] p(3) by (auto simp: ob1_def)
  have s1: "nobjs s1 p = Some ob1" "ncaches s1 = ncaches s" "nlinks s1 = nlinks s" "nnext s1 = nnext s" "nlog s1 = nlog s"
    by (simp_all add: s1_def set_obj_def)
  have items: "\<forall>q \<in> set (A c). \<exists>n. nobjs s1 q = Some n \<and> good n"
    using cache_wf_good [OF w] pc by (auto simp: s1_def set_obj_def)
  have t: "table_wf E oid (nobjs s1) ht (A c)"
    by (rule table_wf_frame_aux [OF cache_wf_table [OF w h]])
      (use pc cache_wf_good [OF w] in \<open>auto simp: s1_def set_obj_def\<close>)
  have f: "find_id oid s1 (A c) ob1 = find_id oid s (A c) ob"
    by (rule find_id_cong) (use pc v1 in \<open>auto simp: s1_def set_obj_def\<close>)
  obtain k where k: "nl_object_keygen E ob1 (word_of_int (ht_size ht)) = Some k" "unat k < length (ht_nodes ht)"
      "ht_chain ht k = Some (ht_nodes ht ! unat k)"
    by (rule table_key [OF t v1(1)])
  note search = table_search [OF t items v1(1) k(1,2)]
  have start: "cache_add E c p s = do {
      (ret, s) \<leftarrow> do {
        (ret, ht, s) \<leftarrow> nl_hash_table_add E ht p s1;
        if ret < 0 then do { ob \<leftarrow> nobjs s p; Some (ret, set_obj p (ob\<lparr>ce_cache := None\<rparr>) s) }
        else Some (ret, set_cache c (ca\<lparr>hashtable := Some ht\<rparr>) s) };
      if ret < 0 then Some (ret, s)
      else do {
        L \<leftarrow> nl_list_add_tail (Obj p) (Items c) (nlinks s);
        ca \<leftarrow> ncaches s c;
        c_assert (c_int_ok (c_nitems ca + 1));
        Some (0, set_cache c (ca\<lparr>c_nitems := c_nitems ca + 1\<rparr>) (s\<lparr>nlinks := L\<rparr>)) } }"
    using c p h by (simp add: cache_add_def Let_def s1_def ob1_def set_obj_def)
  have undo: "set_obj p (ob1\<lparr>ce_cache := None\<rparr>) s1 = s"
    using set_obj_back [OF p(1,2)] by (simp add: s1_def ob1_def)
  show "cache_add E c p s = Some (- NLE_EXIST, s)" if dup: "find_id oid s (A c) ob \<noteq> None"
  proof -
    obtain q where "find_id oid s1 (A c) ob1 = Some q"
      using dup f by auto
    then have "q \<in> set (A c)" "same_id oid (the (nobjs s1 q)) ob1"
      using find_id_Some by fast+
    then have "\<exists>i. chain_search E s1 (ht_nodes ht ! unat k) ob1 = Some (Some i)"
      using search(2) by blast
    then show ?thesis
      using start s1 k undo by (auto simp: nl_hash_table_add_def)
  qed
  show "cache_add E c p s = Some (- NLE_NOMEM, s)" if "find_id oid s (A c) ob = None" "\<not> e_mal E 24"
    using that f start s1 k undo search(1) by (auto simp: nl_hash_table_add_def)
  assume new: "find_id oid s (A c) ob = None" "e_mal E 24"
  let ?ht = "set_chain ht k ((k, p) # ht_nodes ht ! unat k)"
  define s2 where "s2 = set_cache c (ca\<lparr>hashtable := Some ?ht\<rparr>) (set_obj p (ob1\<lparr>ce_refcnt := ce_refcnt ob1 + 1\<rparr>) s1)"
  have mem: "ob1\<lparr>ce_refcnt := ce_refcnt ob1 + 1\<rparr> = member c ca ob"
    using h by (simp add: ob1_def member_def refs_held_def)
  have ref: "c_int_ok (ce_refcnt ob1 + 1)" "c_int_ok (c_nitems ca + 1)"
    using a w nl_inv_obj [OF inv p(1)] by (auto simp: ob1_def may_add_def obj_wf_def c_int_ok_def cache_wf_def)
  have add: "nl_hash_table_add E ht p s1 = Some (0, ?ht, set_obj p (ob1\<lparr>ce_refcnt := ce_refcnt ob1 + 1\<rparr>) s1)"
    using new f k s1(1) search(1) ref by (simp add: nl_hash_table_add_def nl_object_get_def)
  have s2: "nobjs s2 = (nobjs s)(p \<mapsto> member c ca ob)" "ncaches s2 = (ncaches s)(c \<mapsto> ca\<lparr>hashtable := Some ?ht\<rparr>)"
      "nlinks s2 = nlinks s" "nnext s2 = nnext s" "nlog s2 = nlog s"
    using mem s1 by (auto simp: s2_def s1_def set_obj_def set_cache_def)
  have t2: "table_wf E oid (nobjs s2) ?ht (A c @ [p])"
  proof (rule table_wf_frame_aux)
    have "\<forall>q \<in> set (A c). oid (the (nobjs s1 q)) \<noteq> oid ob1"
      using new(1) f find_id_None [of oid s1 "A c" ob1] id v1(2) by (auto simp: same_id_def)
    then show "table_wf E oid (nobjs s1) ?ht (A c @ [p])"
      using table_insert [OF t pc s1(1) _ k(1,2)] id v1(2) by simp
    show "\<forall>q\<in>set (A c @ [p]). \<exists>a b. nobjs s1 q = Some a \<and> nobjs s2 q = Some b \<and> oid b = oid a
        \<and> (\<forall>sz. nl_object_keygen E b sz = nl_object_keygen E a sz)"
    proof
      fix q assume q: "q \<in> set (A c @ [p])"
      show "\<exists>a b. nobjs s1 q = Some a \<and> nobjs s2 q = Some b \<and> oid b = oid a
        \<and> (\<forall>sz. nl_object_keygen E b sz = nl_object_keygen E a sz)"
        using q items s1 s2(1) view_only [of "member c ca ob" ob1] pc
        by (cases "q = p") (auto simp: s1_def set_obj_def ob1_def)
    qed
  qed
  obtain L where L: "nl_list_add_tail (Obj p) (Items c) (nlinks s2) = Some L"
      "nl_inv E good oid (set_cache c (ca\<lparr>hashtable := Some ?ht, c_nitems := c_nitems ca + 1\<rparr>) (s2\<lparr>nlinks := L\<rparr>)) (A(c := A c @ [p]))"
    by (rule cache_add_tail [OF inv a s2(1-4)]) (use h t2 in auto)
  have "cache_add E c p s = Some (0, set_cache c (ca\<lparr>hashtable := Some ?ht, c_nitems := c_nitems ca + 1\<rparr>) (s2\<lparr>nlinks := L\<rparr>))"
    using start add L(1) ref(2) by (simp add: s2_def set_cache_def)
  moreover have "added s c ca p ob (set_cache c (ca\<lparr>hashtable := Some ?ht, c_nitems := c_nitems ca + 1\<rparr>) (s2\<lparr>nlinks := L\<rparr>))"
    using h s2 by (auto simp: added_def set_cache_def intro!: exI [of _ "Some ?ht"])
  ultimately show "\<exists>s'. cache_add E c p s = Some (0, s') \<and> added s c ca p ob s' \<and> nl_inv E good oid s' (A(c := A c @ [p]))"
    using L(2) by blast
qed

end

section \<open>Removing from a cache\<close>

text \<open>What remains of an object that leaves a cache: nothing when the cache held all references.\<close>

definition outside :: "nl_cache \<Rightarrow> 'd nl_object \<Rightarrow> 'd nl_object option" where
  "outside ca ob =
     (if ce_refcnt ob = refs_held ca then None
      else Some (ob\<lparr>ce_cache := None, ce_refcnt := ce_refcnt ob - refs_held ca\<rparr>))"

definition removed :: "'d nlstate \<Rightarrow> nat \<Rightarrow> nl_cache \<Rightarrow> nat \<Rightarrow> 'd nl_object \<Rightarrow> 'd nlstate \<Rightarrow> bool" where
  "removed s c ca p ob s' \<longleftrightarrow>
     nobjs s' = (nobjs s)(p := outside ca ob)
   \<and> (\<exists>ht. (ht = None \<longleftrightarrow> hashtable ca = None)
         \<and> ncaches s' = (ncaches s)(c \<mapsto> ca\<lparr>hashtable := ht, c_nitems := c_nitems ca - 1\<rparr>))
   \<and> (outside ca ob \<noteq> None \<longrightarrow> lnext (nlinks s') (Obj p) = lnext (nlinks s) (Obj p))
   \<and> (\<forall>q x. nobjs s q = Some x \<longrightarrow> ce_cache x \<noteq> Some c \<longrightarrow> lnext (nlinks s') (Obj q) = lnext (nlinks s) (Obj q))
   \<and> nnext s' = nnext s \<and> nlog s' = nlog s"

context object_kinds
begin

text \<open>The table loses the object, and the object a reference.\<close>

lemma hash_table_del_member:
  assumes t: "table_wf E oid (nobjs s) ht (xs @ p # ys)" and d: "distinct (xs @ p # ys)"
    and items: "\<forall>p \<in> set (xs @ p # ys). \<exists>n. nobjs s p = Some n \<and> good n"
    and p: "nobjs s p = Some ob" "2 \<le> ce_refcnt ob" "ce_refcnt ob \<le> INT_MAX"
  obtains ht' where "nl_hash_table_del E ht p s = Some (0, ht', set_obj p (ob\<lparr>ce_refcnt := ce_refcnt ob - 1\<rparr>) s)"
    "table_wf E oid (nobjs s) ht' (xs @ ys)"
proof -
  have g: "good ob" using items p(1) by auto
  have "oid ob \<noteq> None" using table_item [OF t, of p] p(1) by auto
  then have same: "same_id oid (the (nobjs s p)) ob" using p(1) by (simp add: same_id_def)
  obtain k where k: "nl_object_keygen E ob (word_of_int (ht_size ht)) = Some k" "unat k < length (ht_nodes ht)"
      "ht_chain ht k = Some (ht_nodes ht ! unat k)"
    by (rule table_key [OF t g])
  obtain l r where lr: "ht_nodes ht ! unat k = l @ (k, p) # r"
      "chain_search E s (ht_nodes ht ! unat k) ob = Some (Some (length l))"
    using table_search(2) [OF t items g k(1,2) _ same] by auto
  have put: "nl_object_put_with (nl_object_free_d 2 E) p s = Some (set_obj p (ob\<lparr>ce_refcnt := ce_refcnt ob - 1\<rparr>) s)"
    using p nl_object_put_eq [of E p s] by (simp add: nl_object_put_def c_int_ok_def)
  have "nl_hash_table_del E ht p s
      = Some (0, set_chain ht k (l @ r), set_obj p (ob\<lparr>ce_refcnt := ce_refcnt ob - 1\<rparr>) s)"
    using p(1) k lr put by (simp add: nl_hash_table_del_def nl_hash_table_del_with_def)
  then show thesis using that table_remove [OF t d k(2) lr(1)] by blast
qed

text \<open>The list loses the object: the second half of \<open>nl_cache_remove\<close>.\<close>

lemma cache_remove_list:
  assumes inv: "nl_inv E good oid s A" and c: "ncaches s c = Some ca" and A: "A c = xs @ p # ys"
    and p: "nobjs s p = Some ob"
    and s1: "nobjs s1 = (nobjs s)(p \<mapsto> ob\<lparr>ce_refcnt := ce_refcnt ob - refs_held ca + 1\<rparr>)"
      "ncaches s1 = (ncaches s)(c \<mapsto> ca\<lparr>hashtable := ht'\<rparr>)" "nlinks s1 = nlinks s" "nnext s1 = nnext s" "nlog s1 = nlog s"
    and ht: "ht' = None \<longleftrightarrow> hashtable ca = None" "\<forall>ht. ht' = Some ht \<longrightarrow> table_wf E oid (nobjs s) ht (xs @ ys)"
  obtains s' where "do {
       L \<leftarrow> nl_list_del (Obj p) (nlinks s1);
       let s = s1\<lparr>nlinks := L\<rparr>;
       ob \<leftarrow> nobjs s p;
       s \<leftarrow> nl_object_put E (Some p) (set_obj p (ob\<lparr>ce_cache := None\<rparr>) s);
       ca \<leftarrow> ncaches s c;
       c_assert (c_int_ok (c_nitems ca - 1));
       Some (set_cache c (ca\<lparr>c_nitems := c_nitems ca - 1\<rparr>) s) } = Some s'"
    "removed s c ca p ob s'" "nl_inv E good oid s' (A(c := xs @ ys))"
proof -
  note w = nl_inv_cache [OF inv c] and wo = nl_inv_obj [OF inv p]
  have d: "distinct (xs @ p # ys)" using cache_wf_distinct [OF w] A by simp
  have ob: "ce_cache ob = Some c" using cache_wf_item [OF w, of p] A p by auto
  have cnt: "refs_held ca \<le> ce_refcnt ob" "ce_refcnt ob \<le> INT_MAX" "1 \<le> refs_held ca" "c_nitems ca = 1 + int (length (xs @ ys))"
      "c_nitems ca \<le> INT_MAX"
    using wo w ob c A by (auto simp: obj_wf_def held_def refs_held_def cache_wf_def)
  obtain L where L: "nl_list_del (Obj p) (nlinks s) = Some L" "nl_list L (Items c) (map Obj xs @ map Obj ys)"
      "\<And>r. r \<notin> set (Items c # map Obj xs @ map Obj ys) \<Longrightarrow> lnext L r = lnext (nlinks s) r \<and> lprev L r = lprev (nlinks s) r"
      "\<And>r. is_node L r = is_node (nlinks s) r"
    using nl_list_del_correct [of "nlinks s" "Items c" "map Obj xs" "Obj p" "map Obj ys"] cache_wf_list [OF w] A by auto
  let ?ca = "ca\<lparr>hashtable := ht', c_nitems := c_nitems ca - 1\<rparr>"
  define s' where "s' = s1\<lparr>nobjs := (nobjs s)(p := outside ca ob), ncaches := (ncaches s)(c \<mapsto> ?ca),
      nlinks := (if outside ca ob = None then drop_node (Obj p) L else L)\<rparr>"
  have run: "do { L \<leftarrow> nl_list_del (Obj p) (nlinks s1);
       let s = s1\<lparr>nlinks := L\<rparr>;
       ob \<leftarrow> nobjs s p;
       s \<leftarrow> nl_object_put E (Some p) (set_obj p (ob\<lparr>ce_cache := None\<rparr>) s);
       ca \<leftarrow> ncaches s c;
       c_assert (c_int_ok (c_nitems ca - 1));
       Some (set_cache c (ca\<lparr>c_nitems := c_nitems ca - 1\<rparr>) s) } = Some s'"
  proof (cases "ce_refcnt ob = refs_held ca")
    case True
    then show ?thesis
      using L(1) s1 cnt(3-5) by (simp add: nl_object_put_eq s'_def outside_def release_obj_def set_obj_def set_cache_def c_int_ok_def)
  next
    case False
    then have "refs_held ca < ce_refcnt ob" using cnt(1) by simp
    then show ?thesis
      using False L(1) s1 cnt(2-5) by (simp add: nl_object_put_eq s'_def outside_def set_obj_def set_cache_def c_int_ok_def)
  qed
  have links: "lnext (nlinks s') r = lnext L r \<and> lprev (nlinks s') r = lprev L r" if "r \<noteq> Obj p" for r
    using that by (simp add: s'_def drop_node_def)
  have "lnext (nlinks s') (Obj q) = lnext (nlinks s) (Obj q)" if "nobjs s q = Some x" "ce_cache x \<noteq> Some c" for q x
    using links [of "Obj q"] L(3) [of "Obj q"] not_member [OF inv c that] A by auto
  then have rem: "removed s c ca p ob s'"
    unfolding removed_def using s1(4,5) ht(1) L(3) [of "Obj p"] d by (intro conjI exI [of _ ht']) (auto simp: s'_def)
  have rh: "refs_held ?ca = refs_held ca" using ht(1) by (simp add: refs_held_def)
  have "nl_inv E good oid s' (A(c := xs @ ys))"
  proof (rule nl_inv_step [OF inv])
    have "\<exists>b. nobjs s q = Some b \<and> ce_cache b = Some c \<and> ce_ops b = co_obj_ops (e_cops E (c_ops ca)) \<and> good b"
      if "q \<in> set (xs @ ys)" for q
      using cache_wf_item [OF w, of q] that A by auto
    moreover have "q \<noteq> p" if "q \<in> set (xs @ ys)" for q using that d by auto
    moreover have "table_wf E oid (nobjs s') ht (xs @ ys)" if "ht' = Some ht" for ht
      by (rule table_wf_frame_aux [OF ht(2) [rule_format, OF that]])
        (use calculation in \<open>fastforce simp: s'_def\<close>)
    moreover have "nl_list (nlinks s') (Items c) (map Obj (xs @ ys))"
    proof (rule nl_list_frame [of L])
      show "\<forall>r \<in> insert (Items c) (set (map Obj (xs @ ys))). lnext (nlinks s') r = lnext L r \<and> lprev (nlinks s') r = lprev L r"
        by (intro ballI links) (use d in auto)
    qed (use L(2) in simp)
    ultimately show "cache_wf E good oid s' c ?ca (xs @ ys)"
      using cnt by (auto simp: cache_wf_def s'_def)
    show "\<forall>b. nobjs s' p = Some b \<longrightarrow> obj_wf s' (A(c := xs @ ys)) p b"
      using wo cnt L(4) by (auto simp: s'_def outside_def obj_wf_def held_def is_node_def split: if_splits)
    show "\<forall>r. r \<notin> insert (Items c) (Obj ` insert p (set (A c))) \<longrightarrow>
        lnext (nlinks s') r = lnext (nlinks s) r \<and> lprev (nlinks s') r = lprev (nlinks s) r"
      using links L(3) A by auto
    show "\<forall>r. r \<noteq> Obj p \<longrightarrow> is_node (nlinks s') r = is_node (nlinks s) r"
      using links L(4) by (simp add: is_node_def)
    show "\<forall>d. d \<noteq> c \<longrightarrow> ncaches s d \<noteq> None \<longrightarrow> p \<notin> set (A d)"
      using not_member [OF inv _ p] ob by auto
  qed (use s1 c rh A live_below [OF inv p] in \<open>auto simp: s'_def\<close>)
  then show thesis using that run rem by blast
qed

end

context object_kinds
begin

lemma cache_remove_ok:
  assumes inv: "nl_inv E good oid s A" and c: "ncaches s c = Some ca" and pA: "p \<in> set (A c)" and p: "nobjs s p = Some ob"
  obtains s' where "nl_cache_remove E p s = Some s'" "removed s c ca p ob s'" "nl_inv E good oid s' (A(c := remove1 p (A c)))"
proof -
  note w = nl_inv_cache [OF inv c] and wo = nl_inv_obj [OF inv p]
  obtain xs ys where A: "A c = xs @ p # ys" by (meson pA split_list)
  have d: "distinct (xs @ p # ys)" using cache_wf_distinct [OF w] A by simp
  then have r1: "remove1 p (A c) = xs @ ys" using A by (simp add: remove1_append)
  have ob: "ce_cache ob = Some c" using cache_wf_item [OF w pA] p by auto
  have cnt: "refs_held ca \<le> ce_refcnt ob" "ce_refcnt ob \<le> INT_MAX"
    using wo ob c by (auto simp: obj_wf_def held_def)
  show thesis
  proof (cases "hashtable ca")
    case None
    have ca: "ca\<lparr>hashtable := None\<rparr> = ca" using None by simp
    obtain s' where s': "do {
         L \<leftarrow> nl_list_del (Obj p) (nlinks s); let s = s\<lparr>nlinks := L\<rparr>; ob \<leftarrow> nobjs s p;
         s \<leftarrow> nl_object_put E (Some p) (set_obj p (ob\<lparr>ce_cache := None\<rparr>) s);
         ca \<leftarrow> ncaches s c; c_assert (c_int_ok (c_nitems ca - 1));
         Some (set_cache c (ca\<lparr>c_nitems := c_nitems ca - 1\<rparr>) s) } = Some s'"
      "removed s c ca p ob s'" "nl_inv E good oid s' (A(c := xs @ ys))"
      by (rule cache_remove_list [OF inv c A p, of s None]) (use None ca c p in \<open>auto simp: refs_held_def\<close>)
    have "nl_cache_remove E p s = Some s'"
      using s'(1) p ob c None by (simp add: nl_cache_remove_def nl_cache_remove_with_def nl_object_put_def)
    then show thesis using that s' r1 by simp
  next
    case (Some ht)
    have rh: "refs_held ca = 2" using Some by (simp add: refs_held_def)
    have t: "table_wf E oid (nobjs s) ht (xs @ p # ys)" using cache_wf_table [OF w Some] A by simp
    have items: "\<forall>p \<in> set (xs @ p # ys). \<exists>n. nobjs s p = Some n \<and> good n" using cache_wf_good [OF w] A by simp
    obtain ht' where del: "nl_hash_table_del E ht p s = Some (0, ht', set_obj p (ob\<lparr>ce_refcnt := ce_refcnt ob - 1\<rparr>) s)"
        "table_wf E oid (nobjs s) ht' (xs @ ys)"
      by (rule hash_table_del_member [OF t d items p]) (use cnt rh in auto)
    define s1 where "s1 = set_cache c (ca\<lparr>hashtable := Some ht'\<rparr>) (set_obj p (ob\<lparr>ce_refcnt := ce_refcnt ob - 1\<rparr>) s)"
    obtain s' where s': "do {
         L \<leftarrow> nl_list_del (Obj p) (nlinks s1); let s = s1\<lparr>nlinks := L\<rparr>; ob \<leftarrow> nobjs s p;
         s \<leftarrow> nl_object_put E (Some p) (set_obj p (ob\<lparr>ce_cache := None\<rparr>) s);
         ca \<leftarrow> ncaches s c; c_assert (c_int_ok (c_nitems ca - 1));
         Some (set_cache c (ca\<lparr>c_nitems := c_nitems ca - 1\<rparr>) s) } = Some s'"
      "removed s c ca p ob s'" "nl_inv E good oid s' (A(c := xs @ ys))"
      by (rule cache_remove_list [OF inv c A p, of s1 "Some ht'"])
        (use Some del(2) rh in \<open>auto simp: s1_def set_obj_def set_cache_def\<close>)
    have "nl_cache_remove E p s = Some s'"
      using s'(1) p ob c Some del(1)
      by (simp add: nl_cache_remove_def nl_cache_remove_with_def nl_object_put_def nl_hash_table_del_def s1_def set_obj_def set_cache_def)
    then show thesis using that s' r1 by simp
  qed
qed

text \<open>An object whose count, marks or message type change, and a reference that is taken or given back.\<close>

lemma nl_inv_set_obj:
  assumes inv: "nl_inv E good oid s A" and p: "nobjs s p = Some ob"
    and b: "view b = view ob" "ce_cache b = ce_cache ob" "max 1 (held s ob) \<le> ce_refcnt b" "ce_refcnt b \<le> INT_MAX"
  shows "nl_inv E good oid (set_obj p b s) A"
  unfolding nl_inv_def
proof (intro conjI allI impI)
  have held: "held (set_obj p b s) x = held s x" for x
    by (auto simp: held_def set_obj_def split: option.split)
  show "cache_wf E good oid (set_obj p b s) c ca (A c)" if "ncaches (set_obj p b s) c = Some ca" for c ca
    by (rule cache_wf_frame [of s]) (use that inv b(1,2) p in \<open>auto simp: set_obj_def nl_inv_cache\<close>)
  show "obj_wf (set_obj p b s) A q x" if "nobjs (set_obj p b s) q = Some x" for q x
  proof (cases "q = p")
    case True
    then have "x = b" using that by (simp add: set_obj_def)
    moreover have "held s b = held s ob" using b(2) by (simp add: held_def)
    ultimately show ?thesis
      using True nl_inv_obj [OF inv p] b held by (simp add: obj_wf_def) (simp add: set_obj_def)
  next
    case False
    then have "nobjs s q = Some x" using that by (simp add: set_obj_def)
    then show ?thesis
      using nl_inv_obj [OF inv] held by (simp add: obj_wf_def) (simp add: set_obj_def)
  qed
  fix a assume "nnext (set_obj p b s) \<le> a"
  then show "nobjs (set_obj p b s) a = None" "ncaches (set_obj p b s) a = None"
    using inv live_below [OF inv p] by (auto simp: nl_inv_def set_obj_def)
qed

lemma object_get_ok:
  assumes inv: "nl_inv E good oid s A" and p: "nobjs s p = Some ob" and n: "ce_refcnt ob < INT_MAX"
  shows "nl_object_get p s = Some (set_obj p (ob\<lparr>ce_refcnt := ce_refcnt ob + 1\<rparr>) s)"
    and "nl_inv E good oid (set_obj p (ob\<lparr>ce_refcnt := ce_refcnt ob + 1\<rparr>) s) A"
  using p n nl_inv_obj [OF inv p]
  by (simp add: nl_object_get_def c_int_ok_def obj_wf_def)
    (rule nl_inv_set_obj [OF inv p], use n nl_inv_obj [OF inv p] in \<open>auto simp: obj_wf_def\<close>)

end

end
