(* ===== verification/Nl_Cache_Ops.thy ===== *)
theory Nl_Cache_Ops
  imports Nl_Cache_Props
begin

text \<open>
  What the operations of \<^verbatim>\<open>lib/cache.c\<close> do, on every path: additions with their errors, removals,
  moves, the search, and the treatment of objects received from the kernel, which refines the
  update of a map from identities to objects.
\<close>

section \<open>References and allocation\<close>

lemma nl_list_empty_frame: "lnext L' r = lnext L r \<Longrightarrow> nl_list_empty L' r = nl_list_empty L r"
  by (simp add: nl_list_empty_def)

lemma unlinked_no_cache:
  assumes inv: "nl_inv E good oid s A" and p: "nobjs s p = Some ob" and e: "nl_list_empty (nlinks s) (Obj p) = Some True"
  shows "ce_cache ob = None"
proof (rule ccontr)
  assume "ce_cache ob \<noteq> None"
  then obtain c ca where "ncaches s c = Some ca" "p \<in> set (A c)"
    using nl_inv_obj [OF inv p] by (auto simp: obj_wf_def)
  then have "nl_list_empty (nlinks s) (Obj p) = Some False"
    using nl_list_member_not_empty [OF cache_wf_list [OF nl_inv_cache [OF inv]]] by force
  then show False using e by simp
qed

lemma release_links:
  "r \<noteq> Obj p \<Longrightarrow> lnext (nlinks (release_obj p s)) r = lnext (nlinks s) r"
  "r \<noteq> Obj p \<Longrightarrow> lprev (nlinks (release_obj p s)) r = lprev (nlinks s) r"
  by (simp_all add: release_obj_def drop_node_def)

context object_kinds
begin

text \<open>Giving a reference back that no cache holds.\<close>

lemma object_release_ok:
  assumes inv: "nl_inv E good oid s A" and p: "nobjs s p = Some ob" "ce_cache ob = None"
  shows "nl_inv E good oid (release_obj p s) A"
  unfolding nl_inv_def
proof (intro conjI allI impI)
  show "cache_wf E good oid (release_obj p s) c ca (A c)" if "ncaches (release_obj p s) c = Some ca" for c ca
  proof -
    have c: "ncaches s c = Some ca" using that by (simp add: release_obj_def)
    have "q \<noteq> p" if "q \<in> set (A c)" for q
      using not_member [OF inv c p(1)] p(2) that by auto
    then show ?thesis
      by (intro cache_wf_frame [OF nl_inv_cache [OF inv c]])
        (auto simp: release_links, auto simp: release_obj_def)
  qed
  show "obj_wf (release_obj p s) A q x" if "nobjs (release_obj p s) q = Some x" for q x
  proof -
    have "q \<noteq> p" "nobjs s q = Some x" using that by (auto simp: release_obj_def split: if_splits)
    then show ?thesis
      using nl_inv_obj [OF inv, of q x]
      by (auto simp: obj_wf_def is_node_def held_def release_links) (auto simp: release_obj_def split: option.splits)
  qed
  fix a assume "nnext (release_obj p s) \<le> a"
  then show "nobjs (release_obj p s) a = None" "ncaches (release_obj p s) a = None"
    using inv by (auto simp: nl_inv_def release_obj_def)
qed

lemma object_put_ok:
  assumes inv: "nl_inv E good oid s A" and p: "nobjs s p = Some ob" "held s ob < ce_refcnt ob"
  shows "nl_object_put E (Some p) s
       = Some (if ce_refcnt ob = 1 then release_obj p s else set_obj p (ob\<lparr>ce_refcnt := ce_refcnt ob - 1\<rparr>) s)"
    and "nl_inv E good oid (if ce_refcnt ob = 1 then release_obj p s else set_obj p (ob\<lparr>ce_refcnt := ce_refcnt ob - 1\<rparr>) s) A"
proof -
  note wo = nl_inv_obj [OF inv p(1)]
  have one: "ce_cache ob = None" if "ce_refcnt ob = 1"
  proof (rule ccontr)
    assume "ce_cache ob \<noteq> None"
    then have "1 \<le> held s ob" using wo by (auto simp: obj_wf_def held_def refs_held_def split: option.splits)
    then show False using p(2) that by simp
  qed
  show "nl_object_put E (Some p) s
       = Some (if ce_refcnt ob = 1 then release_obj p s else set_obj p (ob\<lparr>ce_refcnt := ce_refcnt ob - 1\<rparr>) s)"
    using p wo one by (auto simp: nl_object_put_eq obj_wf_def c_int_ok_def)
  show "nl_inv E good oid (if ce_refcnt ob = 1 then release_obj p s else set_obj p (ob\<lparr>ce_refcnt := ce_refcnt ob - 1\<rparr>) s) A"
    using object_release_ok [OF inv p(1)] one wo p(2) nl_inv_set_obj [OF inv p(1), of "ob\<lparr>ce_refcnt := ce_refcnt ob - 1\<rparr>"]
    by (auto simp: obj_wf_def)
qed

end

section \<open>Additions and moves\<close>

text \<open>Why an addition fails: the table holds an identical object, or there is no memory for a node.\<close>

definition add_error :: "'d nlenv \<Rightarrow> ('d nl_object \<Rightarrow> 'k option) \<Rightarrow> 'd nlstate \<Rightarrow> nl_cache \<Rightarrow> nat list \<Rightarrow> 'd nl_object \<Rightarrow> int" where
  "add_error E oid s ca ps ob =
     (if hashtable ca = None then 0
      else if find_id oid s ps ob \<noteq> None then - NLE_EXIST
      else if \<not> e_mal E 24 then - NLE_NOMEM else 0)"

lemma add_error_nonpos: "add_error E oid s ca ps ob \<le> 0"
  by (simp add: add_error_def)

lemma set_obj_count_back:
  "nobjs s p = Some ob \<Longrightarrow> set_obj p (ob\<lparr>ce_refcnt := ce_refcnt ob\<rparr>) (set_obj p x s) = s"
  by (cases s; cases ob) (auto simp: set_obj_def)

context object_kinds
begin

lemma cache_add_ok:
  assumes inv: "nl_inv E good oid s A" and a: "may_add E good s c ca p ob" and i: "oid ob \<noteq> None"
  shows "add_error E oid s ca (A c) ob < 0 \<Longrightarrow> cache_add E c p s = Some (add_error E oid s ca (A c) ob, s)"
    and "add_error E oid s ca (A c) ob = 0 \<Longrightarrow>
      \<exists>s'. cache_add E c p s = Some (0, s') \<and> added s c ca p ob s' \<and> nl_inv E good oid s' (A(c := A c @ [p]))"
proof -
  note h = cache_add_hash [OF inv a _ i] and l = cache_add_list [OF inv a]
  show "cache_add E c p s = Some (add_error E oid s ca (A c) ob, s)" if "add_error E oid s ca (A c) ob < 0"
    using that h by (cases "hashtable ca") (auto simp: add_error_def split: if_splits)
  show "\<exists>s'. cache_add E c p s = Some (0, s') \<and> added s c ca p ob s' \<and> nl_inv E good oid s' (A(c := A c @ [p]))"
    if "add_error E oid s ca (A c) ob = 0"
  proof (cases "hashtable ca")
    case None
    then show ?thesis using l by metis
  next
    case (Some ht)
    then show ?thesis using that h(3) by (auto simp: add_error_def split: if_splits)
  qed
qed

lemma add_error_frame:
  assumes "p \<notin> set ps" "view b = view ob"
  shows "add_error E oid (set_obj p x s) ca ps b = add_error E oid s ca ps ob"
proof -
  have "find_id oid (set_obj p x s) ps b = find_id oid s ps ob"
    by (rule find_id_cong) (use assms view_only [of b ob] in \<open>auto simp: set_obj_def\<close>)
  then show ?thesis by (simp add: add_error_def)
qed

lemma nl_cache_add_ok:
  assumes inv: "nl_inv E good oid s A" and a: "may_add E good s c ca p ob" and i: "oid ob \<noteq> None"
    and e: "nl_list_empty (nlinks s) (Obj p) = Some True" and n: "ce_refcnt ob + 1 < INT_MAX"
  shows "add_error E oid s ca (A c) ob < 0 \<Longrightarrow> nl_cache_add E c p s = Some (add_error E oid s ca (A c) ob, s)"
    and "add_error E oid s ca (A c) ob = 0 \<Longrightarrow>
      \<exists>s'. nl_cache_add E c p s = Some (0, s') \<and> added s c ca p (ob\<lparr>ce_refcnt := ce_refcnt ob + 1\<rparr>) s'
         \<and> nl_inv E good oid s' (A(c := A c @ [p]))"
proof -
  have c: "ncaches s c = Some ca" and p: "nobjs s p = Some ob" "ce_cache ob = None"
    and t: "co_obj_ops (e_cops E (c_ops ca)) = ce_ops ob"
    using a by (auto simp: may_add_def)
  define b where "b = ob\<lparr>ce_refcnt := ce_refcnt ob + 1\<rparr>"
  define s1 where "s1 = set_obj p b s"
  have get: "nl_object_get p s = Some s1" "nl_inv E good oid s1 A"
    using object_get_ok [OF inv p(1)] n by (auto simp: s1_def b_def)
  have v: "view b = view ob" by (simp add: b_def)
  have a1: "may_add E good s1 c ca p b"
    using a n view_only [OF v] by (auto simp: may_add_def s1_def set_obj_def b_def)
  have i1: "oid b \<noteq> None" using i view_only [OF v] by simp
  have pc: "p \<notin> set (A c)" using not_member [OF inv c p(1)] p(2) by simp
  have err: "add_error E oid s1 ca (A c) b = add_error E oid s ca (A c) ob"
    unfolding s1_def by (rule add_error_frame [OF pc v])
  have run: "nl_cache_add E c p s = do {
      (ret, s) \<leftarrow> cache_add E c p s1;
      if ret < 0 then do { s \<leftarrow> nl_object_put E (Some p) s; Some (ret, s) } else Some (ret, s) }"
    using c p(1) t e get(1) by (simp add: nl_cache_add_def)
  show "nl_cache_add E c p s = Some (add_error E oid s ca (A c) ob, s)" if neg: "add_error E oid s ca (A c) ob < 0"
  proof -
    have s1p: "nobjs s1 p = Some b" by (simp add: s1_def set_obj_def)
    have "1 \<le> ce_refcnt ob" using nl_inv_obj [OF inv p(1)] by (simp add: obj_wf_def)
    then have "nl_object_put E (Some p) s1 = Some (set_obj p (b\<lparr>ce_refcnt := ce_refcnt b - 1\<rparr>) s1)"
      using object_put_ok(1) [OF get(2) s1p] p(2) by (simp add: b_def held_def)
    moreover have "set_obj p (b\<lparr>ce_refcnt := ce_refcnt b - 1\<rparr>) s1 = s"
      using set_obj_count_back [OF p(1)] by (simp add: s1_def b_def)
    ultimately show ?thesis
      using run cache_add_ok(1) [OF get(2) a1 i1] err neg by simp
  qed
  assume zero: "add_error E oid s ca (A c) ob = 0"
  obtain s' where s': "cache_add E c p s1 = Some (0, s')" "added s1 c ca p b s'" "nl_inv E good oid s' (A(c := A c @ [p]))"
    using cache_add_ok(2) [OF get(2) a1 i1] err zero by auto
  have "added s c ca p b s'"
    using s'(2) by (auto simp: added_def s1_def set_obj_def)
  then show "\<exists>s'. nl_cache_add E c p s = Some (0, s') \<and> added s c ca p (ob\<lparr>ce_refcnt := ce_refcnt ob + 1\<rparr>) s'
         \<and> nl_inv E good oid s' (A(c := A c @ [p]))"
    using run s' by (auto simp: b_def)
qed

end

context object_kinds
begin

text \<open>A move of an object that was never in a cache keeps the new reference even when it fails.\<close>

lemma nl_cache_move_unlinked:
  assumes inv: "nl_inv E good oid s A" and a: "may_add E good s c ca p ob" and i: "oid ob \<noteq> None"
    and e: "nl_list_empty (nlinks s) (Obj p) = Some True" and n: "ce_refcnt ob + 1 < INT_MAX"
  shows "add_error E oid s ca (A c) ob < 0 \<Longrightarrow>
      nl_cache_move E c p s = Some (add_error E oid s ca (A c) ob, set_obj p (ob\<lparr>ce_refcnt := ce_refcnt ob + 1\<rparr>) s)"
    and "add_error E oid s ca (A c) ob = 0 \<Longrightarrow>
      \<exists>s'. nl_cache_move E c p s = Some (0, s') \<and> added s c ca p (ob\<lparr>ce_refcnt := ce_refcnt ob + 1\<rparr>) s'
         \<and> nl_inv E good oid s' (A(c := A c @ [p]))"
proof -
  have c: "ncaches s c = Some ca" and p: "nobjs s p = Some ob" "ce_cache ob = None"
    and t: "co_obj_ops (e_cops E (c_ops ca)) = ce_ops ob"
    using a by (auto simp: may_add_def)
  define b where "b = ob\<lparr>ce_refcnt := ce_refcnt ob + 1\<rparr>"
  define s1 where "s1 = set_obj p b s"
  have get: "nl_object_get p s = Some s1" "nl_inv E good oid s1 A"
    using object_get_ok [OF inv p(1)] n by (auto simp: s1_def b_def)
  have v: "view b = view ob" by (simp add: b_def)
  have a1: "may_add E good s1 c ca p b"
    using a n view_only [OF v] by (auto simp: may_add_def s1_def set_obj_def b_def)
  have i1: "oid b \<noteq> None" using i view_only [OF v] by simp
  have pc: "p \<notin> set (A c)" using not_member [OF inv c p(1)] p(2) by simp
  have err: "add_error E oid s1 ca (A c) b = add_error E oid s ca (A c) ob"
    unfolding s1_def by (rule add_error_frame [OF pc v])
  have run: "nl_cache_move E c p s = cache_add E c p s1"
    using c p(1) t e get(1) by (simp add: nl_cache_move_def s1_def set_obj_def)
  note add = cache_add_ok [OF get(2) a1 i1]
  show "nl_cache_move E c p s = Some (add_error E oid s ca (A c) ob, set_obj p (ob\<lparr>ce_refcnt := ce_refcnt ob + 1\<rparr>) s)"
    if "add_error E oid s ca (A c) ob < 0"
    using that add(1) err run by (simp add: s1_def b_def)
  assume "add_error E oid s ca (A c) ob = 0"
  then obtain s' where s': "cache_add E c p s1 = Some (0, s')" "added s1 c ca p b s'" "nl_inv E good oid s' (A(c := A c @ [p]))"
    using add(2) err by auto
  have "added s c ca p b s'"
    using s'(2) by (auto simp: added_def s1_def set_obj_def)
  then show "\<exists>s'. nl_cache_move E c p s = Some (0, s') \<and> added s c ca p (ob\<lparr>ce_refcnt := ce_refcnt ob + 1\<rparr>) s'
         \<and> nl_inv E good oid s' (A(c := A c @ [p]))"
    using run s' by (auto simp: b_def)
qed

text \<open>A reference to the found object, and its removal from the cache.\<close>

lemma found_and_removed:
  assumes inv: "nl_inv E good oid s A" and c: "ncaches s c = Some ca" and q: "q \<in> set (A c)" "nobjs s q = Some oq"
    and n: "ce_refcnt oq < INT_MAX"
  obtains s2 where
    "do { (_, s) \<leftarrow> found (Some q) s; nl_cache_remove E q s } = Some s2"
    "nobjs s2 = (nobjs s)(q \<mapsto> oq\<lparr>ce_cache := None, ce_refcnt := ce_refcnt oq + 1 - refs_held ca\<rparr>)"
    "\<exists>ht. (ht = None \<longleftrightarrow> hashtable ca = None) \<and> ncaches s2 = (ncaches s)(c \<mapsto> ca\<lparr>hashtable := ht, c_nitems := c_nitems ca - 1\<rparr>)"
    "nlog s2 = nlog s" "\<forall>r x. nobjs s r = Some x \<longrightarrow> ce_cache x \<noteq> Some c \<longrightarrow> lnext (nlinks s2) (Obj r) = lnext (nlinks s) (Obj r)"
    "nl_inv E good oid s2 (A(c := remove1 q (A c)))"
proof -
  define s1 where "s1 = set_obj q (oq\<lparr>ce_refcnt := ce_refcnt oq + 1\<rparr>) s"
  have get: "nl_object_get q s = Some s1" "nl_inv E good oid s1 A"
    using object_get_ok [OF inv q(2) n] by (auto simp: s1_def)
  have "ce_cache oq = Some c" using cache_wf_item [OF nl_inv_cache [OF inv c] q(1)] q(2) by auto
  then have rc: "refs_held ca \<le> ce_refcnt oq" using nl_inv_obj [OF inv q(2)] c by (simp add: obj_wf_def held_def)
  have s1: "ncaches s1 c = Some ca" "nobjs s1 q = Some (oq\<lparr>ce_refcnt := ce_refcnt oq + 1\<rparr>)"
    using c by (auto simp: s1_def set_obj_def)
  obtain s2 where r: "nl_cache_remove E q s1 = Some s2" "removed s1 c ca q (oq\<lparr>ce_refcnt := ce_refcnt oq + 1\<rparr>) s2"
      "nl_inv E good oid s2 (A(c := remove1 q (A c)))"
    by (rule cache_remove_ok [OF get(2) s1(1) q(1) s1(2)])
  have "lnext (nlinks s2) (Obj r) = lnext (nlinks s) (Obj r)" if "nobjs s r = Some x" "ce_cache x \<noteq> Some c" for r x
  proof -
    have "r \<noteq> q" using that q(2) \<open>ce_cache oq = Some c\<close> by auto
    then have "nobjs s1 r = Some x" "nlinks s1 = nlinks s" using that by (auto simp: s1_def set_obj_def)
    then show ?thesis using r(2) that by (auto simp: removed_def)
  qed
  then show thesis
    by (intro that [OF _ _ _ _ _ r(3)])
      (use r(1,2) get(1) rc in \<open>auto simp: found_def removed_def outside_def s1_def set_obj_def\<close>)
qed

lemma find_id_removed:
  assumes w: "cache_wf E good oid s c ca ps" and h: "hashtable ca = Some ht" and q: "find_id oid s ps ob = Some q"
  shows "find_id oid s (remove1 q ps) ob = None"
  unfolding find_id_None
proof
  fix r assume r: "r \<in> set (remove1 q ps)"
  then have rp: "r \<in> set ps" "r \<noteq> q" using cache_wf_distinct [OF w] by (auto dest: notin_set_remove1)
  note qp = find_id_Some [OF q]
  obtain a b where ab: "nobjs s r = Some a" "nobjs s q = Some b"
    using cache_wf_good [OF w] rp(1) qp by blast
  show "\<not> same_id oid (the (nobjs s r)) ob"
  proof
    assume "same_id oid (the (nobjs s r)) ob"
    then have "same_id oid a b" using qp ab by (auto intro: same_id_trans)
    then show False using table_ids [OF cache_wf_table [OF w h] rp(1) _ ab] qp rp(2) by simp
  qed
qed

end

section \<open>Objects from the kernel\<close>

lemma nl_inv_log [simp]: "nl_inv E good oid (s\<lparr>nlog := x\<rparr>) A = nl_inv E good oid s A"
proof -
  have "held (s\<lparr>nlog := x\<rparr>) = held s"
    by (auto simp: held_def fun_eq_iff split: option.split)
  then show ?thesis by (simp add: nl_inv_def cache_wf_def obj_wf_def)
qed

lemma call_cb_simps [simp]:
  "nobjs (call_cb cb p act s) = nobjs s" "ncaches (call_cb cb p act s) = ncaches s"
  "nlinks (call_cb cb p act s) = nlinks s"
  "nlog (call_cb cb p act s) = nlog s @ (if cb then [(p, act)] else [])"
  "nl_inv E good oid (call_cb cb p act s) A = nl_inv E good oid s A"
  "held (call_cb cb p act s) = held s"
  by (auto simp: call_cb_def held_def fun_eq_iff split: option.split)

text \<open>An object as the parser hands it over: in no cache, and ready to enter the cache \<open>c\<close>.\<close>

definition arrives ::
    "'d nlenv \<Rightarrow> ('d nl_object \<Rightarrow> bool) \<Rightarrow> ('d nl_object \<Rightarrow> 'k option) \<Rightarrow> 'd nlstate \<Rightarrow> nat list \<Rightarrow> nat \<Rightarrow> nl_cache \<Rightarrow> nat \<Rightarrow> 'd nl_object \<Rightarrow> bool" where
  "arrives E good oid s ps c ca p ob \<longleftrightarrow>
     may_add E good s c ca p ob \<and> oid ob \<noteq> None \<and> nl_list_empty (nlinks s) (Obj p) = Some True
   \<and> ce_refcnt ob + 1 < INT_MAX \<and> oo_update (e_ops E (ce_ops ob)) = None
   \<and> (hashtable ca \<noteq> None \<longrightarrow> e_mal E 24)
   \<and> (\<forall>q \<in> set ps. ce_refcnt (the (nobjs s q)) < INT_MAX)"

text \<open>The calls of the change callback.\<close>

definition cb_calls :: "bool \<Rightarrow> nat \<Rightarrow> int \<Rightarrow> (nat \<times> int) list" where
  "cb_calls cb p act = (if cb then [(p, act)] else [])"

context object_kinds
begin

lemma update_unsupported:
  "nobjs s q = Some oq \<Longrightarrow> nobjs s p = Some ob \<Longrightarrow> oo_update (obj_ops E oq) = None \<Longrightarrow>
   nl_object_update E q p s = Some (- NLE_OPNOTSUPP, s)"
  by (simp add: nl_object_update_def)

text \<open>The last reference to the replaced object is the one of the search.\<close>

lemma put_replaced:
  assumes inv: "nl_inv E good oid s A" and q: "nobjs s q = Some (oq\<lparr>ce_cache := None, ce_refcnt := ce_refcnt oq + 1 - refs_held ca\<rparr>)"
  obtains s' where "nl_object_put E (Some q) s = Some s'" "nobjs s' = (nobjs s)(q := outside ca oq)"
    "nlog s' = nlog s" "ncaches s' = ncaches s" "nl_inv E good oid s' A"
proof -
  let ?b = "oq\<lparr>ce_cache := None, ce_refcnt := ce_refcnt oq + 1 - refs_held ca\<rparr>"
  have "held s ?b < ce_refcnt ?b" using nl_inv_obj [OF inv q] by (simp add: obj_wf_def held_def)
  from object_put_ok [OF inv q this] show thesis
    by (intro that) (auto simp: outside_def release_obj_def set_obj_def)
qed

lemma cache_include_first:
  assumes inv: "nl_inv E good oid s A" and a: "arrives E good oid s (A c) c ca p ob"
    and f: "find_id oid s (A c) ob = None"
  shows "\<exists>s'. cache_include E c p NL_ACT_NEW cb s = Some (0, s') \<and> nl_inv E good oid s' (A(c := A c @ [p]))
     \<and> nobjs s' = (nobjs s)(p \<mapsto> member c ca (ob\<lparr>ce_refcnt := ce_refcnt ob + 1\<rparr>)) \<and> nlog s' = nlog s @ cb_calls cb p NL_ACT_NEW"
proof -
  have m: "may_add E good s c ca p ob" and c: "ncaches s c = Some ca" and p: "nobjs s p = Some ob" "good ob"
    using a by (auto simp: arrives_def may_add_def)
  have "add_error E oid s ca (A c) ob = 0" using f a by (auto simp: add_error_def arrives_def)
  then obtain s' where s': "nl_cache_move E c p s = Some (0, s')" "added s c ca p (ob\<lparr>ce_refcnt := ce_refcnt ob + 1\<rparr>) s'"
      "nl_inv E good oid s' (A(c := A c @ [p]))"
    using nl_cache_move_unlinked(2) [OF inv m] a by (auto simp: arrives_def)
  have "nl_cache_search E c p s = Some (None, s)"
    using cache_search_eq [OF nl_inv_cache [OF inv c] c p] f by (simp add: found_def)
  then show ?thesis
    using s' by (auto simp: cache_include_def include_new_def added_def cb_calls_def)
qed

lemma cache_include_replace:
  assumes inv: "nl_inv E good oid s A" and a: "arrives E good oid s (A c) c ca p ob"
    and f: "find_id oid s (A c) ob = Some q"
  obtains s' d where "cache_include E c p NL_ACT_NEW cb s = Some (0, s')"
    "nl_inv E good oid s' (A(c := remove1 q (A c) @ [p]))"
    "nobjs s' = (nobjs s)(q := outside ca (the (nobjs s q)), p \<mapsto> member c ca (ob\<lparr>ce_refcnt := ce_refcnt ob + 1\<rparr>))"
    "nl_object_diff E (the (nobjs s q)) ob = Some d" "nlog s' = nlog s @ cb_calls (cb \<and> d \<noteq> 0) p NL_ACT_CHANGE"
proof -
  have m: "may_add E good s c ca p ob" and c: "ncaches s c = Some ca" and p: "nobjs s p = Some ob" "good ob" "ce_cache ob = None"
    using a by (auto simp: arrives_def may_add_def)
  note w = nl_inv_cache [OF inv c]
  have q: "q \<in> set (A c)" using find_id_Some [OF f] by simp
  obtain oq where oq: "nobjs s q = Some oq" "ce_cache oq = Some c" "ce_ops oq = ce_ops ob" "good oq"
    using cache_wf_item [OF w q] m by (auto simp: may_add_def)
  have pq: "p \<noteq> q" and pA: "p \<notin> set (A c)" using not_member [OF inv c p(1)] p(3) q by auto
  have n: "ce_refcnt oq < INT_MAX" using a q oq(1) by (auto simp: arrives_def)
  obtain s2 where s2: "do { (_, s) \<leftarrow> found (Some q) s; nl_cache_remove E q s } = Some s2"
      "nobjs s2 = (nobjs s)(q \<mapsto> oq\<lparr>ce_cache := None, ce_refcnt := ce_refcnt oq + 1 - refs_held ca\<rparr>)"
    and cs: "\<exists>ht. (ht = None \<longleftrightarrow> hashtable ca = None) \<and> ncaches s2 = (ncaches s)(c \<mapsto> ca\<lparr>hashtable := ht, c_nitems := c_nitems ca - 1\<rparr>)"
    and log2: "nlog s2 = nlog s"
    and ln: "\<forall>r x. nobjs s r = Some x \<longrightarrow> ce_cache x \<noteq> Some c \<longrightarrow> lnext (nlinks s2) (Obj r) = lnext (nlinks s) (Obj r)"
    and inv2: "nl_inv E good oid s2 (A(c := remove1 q (A c)))"
    by (rule found_and_removed [OF inv c q oq(1) n])
  from cs obtain ht where ht: "ht = None \<longleftrightarrow> hashtable ca = None"
      "ncaches s2 = (ncaches s)(c \<mapsto> ca\<lparr>hashtable := ht, c_nitems := c_nitems ca - 1\<rparr>)"
    by (elim exE conjE) (rule that)
  have un: "nl_list_empty (nlinks s2) (Obj p) = Some True"
    using ln p(1,3) a by (simp add: arrives_def nl_list_empty_def)
  define ca2 where "ca2 = ca\<lparr>hashtable := ht, c_nitems := c_nitems ca - 1\<rparr>"
  have m2: "may_add E good s2 c ca2 p ob"
    using m s2(2) ht(2) pq by (auto simp: may_add_def ca2_def)
  have rh: "member c ca2 (ob\<lparr>ce_refcnt := ce_refcnt ob + 1\<rparr>) = member c ca (ob\<lparr>ce_refcnt := ce_refcnt ob + 1\<rparr>)"
    using ht(1) by (auto simp: member_def refs_held_def ca2_def)
  have "find_id oid s2 (remove1 q (A c)) ob = find_id oid s (remove1 q (A c)) ob"
    by (rule find_id_cong) (use s2(2) cache_wf_distinct [OF w] in auto)
  then have "add_error E oid s2 ca2 ((A(c := remove1 q (A c))) c) ob = 0"
    using find_id_removed [OF w _ f] a ht(1) by (auto simp: add_error_def arrives_def ca2_def)
  then obtain s3 where s3: "nl_cache_move E c p s2 = Some (0, s3)" "added s2 c ca2 p (ob\<lparr>ce_refcnt := ce_refcnt ob + 1\<rparr>) s3"
      "nl_inv E good oid s3 (A(c := remove1 q (A c) @ [p]))"
    using nl_cache_move_unlinked(2) [OF inv2 m2] a un by (auto simp: arrives_def)
  have o3: "nobjs s3 = (nobjs s)(q \<mapsto> oq\<lparr>ce_cache := None, ce_refcnt := ce_refcnt oq + 1 - refs_held ca\<rparr>,
      p \<mapsto> member c ca (ob\<lparr>ce_refcnt := ce_refcnt ob + 1\<rparr>))"
    using s3(2) s2(2) rh by (simp add: added_def)
  let ?q = "oq\<lparr>ce_cache := None, ce_refcnt := ce_refcnt oq + 1 - refs_held ca\<rparr>"
  let ?p = "member c ca (ob\<lparr>ce_refcnt := ce_refcnt ob + 1\<rparr>)"
  have "good ?q" "good ?p" using oq(4) p(2) view_only [of ?q oq] view_only [of ?p ob] by auto
  then obtain d where d: "nl_object_diff E ?q ?p = Some d" using diff_total by blast
  have dd: "nl_object_diff E oq ob = Some d"
    using d diff_view [of ?q oq ?p ob] by simp
  let ?s3 = "call_cb (cb \<and> d \<noteq> 0) p NL_ACT_CHANGE s3"
  have q3: "nobjs ?s3 q = Some ?q" using o3 pq by simp
  obtain s4 where s4: "nl_object_put E (Some q) ?s3 = Some s4" "nobjs s4 = (nobjs ?s3)(q := outside ca oq)"
      "nlog s4 = nlog ?s3" "nl_inv E good oid s4 (A(c := remove1 q (A c) @ [p]))"
    by (rule put_replaced [OF _ q3]) (use s3(3) in auto)
  have new: "include_new E c p (Some q) cb s2 = Some s4"
    using s3(1) o3 pq d s4(1) by (simp add: include_new_def)
  obtain s1 where s1: "found (Some q) s = Some (Some q, s1)" "nl_cache_remove E q s1 = Some s2"
      "nobjs s1 q = Some (oq\<lparr>ce_refcnt := ce_refcnt oq + 1\<rparr>)" "nobjs s1 p = Some ob"
    using s2(1) oq(1) p(1) pq by (auto simp: found_def nl_object_get_def bind_eq_Some_conv set_obj_def)
  have "nl_object_update E q p s1 = Some (- NLE_OPNOTSUPP, s1)"
    using update_unsupported [OF s1(3,4)] a oq(3) by (simp add: arrives_def)
  then have "cache_include E c p NL_ACT_NEW cb s = Some (0, s4)"
    using cache_search_eq [OF w c p(1,2)] f s1(1,2) new by (simp add: cache_include_def)
  moreover have "nobjs s4 = (nobjs s)(q := outside ca (the (nobjs s q)), p \<mapsto> ?p)"
    using s4(2) o3 pq oq(1) by (auto simp: fun_eq_iff)
  moreover have "nlog s4 = nlog s @ cb_calls (cb \<and> d \<noteq> 0) p NL_ACT_CHANGE"
    using s4(3) s3(2) log2 by (simp add: added_def cb_calls_def)
  ultimately show thesis using that s4(4) dd oq(1) by simp
qed

end

context object_kinds
begin

lemma cache_include_del_absent:
  assumes inv: "nl_inv E good oid s A" and a: "arrives E good oid s (A c) c ca p ob"
    and f: "find_id oid s (A c) ob = None"
  shows "cache_include E c p NL_ACT_DEL cb s = Some (0, s)"
proof -
  have c: "ncaches s c = Some ca" and p: "nobjs s p = Some ob" "good ob" using a by (auto simp: arrives_def may_add_def)
  show ?thesis
    using cache_search_eq [OF nl_inv_cache [OF inv c] c p] f by (simp add: found_def cache_include_def)
qed

lemma cache_include_del_present:
  assumes inv: "nl_inv E good oid s A" and a: "arrives E good oid s (A c) c ca p ob"
    and f: "find_id oid s (A c) ob = Some q"
  obtains s' where "cache_include E c p NL_ACT_DEL cb s = Some (0, s')" "nl_inv E good oid s' (A(c := remove1 q (A c)))"
    "nobjs s' = (nobjs s)(q := outside ca (the (nobjs s q)))" "nlog s' = nlog s @ cb_calls cb q NL_ACT_DEL"
    "ncaches s' c \<noteq> None"
proof -
  have m: "may_add E good s c ca p ob" and c: "ncaches s c = Some ca" and p: "nobjs s p = Some ob" "good ob" "ce_cache ob = None"
    using a by (auto simp: arrives_def may_add_def)
  note w = nl_inv_cache [OF inv c]
  have q: "q \<in> set (A c)" using find_id_Some [OF f] by simp
  obtain oq where oq: "nobjs s q = Some oq" "ce_ops oq = ce_ops ob"
    using cache_wf_item [OF w q] m by (auto simp: may_add_def)
  have pq: "p \<noteq> q" using not_member [OF inv c p(1)] p(3) q by auto
  have n: "ce_refcnt oq < INT_MAX" using a q oq(1) by (auto simp: arrives_def)
  obtain s2 where s2: "do { (_, s) \<leftarrow> found (Some q) s; nl_cache_remove E q s } = Some s2"
      "nobjs s2 = (nobjs s)(q \<mapsto> oq\<lparr>ce_cache := None, ce_refcnt := ce_refcnt oq + 1 - refs_held ca\<rparr>)"
    and cs: "\<exists>ht. (ht = None \<longleftrightarrow> hashtable ca = None) \<and> ncaches s2 = (ncaches s)(c \<mapsto> ca\<lparr>hashtable := ht, c_nitems := c_nitems ca - 1\<rparr>)"
    and log2: "nlog s2 = nlog s"
    and ln: "\<forall>r x. nobjs s r = Some x \<longrightarrow> ce_cache x \<noteq> Some c \<longrightarrow> lnext (nlinks s2) (Obj r) = lnext (nlinks s) (Obj r)"
    and inv2: "nl_inv E good oid s2 (A(c := remove1 q (A c)))"
    by (rule found_and_removed [OF inv c q oq(1) n])
  have q2: "nobjs (call_cb cb q NL_ACT_DEL s2) q = Some (oq\<lparr>ce_cache := None, ce_refcnt := ce_refcnt oq + 1 - refs_held ca\<rparr>)"
    using s2(2) by simp
  obtain s4 where s4: "nl_object_put E (Some q) (call_cb cb q NL_ACT_DEL s2) = Some s4"
      "nobjs s4 = (nobjs (call_cb cb q NL_ACT_DEL s2))(q := outside ca oq)"
      "nlog s4 = nlog (call_cb cb q NL_ACT_DEL s2)" "ncaches s4 = ncaches (call_cb cb q NL_ACT_DEL s2)" "nl_inv E good oid s4 (A(c := remove1 q (A c)))"
    by (rule put_replaced [OF _ q2]) (use inv2 in auto)
  obtain s1 where s1: "found (Some q) s = Some (Some q, s1)" "nl_cache_remove E q s1 = Some s2"
      "nobjs s1 q = Some (oq\<lparr>ce_refcnt := ce_refcnt oq + 1\<rparr>)" "nobjs s1 p = Some ob"
    using s2(1) oq(1) p(1) pq by (auto simp: found_def nl_object_get_def bind_eq_Some_conv set_obj_def)
  have "nl_object_update E q p s1 = Some (- NLE_OPNOTSUPP, s1)"
    using update_unsupported [OF s1(3,4)] a oq(2) by (simp add: arrives_def)
  then have "cache_include E c p NL_ACT_DEL cb s = Some (0, s4)"
    using cache_search_eq [OF w c p(1,2)] f s1(1,2) s4(1) by (simp add: cache_include_def)
  then show thesis
    using that s4 s2(2) cs log2 oq(1) by (auto simp: cb_calls_def)
qed

end

section \<open>Caches as maps\<close>

text \<open>The object of each identity.\<close>

definition cache_map :: "('d nl_object \<Rightarrow> 'k option) \<Rightarrow> (nat \<Rightarrow> 'd nl_object option) \<Rightarrow> nat list \<Rightarrow> 'k \<Rightarrow> nat option" where
  "cache_map oid objs ps k = find (\<lambda>q. oid (the (objs q)) = Some k) ps"

lemma find_append: "find P (xs @ ys) = (case find P xs of None \<Rightarrow> find P ys | Some x \<Rightarrow> Some x)"
  by (induction xs) auto

lemma cache_map_append:
  assumes "\<forall>r \<in> set ps. objs' r = objs r" "oid (the (objs' p)) = Some k" "\<forall>r \<in> set ps. oid (the (objs r)) \<noteq> Some k"
  shows "cache_map oid objs' (ps @ [p]) = (cache_map oid objs ps)(k \<mapsto> p)"
proof
  fix j
  have "find (\<lambda>q. oid (the (objs' q)) = Some j) ps = find (\<lambda>q. oid (the (objs q)) = Some j) ps"
    using assms(1) by (induction ps) auto
  moreover have "find (\<lambda>q. oid (the (objs q)) = Some k) ps = None"
    using assms(3) by (simp add: find_None_iff)
  ultimately show "cache_map oid objs' (ps @ [p]) j = ((cache_map oid objs ps)(k \<mapsto> p)) j"
    using assms(2) by (auto simp: cache_map_def find_append split: option.splits)
qed

lemma cache_map_remove1:
  assumes "distinct ps" "q \<in> set ps" "oid (the (objs q)) = Some k" "\<forall>r \<in> set ps. oid (the (objs r)) = Some k \<longrightarrow> r = q"
    and "\<forall>r \<in> set ps. r \<noteq> q \<longrightarrow> objs' r = objs r"
  shows "cache_map oid objs' (remove1 q ps) = (cache_map oid objs ps)(k := None)"
proof
  fix j
  obtain xs ys where ps: "ps = xs @ q # ys" by (meson assms(2) split_list)
  have same: "find (\<lambda>q. oid (the (objs' q)) = Some j) zs = find (\<lambda>q. oid (the (objs q)) = Some j) zs"
    if "set zs \<subseteq> set ps - {q}" for zs
    using that assms(5) by (induction zs) auto
  have none: "find (\<lambda>q. oid (the (objs q)) = Some k) zs = None" if "set zs \<subseteq> set ps - {q}" for zs
    using that assms(4) by (auto simp: find_None_iff)
  have sub: "set xs \<subseteq> set ps - {q}" "set ys \<subseteq> set ps - {q}" using ps assms(1) by auto
  have r: "remove1 q ps = xs @ ys" using ps assms(1) by (simp add: remove1_append)
  show "cache_map oid objs' (remove1 q ps) j = ((cache_map oid objs ps)(k := None)) j"
    using same [OF sub(1)] same [OF sub(2)] none [OF sub(1)] none [OF sub(2)] assms(3)
    unfolding r by (auto simp: cache_map_def find_append ps split: option.splits)
qed

lemma table_unique:
  assumes "table_wf E oid objs ht ps" "q \<in> set ps" "r \<in> set ps" "oid (the (objs r)) = oid (the (objs q))"
  shows "r = q"
  using assms by (auto simp: table_wf_def)

context object_kinds
begin

lemma map_without:
  assumes w: "cache_wf E good oid s c ca ps" and h: "hashtable ca \<noteq> None" and k: "oid ob = Some k"
    and f: "find_id oid s ps ob = Some q"
  shows "cache_map oid (nobjs s) (remove1 q ps) = (cache_map oid (nobjs s) ps)(k := None)"
    "\<forall>r \<in> set (remove1 q ps). oid (the (nobjs s r)) \<noteq> Some k"
proof -
  obtain ht where ht: "hashtable ca = Some ht" using h by auto
  note t = cache_wf_table [OF w ht]
  have q: "q \<in> set ps" "oid (the (nobjs s q)) = Some k"
    using find_id_Some [OF f] k by (auto simp: same_id_def)
  show "cache_map oid (nobjs s) (remove1 q ps) = (cache_map oid (nobjs s) ps)(k := None)"
  proof (rule cache_map_remove1)
    show "\<forall>r \<in> set ps. oid (the (nobjs s r)) = Some k \<longrightarrow> r = q"
      using table_unique [OF t q(1)] q(2) by metis
  qed (use q cache_wf_distinct [OF w] in simp_all)
  show "\<forall>r \<in> set (remove1 q ps). oid (the (nobjs s r)) \<noteq> Some k"
    using find_id_removed [OF w ht f] k by (auto simp: find_id_None same_id_def)
qed

lemma include_new_map:
  assumes inv: "nl_inv E good oid s A" and a: "arrives E good oid s (A c) c ca p ob"
    and h: "hashtable ca \<noteq> None" and k: "oid ob = Some k"
  obtains s' ps where "cache_include E c p NL_ACT_NEW cb s = Some (0, s')" "nl_inv E good oid s' (A(c := ps))"
    "ncaches s' c \<noteq> None" "cache_map oid (nobjs s') ps = (cache_map oid (nobjs s) (A c))(k \<mapsto> p)"
    "nobjs s' p = Some (member c ca (ob\<lparr>ce_refcnt := ce_refcnt ob + 1\<rparr>))"
proof -
  let ?m = "member c ca (ob\<lparr>ce_refcnt := ce_refcnt ob + 1\<rparr>)"
  have c: "ncaches s c = Some ca" and p: "nobjs s p = Some ob" "ce_cache ob = None"
    using a by (auto simp: arrives_def may_add_def)
  have pA: "p \<notin> set (A c)" using not_member [OF inv c p(1)] p(2) by simp
  have mk: "oid ?m = Some k" using view_only [of ?m ob] k by simp
  have live: "ncaches s' c \<noteq> None" if "nl_inv E good oid s' B" "nobjs s' p = Some ?m" for s' B
    using nl_inv_obj [OF that] by (simp add: obj_wf_def member_def)
  show thesis
  proof (cases "find_id oid s (A c) ob")
    case None
    obtain s' where s': "cache_include E c p NL_ACT_NEW cb s = Some (0, s')" "nl_inv E good oid s' (A(c := A c @ [p]))"
        "nobjs s' = (nobjs s)(p \<mapsto> ?m)"
      using cache_include_first [OF inv a None, of cb] by blast
    have "cache_map oid (nobjs s') (A c @ [p]) = (cache_map oid (nobjs s) (A c))(k \<mapsto> p)"
      using None k mk pA by (intro cache_map_append) (auto simp: s'(3) find_id_None same_id_def)
    then show ?thesis using that [OF s'(1,2) live [OF s'(2)]] s'(3) by simp
  next
    case (Some q)
    obtain s' where s': "cache_include E c p NL_ACT_NEW cb s = Some (0, s')" "nl_inv E good oid s' (A(c := remove1 q (A c) @ [p]))"
        "nobjs s' = (nobjs s)(q := outside ca (the (nobjs s q)), p \<mapsto> ?m)"
      by (rule cache_include_replace [OF inv a Some])
    note w = nl_inv_cache [OF inv c] and mw = map_without [OF nl_inv_cache [OF inv c] h k Some]
    have "cache_map oid (nobjs s') (remove1 q (A c) @ [p]) = (cache_map oid (nobjs s) (remove1 q (A c)))(k \<mapsto> p)"
      using mw(2) mk pA cache_wf_distinct [OF w] by (intro cache_map_append) (auto simp: s'(3) dest: notin_set_remove1)
    then show ?thesis using that [OF s'(1,2) live [OF s'(2)]] s'(3) mw(1) by simp
  qed
qed

lemma include_del_map:
  assumes inv: "nl_inv E good oid s A" and a: "arrives E good oid s (A c) c ca p ob"
    and h: "hashtable ca \<noteq> None" and k: "oid ob = Some k"
  obtains s' ps where "cache_include E c p NL_ACT_DEL cb s = Some (0, s')" "nl_inv E good oid s' (A(c := ps))"
    "ncaches s' c \<noteq> None" "cache_map oid (nobjs s') ps = (cache_map oid (nobjs s) (A c))(k := None)"
proof -
  have c: "ncaches s c = Some ca" using a by (auto simp: arrives_def may_add_def)
  show thesis
  proof (cases "find_id oid s (A c) ob")
    case None
    have "cache_map oid (nobjs s) (A c) k = None"
      using None k by (auto simp: find_id_None same_id_def cache_map_def find_None_iff)
    then show ?thesis
      using that [OF cache_include_del_absent [OF inv a None], of "A c"] inv c by (simp add: fun_upd_idem)
  next
    case (Some q)
    obtain s' where s': "cache_include E c p NL_ACT_DEL cb s = Some (0, s')" "nl_inv E good oid s' (A(c := remove1 q (A c)))"
        "nobjs s' = (nobjs s)(q := outside ca (the (nobjs s q)))" "nlog s' = nlog s @ cb_calls cb q NL_ACT_DEL" "ncaches s' c \<noteq> None"
      by (rule cache_include_del_present [OF inv a Some])
    note w = nl_inv_cache [OF inv c] and mw = map_without [OF nl_inv_cache [OF inv c] h k Some]
    have "cache_map oid (nobjs s') (remove1 q (A c)) = cache_map oid (nobjs s) (remove1 q (A c))"
    proof -
      have "find (\<lambda>r. oid (the (nobjs s' r)) = Some j) zs = find (\<lambda>r. oid (the (nobjs s r)) = Some j) zs" if "q \<notin> set zs" for j zs
        using that s'(3) by (induction zs) auto
      then show ?thesis
        using cache_wf_distinct [OF w] by (simp add: cache_map_def fun_eq_iff)
    qed
    then show ?thesis using that [OF s'(1,2,5)] mw(1) by simp
  qed
qed

end

section \<open>Clients\<close>

context object_kinds
begin

text \<open>A new object with the data its maker gives it, and a new cache.\<close>

lemma object_alloc_ok:
  assumes inv: "nl_inv E good oid s A" and a: "nl_object_alloc E t s = Some (Some p, s1)"
    and b: "ce_refcnt b = 1" "ce_cache b = None"
  shows "nl_inv E good oid (set_obj p b s1) A"
proof -
  let ?s = "set_obj p b s1"
  have p: "p = nnext s" and s': "nobjs ?s = (nobjs s)(p \<mapsto> b)" "ncaches ?s = ncaches s"
      "nlinks ?s = nl_init_list_head (Obj p) (nlinks s)" "nnext ?s = p + 1"
    using a by (auto simp: nl_object_alloc_def set_obj_def Let_def split: if_splits)
  have fresh: "nobjs s p = None" using inv p by (simp add: nl_inv_def)
  have held: "held ?s x = held s x" for x using s'(2) by (simp add: held_def split: option.split)
  show ?thesis
    unfolding nl_inv_def
  proof (intro conjI allI impI)
    fix c ca assume c: "ncaches ?s c = Some ca"
    then have w: "cache_wf E good oid s c ca (A c)" using s'(2) nl_inv_cache [OF inv] by simp
    have "q \<noteq> p" if "q \<in> set (A c)" for q using cache_wf_good [OF w] that fresh by force
    then show "cache_wf E good oid ?s c ca (A c)"
      by (intro cache_wf_frame [OF w]) (auto simp: s' nl_init_list_head_def)
  next
    fix q x assume q: "nobjs ?s q = Some x"
    show "obj_wf ?s A q x"
    proof (cases "q = p")
      case True
      then show ?thesis using q b s' by (auto simp: obj_wf_def is_node_def nl_init_list_head_def held_def)
    next
      case False
      then have "obj_wf s A q x" using q s'(1) nl_inv_obj [OF inv] by simp
      then show ?thesis using False s' held by (simp add: obj_wf_def is_node_def nl_init_list_head_def)
    qed
  next
    fix a assume "nnext ?s \<le> a"
    then show "nobjs ?s a = None" "ncaches ?s a = None" using inv s' p by (auto simp: nl_inv_def)
  qed
qed

lemma cache_alloc_ok:
  assumes inv: "nl_inv E good oid s A" and a: "nl_cache_alloc E t s = (Some c, s')"
    and n: "co_hash_size (e_cops E t) \<le> INT_MAX"
  shows "nl_inv E good oid s' (A(c := []))"
proof -
  define ca where "ca = the (ncaches s' c)"
  have c: "c = nnext s" and s': "nobjs s' = nobjs s" "ncaches s' = (ncaches s)(c \<mapsto> ca)"
      "nlinks s' = nl_init_list_head (Items c) (nlinks s)" "nnext s' = c + 1"
    and ca: "c_nitems ca = 0" "\<And>ht. hashtable ca = Some ht \<Longrightarrow> \<exists>sz. sz \<noteq> 0 \<and> sz \<le> INT_MAX \<and> nl_hash_table_alloc (e_mal E) sz = Some ht"
    using a n by (auto simp: ca_def nl_cache_alloc_def Let_def split: if_splits intro: exI [of _ 1024])
  have fresh: "ncaches s c = None" using inv c by (simp add: nl_inv_def)
  have "table_wf E oid (nobjs s') ht []" if h: "hashtable ca = Some ht" for ht
  proof -
    obtain sz where sz: "sz \<noteq> 0" "sz \<le> INT_MAX" "nl_hash_table_alloc (e_mal E) sz = Some ht" using ca(2) [OF h] by blast
    then have "0 < sz" by (auto simp: nl_hash_table_alloc_def split: if_splits)
    then show ?thesis using table_empty sz by blast
  qed
  then have w: "cache_wf E good oid s' c ca []"
    using s' ca nl_list_init by (auto simp: cache_wf_def)
  show ?thesis
    unfolding nl_inv_def
  proof (intro conjI allI impI)
    fix d da assume d: "ncaches s' d = Some da"
    show "cache_wf E good oid s' d da ((A(c := [])) d)"
    proof (cases "d = c")
      case True
      then show ?thesis using w d s' by simp
    next
      case False
      then have "cache_wf E good oid s d da (A d)" using d s'(2) nl_inv_cache [OF inv] by simp
      then have "cache_wf E good oid s' d da (A d)"
        by (rule cache_wf_frame) (use False in \<open>auto simp: s' nl_init_list_head_def\<close>)
      then show ?thesis using False by simp
    qed
  next
    fix q x assume "nobjs s' q = Some x"
    then have o1: "obj_wf s A q x" using s'(1) nl_inv_obj [OF inv] by simp
    then have nc: "ce_cache x \<noteq> Some c" using fresh by (auto simp: obj_wf_def)
    then have "held s' x = held s x" by (auto simp: held_def s'(2) split: option.split)
    then show "obj_wf s' (A(c := [])) q x" using o1 nc s' by (auto simp: obj_wf_def is_node_def nl_init_list_head_def)
  next
    fix a assume "nnext s' \<le> a"
    then show "nobjs s' a = None" "ncaches s' a = None" using inv s' c by (auto simp: nl_inv_def)
  qed
qed

end

text \<open>
  What a program may do with objects and caches: make them, take references, give back references
  of its own, add, remove, search, and pass on objects from the kernel.  It hands over live
  objects, adds only objects that were never in a cache, and does not hold references in
  numbers that an \<open>int\<close> cannot count.
\<close>

inductive client_step ::
    "'d nlenv \<Rightarrow> ('d nl_object \<Rightarrow> bool) \<Rightarrow> ('d nl_object \<Rightarrow> 'k option) \<Rightarrow> 'd nlstate \<Rightarrow> 'd nlstate \<Rightarrow> bool"
  for E good oid where
  new_object: "nl_object_alloc E t s = Some (Some p, s1) \<Longrightarrow> ce_refcnt b = 1 \<Longrightarrow> ce_cache b = None \<Longrightarrow>
    client_step E good oid s (set_obj p b s1)"
| new_cache: "nl_cache_alloc E t s = (Some c, s') \<Longrightarrow> co_hash_size (e_cops E t) \<le> INT_MAX \<Longrightarrow> client_step E good oid s s'"
| take_ref: "nobjs s p = Some ob \<Longrightarrow> ce_refcnt ob < INT_MAX \<Longrightarrow> nl_object_get p s = Some s' \<Longrightarrow> client_step E good oid s s'"
| give_ref: "nobjs s p = Some ob \<Longrightarrow> held s ob < ce_refcnt ob \<Longrightarrow> nl_object_put E (Some p) s = Some s' \<Longrightarrow> client_step E good oid s s'"
| add: "ncaches s c = Some ca \<Longrightarrow> c_nitems ca < INT_MAX \<Longrightarrow> nobjs s p = Some ob \<Longrightarrow> good ob \<Longrightarrow> oid ob \<noteq> None \<Longrightarrow>
    ce_refcnt ob + 1 < INT_MAX \<Longrightarrow> nl_list_empty (nlinks s) (Obj p) = Some True \<Longrightarrow>
    nl_cache_add E c p s = Some (r, s') \<Longrightarrow> client_step E good oid s s'"
| remove: "nobjs s p = Some ob \<Longrightarrow> nl_cache_remove E p s = Some s' \<Longrightarrow> client_step E good oid s s'"
| search: "ncaches s c = Some ca \<Longrightarrow> nobjs s p = Some ob \<Longrightarrow> good ob \<Longrightarrow>
    \<forall>q x. nobjs s q = Some x \<longrightarrow> ce_refcnt x < INT_MAX \<Longrightarrow> nl_cache_search E c p s = Some (r, s') \<Longrightarrow> client_step E good oid s s'"
| pass_on: "cache_entries s c = Some ps \<Longrightarrow> arrives E good oid s ps c ca p ob \<Longrightarrow> act = NL_ACT_NEW \<or> act = NL_ACT_DEL \<Longrightarrow>
    cache_include E c p act cb s = Some (r, s') \<Longrightarrow> client_step E good oid s s'"

text \<open>The memory of a program that has neither objects nor caches.\<close>

definition nl_start :: "'d nlstate" where
  "nl_start = \<lparr>nobjs = \<lambda>_. None, ncaches = \<lambda>_. None, nlinks = \<lparr>lnext = \<lambda>_. None, lprev = \<lambda>_. None\<rparr>, nnext = 0, nlog = []\<rparr>"

inductive client_reach ::
    "'d nlenv \<Rightarrow> ('d nl_object \<Rightarrow> bool) \<Rightarrow> ('d nl_object \<Rightarrow> 'k option) \<Rightarrow> 'd nlstate \<Rightarrow> bool"
  for E good oid where
  start: "client_reach E good oid nl_start"
| step: "client_reach E good oid s \<Longrightarrow> client_step E good oid s s' \<Longrightarrow> client_reach E good oid s'"

context object_kinds
begin

lemma client_step_inv:
  assumes "client_step E good oid s s'" "nl_inv E good oid s A"
  shows "\<exists>A'. nl_inv E good oid s' A'"
  using assms
proof cases
  case new_object
  then show ?thesis using object_alloc_ok [OF assms(2)] by blast
next
  case new_cache
  then show ?thesis using cache_alloc_ok [OF assms(2)] by blast
next
  case (take_ref p ob)
  then show ?thesis using object_get_ok [OF assms(2) take_ref(1,2)] by auto
next
  case (give_ref p ob)
  then show ?thesis using object_put_ok [OF assms(2) give_ref(1,2)] by auto
next
  case (add c ca p ob r)
  show ?thesis
  proof (cases "co_obj_ops (e_cops E (c_ops ca)) = ce_ops ob")
    case False
    then have "s' = s" using add by (simp add: nl_cache_add_def)
    then show ?thesis using assms(2) by auto
  next
    case True
    then have "may_add E good s c ca p ob"
      using add unlinked_no_cache [OF assms(2)] by (simp add: may_add_def)
    from nl_cache_add_ok [OF assms(2) this] add add_error_nonpos [of E oid s ca "A c" ob]
    show ?thesis using assms(2) by (cases "add_error E oid s ca (A c) ob = 0") auto
  qed
next
  case (remove p ob)
  show ?thesis
  proof (cases "ce_cache ob")
    case None
    then have "s' = s" using remove by (simp add: nl_cache_remove_def nl_cache_remove_with_def)
    then show ?thesis using assms(2) by auto
  next
    case (Some c)
    then obtain ca where "ncaches s c = Some ca" "p \<in> set (A c)"
      using nl_inv_obj [OF assms(2) remove(1)] by (auto simp: obj_wf_def)
    then show ?thesis using cache_remove_ok [OF assms(2) _ _ remove(1)] remove(2) by (metis option.inject)
  qed
next
  case (search c ca p ob r)
  have f: "nl_cache_search E c p s = found (find_id oid s (A c) ob) s"
    using cache_search_eq [OF nl_inv_cache [OF assms(2) search(1)] search(1-3)] .
  show ?thesis
  proof (cases "find_id oid s (A c) ob")
    case None
    then show ?thesis using f search(5) assms(2) by (auto simp: found_def)
  next
    case (Some q)
    then obtain x where "nobjs s q = Some x"
      using cache_wf_good [OF nl_inv_cache [OF assms(2) search(1)]] find_id_Some by blast
    then show ?thesis
      using Some f search(4,5) object_get_ok [OF assms(2), of q x] by (auto simp: found_def)
  qed
next
  case (pass_on c ps ca p ob act cb r)
  have "ncaches s c = Some ca" using pass_on by (simp add: arrives_def may_add_def)
  then have ps: "ps = A c" using pass_on(1) cache_wf_entries [OF nl_inv_cache [OF assms(2)]] by simp
  note a = pass_on(2) [unfolded ps]
  show ?thesis
  proof (cases "find_id oid s (A c) ob")
    case None
    then show ?thesis
      using cache_include_first [OF assms(2) a None, of cb] cache_include_del_absent [OF assms(2) a None, of cb] pass_on(3,4) assms(2)
      by (cases "act = NL_ACT_NEW") auto
  next
    case (Some q)
    show ?thesis
    proof (cases "act = NL_ACT_NEW")
      case True
      obtain s'' where "cache_include E c p NL_ACT_NEW cb s = Some (0, s'')" "nl_inv E good oid s'' (A(c := remove1 q (A c) @ [p]))"
        by (rule cache_include_replace [OF assms(2) a Some])
      then show ?thesis using True pass_on(4) by auto
    next
      case False
      obtain s'' where "cache_include E c p NL_ACT_DEL cb s = Some (0, s'')" "nl_inv E good oid s'' (A(c := remove1 q (A c)))"
        by (rule cache_include_del_present [OF assms(2) a Some])
      then show ?thesis using False pass_on(3,4) by auto
    qed
  qed
qed

lemma client_reach_inv: "client_reach E good oid s \<Longrightarrow> \<exists>A. nl_inv E good oid s A"
proof (induction rule: client_reach.induct)
  case start
  show ?case by (auto simp: nl_inv_def nl_start_def)
next
  case (step s s')
  then show ?case using client_step_inv by blast
qed

end

end
