(* ===== verification/C_Strings.thy ===== *)
theory C_Strings
  imports C_Numbers Net_Bytes
begin

text \<open>
  The string functions of the C library that the address code of libnl uses: \<open>memcmp\<close>,
  \<open>strcasecmp\<close>, \<open>snprintf\<close> and \<open>strncat\<close> into a buffer of a given size, \<open>strtol\<close>, and
  \<open>sscanf\<close> with the format of a hardware address.  A C string argument is the list of its
  characters before the terminating NUL.
\<close>

section \<open>Operations\<close>

definition c_memcmp :: "byte cells \<Rightarrow> byte cells \<Rightarrow> 64 word \<Rightarrow> int option" where
  "c_memcmp a b n = do {
     xs \<leftarrow> c_read a 0 (uint n);
     ys \<leftarrow> c_read b 0 (uint n);
     Some (bytes_cmp xs ys)
   }"

text \<open>A \<open>char\<close> is signed; the character at an index of a string, which may be its NUL.\<close>

definition c_schar :: "char \<Rightarrow> int" where
  "c_schar c = (if 128 \<le> (of_char c :: int) then of_char c - 256 else of_char c)"

definition c_at :: "string \<Rightarrow> nat \<Rightarrow> char option" where
  "c_at s i = (if i < length s then Some (s ! i) else if i = length s then Some NUL else None)"

definition strcasecmp_eq :: "string \<Rightarrow> string \<Rightarrow> bool" where
  "strcasecmp_eq s t \<longleftrightarrow> map c_tolower s = map c_tolower t"

definition c_snprintf :: "char cells \<Rightarrow> 64 word \<Rightarrow> string \<Rightarrow> char cells option" where
  "c_snprintf buf sz s = (if sz = 0 then Some buf else c_write buf 0 (take (unat sz - 1) s @ [NUL]))"

definition c_strncat :: "char cells \<Rightarrow> string \<Rightarrow> 64 word \<Rightarrow> char cells option" where
  "c_strncat buf s n = do {
     t \<leftarrow> c_str buf;
     c_write buf (int (length t)) (take (unat n) s @ [NUL])
   }"

text \<open>The \<open>%02x\<close> of an \<open>unsigned char\<close>.\<close>

definition hex_char :: "nat \<Rightarrow> char" where
  "hex_char n = ''0123456789abcdef'' ! n"

definition c_hex2 :: "byte \<Rightarrow> string" where
  "c_hex2 b = [hex_char (unat b div 16), hex_char (unat b mod 16)]"

text \<open>The value of a digit of the bases up to 36; larger for every other character.\<close>

definition c_digit_val :: "char \<Rightarrow> nat" where
  "c_digit_val c =
     (let n = of_char c
      in if 48 \<le> n \<and> n \<le> 57 then n - 48
      else if 97 \<le> n \<and> n \<le> 122 then n - 87
      else if 65 \<le> n \<and> n \<le> 90 then n - 55 else 36)"

definition base_val :: "nat \<Rightarrow> string \<Rightarrow> nat" where
  "base_val b = foldl (\<lambda>a c. b * a + c_digit_val c) 0"

definition is_0x :: "string \<Rightarrow> bool" where
  "is_0x s = (case s of z # x # _ \<Rightarrow> z = CHR ''0'' \<and> c_tolower x = CHR ''x'' | _ \<Rightarrow> False)"

text \<open>
  \<open>strtol (s, &p, base)\<close> for the bases 0, 8, 10 and 16: the value and the text that \<open>p\<close> points
  to, which is all of \<open>s\<close> when there is no number.  A value out of range is clamped.
\<close>

definition c_strtol :: "nat \<Rightarrow> string \<Rightarrow> int \<times> string" where
  "c_strtol base s =
     (let (neg, t) = scan_sign (dropWhile c_isspace s);
          (b, t) = (if (base = 0 \<or> base = 16) \<and> is_0x t
                      \<and> (case drop 2 t of c # _ \<Rightarrow> c_digit_val c < 16 | [] \<Rightarrow> False)
                    then (16, drop 2 t)
                    else (if base \<noteq> 0 then base else if take 1 t = ''0'' then 8 else 10, t));
          ds = takeWhile (\<lambda>c. c_digit_val c < b) t
      in if ds = [] then (0, s)
         else (fst (clamp64 (if neg then - int (base_val b ds) else int (base_val b ds))),
               drop (length ds) t))"

text \<open>
  The conversion \<open>%02x\<close> of \<open>sscanf\<close>: white space is skipped, then at most two characters form
  a number.  The two characters \<open>0x\<close> are the start of a number but not a number.
\<close>

definition scan_x2 :: "string \<Rightarrow> (int \<times> string) option" where
  "scan_x2 s =
     (let t = dropWhile c_isspace s;
          (neg, u) = scan_sign t;
          width = 2 - (length t - length u);
          ds = takeWhile (\<lambda>c. c_digit_val c < 16) (take width u)
      in if width = 2 \<and> is_0x u \<or> ds = [] then None
         else Some (if neg then - int (base_val 16 ds) else int (base_val 16 ds), drop (length ds) u))"

text \<open>\<open>n\<close> such conversions with colons between them: the values that were assigned.\<close>

fun scan_colons :: "nat \<Rightarrow> string \<Rightarrow> int list" where
  "scan_colons 0 s = []"
| "scan_colons (Suc n) s =
     (case scan_x2 s of None \<Rightarrow> []
      | Some (v, r) \<Rightarrow>
          v # (case r of c # r' \<Rightarrow> (if c = CHR '':'' then scan_colons n r' else []) | [] \<Rightarrow> []))"

text \<open>
  The result of \<open>sscanf\<close> when every conversion suppresses its assignment: no item is ever
  assigned, and the end of the text before the first conversion is \<open>EOF\<close>.
\<close>

definition scan_suppressed :: "string \<Rightarrow> int" where
  "scan_suppressed s = (if dropWhile c_isspace s = [] then -1 else 0)"

section \<open>Facts\<close>

lemma c_str_prefix: "c_str b = Some s \<Longrightarrow> take (length s) b = map Some s"
  by (induction b arbitrary: s rule: c_str.induct) (auto split: if_splits)

lemma c_write_str:
  assumes "take (length s) b = map Some s" "NUL \<notin> set (s @ t)" "length s + length t < length b"
  shows "\<exists>b'. c_write b (int (length s)) (t @ [NUL]) = Some b' \<and> c_str b' = Some (s @ t) \<and> length b' = length b"
proof -
  have "c_write b (int (length s)) (t @ [NUL])
      = Some (map Some (s @ t) @ Some NUL # drop (length s + length t + 1) b)"
    using assms(1,3) by (simp add: c_write_def)
  moreover have "c_str (map Some (s @ t) @ Some NUL # drop (length s + length t + 1) b) = Some (s @ t)"
    by (rule c_str_text) (rule assms(2))
  ultimately show ?thesis
    using c_write_length by metis
qed

lemma c_snprintf_str:
  assumes "NUL \<notin> set t" "length t < unat sz" "unat sz \<le> length b"
  shows "\<exists>b'. c_snprintf b sz t = Some b' \<and> c_str b' = Some t \<and> length b' = length b"
proof -
  have "sz \<noteq> 0" "take (unat sz - 1) t = t" using assms(2) by auto
  then show ?thesis using c_write_str [of "[]" b t] assms by (simp add: c_snprintf_def)
qed

lemma c_strncat_str:
  assumes "c_str b = Some s" "NUL \<notin> set t" "length s + length t < unat sz" "unat sz \<le> length b"
  shows "\<exists>b'. c_strncat b t (sz - word_of_nat (length s) - 1) = Some b' \<and> c_str b' = Some (s @ t)
    \<and> length b' = length b"
proof -
  have lt: "length s + 1 \<le> unat sz" "unat sz < 2 ^ 64"
    using assms(3) unsigned_less [of sz] by simp_all
  then have e: "sz - word_of_nat (length s) - 1 = word_of_nat (unat sz - length s - 1)"
    by (simp add: of_nat_diff)
  have "unat (word_of_nat (unat sz - length s - 1) :: 64 word) = unat sz - length s - 1"
    using lt by (intro unat_word_small) simp
  then have "take (unat (sz - word_of_nat (length s) - 1)) t = t" unfolding e using assms(3) by simp
  then show ?thesis
    using c_write_str [OF c_str_prefix [OF assms(1)], of t] assms c_str_no_NUL [OF assms(1)]
    by (simp add: c_strncat_def)
qed

text \<open>Digits that are printed and read.\<close>

lemma hex_char_props:
  assumes "n < 16"
  shows "c_digit_val (hex_char n) = n" "hex_char n \<in> set ''0123456789abcdef''"
    "\<not> c_isspace (hex_char n)" "c_tolower (hex_char n) \<noteq> CHR ''x''"
proof -
  have "\<forall>n \<in> set [0..<16].
      c_digit_val (hex_char n) = n \<and> hex_char n \<in> set ''0123456789abcdef''
      \<and> \<not> c_isspace (hex_char n) \<and> c_tolower (hex_char n) \<noteq> CHR ''x''"
    by code_simp
  then show "c_digit_val (hex_char n) = n" "hex_char n \<in> set ''0123456789abcdef''"
    "\<not> c_isspace (hex_char n)" "c_tolower (hex_char n) \<noteq> CHR ''x''"
    using assms by simp_all
qed

lemma hex_not_sign: "c \<in> set ''0123456789abcdef'' \<Longrightarrow> scan_sign (c # r) = (False, c # r)"
  by (auto simp: scan_sign_def)

lemma scan_x2_hex: "scan_x2 (c_hex2 b @ r) = Some (uint b, r)"
proof -
  define h l where "h = unat b div 16" and "l = unat b mod 16"
  have "unat b < 2 ^ LENGTH(8)" by (rule unsigned_less)
  then have hl: "h < 16" "l < 16" "unat b = 16 * h + l" by (auto simp: h_def l_def)
  have "int (16 * h + l) = uint b" using hl(3) by (simp add: uint_of_unat)
  then show ?thesis
    using hl(1,2) hex_char_props(1,3) [OF hl(1)] hex_char_props(1,4) [OF hl(2)]
      hex_not_sign [OF hex_char_props(2) [OF hl(1)]]
    by (simp add: scan_x2_def c_hex2_def is_0x_def base_val_def flip: h_def l_def)
qed

lemma c_digit_val_isdigit: "c_isdigit c \<Longrightarrow> c_digit_val c = nat (char_digit c) \<and> c_digit_val c < 10"
  by (auto simp: c_isdigit_def c_digit_val_def char_digit_def)

lemma isdigit_props:
  assumes "c_isdigit c"
  shows "\<not> c_isspace c" "scan_sign (c # r) = (False, c # r)" "c_tolower c \<noteq> CHR ''x''" "0 \<le> char_digit c"
  using assms by (auto simp: c_isdigit_def c_isspace_def scan_sign_def c_tolower_def char_digit_def)

lemma base_val_dec: "\<forall>c \<in> set s. c_isdigit c \<Longrightarrow> int (base_val 10 s) = digits_val s \<and> 0 \<le> digits_val s"
proof (induction s rule: rev_induct)
  case (snoc c s)
  then show ?case
    using c_digit_val_isdigit [of c] isdigit_props(4) [of c] by (simp add: base_val_def digits_val_def)
qed (simp add: base_val_def digits_val_def)

lemma c_dec_head: "0 < n \<Longrightarrow> \<exists>c r. c_dec n = c # r \<and> c \<noteq> CHR ''0''"
proof (induction n rule: c_dec.induct)
  case (1 n)
  show ?case
  proof (cases "n < 10")
    case True
    then have "n \<in> set [1, 2, 3, 4, 5, 6, 7, 8, 9]" using 1(2) by auto
    then have "digit_char n \<noteq> CHR ''0''" by (auto simp: digit_char_def)
    then show ?thesis using True by (subst c_dec.simps) simp
  next
    case False
    then obtain c r where "c_dec (n div 10) = c # r" "c \<noteq> CHR ''0''" using 1(1) by force
    then show ?thesis using False by (subst c_dec.simps) simp
  qed
qed

lemma c_dec_length: "0 \<le> n \<Longrightarrow> n < 10 ^ Suc k \<Longrightarrow> length (c_dec n) \<le> Suc k"
proof (induction k arbitrary: n)
  case 0
  then show ?case by (subst c_dec.simps) simp
next
  case (Suc k)
  then have "length (c_dec (n div 10)) \<le> Suc k" by (intro Suc.IH) auto
  then show ?case by (subst c_dec.simps) simp
qed

lemma c_strtol_dec:
  assumes "0 \<le> n" "n \<le> INT64_MAX"
  shows "c_strtol 0 (c_dec n) = (n, [])"
proof (cases "n = 0")
  case True
  moreover have "c_strtol 0 (c_dec 0) = (0, [])" by (subst c_dec.simps) code_simp
  ultimately show ?thesis by simp
next
  case False
  then obtain c r where cr: "c_dec n = c # r" "c \<noteq> CHR ''0''" using c_dec_head [of n] assms by auto
  have d: "\<forall>c \<in> set (c # r). c_isdigit c" using c_dec_digits [OF assms(1)] cr by simp
  have t: "takeWhile (\<lambda>c. c_digit_val c < 10) (c # r) = c # r"
    unfolding takeWhile_eq_all_conv using d c_digit_val_isdigit by blast
  have v: "int (base_val 10 (c # r)) = n"
    using base_val_dec [OF d] digits_val_c_dec [OF assms(1)] cr by simp
  have "c_strtol 0 (c # r) = (fst (clamp64 (int (base_val 10 (c # r)))), drop (length (c # r)) (c # r))"
    using d isdigit_props [of c] cr(2) t by (auto simp: c_strtol_def is_0x_def split: list.splits)
  then show ?thesis using assms(2) v False assms(1) by (simp add: cr clamp64_def)
qed

end
