(* ===== verification/Nl_Attr.thy ===== *)
theory Nl_Attr
  imports Nl_Msg
begin

text \<open>
  Netlink attributes: \<open>lib/attr.c\<close> of the bundled libnl, and the three functions of
  \<open>lib/msg.c\<close> that parse a message.  An attribute is a pair of 16-bit fields (length
  and type) followed by a payload and padding to a multiple of four; a pointer to it is an
  offset into the block that holds it.  Debug prints (\<open>NL_DBG\<close>) are left out.
\<close>

abbreviation (input) NLA_HDRLEN :: int where "NLA_HDRLEN \<equiv> 4"

abbreviation (input) NLA_UNSPEC :: nat where "NLA_UNSPEC \<equiv> 0"
abbreviation (input) NLA_U8 :: nat where "NLA_U8 \<equiv> 1"
abbreviation (input) NLA_U16 :: nat where "NLA_U16 \<equiv> 2"
abbreviation (input) NLA_U32 :: nat where "NLA_U32 \<equiv> 3"
abbreviation (input) NLA_U64 :: nat where "NLA_U64 \<equiv> 4"
abbreviation (input) NLA_STRING :: nat where "NLA_STRING \<equiv> 5"
abbreviation (input) NLA_FLAG :: nat where "NLA_FLAG \<equiv> 6"
abbreviation (input) NLA_TYPE_MAX :: nat where "NLA_TYPE_MAX \<equiv> 8"

text \<open>\<open>type\<close>, \<open>minlen\<close> and \<open>maxlen\<close> of a policy are \<open>uint16_t\<close>.\<close>

record nla_policy =
  pol_type :: nat
  pol_minlen :: nat
  pol_maxlen :: nat

section \<open>Sizes and access\<close>

definition nla_attr_size :: "int \<Rightarrow> int option" where
  "nla_attr_size payload = do {
     c_assert (c_int_ok (NLA_HDRLEN + payload));
     Some (NLA_HDRLEN + payload)
   }"

definition nla_total_size :: "int \<Rightarrow> int option" where
  "nla_total_size payload = do {
     n \<leftarrow> nla_attr_size payload;
     c_assert (c_int_ok (n + 4));
     Some (NLA_ALIGN n)
   }"

definition nla_padlen :: "int \<Rightarrow> int option" where
  "nla_padlen payload = do {
     t \<leftarrow> nla_total_size payload;
     n \<leftarrow> nla_attr_size payload;
     Some (t - n)
   }"

definition nla_type :: "byte cells \<Rightarrow> int \<Rightarrow> int option" where
  "nla_type m p = do { t \<leftarrow> get_u16 m (p + 2); Some (uint t AND NOT (0x8000 OR 0x4000)) }"

definition nla_data :: "int \<Rightarrow> int" where
  "nla_data p = p + NLA_HDRLEN"

definition nla_len :: "byte cells \<Rightarrow> int \<Rightarrow> int option" where
  "nla_len m p = do { l \<leftarrow> get_u16 m p; Some (uint l - NLA_HDRLEN) }"

text \<open>
  The first comparison of \<open>nla_ok\<close> is between an \<open>int\<close> and a
  \<open>size_t\<close>, hence unsigned; the last one is signed.
\<close>

definition nla_ok :: "byte cells \<Rightarrow> int \<Rightarrow> int \<Rightarrow> bool option" where
  "nla_ok m p remaining =
     (if (word_of_int remaining :: 64 word) < 4 then Some False
      else do { l \<leftarrow> get_u16 m p; Some (4 \<le> uint l \<and> uint l \<le> remaining) })"

definition nla_next :: "byte cells \<Rightarrow> int \<Rightarrow> int \<Rightarrow> (int \<times> int) option" where
  "nla_next m p remaining = do {
     l \<leftarrow> get_u16 m p;
     let totlen = NLA_ALIGN (uint l);
     c_assert (c_int_ok (remaining - totlen));
     Some (p + totlen, remaining - totlen)
   }"

text \<open>
  The loop of \<open>nla_for_each_attr\<close>.  The body goes on with a new state (\<open>Inl\<close>) or
  leaves the function (\<open>Inr\<close>); a loop that ends gives the bytes that remain.
\<close>

function nla_for_each_attr ::
    "byte cells \<Rightarrow> (int \<Rightarrow> 's \<Rightarrow> ('s + 'r) option) \<Rightarrow> int \<Rightarrow> int \<Rightarrow> 's \<Rightarrow> (int \<times> 's + 'r) option" where
  "nla_for_each_attr m body p rem s = do {
     ok \<leftarrow> nla_ok m p rem;
     if \<not> ok then Some (Inl (rem, s))
     else do {
       x \<leftarrow> body p s;
       case x of Inr r \<Rightarrow> Some (Inr r)
       | Inl s \<Rightarrow> do {
           q \<leftarrow> nla_next m p rem;
           nla_for_each_attr m body (fst q) (snd q) s
         }
     }
   }"
  by pat_completeness auto

lemma nla_ok_True:
  "nla_ok m p rem = Some True \<Longrightarrow> \<exists>l. get_u16 m p = Some l \<and> 4 \<le> uint l \<and> uint l \<le> rem"
  by (auto simp: nla_ok_def bind_eq_Some_conv split: if_splits)

lemma nla_next_less:
  "nla_ok m p rem = Some True \<Longrightarrow> nla_next m p rem = Some q \<Longrightarrow> snd q < rem \<and> 4 \<le> rem"
  by (auto dest!: nla_ok_True simp: nla_next_def NLA_ALIGN_eq Let_def)

termination nla_for_each_attr
  by (relation "measure (\<lambda>(m, body, p, rem, s). nat rem)") (auto dest!: nla_next_less)

declare nla_for_each_attr.simps [simp del]

section \<open>Validation and parsing\<close>

definition nla_attr_minlen :: "nat list" where
  "nla_attr_minlen = [0, 1, 2, 4, 8, 1, 0, 0, 0]"

definition validate_nla :: "byte cells \<Rightarrow> int \<Rightarrow> int \<Rightarrow> nla_policy list \<Rightarrow> int option" where
  "validate_nla m p maxtype policy = do {
     type \<leftarrow> nla_type m p;
     if type < 0 \<or> type > maxtype then Some 0
     else do {
       c_assert (nat type < length policy);
       let pt = policy ! nat type;
       c_assert (\<not> pol_type pt > NLA_TYPE_MAX);
       let minlen = (if pol_minlen pt \<noteq> 0 then pol_minlen pt
                     else if pol_type pt \<noteq> NLA_UNSPEC then nla_attr_minlen ! pol_type pt else 0);
       n \<leftarrow> nla_len m p;
       if (word_of_int n :: 32 word) < word_of_nat minlen then Some (- NLE_RANGE)
       else if pol_maxlen pt \<noteq> 0 \<and> n > int (pol_maxlen pt) then Some (- NLE_RANGE)
       else if pol_type pt = NLA_STRING then do {
         c \<leftarrow> c_load m (nla_data p + (n - 1));
         Some (if c \<noteq> 0 then - NLE_INVAL else 0)
       }
       else Some 0
     }
   }"

text \<open>
  The index array has \<open>maxtype + 1\<close> entries, \<open>None\<close> for \<open>NULL\<close>; it is left
  partly filled when an attribute is refused.
\<close>

definition nla_parse_body ::
    "byte cells \<Rightarrow> int \<Rightarrow> nla_policy list option \<Rightarrow> int \<Rightarrow> int option list
       \<Rightarrow> (int option list + int \<times> int option list) option" where
  "nla_parse_body m maxtype policy p tb = do {
     type \<leftarrow> nla_type m p;
     if type > maxtype then Some (Inl tb)
     else do {
       err \<leftarrow> (case policy of None \<Rightarrow> Some 0 | Some pol \<Rightarrow> validate_nla m p maxtype pol);
       if err < 0 then Some (Inr (err, tb)) else Some (Inl (tb[nat type := Some p]))
     }
   }"

definition nla_parse ::
    "byte cells \<Rightarrow> int \<Rightarrow> int \<Rightarrow> int \<Rightarrow> nla_policy list option \<Rightarrow> (int \<times> int option list) option" where
  "nla_parse m maxtype head len policy = do {
     c_assert (-1 \<le> maxtype \<and> c_int_ok (maxtype + 1));
     x \<leftarrow> nla_for_each_attr m (nla_parse_body m maxtype policy) head len
            (replicate (nat (maxtype + 1)) None);
     Some (case x of Inl (rem, tb) \<Rightarrow> (0, tb) | Inr r \<Rightarrow> r)
   }"

definition nla_validate :: "byte cells \<Rightarrow> int \<Rightarrow> int \<Rightarrow> int \<Rightarrow> nla_policy list \<Rightarrow> int option" where
  "nla_validate m head len maxtype policy = do {
     x \<leftarrow> nla_for_each_attr m
            (\<lambda>p (_ :: unit). do {
               err \<leftarrow> validate_nla m p maxtype policy;
               Some (if err < 0 then Inr err else Inl ())
             }) head len ();
     Some (case x of Inl _ \<Rightarrow> 0 | Inr err \<Rightarrow> err)
   }"

definition nla_find :: "byte cells \<Rightarrow> int \<Rightarrow> int \<Rightarrow> int \<Rightarrow> int option option" where
  "nla_find m head len attrtype = do {
     x \<leftarrow> nla_for_each_attr m
            (\<lambda>p (_ :: unit). do {
               t \<leftarrow> nla_type m p;
               Some (if t = attrtype then Inr p else Inl ())
             }) head len ();
     Some (case x of Inl _ \<Rightarrow> None | Inr p \<Rightarrow> Some p)
   }"

text \<open>The entry points of \<open>lib/msg.c\<close>; \<open>nlmsg_parse\<close> leaves \<open>tb\<close> alone on a short header.\<close>

definition nlmsg_parse ::
    "byte cells \<Rightarrow> int \<Rightarrow> int \<Rightarrow> int option list \<Rightarrow> int \<Rightarrow> nla_policy list option
       \<Rightarrow> (int \<times> int option list) option" where
  "nlmsg_parse m nlh hdrlen tb maxtype policy = do {
     v \<leftarrow> nlmsg_valid_hdr m nlh hdrlen;
     if \<not> v then Some (- NLE_MSG_TOOSHORT, tb)
     else do {
       n \<leftarrow> nlmsg_attrlen m nlh hdrlen;
       nla_parse m maxtype (nlmsg_attrdata nlh hdrlen) n policy
     }
   }"

definition nlmsg_find_attr :: "byte cells \<Rightarrow> int \<Rightarrow> int \<Rightarrow> int \<Rightarrow> int option option" where
  "nlmsg_find_attr m nlh hdrlen attrtype = do {
     n \<leftarrow> nlmsg_attrlen m nlh hdrlen;
     nla_find m (nlmsg_attrdata nlh hdrlen) n attrtype
   }"

definition nlmsg_validate :: "byte cells \<Rightarrow> int \<Rightarrow> int \<Rightarrow> int \<Rightarrow> nla_policy list \<Rightarrow> int option" where
  "nlmsg_validate m nlh hdrlen maxtype policy = do {
     v \<leftarrow> nlmsg_valid_hdr m nlh hdrlen;
     if \<not> v then Some (- NLE_MSG_TOOSHORT)
     else do {
       n \<leftarrow> nlmsg_attrlen m nlh hdrlen;
       nla_validate m (nlmsg_attrdata nlh hdrlen) n maxtype policy
     }
   }"

section \<open>Helper functions\<close>

definition nla_memcpy :: "byte cells \<Rightarrow> byte cells \<Rightarrow> int option \<Rightarrow> int \<Rightarrow> (int \<times> byte cells) option" where
  "nla_memcpy dest m src count = (case src of None \<Rightarrow> Some (0, dest)
     | Some p \<Rightarrow> do {
         n \<leftarrow> nla_len m p;
         let minlen = min count n;
         bs \<leftarrow> c_read m (nla_data p) minlen;
         dest \<leftarrow> c_memcpy dest 0 bs minlen;
         Some (minlen, dest)
       })"

definition nla_strlcpy :: "byte cells \<Rightarrow> byte cells \<Rightarrow> int \<Rightarrow> 64 word \<Rightarrow> (64 word \<times> byte cells) option" where
  "nla_strlcpy dst m p dstsize = do {
     n \<leftarrow> nla_len m p;
     let srclen = (word_of_int n :: 64 word);
     srclen \<leftarrow> (if srclen > 0 then do {
                  c \<leftarrow> c_load m (nla_data p + uint (srclen - 1));
                  Some (if c = 0 then srclen - 1 else srclen)
                } else Some srclen);
     dst \<leftarrow> (if dstsize > 0 then do {
               let len = (if srclen \<ge> dstsize then dstsize - 1 else srclen);
               dst \<leftarrow> c_memset dst 0 0 (uint dstsize);
               bs \<leftarrow> c_read m (nla_data p) (uint len);
               c_memcpy dst 0 bs (uint len)
             } else Some dst);
     Some (srclen, dst)
   }"

text \<open>The difference of the lengths is taken in \<open>size_t\<close> and stored in an \<open>int\<close>.\<close>

definition nla_memcmp :: "byte cells \<Rightarrow> int \<Rightarrow> byte list \<Rightarrow> 64 word \<Rightarrow> int option" where
  "nla_memcmp m p data sz = do {
     n \<leftarrow> nla_len m p;
     let d = sint (ucast (word_of_int n - sz) :: 32 word);
     if d = 0 then do {
       bs \<leftarrow> c_read m (nla_data p) (uint sz);
       c_assert (uint sz \<le> int (length data));
       Some (bytes_cmp bs (take (unat sz) data))
     } else Some d
   }"

text \<open>A C string argument is the list of its bytes before the terminating zero.\<close>

definition nla_strcmp :: "byte cells \<Rightarrow> int \<Rightarrow> byte list \<Rightarrow> int option" where
  "nla_strcmp m p str = do {
     n \<leftarrow> nla_len m p;
     let len = int (length str) + 1;
     c_assert (c_int_ok len \<and> c_int_ok (n - len));
     let d = n - len;
     if d = 0 then do {
       bs \<leftarrow> c_read m (nla_data p) len;
       Some (bytes_cmp bs (str @ [0]))
     } else Some d
   }"

section \<open>Construction\<close>

definition nla_reserve :: "nl_msg \<Rightarrow> int \<Rightarrow> int \<Rightarrow> (int option \<times> nl_msg) option" where
  "nla_reserve msg attrtype attrlen = do {
     l \<leftarrow> hdr_len (nm_nlh msg) 0;
     total \<leftarrow> nla_total_size attrlen;
     let tlen = sint (NLMSG_ALIGN l + word_of_int total);
     if (word_of_int tlen :: 64 word) > nm_size msg then Some (None, msg)
     else do {
       nla \<leftarrow> nlmsg_tail (nm_nlh msg) 0;
       b \<leftarrow> put_u16 (nm_nlh msg) (nla + 2) (word_of_int attrtype);
       sz \<leftarrow> nla_attr_size attrlen;
       let alen = (word_of_int sz :: 16 word);
       b \<leftarrow> put_u16 b nla alen;
       b \<leftarrow> (if attrlen \<noteq> 0 then do {
               pad \<leftarrow> nla_padlen attrlen;
               c_memset b (nla + uint alen) 0 pad
             } else Some b);
       b \<leftarrow> put_u32 b 0 (word_of_int tlen);
       Some (Some nla, msg\<lparr>nm_nlh := b\<rparr>)
     }
   }"

definition nla_put :: "nl_msg \<Rightarrow> int \<Rightarrow> int \<Rightarrow> byte list \<Rightarrow> (int \<times> nl_msg) option" where
  "nla_put msg attrtype datalen data = do {
     (nla, msg) \<leftarrow> nla_reserve msg attrtype datalen;
     case nla of None \<Rightarrow> Some (- NLE_NOMEM, msg)
     | Some p \<Rightarrow>
         if datalen > 0 then do {
           b \<leftarrow> c_memcpy (nm_nlh msg) (nla_data p) data datalen;
           Some (0, msg\<lparr>nm_nlh := b\<rparr>)
         } else Some (0, msg)
   }"

definition nla_put_u8 :: "nl_msg \<Rightarrow> int \<Rightarrow> 8 word \<Rightarrow> (int \<times> nl_msg) option" where
  "nla_put_u8 msg attrtype value = nla_put msg attrtype 1 (le_bytes 1 (unat value))"

definition nla_get_u8 :: "byte cells \<Rightarrow> int \<Rightarrow> 8 word option" where
  "nla_get_u8 m p = get_u8 m (nla_data p)"

definition nla_put_u16 :: "nl_msg \<Rightarrow> int \<Rightarrow> 16 word \<Rightarrow> (int \<times> nl_msg) option" where
  "nla_put_u16 msg attrtype value = nla_put msg attrtype 2 (le_bytes 2 (unat value))"

definition nla_get_u16 :: "byte cells \<Rightarrow> int \<Rightarrow> 16 word option" where
  "nla_get_u16 m p = get_u16 m (nla_data p)"

definition nla_put_u32 :: "nl_msg \<Rightarrow> int \<Rightarrow> 32 word \<Rightarrow> (int \<times> nl_msg) option" where
  "nla_put_u32 msg attrtype value = nla_put msg attrtype 4 (le_bytes 4 (unat value))"

definition nla_get_u32 :: "byte cells \<Rightarrow> int \<Rightarrow> 32 word option" where
  "nla_get_u32 m p = get_u32 m (nla_data p)"

definition nla_put_u64 :: "nl_msg \<Rightarrow> int \<Rightarrow> 64 word \<Rightarrow> (int \<times> nl_msg) option" where
  "nla_put_u64 msg attrtype value = nla_put msg attrtype 8 (le_bytes 8 (unat value))"

definition nla_get_u64 :: "byte cells \<Rightarrow> int option \<Rightarrow> 64 word option" where
  "nla_get_u64 m nla = (case nla of None \<Rightarrow> Some 0
     | Some p \<Rightarrow> do {
         n \<leftarrow> nla_len m p;
         if (word_of_int n :: 64 word) \<ge> 8 then get_u64 m (nla_data p) else Some 0
       })"

definition nla_put_string :: "nl_msg \<Rightarrow> int \<Rightarrow> byte list \<Rightarrow> (int \<times> nl_msg) option" where
  "nla_put_string msg attrtype str = nla_put msg attrtype (int (length str) + 1) (str @ [0])"

text \<open>The string at an offset, and its copy.\<close>

fun c_bytes_str :: "byte cells \<Rightarrow> byte list option" where
  "c_bytes_str [] = None"
| "c_bytes_str (None # m) = None"
| "c_bytes_str (Some c # m) = (if c = 0 then Some [] else map_option ((#) c) (c_bytes_str m))"

definition nla_get_string :: "int \<Rightarrow> int" where
  "nla_get_string p = nla_data p"

definition nla_strdup :: "malloc_fn \<Rightarrow> byte cells \<Rightarrow> int \<Rightarrow> byte list option option" where
  "nla_strdup mal m p = do {
     c_assert (0 \<le> nla_get_string p);
     s \<leftarrow> c_bytes_str (drop (nat (nla_get_string p)) m);
     Some (if mal (int (length s) + 1) then Some s else None)
   }"

definition nla_put_flag :: "nl_msg \<Rightarrow> int \<Rightarrow> (int \<times> nl_msg) option" where
  "nla_put_flag msg attrtype = nla_put msg attrtype 0 []"

definition nla_get_flag :: "int option \<Rightarrow> bool" where
  "nla_get_flag nla \<longleftrightarrow> nla \<noteq> None"

definition nla_put_msecs :: "nl_msg \<Rightarrow> int \<Rightarrow> 64 word \<Rightarrow> (int \<times> nl_msg) option" where
  "nla_put_msecs n attrtype msecs = nla_put_u64 n attrtype msecs"

definition nla_get_msecs :: "byte cells \<Rightarrow> int option \<Rightarrow> 64 word option" where
  "nla_get_msecs m nla = nla_get_u64 m nla"

section \<open>Nesting\<close>

definition nla_put_nested :: "nl_msg \<Rightarrow> int \<Rightarrow> nl_msg \<Rightarrow> (int \<times> nl_msg) option" where
  "nla_put_nested msg attrtype nested = do {
     n \<leftarrow> nlmsg_datalen (nm_nlh nested) 0;
     bs \<leftarrow> (if n > 0 then c_read (nm_nlh nested) (nlmsg_data 0) n else Some []);
     nla_put msg attrtype n bs
   }"

definition nla_nest_start :: "nl_msg \<Rightarrow> int \<Rightarrow> (int option \<times> nl_msg) option" where
  "nla_nest_start msg attrtype = do {
     start \<leftarrow> nlmsg_tail (nm_nlh msg) 0;
     (r, msg) \<leftarrow> nla_put msg attrtype 0 [];
     Some (if r < 0 then None else Some start, msg)
   }"

definition nla_nest_cancel :: "nl_msg \<Rightarrow> int \<Rightarrow> nl_msg option" where
  "nla_nest_cancel msg attr = do {
     t \<leftarrow> nlmsg_tail (nm_nlh msg) 0;
     let len = t - attr;
     c_assert (\<not> len < 0);
     if len > 0 then do {
       l \<leftarrow> hdr_len (nm_nlh msg) 0;
       b \<leftarrow> put_u32 (nm_nlh msg) 0 (l - word_of_int len);
       t \<leftarrow> nlmsg_tail b 0;
       b \<leftarrow> c_memset b t 0 len;
       Some (msg\<lparr>nm_nlh := b\<rparr>)
     } else Some msg
   }"

definition nla_nest_end :: "nl_msg \<Rightarrow> int \<Rightarrow> (int \<times> nl_msg) option" where
  "nla_nest_end msg start = do {
     t \<leftarrow> nlmsg_tail (nm_nlh msg) 0;
     let len = (word_of_int (t - start) :: 64 word);
     if len = word_of_int NLA_HDRLEN then do {
       msg \<leftarrow> nla_nest_cancel msg start;
       Some (0, msg)
     } else do {
       b \<leftarrow> put_u16 (nm_nlh msg) start (ucast len);
       let msg = msg\<lparr>nm_nlh := b\<rparr>;
       l \<leftarrow> hdr_len b 0;
       let pad = NLMSG_ALIGN l - l;
       if pad > 0 then do {
         (r, msg) \<leftarrow> nlmsg_reserve msg (ucast pad) 0;
         c_assert (r \<noteq> None);
         Some (0, msg)
       } else Some (0, msg)
     }
   }"

definition nla_parse_nested ::
    "byte cells \<Rightarrow> int \<Rightarrow> int \<Rightarrow> nla_policy list option \<Rightarrow> (int \<times> int option list) option" where
  "nla_parse_nested m maxtype nla policy = do {
     n \<leftarrow> nla_len m nla;
     nla_parse m maxtype (nla_data nla) n policy
   }"

definition nla_is_nested :: "byte cells \<Rightarrow> int \<Rightarrow> bool option" where
  "nla_is_nested m p = do { t \<leftarrow> get_u16 m (p + 2); Some (t AND 0x8000 \<noteq> 0) }"

end
