(* ===== verification/Nl_Addr.thy ===== *)
theory Nl_Addr
  imports C_Strings Nl_Attr "HOL-Library.Signed_Division"
begin

text \<open>
  Abstract addresses and abstract data: \<open>lib/addr.c\<close> and \<open>lib/data.c\<close> of the bundled libnl,
  and the two functions of \<open>lib/attr.c\<close> that put them into a message.  The conversions
  \<open>inet_pton\<close> and \<open>inet_ntop\<close> of the system are arguments: \<open>pton\<close> gives the bytes of a
  text that is an address of the family, \<open>ntop\<close> the text of the bytes.
\<close>

section \<open>DECnet addresses\<close>

definition dn_ntohs :: "16 word \<Rightarrow> 16 word" where
  "dn_ntohs addr = (let b = le_bytes 2 (unat addr) in ucast (b ! 0) OR push_bit 8 (ucast (b ! 1)))"

text \<open>The result: whether the text is full, then \<open>*str\<close>, \<open>*addr\<close>, \<open>*pos\<close> and \<open>*started\<close>.\<close>

definition do_digit ::
    "char cells \<Rightarrow> 16 word \<Rightarrow> 16 word \<Rightarrow> nat \<Rightarrow> nat \<Rightarrow> bool \<Rightarrow> (bool \<times> char cells \<times> 16 word \<times> nat \<times> bool) option" where
  "do_digit str addr scale pos len started =
     (let tmp = addr div scale
      in if pos = len then Some (True, str, addr, pos, started)
      else if tmp > 0 \<or> started \<or> scale = 1 then do {
        str \<leftarrow> c_store str (int pos) (char_of (unat tmp + 48));
        Some (False, str, addr - tmp * scale, pos + 1, True)
      }
      else Some (False, str, addr, pos, started))"

text \<open>The calls of \<open>do_digit\<close> for the scales in turn, up to one that finds the text full.\<close>

primrec do_digits ::
    "16 word list \<Rightarrow> char cells \<Rightarrow> 16 word \<Rightarrow> nat \<Rightarrow> nat \<Rightarrow> bool \<Rightarrow> (bool \<times> char cells \<times> nat) option" where
  "do_digits [] str addr pos len started = Some (False, str, pos)"
| "do_digits (scale # scales) str addr pos len started = do {
     (full, str, addr, pos, started) \<leftarrow> do_digit str addr scale pos len started;
     if full then Some (True, str, pos) else do_digits scales str addr pos len started
   }"

text \<open>Whether the result is \<open>str\<close> (and not \<open>NULL\<close>), and the buffer.\<close>

definition dnet_ntop :: "byte cells \<Rightarrow> 64 word \<Rightarrow> char cells \<Rightarrow> nat \<Rightarrow> (bool \<times> char cells) option" where
  "dnet_ntop addrbuf addrlen str len = do {
     w \<leftarrow> get_u16 addrbuf 0;
     let addr = dn_ntohs w;
     let area = drop_bit 10 addr;
     if addrlen \<noteq> 2 then Some (False, str)
     else if len = 0 then Some (True, str)
     else do {
       (full, str, pos) \<leftarrow> do_digits [10, 1] str area 0 len False;
       if full \<or> pos = len then Some (True, str)
       else do {
         str \<leftarrow> c_store str (int pos) (CHR ''.'');
         (full, str, pos) \<leftarrow> do_digits [1000, 100, 10, 1] str (addr AND 0x3ff) (pos + 1) len False;
         if full \<or> pos = len then Some (True, str)
         else do {
           str \<leftarrow> c_store str (int pos) NUL;
           Some (True, str)
         }
       }
     }
   }"

fun dnet_num_loop :: "string \<Rightarrow> int \<Rightarrow> 16 word \<Rightarrow> (int \<times> 16 word) option" where
  "dnet_num_loop [] rv dst = Some (rv, dst)"
| "dnet_num_loop (c # src) rv dst =
     (let tmp = c_schar c - 48
      in if tmp < 0 \<or> tmp > 9 then Some (rv, dst)
      else do {
        c_assert (c_int_ok (rv + 1));
        dnet_num_loop src (rv + 1) (dst * 10 + word_of_int tmp)
      })"

definition dnet_num :: "string \<Rightarrow> (int \<times> 16 word) option" where
  "dnet_num src = dnet_num_loop src 0 0"

definition dnet_pton :: "string \<Rightarrow> byte cells \<Rightarrow> (int \<times> byte cells) option" where
  "dnet_pton src addrbuf = do {
     (pos, area) \<leftarrow> dnet_num src;
     c \<leftarrow> c_at src (nat pos);
     if pos = 0 \<or> area > 63 \<or> c \<noteq> CHR ''.'' \<and> c \<noteq> CHR '','' then Some (- NLE_INVAL, addrbuf)
     else do {
       (pos, node) \<leftarrow> dnet_num (drop (nat pos + 1) src);
       if pos = 0 \<or> node > 1023 then Some (- NLE_INVAL, addrbuf)
       else do {
         b \<leftarrow> put_u16 addrbuf 0 (dn_ntohs (push_bit 10 area OR node));
         Some (1, b)
       }
     }
   }"

section \<open>Addresses\<close>

record nl_addr =
  a_family :: int
  a_maxsize :: "32 word"
  a_len :: "32 word"
  a_prefixlen :: int
  a_refcnt :: int
  a_addr :: "byte cells"

text \<open>An address that is freed is gone: the result of \<open>addr_destroy\<close> has no address.\<close>

definition addr_destroy :: "nl_addr option \<Rightarrow> unit option" where
  "addr_destroy addr = (case addr of None \<Rightarrow> Some () | Some a \<Rightarrow> c_assert (a_refcnt a = 1))"

text \<open>The struct takes twenty bytes before the address.\<close>

definition nl_addr_alloc :: "malloc_fn \<Rightarrow> 64 word \<Rightarrow> nl_addr option option" where
  "nl_addr_alloc mal maxsize =
     (if \<not> mal (uint (20 + maxsize)) then Some None
      else do {
        c_assert (20 \<le> 20 + maxsize);
        Some (Some \<lparr>a_family = 0, a_maxsize = ucast maxsize, a_len = 0, a_prefixlen = 0, a_refcnt = 1,
                    a_addr = replicate (unat maxsize) (Some 0)\<rparr>)
      })"

text \<open>The source \<open>buf\<close> is the block from the pointer on.\<close>

definition nl_addr_build :: "malloc_fn \<Rightarrow> int \<Rightarrow> byte cells \<Rightarrow> 64 word \<Rightarrow> nl_addr option option" where
  "nl_addr_build mal family buf sz = do {
     addr \<leftarrow> nl_addr_alloc mal sz;
     case addr of None \<Rightarrow> Some None
     | Some addr \<Rightarrow> do {
         let addr = addr\<lparr>a_family := family, a_len := ucast sz, a_prefixlen := sint (ucast (sz * 8) :: 32 word)\<rparr>;
         if sz = 0 then Some (Some addr)
         else do {
           bs \<leftarrow> c_read buf 0 (uint sz);
           b \<leftarrow> c_memcpy (a_addr addr) 0 bs (uint sz);
           Some (Some (addr\<lparr>a_addr := b\<rparr>))
         }
       }
   }"

definition nl_addr_alloc_attr :: "malloc_fn \<Rightarrow> byte cells \<Rightarrow> int \<Rightarrow> int \<Rightarrow> nl_addr option option" where
  "nl_addr_alloc_attr mal m nla family = do {
     n \<leftarrow> nla_len m nla;
     nl_addr_build mal family (drop (nat (nla_data nla)) m) (word_of_int n)
   }"

definition nl_addr_clone :: "malloc_fn \<Rightarrow> nl_addr \<Rightarrow> nl_addr option option" where
  "nl_addr_clone mal addr = do {
     new \<leftarrow> nl_addr_build mal (a_family addr) (a_addr addr) (ucast (a_len addr));
     Some (map_option (\<lambda>n. n\<lparr>a_prefixlen := a_prefixlen addr\<rparr>) new)
   }"

definition nl_addr_get :: "nl_addr \<Rightarrow> nl_addr option" where
  "nl_addr_get addr = do {
     c_assert (c_int_ok (a_refcnt addr + 1));
     Some (addr\<lparr>a_refcnt := a_refcnt addr + 1\<rparr>)
   }"

text \<open>The address that remains, none when the last reference was returned.\<close>

definition nl_addr_put :: "nl_addr option \<Rightarrow> nl_addr option option" where
  "nl_addr_put addr =
     (case addr of None \<Rightarrow> Some None
      | Some a \<Rightarrow>
          if a_refcnt a = 1 then do { addr_destroy (Some a); Some None }
          else do {
            c_assert (c_int_ok (a_refcnt a - 1));
            Some (Some (a\<lparr>a_refcnt := a_refcnt a - 1\<rparr>))
          })"

definition nl_addr_shared :: "nl_addr \<Rightarrow> bool" where
  "nl_addr_shared addr \<longleftrightarrow> a_refcnt addr > 1"

definition nl_addr_cmp :: "nl_addr \<Rightarrow> nl_addr \<Rightarrow> int option" where
  "nl_addr_cmp a b = do {
     c_assert (c_int_ok (a_family a - a_family b));
     let d = a_family a - a_family b;
     if d = 0 then do {
       let d = sint (a_len a - a_len b);
       if a_len a \<noteq> 0 \<and> d = 0 then do {
         d \<leftarrow> c_memcmp (a_addr a) (a_addr b) (ucast (a_len a));
         if d = 0 then do {
           c_assert (c_int_ok (a_prefixlen a - a_prefixlen b));
           Some (a_prefixlen a - a_prefixlen b)
         } else Some d
       } else Some d
     } else Some d
   }"

definition nl_addr_cmp_prefix :: "nl_addr \<Rightarrow> nl_addr \<Rightarrow> int option" where
  "nl_addr_cmp_prefix a b = do {
     c_assert (c_int_ok (a_family a - a_family b));
     let d = a_family a - a_family b;
     if d = 0 then do {
       let len = min (a_prefixlen a) (a_prefixlen b);
       let bytes = len sdiv 8;
       d \<leftarrow> c_memcmp (a_addr a) (a_addr b) (word_of_int bytes);
       if d = 0 \<and> len smod 8 \<noteq> 0 then do {
         c_assert (0 \<le> len smod 8);
         let mask = drop_bit (nat (len smod 8)) 0xFF00 AND (0xFF :: 32 word);
         x \<leftarrow> c_load (a_addr a) bytes;
         y \<leftarrow> c_load (a_addr b) bytes;
         Some (sint (scast x AND mask) - sint (scast y AND mask))
       } else Some d
     } else Some d
   }"

text \<open>The loop over the bytes \<open>i\<close> to \<open>i + n - 1\<close>.\<close>

primrec iszero_loop :: "nat \<Rightarrow> byte cells \<Rightarrow> nat \<Rightarrow> int option" where
  "iszero_loop 0 m i = Some 1"
| "iszero_loop (Suc n) m i = do {
     b \<leftarrow> c_load m (int i);
     if b \<noteq> 0 then Some 0 else iszero_loop n m (i + 1)
   }"

definition nl_addr_iszero :: "nl_addr \<Rightarrow> int option" where
  "nl_addr_iszero addr = iszero_loop (unat (a_len addr)) (a_addr addr) 0"

definition nl_addr_valid :: "(int \<Rightarrow> string \<Rightarrow> byte list option) \<Rightarrow> string \<Rightarrow> int \<Rightarrow> int option" where
  "nl_addr_valid pton addr family =
     (if family = AF_INET \<or> family = AF_INET6 then
        (case pton family addr of None \<Rightarrow> Some 0
         | Some bs \<Rightarrow> do { b \<leftarrow> c_write (replicate 32 None) 0 bs; Some 1 })
      else if family = AF_DECnet then do {
        (ret, buf) \<leftarrow> dnet_pton addr (replicate 32 None);
        Some (if ret \<le> 0 then 0 else 1)
      }
      else if family = AF_LLC then Some (if scan_suppressed addr \<noteq> 6 then 0 else 1)
      else Some 1)"

definition nl_addr_guess_family :: "nl_addr \<Rightarrow> int" where
  "nl_addr_guess_family addr =
     (if a_len addr = 4 then AF_INET else if a_len addr = 6 then AF_LLC
      else if a_len addr = 16 then AF_INET6 else AF_UNSPEC)"

text \<open>
  The result, \<open>*sa\<close> and \<open>*salen\<close>.  \<open>struct sockaddr_in\<close> has sixteen bytes with the address at
  offset 4, \<open>struct sockaddr_in6\<close> twenty-eight with the address at offset 8.
\<close>

definition nl_addr_fill_sockaddr ::
    "nl_addr \<Rightarrow> byte cells \<Rightarrow> 32 word \<Rightarrow> (int \<times> byte cells \<times> 32 word) option" where
  "nl_addr_fill_sockaddr addr sa salen =
     (if a_family addr = AF_INET then
        if salen < 16 then Some (- NLE_INVAL, sa, salen)
        else do {
          sa \<leftarrow> put_u16 sa 0 (word_of_int (a_family addr));
          bs \<leftarrow> c_read (a_addr addr) 0 4;
          sa \<leftarrow> c_memcpy sa 4 bs 4;
          Some (0, sa, 16)
        }
      else if a_family addr = AF_INET6 then
        if salen < 28 then Some (- NLE_INVAL, sa, salen)
        else do {
          sa \<leftarrow> put_u16 sa 0 (word_of_int (a_family addr));
          bs \<leftarrow> c_read (a_addr addr) 0 16;
          sa \<leftarrow> c_memcpy sa 8 bs 16;
          Some (0, sa, 28)
        }
      else Some (- NLE_INVAL, sa, salen))"

definition nl_addr_set_family :: "nl_addr \<Rightarrow> int \<Rightarrow> nl_addr" where
  "nl_addr_set_family addr family = addr\<lparr>a_family := family\<rparr>"

definition nl_addr_get_family :: "nl_addr \<Rightarrow> int" where
  "nl_addr_get_family addr = a_family addr"

definition nl_addr_set_binary_addr :: "nl_addr \<Rightarrow> byte cells \<Rightarrow> 64 word \<Rightarrow> (int \<times> nl_addr) option" where
  "nl_addr_set_binary_addr addr buf len =
     (if len > ucast (a_maxsize addr) then Some (- NLE_RANGE, addr)
      else do {
        b \<leftarrow> c_memset (a_addr addr) 0 0 (uint (a_maxsize addr));
        let addr = addr\<lparr>a_len := ucast len, a_addr := b\<rparr>;
        if len = 0 then Some (0, addr)
        else do {
          bs \<leftarrow> c_read buf 0 (uint len);
          b \<leftarrow> c_memcpy b 0 bs (uint len);
          Some (0, addr\<lparr>a_addr := b\<rparr>)
        }
      })"

definition nl_addr_get_binary_addr :: "nl_addr \<Rightarrow> byte cells" where
  "nl_addr_get_binary_addr addr = a_addr addr"

definition nl_addr_get_len :: "nl_addr \<Rightarrow> 32 word" where
  "nl_addr_get_len addr = a_len addr"

definition nl_addr_set_prefixlen :: "nl_addr \<Rightarrow> int \<Rightarrow> nl_addr" where
  "nl_addr_set_prefixlen addr prefixlen = addr\<lparr>a_prefixlen := prefixlen\<rparr>"

definition nl_addr_get_prefixlen :: "nl_addr \<Rightarrow> 32 word" where
  "nl_addr_get_prefixlen addr = word_of_int (a_prefixlen addr)"

section \<open>Addresses as text\<close>

text \<open>The loop of \<open>nl_addr2str\<close> over the bytes from \<open>i\<close> on.\<close>

primrec addr2str_loop :: "nat \<Rightarrow> byte cells \<Rightarrow> nat \<Rightarrow> char cells \<Rightarrow> 64 word \<Rightarrow> char cells option" where
  "addr2str_loop 0 m i buf sz = Some buf"
| "addr2str_loop (Suc n) m i buf sz = do {
     b \<leftarrow> c_load m (int i);
     t \<leftarrow> c_str buf;
     buf \<leftarrow> c_strncat buf (CHR '':'' # c_hex2 b) (sz - word_of_nat (length t) - 1);
     addr2str_loop n m (i + 1) buf sz
   }"

text \<open>
  \<open>inet_ntop\<close> reads as many bytes as the family has; a text that does not fit leaves the
  buffer as it is.
\<close>

definition inet_ntop_into ::
    "(int \<Rightarrow> byte list \<Rightarrow> string) \<Rightarrow> int \<Rightarrow> int \<Rightarrow> byte cells \<Rightarrow> char cells \<Rightarrow> 64 word \<Rightarrow> char cells option" where
  "inet_ntop_into ntop family n m buf sz = do {
     bs \<leftarrow> c_read m 0 n;
     if length (ntop family bs) < unat sz then c_write buf 0 (ntop family bs @ [NUL]) else Some buf
   }"

definition addr2str_prefix :: "nl_addr \<Rightarrow> char cells \<Rightarrow> 64 word \<Rightarrow> char cells option" where
  "addr2str_prefix addr buf sz =
     (if (word_of_int (a_prefixlen addr) :: 32 word) \<noteq> 8 * a_len addr then do {
        t \<leftarrow> c_str buf;
        c_strncat buf (CHR ''/'' # c_dec (uint (word_of_int (a_prefixlen addr) :: 32 word)))
          (sz - word_of_nat (length t) - 1)
      } else Some buf)"

definition nl_addr2str ::
    "(int \<Rightarrow> byte list \<Rightarrow> string) \<Rightarrow> nl_addr option \<Rightarrow> char cells \<Rightarrow> 64 word \<Rightarrow> char cells option" where
  "nl_addr2str ntop addr buf sz =
     (case addr of None \<Rightarrow> c_snprintf buf sz ''none''
      | Some a \<Rightarrow>
          if a_len a = 0 then do {
            buf \<leftarrow> c_snprintf buf sz ''none'';
            addr2str_prefix a buf sz
          }
          else do {
            buf \<leftarrow>
              (if a_family a = AF_INET then inet_ntop_into ntop AF_INET 4 (a_addr a) buf sz
               else if a_family a = AF_INET6 then inet_ntop_into ntop AF_INET6 16 (a_addr a) buf sz
               else if a_family a = AF_DECnet then
                 map_option snd (dnet_ntop (a_addr a) (ucast (a_len a)) buf (unat sz))
               else do {
                 b \<leftarrow> c_load (a_addr a) 0;
                 buf \<leftarrow> c_snprintf buf sz (c_hex2 b);
                 addr2str_loop (unat (a_len a) - 1) (a_addr a) 1 buf sz
               });
            addr2str_prefix a buf sz
          })"

text \<open>
  The loop of \<open>nl_addr_parse\<close> over bytes separated by any one character: the number of bytes
  and the buffer, none for \<open>-NLE_INVAL\<close>.
\<close>

lemma scan_sign_length: "length (snd (scan_sign s)) \<le> length s"
  by (auto simp: scan_sign_def split: list.splits)

lemma c_strtol_rest:
  "snd (c_strtol b s) = s \<or> length (snd (c_strtol b s)) < length s"
proof -
  obtain neg t where t: "scan_sign (dropWhile c_isspace s) = (neg, t)" by force
  have l: "length t \<le> length s"
    using scan_sign_length [of "dropWhile c_isspace s"] length_dropWhile_le [of c_isspace s] t by simp
  show ?thesis
    using l by (cases t) (auto simp: c_strtol_def t Let_def split: if_splits)
qed

function addr_hex_loop :: "string \<Rightarrow> nat \<Rightarrow> byte cells \<Rightarrow> (nat \<times> byte cells) option option" where
  "addr_hex_loop s i buf =
     (let (l, p) = c_strtol 16 s
      in if p = s \<or> l > 0xff \<or> i \<ge> 32 then Some None
      else do {
        buf \<leftarrow> c_store buf (int i) (word_of_int l);
        if p = [] then Some (Some (i + 1, buf)) else addr_hex_loop (tl p) (i + 1) buf
      })"
  by pat_completeness auto
termination
proof (relation "measure (\<lambda>(s, _). length s)", goal_cases)
  case (2 s i buf x l p b)
  then have "c_strtol 16 s = (l, p)" by simp
  then show ?case using 2 c_strtol_rest [of 16 s] by (cases p) auto
qed simp

text \<open>
  The text of an address without its prefix length: the error, or whether there are bytes to
  copy, the family, the length and the buffer.
\<close>

definition parse_addr_hex :: "string \<Rightarrow> int \<Rightarrow> byte cells \<Rightarrow> (int + bool \<times> int \<times> nat \<times> byte cells) option" where
  "parse_addr_hex str hint buf =
     (if hint = AF_UNSPEC \<and> CHR '':'' \<in> set str then do {
        r \<leftarrow> addr_hex_loop str 0 buf;
        Some (case r of None \<Rightarrow> Inl (- NLE_INVAL) | Some (len, buf) \<Rightarrow> Inr (True, AF_UNSPEC, len, buf))
      } else Some (Inl (- NLE_NOADDR)))"

definition parse_addr_other :: "string \<Rightarrow> int \<Rightarrow> byte cells \<Rightarrow> (int + bool \<times> int \<times> nat \<times> byte cells) option" where
  "parse_addr_other str hint buf =
     (if (hint = AF_LLC \<or> hint = AF_UNSPEC) \<and> CHR '':'' \<in> set str \<and> length (scan_colons 6 str) = 6 then do {
        buf \<leftarrow> c_write buf 0 (map word_of_int (scan_colons 6 str));
        Some (Inr (True, AF_LLC, 6, buf))
      }
      else if hint = AF_LLC \<and> CHR '':'' \<in> set str then Some (Inl (- NLE_NOADDR))
      else if (hint = AF_DECnet \<or> hint = AF_UNSPEC) \<and> (CHR ''.'' \<in> set str \<or> CHR '','' \<in> set str) then do {
        (r, buf) \<leftarrow> dnet_pton str buf;
        if r > 0 then Some (Inr (True, AF_DECnet, 2, buf))
        else if hint = AF_DECnet then Some (Inl (- NLE_NOADDR))
        else parse_addr_hex str hint buf
      }
      else parse_addr_hex str hint buf)"

definition parse_addr_text ::
    "(int \<Rightarrow> string \<Rightarrow> byte list option) \<Rightarrow> string \<Rightarrow> int \<Rightarrow> (int + bool \<times> int \<times> nat \<times> byte cells) option" where
  "parse_addr_text pton str hint =
     (let buf = replicate 32 None
      in if strcasecmp_eq str ''none'' then Some (Inr (False, hint, 0, buf))
      else if strcasecmp_eq str ''default'' \<or> strcasecmp_eq str ''all'' \<or> strcasecmp_eq str ''any'' then
        Some (if hint = AF_INET \<or> hint = AF_UNSPEC then Inr (False, AF_INET, 0, buf)
              else if hint = AF_INET6 then Inr (False, AF_INET6, 0, buf)
              else if hint = AF_LLC then Inr (False, AF_LLC, 0, buf)
              else Inl (- NLE_AF_NOSUPPORT))
      else case (if hint = AF_INET \<or> hint = AF_UNSPEC then pton AF_INET str else None) of
        Some bs \<Rightarrow> do { buf \<leftarrow> c_write buf 0 bs; Some (Inr (True, AF_INET, 4, buf)) }
      | None \<Rightarrow>
          if hint = AF_INET then Some (Inl (- NLE_NOADDR))
          else case (if hint = AF_INET6 \<or> hint = AF_UNSPEC then pton AF_INET6 str else None) of
            Some bs \<Rightarrow> do { buf \<leftarrow> c_write buf 0 bs; Some (Inr (True, AF_INET6, 16, buf)) }
          | None \<Rightarrow>
              if hint = AF_INET6 then Some (Inl (- NLE_NOADDR)) else parse_addr_other str hint buf)"

text \<open>The error code and \<open>*result\<close>, which is only set on success.\<close>

definition nl_addr_parse ::
    "(int \<Rightarrow> string \<Rightarrow> byte list option) \<Rightarrow> malloc_fn \<Rightarrow> string \<Rightarrow> int \<Rightarrow> (int \<times> nl_addr option) option" where
  "nl_addr_parse pton mal addrstr hint =
     (if \<not> mal (int (length addrstr) + 1) then Some (- NLE_NOMEM, None)
      else do {
        r \<leftarrow> parse_addr_text pton (takeWhile (\<lambda>c. c \<noteq> CHR ''/'') addrstr) hint;
        case r of Inl err \<Rightarrow> Some (err, None)
        | Inr (copy, family, len, buf) \<Rightarrow> do {
            addr \<leftarrow> nl_addr_alloc mal (word_of_nat len);
            case addr of None \<Rightarrow> Some (- NLE_NOMEM, None)
            | Some addr \<Rightarrow> do {
                let addr = nl_addr_set_family addr family;
                (_, addr) \<leftarrow> (if copy then nl_addr_set_binary_addr addr buf (word_of_nat len) else Some (0, addr));
                case dropWhile (\<lambda>c. c \<noteq> CHR ''/'') addrstr of
                  [] \<Rightarrow> Some (0, Some (nl_addr_set_prefixlen addr (int len * 8)))
                | _ # prefix \<Rightarrow>
                    let (pl, p) = c_strtol 0 prefix
                    in if p = prefix then do { addr_destroy (Some addr); Some (- NLE_INVAL, None) }
                    else Some (0, Some (nl_addr_set_prefixlen addr (sint (word_of_int pl :: 32 word))))
              }
          }
      })"

section \<open>Abstract data\<close>

record nl_data =
  d_size :: "64 word"
  d_data :: "byte cells option"

text \<open>\<open>buf\<close> is the block from the pointer on; a \<open>NULL\<close> pointer leaves the zeroes.\<close>

definition nl_data_alloc :: "malloc_fn \<Rightarrow> byte cells option \<Rightarrow> 64 word \<Rightarrow> nl_data option option" where
  "nl_data_alloc mal buf sz =
     (if \<not> mal 16 \<or> \<not> mal (uint sz) then Some None
      else do {
        let zero = replicate (unat sz) (Some 0);
        d \<leftarrow> (case buf of None \<Rightarrow> Some zero
              | Some m \<Rightarrow> do { bs \<leftarrow> c_read m 0 (uint sz); c_memcpy zero 0 bs (uint sz) });
        Some (Some \<lparr>d_size = sz, d_data = Some d\<rparr>)
      })"

definition nl_data_alloc_attr :: "malloc_fn \<Rightarrow> byte cells \<Rightarrow> int \<Rightarrow> nl_data option option" where
  "nl_data_alloc_attr mal m nla = do {
     n \<leftarrow> nla_len m nla;
     nl_data_alloc mal (Some (drop (nat (nla_data nla)) m)) (word_of_int n)
   }"

definition nl_data_clone :: "malloc_fn \<Rightarrow> nl_data \<Rightarrow> nl_data option option" where
  "nl_data_clone mal src = nl_data_alloc mal (d_data src) (d_size src)"

text \<open>
  \<open>realloc\<close> keeps the old bytes; when it fails the code overwrites its pointer to the old block
  with \<open>NULL\<close>.
\<close>

definition nl_data_append :: "malloc_fn \<Rightarrow> nl_data \<Rightarrow> byte cells option \<Rightarrow> 64 word \<Rightarrow> (int \<times> nl_data) option" where
  "nl_data_append mal data buf sz =
     (if sz > 0 then
        if \<not> mal (uint (d_size data + sz)) then Some (- NLE_NOMEM, data\<lparr>d_data := None\<rparr>)
        else do {
          let old = (case d_data data of None \<Rightarrow> [] | Some m \<Rightarrow> m);
          let n = unat (d_size data + sz);
          let d = take n (old @ replicate n None);
          d \<leftarrow> (case buf of
                  Some m \<Rightarrow> do { bs \<leftarrow> c_read m 0 (uint sz); c_memcpy d (uint (d_size data)) bs (uint sz) }
                | None \<Rightarrow> c_memset d (uint (d_size data)) 0 (uint sz));
          Some (0, \<lparr>d_size = d_size data + sz, d_data = Some d\<rparr>)
        }
      else Some (0, data))"

definition nl_data_get :: "nl_data \<Rightarrow> byte cells option" where
  "nl_data_get data = (if d_size data > 0 then d_data data else None)"

definition nl_data_get_size :: "nl_data \<Rightarrow> 64 word" where
  "nl_data_get_size data = d_size data"

definition nl_data_cmp :: "nl_data \<Rightarrow> nl_data \<Rightarrow> int option" where
  "nl_data_cmp a b =
     (case (nl_data_get a, nl_data_get b) of
        (Some a_, Some b_) \<Rightarrow> c_memcmp a_ b_ (nl_data_get_size a)
      | _ \<Rightarrow> Some (-1))"

section \<open>Into a message\<close>

text \<open>\<open>nla_put\<close> takes its length as an \<open>int\<close>, and the bytes that can be read at its pointer.\<close>

definition readable_bytes :: "byte cells \<Rightarrow> byte list" where
  "readable_bytes m = map the (takeWhile (\<lambda>x. x \<noteq> None) m)"

definition nla_put_data :: "nl_msg \<Rightarrow> int \<Rightarrow> nl_data \<Rightarrow> (int \<times> nl_msg) option" where
  "nla_put_data msg attrtype data =
     nla_put msg attrtype (sint (ucast (nl_data_get_size data) :: 32 word))
       (case nl_data_get data of None \<Rightarrow> [] | Some m \<Rightarrow> readable_bytes m)"

definition nla_put_addr :: "nl_msg \<Rightarrow> int \<Rightarrow> nl_addr \<Rightarrow> (int \<times> nl_msg) option" where
  "nla_put_addr msg attrtype addr =
     nla_put msg attrtype (sint (nl_addr_get_len addr)) (readable_bytes (nl_addr_get_binary_addr addr))"

end
