(* ===== verification/Nl_Addr_Props.thy ===== *)
theory Nl_Addr_Props
  imports Nl_Addr
begin

text \<open>
  What the address functions of libnl guarantee: the comparison of prefixes is the comparison
  of the leading bits, and the text of an address is read back as the same address.
\<close>

section \<open>The bits of an address\<close>

text \<open>The most significant bit of the first byte comes first.\<close>

definition byte_bits :: "byte \<Rightarrow> bool list" where
  "byte_bits b = map (\<lambda>i. bit b (7 - i)) [0..<8]"

definition addr_bits :: "byte list \<Rightarrow> bool list" where
  "addr_bits bs = concat (map byte_bits bs)"

lemma length_byte_bits [simp]: "length (byte_bits b) = 8"
  by (simp add: byte_bits_def)

lemma addr_bits_simps [simp]:
  "addr_bits [] = []" "addr_bits (b # bs) = byte_bits b @ addr_bits bs"
  "addr_bits (as @ bs) = addr_bits as @ addr_bits bs"
  by (simp_all add: addr_bits_def)

lemma length_addr_bits [simp]: "length (addr_bits bs) = 8 * length bs"
  by (induction bs) auto

lemma take_byte_bits_eq:
  assumes "r \<le> 8"
  shows "take r (byte_bits b) = take r (byte_bits c) \<longleftrightarrow> (\<forall>i<8. 8 \<le> i + r \<longrightarrow> bit b i = bit c i)"
proof -
  have "take r (byte_bits b) = take r (byte_bits c) \<longleftrightarrow> (\<forall>k<r. bit b (7 - k) = bit c (7 - k))"
    using assms by (auto simp: byte_bits_def list_eq_iff_nth_eq)
  also have "\<dots> \<longleftrightarrow> (\<forall>i<8. 8 \<le> i + r \<longrightarrow> bit b i = bit c i)"
  proof (rule iffI; intro allI impI)
    fix i assume *: "\<forall>k<r. bit b (7 - k) = bit c (7 - k)" "i < 8" "8 \<le> i + r"
    then have "7 - i < r" by linarith
    with *(1) have "bit b (7 - (7 - i)) = bit c (7 - (7 - i))" by blast
    then show "bit b i = bit c i" using *(2) by simp
  next
    fix k assume "\<forall>i<8. 8 \<le> i + r \<longrightarrow> bit b i = bit c i" "k < r"
    then show "bit b (7 - k) = bit c (7 - k)" using assms by simp
  qed
  finally show ?thesis .
qed

lemma byte_bits_inj: "byte_bits b = byte_bits c \<longleftrightarrow> b = c"
  using take_byte_bits_eq [of 8 b c] by (auto simp: bit_eq_iff dest: bit_imp_le_length)

lemma addr_bits_inj: "length xs = length ys \<Longrightarrow> addr_bits xs = addr_bits ys \<longleftrightarrow> xs = ys"
  by (induction xs ys rule: list_induct2) (auto simp: byte_bits_inj)

lemma take_addr_bits:
  assumes "q < length bs" "r \<le> 8"
  shows "take (8 * q + r) (addr_bits bs) = addr_bits (take q bs) @ take r (byte_bits (bs ! q))"
proof -
  have "bs = take q bs @ bs ! q # drop (Suc q) bs" using assms(1) by (rule id_take_nth_drop)
  then have "addr_bits bs = addr_bits (take q bs) @ byte_bits (bs ! q) @ addr_bits (drop (Suc q) bs)"
    by (metis addr_bits_simps(2,3))
  then show ?thesis using assms by simp
qed

text \<open>The mask of the code keeps the leading bits of a byte.\<close>

lemma bit_prefix_mask:
  assumes "r < 8"
  shows "bit (drop_bit r 0xFF00 AND (0xFF :: 32 word)) i \<longleftrightarrow> i < 8 \<and> 8 \<le> i + r"
proof -
  have m: "(0xFF00 :: 32 word) = push_bit 8 (mask 8)" by (simp add: mask_eq_exp_minus_1 push_bit_eq_mult)
  have n: "(0xFF :: 32 word) = mask 8" by (simp add: mask_eq_exp_minus_1)
  show ?thesis
    unfolding m n bit_and_iff bit_drop_bit_eq bit_push_bit_iff bit_mask_iff o_apply using assms by auto
qed

lemma bit_scast_byte: "i < 8 \<Longrightarrow> bit (scast (x :: byte) :: 32 word) i = bit x i"
  by (cases "i = 7") (auto simp: bit_signed_iff min_def)

lemma masked_eq:
  assumes "0 < r" "r < 8"
  shows "sint (scast (x :: byte) AND (drop_bit r 0xFF00 AND (0xFF :: 32 word)))
       = sint (scast (y :: byte) AND (drop_bit r 0xFF00 AND (0xFF :: 32 word)))
    \<longleftrightarrow> take r (byte_bits x) = take r (byte_bits y)"
proof -
  let ?m = "drop_bit r 0xFF00 AND (0xFF :: 32 word)"
  have "scast x AND ?m = scast y AND ?m \<longleftrightarrow> (\<forall>i<8. 8 \<le> i + r \<longrightarrow> bit x i = bit y i)"
  proof (rule iffI; (intro allI impI)?)
    fix i :: nat assume eq: "scast x AND ?m = scast y AND ?m" and i: "i < 8" "8 \<le> i + r"
    have "bit (scast x AND ?m) i = bit (scast y AND ?m) i" using eq by simp
    then show "bit x i = bit y i"
      using i by (simp only: bit_and_iff [of "scast _"] bit_prefix_mask [OF assms(2)] bit_scast_byte simp_thms)
  next
    assume *: "\<forall>i<8. 8 \<le> i + r \<longrightarrow> bit x i = bit y i"
    show "scast x AND ?m = scast y AND ?m"
      by (rule bit_eqI) (use * in \<open>auto simp only: bit_and_iff [of "scast _"] bit_prefix_mask [OF assms(2)] bit_scast_byte\<close>)
  qed
  then show ?thesis
    using take_byte_bits_eq [of r x y] assms(2) signed_word_eqI by (metis less_imp_le)
qed

lemma bytes_cmp_eq_0: "length xs = length ys \<Longrightarrow> bytes_cmp xs ys = 0 \<longleftrightarrow> xs = ys"
  by (induction xs ys rule: list_induct2) auto

lemma c_read_prefix:
  assumes "bytes_at m 0 xs" "n \<le> length xs"
  shows "c_read m 0 (int n) = Some (take n xs)"
proof -
  have "take n (take (length xs) m) = map Some (take n xs)"
    using assms(1) by (simp add: bytes_at_def take_map)
  then show ?thesis using assms by (simp add: c_read_def bytes_at_def min_def)
qed

lemma bytes_at_load: "bytes_at m 0 xs \<Longrightarrow> k < length xs \<Longrightarrow> c_load m (int k) = Some (xs ! k)"
  by (auto simp: c_load_def bytes_at_nth)

text \<open>The comparison of prefixes when the families agree, with the length split into bytes and bits.\<close>

lemma cmp_prefix_same_family:
  assumes "bytes_at (a_addr a) 0 xs" "bytes_at (a_addr b) 0 ys" "a_family a = a_family b"
    and n: "min (a_prefixlen a) (a_prefixlen b) = int n" "n \<le> 8 * length xs" "n \<le> 8 * length ys" "n < 2 ^ 31"
  shows "\<exists>d. nl_addr_cmp_prefix a b = Some d \<and> (d = 0 \<longleftrightarrow> take n (addr_bits xs) = take n (addr_bits ys))"
proof -
  define q r where "q = n div 8" and "r = n mod 8"
  have qr: "n = 8 * q + r" "r < 8" by (simp_all add: q_def r_def)
  have q: "q \<le> length xs" "q \<le> length ys" using n qr by linarith+
  have i: "int n sdiv 8 = int q" "int n smod 8 = int r"
    by (cases "n = 0"; simp add: q_def r_def signed_divide_int_def signed_modulo_int_def zdiv_int zmod_int)+
  have "q < 2 ^ 64" using n(4) qr(1) by simp
  then have w: "uint (word_of_int (int q) :: 64 word) = int q"
    by (simp add: uint_of_unat unat_word_small del: of_nat_unat)
  have m: "c_memcmp (a_addr a) (a_addr b) (word_of_int (int q)) = Some (bytes_cmp (take q xs) (take q ys))"
    unfolding c_memcmp_def w using c_read_prefix [OF assms(1) q(1)] c_read_prefix [OF assms(2) q(2)] by simp
  have c: "bytes_cmp (take q xs) (take q ys) = 0 \<longleftrightarrow> addr_bits (take q xs) = addr_bits (take q ys)"
    using q by (simp add: bytes_cmp_eq_0 addr_bits_inj)
  show ?thesis
  proof (cases "r = 0")
    case True
    have "take n (addr_bits zs) = addr_bits (take q zs)" if "q \<le> length zs" for zs
    proof -
      have "addr_bits zs = addr_bits (take q zs) @ addr_bits (drop q zs)"
        by (metis addr_bits_simps(3) append_take_drop_id)
      then show ?thesis using that True qr by simp
    qed
    then show ?thesis
      using c q m i n(1) assms(3) True by (simp add: nl_addr_cmp_prefix_def c_int_ok_def)
  next
    case False
    then have lt: "q < length xs" "q < length ys" using n(2,3) qr by linarith+
    have d: "c_load (a_addr a) (int q) = Some (xs ! q)" "c_load (a_addr b) (int q) = Some (ys ! q)"
      using bytes_at_load assms(1,2) lt by blast+
    have t: "take n (addr_bits xs) = addr_bits (take q xs) @ take r (byte_bits (xs ! q))"
      "take n (addr_bits ys) = addr_bits (take q ys) @ take r (byte_bits (ys ! q))"
      using take_addr_bits lt qr by auto
    have "length (addr_bits (take q xs)) = length (addr_bits (take q ys))" using q by simp
    then show ?thesis
      using False c m i d n(1) assms(3) masked_eq [of r "xs ! q" "ys ! q"] qr(2)
      by (auto simp: nl_addr_cmp_prefix_def c_int_ok_def t Let_def)
  qed
qed

text \<open>
  C9. \<open>nl_addr_cmp_prefix\<close> compares leading bits.  For two addresses whose prefix lengths lie
  within their bytes the comparison is defined, and it is 0 exactly when the families agree and
  the first bits, as many as the shorter prefix has, are the same.
\<close>

theorem nl_addr_cmp_prefix_correct:
  assumes "bytes_at (a_addr a) 0 xs" "bytes_at (a_addr b) 0 ys" "c_int_ok (a_family a - a_family b)"
    and "0 \<le> a_prefixlen a" "a_prefixlen a \<le> 8 * int (length xs)" "a_prefixlen a \<le> INT_MAX"
    and "0 \<le> a_prefixlen b" "a_prefixlen b \<le> 8 * int (length ys)"
  shows "\<exists>d. nl_addr_cmp_prefix a b = Some d \<and>
    (d = 0 \<longleftrightarrow> a_family a = a_family b \<and>
      (let n = nat (min (a_prefixlen a) (a_prefixlen b)) in take n (addr_bits xs) = take n (addr_bits ys)))"
proof (cases "a_family a = a_family b")
  case True
  have "min (a_prefixlen a) (a_prefixlen b) = int (nat (min (a_prefixlen a) (a_prefixlen b)))"
    using assms(4,7) by simp
  then show ?thesis
    using cmp_prefix_same_family [OF assms(1,2) True] assms(4-8) True by (simp add: Let_def)
next
  case False
  then show ?thesis using assms(3) by (simp add: nl_addr_cmp_prefix_def)
qed

definition sample_net :: "byte list \<Rightarrow> int \<Rightarrow> nl_addr" where
  "sample_net bs n = \<lparr>a_family = AF_INET, a_maxsize = 4, a_len = 4, a_prefixlen = n, a_refcnt = 1,
     a_addr = map Some bs\<rparr>"

theorem nl_addr_cmp_prefix_correct_witness:
  "\<exists>d. nl_addr_cmp_prefix (sample_net [10, 0, 129, 1] 20) (sample_net [10, 0, 128, 0] 17) = Some d \<and>
    (d = 0 \<longleftrightarrow> a_family (sample_net [10, 0, 129, 1] 20) = a_family (sample_net [10, 0, 128, 0] 17) \<and>
      (let n = nat (min (a_prefixlen (sample_net [10, 0, 129, 1] 20)) (a_prefixlen (sample_net [10, 0, 128, 0] 17)))
       in take n (addr_bits [10, 0, 129, 1]) = take n (addr_bits [10, 0, 128, 0])))"
  by (rule nl_addr_cmp_prefix_correct) (simp_all add: sample_net_def bytes_at_def c_int_ok_def)

section \<open>DECnet numbers\<close>

text \<open>The digits of a number below \<open>10 ^ k\<close>, all of them or without leading zeroes.\<close>

primrec dn_pad :: "nat \<Rightarrow> nat \<Rightarrow> string" where
  "dn_pad 0 v = []"
| "dn_pad (Suc k) v = char_of (v div 10 ^ k + 48) # dn_pad k (v mod 10 ^ k)"

primrec dn_digits :: "nat \<Rightarrow> nat \<Rightarrow> string" where
  "dn_digits 0 v = []"
| "dn_digits (Suc k) v =
     (if v div 10 ^ k > 0 \<or> k = 0 then dn_pad (Suc k) v else dn_digits k v)"

primrec dn_scales :: "nat \<Rightarrow> 16 word list" where
  "dn_scales 0 = []"
| "dn_scales (Suc k) = 10 ^ k # dn_scales k"

lemma length_dn_pad [simp]: "length (dn_pad k v) = k"
  by (induction k arbitrary: v) auto

lemma length_dn_digits: "length (dn_digits k v) \<le> k"
  by (induction k) (auto simp: le_Suc_eq)

lemma dn_digits_nonempty: "0 < k \<Longrightarrow> dn_digits k v \<noteq> []"
  by (induction k) auto

lemma unat_pow10: "k \<le> 4 \<Longrightarrow> unat (10 ^ k :: 16 word) = 10 ^ k"
proof -
  assume "k \<le> 4"
  then have "(10 :: nat) ^ k \<le> 10 ^ 4" by (intro power_increasing) auto
  then show ?thesis using unat_word_small [of "10 ^ k", where 'a = 16] by simp
qed

text \<open>One digit at a free place.\<close>

lemma do_digit_writes:
  assumes "k \<le> 3" "pos < len" "len \<le> length str" "unat v div 10 ^ k > 0 \<or> st \<or> k = 0"
  shows "do_digit str v (10 ^ k) pos len st
    = Some (False, str[pos := Some (char_of (unat v div 10 ^ k + 48))], v mod 10 ^ k, pos + 1, True)"
proof -
  have u: "unat (v div 10 ^ k) = unat v div 10 ^ k" "unat (v mod 10 ^ k) = unat v mod 10 ^ k"
    using unat_pow10 [of k] assms(1) by (simp_all add: unat_div_distrib unat_mod_distrib)
  have "v - v div 10 ^ k * 10 ^ k = v mod 10 ^ k" by (simp add: minus_div_mult_eq_mod)
  moreover have "v div 10 ^ k > 0 \<longleftrightarrow> unat v div 10 ^ k > 0"
    by (metis u(1) word_gt_0 unat_gt_0)
  ultimately show ?thesis
    using assms(2-4) u(1) by (auto simp: do_digit_def c_store_def)
qed

lemma do_digits_pad:
  assumes "k \<le> 4" "unat v < 10 ^ k" "pos + k \<le> len" "len \<le> length str"
  shows "do_digits (dn_scales k) str v pos len True
    = Some (False, take pos str @ map Some (dn_pad k (unat v)) @ drop (pos + k) str, pos + k)"
  using assms
proof (induction k arbitrary: str v pos)
  case (Suc k)
  let ?c = "char_of (unat v div 10 ^ k + 48) :: char"
  have m: "unat (v mod 10 ^ k) = unat v mod 10 ^ k"
    using unat_pow10 [of k] Suc.prems(1) by (simp add: unat_mod_distrib)
  have "do_digits (dn_scales k) (str[pos := Some ?c]) (v mod 10 ^ k) (pos + 1) len True
      = Some (False, take (pos + 1) (str[pos := Some ?c]) @ map Some (dn_pad k (unat v mod 10 ^ k))
                @ drop (pos + 1 + k) (str[pos := Some ?c]), pos + 1 + k)"
    using Suc.IH [of "v mod 10 ^ k" "pos + 1" "str[pos := Some ?c]"] Suc.prems m by simp
  moreover have "take (pos + 1) (str[pos := Some ?c]) = take pos str @ [Some ?c]"
    using Suc.prems by (simp add: take_Suc_conv_app_nth)
  ultimately show ?case
    using do_digit_writes [of k pos len str v True] Suc.prems by simp
qed simp

lemma do_digits_first:
  assumes "k \<le> 4" "unat v < 10 ^ k" "pos + k \<le> len" "len \<le> length str"
  shows "do_digits (dn_scales k) str v pos len False
    = Some (False, take pos str @ map Some (dn_digits k (unat v)) @ drop (pos + length (dn_digits k (unat v))) str,
        pos + length (dn_digits k (unat v)))"
  using assms
proof (induction k arbitrary: str v pos)
  case (Suc k)
  show ?case
  proof (cases "unat v div 10 ^ k > 0 \<or> k = 0")
    case True
    have "do_digits (dn_scales (Suc k)) str v pos len False = do_digits (dn_scales (Suc k)) str v pos len True"
      using do_digit_writes [of k pos len str v] True Suc.prems by simp
    then show ?thesis using do_digits_pad [OF Suc.prems] True by simp
  next
    case False
    then have "unat v < 10 ^ k" by (simp add: div_eq_0_iff)
    moreover have "v div 10 ^ k = 0"
      using False unat_pow10 [of k] Suc.prems(1) by (simp add: word_unat_eq_iff unat_div_distrib)
    moreover have "(10 ^ k :: 16 word) \<noteq> 1"
      using unat_pow10 [of k] Suc.prems(1) False by (auto simp: word_unat_eq_iff)
    ultimately show ?thesis
      using Suc.IH [of v pos str] Suc.prems False by (simp add: do_digit_def)
  qed
qed simp
lemma dn_ntohs_id [simp]: "dn_ntohs w = w"
proof -
  have "word_of_nat (unat w) = (ucast w :: byte)" "word_of_nat (unat w div 256) = (ucast (drop_bit 8 w) :: byte)"
    by (simp_all add: unsigned_drop_bit_eq drop_bit_eq_div word_unat_eq_iff unat_of_nat unsigned_ucast_eq
        take_bit_eq_mod unat_div_distrib)
  then have "dn_ntohs w = ucast (ucast w :: byte) OR push_bit 8 (ucast (ucast (drop_bit 8 w) :: byte))"
    by (simp add: dn_ntohs_def numeral_2_eq_2)
  also have "\<dots> = w" by (rule bit_eqI) (auto simp: bit_simps)
  finally show ?thesis .
qed

lemma digit_code:
  assumes "d < 10"
  shows "c_schar (char_of (d + 48)) = int d + 48" "c_isdigit (char_of (d + 48))"
proof -
  have "\<forall>d \<in> set [0..<10]. c_schar (char_of (d + 48 :: nat)) = int d + 48 \<and> c_isdigit (char_of (d + 48 :: nat))"
    by code_simp
  then show "c_schar (char_of (d + 48)) = int d + 48" "c_isdigit (char_of (d + 48))"
    using assms by simp_all
qed

lemma dn_pad_digits: "v < 10 ^ k \<Longrightarrow> \<forall>c \<in> set (dn_pad k v). c_isdigit c"
proof (induction k arbitrary: v)
  case (Suc k)
  have "v div 10 ^ k < 10" using Suc.prems by (simp add: less_mult_imp_div_less mult.commute)
  then show ?case using Suc.IH [of "v mod 10 ^ k"] digit_code(2) by simp
qed simp

lemma dn_digits_digits: "v < 10 ^ k \<Longrightarrow> \<forall>c \<in> set (dn_digits k v). c_isdigit c"
proof (induction k arbitrary: v)
  case (Suc k)
  show ?case
  proof (cases "v div 10 ^ k > 0 \<or> k = 0")
    case True
    then show ?thesis using dn_pad_digits [OF Suc.prems] by simp
  next
    case False
    then show ?thesis using Suc.IH [of v] by (simp add: div_eq_0_iff)
  qed
qed simp

lemma dnet_num_pad:
  assumes "v < 10 ^ k" "0 \<le> rv" "rv + int k \<le> INT_MAX"
  shows "dnet_num_loop (dn_pad k v @ rest) rv dst = dnet_num_loop rest (rv + int k) (dst * 10 ^ k + word_of_nat v)"
  using assms
proof (induction k arbitrary: v rv dst)
  case (Suc k)
  define d where "d = v div 10 ^ k"
  have d: "d < 10" using Suc.prems(1) by (simp add: d_def less_mult_imp_div_less mult.commute)
  have "v = d * 10 ^ k + v mod 10 ^ k" unfolding d_def by (rule div_mult_mod_eq [symmetric])
  then have v: "(word_of_nat v :: 16 word) = word_of_nat d * 10 ^ k + word_of_nat (v mod 10 ^ k)"
    by (metis of_nat_add of_nat_mult of_nat_power of_nat_numeral)
  have "dnet_num_loop (dn_pad k (v mod 10 ^ k) @ rest) (rv + 1) (dst * 10 + word_of_nat d)
      = dnet_num_loop rest (rv + 1 + int k) ((dst * 10 + word_of_nat d) * 10 ^ k + word_of_nat (v mod 10 ^ k))"
    using Suc.IH [of "v mod 10 ^ k" "rv + 1"] Suc.prems by simp
  then show ?case
    using d digit_code(1) [OF d] Suc.prems
    by (simp add: v c_int_ok_def algebra_simps flip: d_def)
qed simp

lemma dnet_num_digits:
  assumes "v < 10 ^ k" "k \<le> 4"
  shows "dnet_num_loop (dn_digits k v @ rest) 0 0
    = dnet_num_loop rest (int (length (dn_digits k v))) (word_of_nat v)"
  using assms
proof (induction k)
  case (Suc k)
  show ?case
  proof (cases "v div 10 ^ k > 0 \<or> k = 0")
    case True
    then show ?thesis using dnet_num_pad [OF Suc.prems(1), of 0 rest 0] Suc.prems(2) by simp
  next
    case False
    then show ?thesis using Suc by (simp add: div_eq_0_iff)
  qed
qed simp

definition dn_text :: "16 word \<Rightarrow> string" where
  "dn_text w = dn_digits 2 (unat w div 1024) @ CHR ''.'' # dn_digits 4 (unat w mod 1024)"

lemma dn_parts:
  "unat w div 1024 < 64" "unat w mod 1024 < 1024" "drop_bit 10 w = word_of_nat (unat w div 1024)"
  "w AND 0x3ff = word_of_nat (unat w mod 1024)" for w :: "16 word"
proof -
  show d: "unat w div 1024 < 64" 
  proof -
    have "unat w < 2 ^ LENGTH(16)" by (rule unsigned_less)
    then show ?thesis by simp
  qed
  show "unat w mod 1024 < 1024" by simp
  have u: "unat (word_of_nat (unat w div 1024) :: 16 word) = unat w div 1024"
    "unat (word_of_nat (unat w mod 1024) :: 16 word) = unat w mod 1024"
    using d mod_less_divisor [of 1024 "unat w"] by (simp_all add: unat_word_small)
  show "drop_bit 10 w = word_of_nat (unat w div 1024)"
    using u(1) by (simp add: word_unat_eq_iff drop_bit_eq_div unat_div_distrib)
  have m: "(0x3ff :: 16 word) = mask 10" by (simp add: mask_eq_exp_minus_1)
  have "unat (take_bit 10 w) = unat w mod 1024" by (simp add: take_bit_eq_mod unat_mod_distrib)
  then show "w AND 0x3ff = word_of_nat (unat w mod 1024)"
    unfolding m take_bit_eq_mask [symmetric] using u(2) by (metis word_unat_eq_iff)
qed

lemma dnet_pton_text:
  assumes "2 \<le> length buf"
  shows "dnet_pton (dn_text w) buf = Some (1, map Some (le_bytes 2 (unat w)) @ drop 2 buf)"
proof -
  define A N where "A = dn_digits 2 (unat w div 1024)" and "N = dn_digits 4 (unat w mod 1024)"
  have 1: "dnet_num (A @ CHR ''.'' # N) = Some (int (length A), word_of_nat (unat w div 1024))"
    using dnet_num_digits [of "unat w div 1024" 2 "CHR ''.'' # N"] dn_parts(1) [of w]
    by (simp add: dnet_num_def A_def c_schar_def)
  have 2: "dnet_num N = Some (int (length N), word_of_nat (unat w mod 1024))"
    using dnet_num_digits [of "unat w mod 1024" 4 "[]"] dn_parts(2) [of w]
    by (simp add: dnet_num_def N_def)
  have ne: "A \<noteq> []" "N \<noteq> []" using dn_digits_nonempty by (simp_all add: A_def N_def)
  have c: "\<not> (word_of_nat (unat w div 1024) :: 16 word) > 63" "\<not> (word_of_nat (unat w mod 1024) :: 16 word) > 1023"
    using dn_parts(1,2) [of w] by (simp_all add: word_less_nat_alt unat_word_small)
  have w: "push_bit 10 (word_of_nat (unat w div 1024)) OR word_of_nat (unat w mod 1024) = w"
    unfolding dn_parts(3,4) [symmetric]
  proof -
    have m: "(0x3ff :: 16 word) = mask 10" by (simp add: mask_eq_exp_minus_1)
    show "push_bit 10 (drop_bit 10 w) OR w AND 0x3ff = w"
      unfolding m by (rule bit_eqI) (auto simp: bit_simps)
  qed
  have "put_u16 buf 0 w = Some (map Some (le_bytes 2 (unat w)) @ drop 2 buf)"
    using u16.store_in [of 0 buf w] assms by (simp add: numeral_2_eq_2)
  then show ?thesis
    using 1 2 ne c w by (simp add: dnet_pton_def dn_text_def c_at_def flip: A_def N_def)
qed

lemma digits_no_sep: "\<forall>c \<in> set s. c_isdigit c \<Longrightarrow> NUL \<notin> set s \<and> CHR ''/'' \<notin> set s"
proof -
  have "\<not> c_isdigit NUL" "\<not> c_isdigit (CHR ''/'')" by (simp_all add: c_isdigit_def)
  then show "\<forall>c \<in> set s. c_isdigit c \<Longrightarrow> NUL \<notin> set s \<and> CHR ''/'' \<notin> set s" by blast
qed

lemma dn_text_props: "NUL \<notin> set (dn_text w)" "CHR ''/'' \<notin> set (dn_text w)" "length (dn_text w) \<le> 7"
proof -
  have "\<forall>c \<in> set (dn_digits 2 (unat w div 1024)). c_isdigit c" "\<forall>c \<in> set (dn_digits 4 (unat w mod 1024)). c_isdigit c"
    using dn_parts(1,2) [of w] by (auto intro!: dn_digits_digits [THEN bspec])
  then show "NUL \<notin> set (dn_text w)" "CHR ''/'' \<notin> set (dn_text w)"
    using digits_no_sep by (force simp: dn_text_def)+
  show "length (dn_text w) \<le> 7"
    using length_dn_digits [of 2 "unat w div 1024"] length_dn_digits [of 4 "unat w mod 1024"] by (simp add: dn_text_def)
qed

lemma dnet_ntop_text:
  assumes "get_u16 m 0 = Some w" "8 \<le> len" "len \<le> length str"
  shows "\<exists>b. dnet_ntop m 2 str len = Some (True, b) \<and> c_str b = Some (dn_text w) \<and> length b = length str"
proof -
  define A N where "A = dn_digits 2 (unat w div 1024)" and "N = dn_digits 4 (unat w mod 1024)"
  have l: "length A \<le> 2" "length N \<le> 4" using length_dn_digits by (simp_all add: A_def N_def)
  have s: "dn_scales 2 = [10, 1]" "dn_scales 4 = [1000, 100, 10, 1]" by (simp_all add: eval_nat_numeral)
  have 1: "do_digits [10, 1] str (drop_bit 10 w) 0 len False = Some (False, map Some A @ drop (length A) str, length A)"
    using do_digits_first [of 2 "drop_bit 10 w" 0 len str] dn_parts(1,3) [of w] assms
    by (simp add: s A_def unat_word_small)
  let ?s1 = "map Some (A @ ''.'') @ drop (length A + 1) str"
  have 2: "c_store (map Some A @ drop (length A) str) (int (length A)) (CHR ''.'') = Some ?s1"
    using l assms by (simp add: c_store_def list_update_append Cons_nth_drop_Suc [symmetric])
  let ?s2 = "map Some (dn_text w) @ drop (length (dn_text w)) str"
  have t: "dn_text w = (A @ ''.'') @ N" by (simp add: dn_text_def A_def N_def)
  have 3: "do_digits [1000, 100, 10, 1] ?s1 (w AND 0x3ff) (length A + 1) len False = Some (False, ?s2, length (dn_text w))"
    using do_digits_first [of 4 "w AND 0x3ff" "length A + 1" len ?s1] dn_parts(2,4) [of w] assms l
    by (simp add: s unat_word_small t add.commute [of "length N" "length A"] flip: N_def)
  have lt: "length (dn_text w) < len" using dn_text_props(3) [of w] assms(2) by simp
  have 4: "c_store ?s2 (int (length (dn_text w))) NUL
      = Some (map Some (dn_text w) @ Some NUL # drop (length (dn_text w) + 1) str)"
    using lt assms(3) by (simp add: c_store_def list_update_append Cons_nth_drop_Suc [symmetric])
  have "length A \<noteq> len" using l assms(2) by simp
  then show ?thesis
    using 1 2 3 4 lt assms c_str_text [OF dn_text_props(1)] by (simp add: dnet_ntop_def del: do_digits.simps)
qed

section \<open>Hardware addresses\<close>

text \<open>The characters of an address without its prefix length.\<close>

definition addr_chars :: "char set" where
  "addr_chars = set ''0123456789abcdef.:''"

lemma addr_chars_simps:
  "CHR '':'' \<in> addr_chars" "CHR ''.'' \<in> addr_chars" "NUL \<notin> addr_chars" "CHR ''/'' \<notin> addr_chars"
  "set ''0123456789abcdef'' \<subseteq> addr_chars"
  by (auto simp: addr_chars_def)

definition hex_tail :: "byte list \<Rightarrow> string" where
  "hex_tail bs = concat (map (\<lambda>b. CHR '':'' # c_hex2 b) bs)"

lemma hex_tail_simps [simp]: "hex_tail [] = []" "hex_tail (b # bs) = CHR '':'' # c_hex2 b @ hex_tail bs"
  by (simp_all add: hex_tail_def)

lemma length_c_hex2 [simp]: "length (c_hex2 b) = 2"
  by (simp add: c_hex2_def)

lemma c_hex2_chars: "set (c_hex2 b) \<subseteq> addr_chars"
proof -
  have "unat b < 2 ^ LENGTH(8)" by (rule unsigned_less)
  then have "unat b div 16 < 16" "unat b mod 16 < 16" by auto
  then show ?thesis using hex_char_props(2) addr_chars_simps(5) by (simp only: c_hex2_def list.set) blast
qed

lemma hex_tail_chars: "set (hex_tail bs) \<subseteq> addr_chars"
  using c_hex2_chars by (induction bs) (auto simp: addr_chars_simps)

lemma length_hex_tail [simp]: "length (hex_tail bs) = 3 * length bs"
  by (induction bs) auto

lemma addr2str_loop_text:
  assumes "bytes_at m 0 bs" "i + n = length bs" "c_str buf = Some s" "length s + 3 * n < unat sz" "unat sz \<le> length buf"
  shows "\<exists>b. addr2str_loop n m i buf sz = Some b \<and> c_str b = Some (s @ hex_tail (drop i bs)) \<and> length b = length buf"
  using assms(2-)
proof (induction n arbitrary: i buf s)
  case (Suc n)
  have i: "i < length bs" using Suc.prems(1) by simp
  have nul: "NUL \<notin> set (CHR '':'' # c_hex2 (bs ! i))" using c_hex2_chars [of "bs ! i"] addr_chars_simps(3) by auto
  obtain b where b: "c_strncat buf (CHR '':'' # c_hex2 (bs ! i)) (sz - word_of_nat (length s) - 1) = Some b"
    "c_str b = Some (s @ CHR '':'' # c_hex2 (bs ! i))" "length b = length buf"
    using c_strncat_str [OF Suc.prems(2) nul, of sz] Suc.prems(3,4) by auto
  have "\<exists>b'. addr2str_loop n m (i + 1) b sz = Some b'
      \<and> c_str b' = Some ((s @ CHR '':'' # c_hex2 (bs ! i)) @ hex_tail (drop (i + 1) bs)) \<and> length b' = length b"
    using Suc.IH [of "i + 1" b] Suc.prems b by simp
  then show ?case
    using bytes_at_load [OF assms(1) i] Suc.prems(2) b(1,3) i
    by (simp add: Cons_nth_drop_Suc [symmetric])
qed simp

lemma scan_colons_hex: "scan_colons (Suc (length bs)) (c_hex2 b @ hex_tail bs) = map uint (b # bs)"
  using scan_x2_hex [of _ "[]"] by (induction bs arbitrary: b) (simp_all add: scan_x2_hex)
section \<open>Printing and parsing\<close>

text \<open>
  What the documentation of \<open>inet_ntop\<close> and \<open>inet_pton\<close> says, for the two families: the text
  has at most 45 characters, all of them digits, letters up to \<open>f\<close>, dots or colons, and reading
  it gives the bytes back.
\<close>

definition inet_agrees :: "(int \<Rightarrow> string \<Rightarrow> byte list option) \<Rightarrow> (int \<Rightarrow> byte list \<Rightarrow> string) \<Rightarrow> bool" where
  "inet_agrees pton ntop \<longleftrightarrow> (\<forall>f bs. (f, length bs) \<in> {(AF_INET, 4), (AF_INET6, 16)} \<longrightarrow>
     pton f (ntop f bs) = Some bs \<and> set (ntop f bs) \<subseteq> addr_chars \<and> length (ntop f bs) \<le> 45)"

lemma inet_agreesD:
  assumes "inet_agrees pton ntop" "(f, length bs) \<in> {(AF_INET, 4), (AF_INET6, 16)}"
  shows "pton f (ntop f bs) = Some bs" "set (ntop f bs) \<subseteq> addr_chars" "length (ntop f bs) \<le> 45"
  using assms unfolding inet_agrees_def by blast+

text \<open>The families whose addresses have a text of their own, with the lengths of the addresses.\<close>

definition addr_kinds :: "(int \<times> nat) set" where
  "addr_kinds = {(AF_INET, 4), (AF_INET6, 16), (AF_DECnet, 2), (AF_LLC, 6)}"

definition addr_body :: "(int \<Rightarrow> byte list \<Rightarrow> string) \<Rightarrow> int \<Rightarrow> byte list \<Rightarrow> string" where
  "addr_body ntop f bs =
     (if f = AF_INET \<or> f = AF_INET6 then ntop f bs
      else if f = AF_DECnet then dn_text (word_of_nat (le_nat bs))
      else c_hex2 (hd bs) @ hex_tail (tl bs))"

definition prefix_text :: "int \<Rightarrow> nat \<Rightarrow> string" where
  "prefix_text p n = (if p = 8 * int n then [] else CHR ''/'' # c_dec p)"

lemma digit_addr_chars: "c_isdigit c \<Longrightarrow> c \<in> addr_chars"
  by (auto simp: c_isdigit_def addr_chars_def)

lemma dn_text_chars: "set (dn_text w) \<subseteq> addr_chars"
proof -
  have "\<forall>c \<in> set (dn_digits 2 (unat w div 1024)). c_isdigit c" "\<forall>c \<in> set (dn_digits 4 (unat w mod 1024)). c_isdigit c"
    using dn_parts(1,2) [of w] by (auto intro!: dn_digits_digits [THEN bspec])
  then show ?thesis using digit_addr_chars addr_chars_simps(2) by (auto simp: dn_text_def)
qed

lemma addr_body_props:
  assumes "inet_agrees pton ntop" "(f, length bs) \<in> addr_kinds"
  shows "set (addr_body ntop f bs) \<subseteq> addr_chars" "length (addr_body ntop f bs) \<le> 45"
proof -
  consider "f = AF_INET \<or> f = AF_INET6" | "f = AF_DECnet" | "f = AF_LLC" "length bs = 6"
    using assms(2) by (auto simp: addr_kinds_def)
  then have "set (addr_body ntop f bs) \<subseteq> addr_chars \<and> length (addr_body ntop f bs) \<le> 45"
  proof cases
    case 1
    then have "(f, length bs) \<in> {(AF_INET, 4), (AF_INET6, 16)}" using assms(2) by (auto simp: addr_kinds_def)
    from inet_agreesD [OF assms(1) this] show ?thesis using 1 by (simp add: addr_body_def)
  next
    case 2
    then show ?thesis 
      using dn_text_chars [of "word_of_nat (le_nat bs)"] dn_text_props(3) [of "word_of_nat (le_nat bs)"]
      by (simp add: addr_body_def)
  next
    case 3
    then show ?thesis using c_hex2_chars [of "hd bs"] hex_tail_chars [of "tl bs"] by (simp add: addr_body_def)
  qed
  then show "set (addr_body ntop f bs) \<subseteq> addr_chars" "length (addr_body ntop f bs) \<le> 45" by simp_all
qed

lemma addr_prefix_text:
  assumes "c_str buf = Some s" "length s \<le> 45" "64 \<le> unat sz" "unat sz \<le> length buf"
    and "0 \<le> a_prefixlen a" "a_prefixlen a \<le> INT_MAX" "a_len a = word_of_nat n" "n \<le> 16"
  shows "\<exists>b. addr2str_prefix a buf sz = Some b \<and> c_str b = Some (s @ prefix_text (a_prefixlen a) n)"
proof -
  have p: "uint (word_of_int (a_prefixlen a) :: 32 word) = a_prefixlen a"
    using assms(5,6) by (simp add: uint_word_of_int)
  have "8 * a_len a = word_of_nat (8 * n)" using assms(7) by simp
  moreover have "unat (word_of_nat (8 * n) :: 32 word) = 8 * n" using assms(8) by (intro unat_word_small) simp
  ultimately have "uint (8 * a_len a) = 8 * int n" using uint_of_unat [of "8 * a_len a" "8 * n"] by simp
  then have c: "(word_of_int (a_prefixlen a) :: 32 word) = 8 * a_len a \<longleftrightarrow> a_prefixlen a = 8 * int n"
    using p by (metis unsigned_word_eqI)
  have "NUL \<notin> set (CHR ''/'' # c_dec (a_prefixlen a))"
    using c_dec_digits [OF assms(5)] digits_no_sep [of "c_dec (a_prefixlen a)"] by simp
  moreover have "length (CHR ''/'' # c_dec (a_prefixlen a)) \<le> 11"
    using c_dec_length [of "a_prefixlen a" 9] assms(5,6) by simp
  ultimately show ?thesis
    using c_strncat_str [OF assms(1), of "CHR ''/'' # c_dec (a_prefixlen a)" sz] assms(1-4) c p
    by (auto simp: addr2str_prefix_def prefix_text_def)
qed
lemma le_bytes_le_nat: "le_bytes (length bs) (le_nat bs) = bs" "le_nat bs < 256 ^ length bs"
proof -
  have b: "unat (b :: byte) < 256" for b
  proof -
    have "unat b < 2 ^ LENGTH(8)" by (rule unsigned_less)
    then show ?thesis by simp
  qed
  show "le_bytes (length bs) (le_nat bs) = bs"
  proof (induction bs)
    case (Cons x bs)
    have "(word_of_nat (unat x + 256 * le_nat bs) :: byte) = x"
      using b [of x] by (simp add: word_unat_eq_iff unat_of_nat del: of_nat_add of_nat_mult)
    then show ?case using Cons b [of x] by (simp del: of_nat_add of_nat_mult)
  qed simp
  show "le_nat bs < 256 ^ length bs"
  proof (induction bs)
    case (Cons x bs)
    then show ?case using b [of x] by simp
  qed simp
qed

lemma addr_bytes_read:
  "bytes_at m 0 bs \<Longrightarrow> n = int (length bs) \<Longrightarrow> c_read m 0 n = Some bs"
  using c_read_bytes [of m 0 bs 0 n] by simp

text \<open>The body of the text, in the buffer.\<close>

lemma addr_body_printed:
  assumes "inet_agrees pton ntop" "(a_family a, length bs) \<in> addr_kinds" "a_len a = word_of_nat (length bs)"
    "bytes_at (a_addr a) 0 bs" "64 \<le> unat sz" "unat sz \<le> length buf"
  shows "\<exists>b. nl_addr2str ntop (Some a) buf sz = addr2str_prefix a b sz
    \<and> c_str b = Some (addr_body ntop (a_family a) bs) \<and> length b = length buf"
proof -
  have n: "length bs \<in> {2, 4, 6, 16}" using assms(2) by (auto simp: addr_kinds_def)
  then have l: "a_len a \<noteq> 0" "unat (a_len a) = length bs" using assms(3) by auto
  note props = addr_body_props [OF assms(1,2)]
  have nul: "NUL \<notin> set (addr_body ntop (a_family a) bs)" using props(1) addr_chars_simps(3) by blast
  consider "a_family a = AF_INET \<or> a_family a = AF_INET6" "(a_family a, length bs) \<in> {(AF_INET, 4), (AF_INET6, 16)}"
    | "a_family a = AF_DECnet" "length bs = 2" | "a_family a = AF_LLC" "length bs = 6"
    using assms(2) by (auto simp: addr_kinds_def)
  then show ?thesis
  proof cases
    case 1
    let ?t = "ntop (a_family a) bs"
    obtain b where b: "c_write buf 0 (?t @ [NUL]) = Some b" "c_str b = Some ?t" "length b = length buf"
      using c_write_str [of "[]" buf ?t] nul props(2) assms(5,6) 1(1) by (auto simp: addr_body_def)
    have "c_read (a_addr a) 0 (int (length bs)) = Some bs" using addr_bytes_read [OF assms(4)] by simp
    then show ?thesis
      using 1 b l(1) props(2) assms(5)
      by (auto simp: nl_addr2str_def inet_ntop_into_def addr_body_def)
  next
    case 2
    have "get_u16 (a_addr a) 0 = Some (word_of_nat (le_nat bs))"
      using addr_bytes_read [OF assms(4), of 2] 2(2) by (simp add: get_u16_def)
    moreover have "ucast (a_len a) = (2 :: 64 word)" using assms(3) 2(2) by simp
    ultimately show ?thesis
      using dnet_ntop_text [of "a_addr a" _ "unat sz" buf] 2(1) l(1) assms(5,6)
      by (auto simp: nl_addr2str_def addr_body_def)
  next
    case 3
    then obtain x xs where x: "bs = x # xs" "length xs = 5" by (cases bs) auto
    obtain b where b: "c_snprintf buf sz (c_hex2 x) = Some b" "c_str b = Some (c_hex2 x)" "length b = length buf"
      using c_snprintf_str [of "c_hex2 x" sz buf] c_hex2_chars [of x] addr_chars_simps(3) assms(5,6) by auto
    have "\<exists>b'. addr2str_loop 5 (a_addr a) 1 b sz = Some b' \<and> c_str b' = Some (c_hex2 x @ hex_tail (drop 1 bs)) \<and> length b' = length b"
      using addr2str_loop_text [OF assms(4), of 1 5 b "c_hex2 x" sz] x b assms(5,6) by simp
    then show ?thesis
      using 3 b l x bytes_at_load [OF assms(4), of 0] by (auto simp: nl_addr2str_def addr_body_def)
  qed
qed

lemma addr_printed:
  assumes "inet_agrees pton ntop" "(a_family a, length bs) \<in> addr_kinds" "a_len a = word_of_nat (length bs)"
    "bytes_at (a_addr a) 0 bs" "64 \<le> unat sz" "unat sz \<le> length buf" "0 \<le> a_prefixlen a" "a_prefixlen a \<le> INT_MAX"
  shows "\<exists>b. nl_addr2str ntop (Some a) buf sz = Some b
    \<and> c_str b = Some (addr_body ntop (a_family a) bs @ prefix_text (a_prefixlen a) (length bs))"
proof -
  obtain b where b: "nl_addr2str ntop (Some a) buf sz = addr2str_prefix a b sz"
    "c_str b = Some (addr_body ntop (a_family a) bs)" "length b = length buf"
    using addr_body_printed [OF assms(1-6)] by blast
  have "length bs \<le> 16" using assms(2) by (auto simp: addr_kinds_def)
  then show ?thesis
    using addr_prefix_text [OF b(2) addr_body_props(2) [OF assms(1,2)] assms(5) _ assms(7,8,3)] b(1,3) assms(6) by simp
qed

lemma not_special:
  assumes "set s \<subseteq> addr_chars"
  shows "\<not> strcasecmp_eq s ''none''" "\<not> strcasecmp_eq s ''default''" "\<not> strcasecmp_eq s ''all''" "\<not> strcasecmp_eq s ''any''"
proof -
  have l: "c_tolower c = c" if "c \<in> addr_chars" for c
    using that by (auto simp: addr_chars_def c_tolower_def)
  have m: "map c_tolower s = s" using assms l by (intro map_idI) auto
  have n: "CHR ''n'' \<notin> addr_chars" "CHR ''l'' \<notin> addr_chars" by (simp_all add: addr_chars_def)
  have t: "map c_tolower ''none'' = ''none''" "map c_tolower ''default'' = ''default''"
    "map c_tolower ''all'' = ''all''" "map c_tolower ''any'' = ''any''"
    by (simp_all add: c_tolower_def)
  have "s \<noteq> ''none''" "s \<noteq> ''default''" "s \<noteq> ''all''" "s \<noteq> ''any''" using assms n by auto
  then show "\<not> strcasecmp_eq s ''none''" "\<not> strcasecmp_eq s ''default''" "\<not> strcasecmp_eq s ''all''" "\<not> strcasecmp_eq s ''any''"
    by (simp_all only: strcasecmp_eq_def m t simp_thms)
qed

lemma addr_body_parsed:
  assumes "inet_agrees pton ntop" "(f, length bs) \<in> addr_kinds"
  shows "\<exists>b. parse_addr_text pton (addr_body ntop f bs) f = Some (Inr (True, f, length bs, b)) \<and> bytes_at b 0 bs"
proof -
  let ?s = "addr_body ntop f bs"
  note ns = not_special [OF addr_body_props(1) [OF assms]]
  have "length bs \<le> 16" using assms(2) by (auto simp: addr_kinds_def)
  then obtain b where b: "c_write (replicate 32 None) 0 bs = Some b" "bytes_at b 0 bs"
    using c_write_ex [of 0 bs "replicate 32 None"] c_write_at [of "replicate 32 None" 0 bs] by auto
  consider "f = AF_INET" "length bs = 4" | "f = AF_INET6" "length bs = 16"
    | "f = AF_DECnet" "length bs = 2" | "f = AF_LLC" "length bs = 6"
    using assms(2) by (auto simp: addr_kinds_def)
  then show ?thesis
  proof cases
    case 1
    then show ?thesis
      using b ns inet_agreesD(1) [OF assms(1), of f bs] by (simp add: parse_addr_text_def addr_body_def)
  next
    case 2
    then show ?thesis
      using b ns inet_agreesD(1) [OF assms(1), of f bs] by (simp add: parse_addr_text_def addr_body_def)
  next
    case 3
    have "unat (word_of_nat (le_nat bs) :: 16 word) = le_nat bs"
      using le_bytes_le_nat(2) [of bs] 3(2) by (intro unat_word_small) simp
    then have "le_bytes 2 (unat (word_of_nat (le_nat bs) :: 16 word)) = bs"
      using le_bytes_le_nat(1) [of bs] 3(2) by simp
    then have "dnet_pton ?s (replicate 32 None) = Some (1, map Some bs @ replicate 30 None)"
      using dnet_pton_text [of "replicate 32 None" "word_of_nat (le_nat bs)"] 3(1) by (simp add: addr_body_def)
    moreover have "CHR ''.'' \<in> set ?s" using 3(1) by (simp add: addr_body_def dn_text_def)
    ultimately show ?thesis
      using 3 ns by (simp add: parse_addr_text_def parse_addr_other_def bytes_at_def)
  next
    case 4
    then obtain x xs where x: "bs = x # xs" "length xs = 5" by (cases bs) auto
    then have s: "?s = c_hex2 x @ hex_tail xs" using 4(1) by (simp add: addr_body_def)
    have "scan_colons 6 ?s = map uint bs" using scan_colons_hex [of xs x] x s by simp
    moreover have "map word_of_int (map uint bs) = bs" by (intro nth_equalityI) simp_all
    moreover have "CHR '':'' \<in> set ?s" using s x(2) by (cases xs) auto
    ultimately show ?thesis
      using 4 ns b by (simp add: parse_addr_text_def parse_addr_other_def)
  qed
qed

text \<open>The address that \<open>nl_addr_parse\<close> makes of a family, bytes and a prefix length.\<close>

definition parsed_addr :: "int \<Rightarrow> byte list \<Rightarrow> int \<Rightarrow> nl_addr" where
  "parsed_addr f bs p = \<lparr>a_family = f, a_maxsize = word_of_nat (length bs), a_len = word_of_nat (length bs),
     a_prefixlen = p, a_refcnt = 1, a_addr = map Some bs\<rparr>"

lemma set_binary_addr_fresh:
  assumes "bytes_at b 0 bs" "0 < length bs" "length bs \<le> 16"
  shows "\<exists>a. nl_addr_alloc (\<lambda>_. True) (word_of_nat (length bs)) = Some (Some a)
    \<and> nl_addr_set_binary_addr (nl_addr_set_family a f) b (word_of_nat (length bs)) = Some (0, parsed_addr f bs 0)"
proof -
  let ?n = "length bs" and ?w = "word_of_nat (length bs) :: 64 word"
  have w: "unat ?w = ?n" "uint ?w = int ?n" "?w \<noteq> 0" "ucast ?w = (word_of_nat ?n :: 32 word)"
    "uint (word_of_nat ?n :: 32 word) = int ?n" "ucast (word_of_nat ?n :: 32 word) = ?w"
  proof -
    show u: "unat ?w = ?n" using assms(3) by (intro unat_word_small) simp
    then show "uint ?w = int ?n" by (rule uint_of_unat)
    show "?w \<noteq> 0" using u assms(2) by auto
    show "ucast ?w = (word_of_nat ?n :: 32 word)" by (rule ucast_of_nat) simp
    have v: "unat (word_of_nat ?n :: 32 word) = ?n" using assms(3) by (intro unat_word_small) simp
    then show "uint (word_of_nat ?n :: 32 word) = int ?n" by (rule uint_of_unat)
    show "ucast (word_of_nat ?n :: 32 word) = ?w" using assms(3) by (intro ucast_up_of_nat) simp
  qed
  have "20 \<le> 20 + ?w"
    using w(1) assms(3) by (simp add: word_le_nat_alt unat_word_ariths)
  moreover have "c_memset (replicate ?n (Some (0 :: byte))) 0 0 (int ?n) = Some (replicate ?n (Some 0))"
    by (simp add: c_memset_def c_write_def map_replicate)
  moreover have "c_memcpy (replicate ?n (Some (0 :: byte))) 0 bs (int ?n) = Some (map Some bs)"
    by (simp add: c_memcpy_def c_write_def)
  ultimately show ?thesis
    using addr_bytes_read [OF assms(1), of "int ?n"] w
    by (simp add: nl_addr_alloc_def nl_addr_set_binary_addr_def nl_addr_set_family_def parsed_addr_def)
qed
lemma addr_parsed:
  assumes "inet_agrees pton ntop" "(f, length bs) \<in> addr_kinds" "0 \<le> p" "p \<le> INT_MAX"
  shows "nl_addr_parse pton (\<lambda>_. True) (addr_body ntop f bs @ prefix_text p (length bs)) f
    = Some (0, Some (parsed_addr f bs p))"
proof -
  let ?s = "addr_body ntop f bs"
  obtain b where b: "parse_addr_text pton ?s f = Some (Inr (True, f, length bs, b))" "bytes_at b 0 bs"
    using addr_body_parsed [OF assms(1,2)] by blast
  have "CHR ''/'' \<notin> set ?s" using addr_body_props(1) [OF assms(1,2)] addr_chars_simps(4) by blast
  then have s: "takeWhile (\<lambda>c. c \<noteq> CHR ''/'') (?s @ prefix_text p (length bs)) = ?s"
    "dropWhile (\<lambda>c. c \<noteq> CHR ''/'') (?s @ prefix_text p (length bs)) = prefix_text p (length bs)"
    by (auto simp: prefix_text_def takeWhile_append dropWhile_append)
  have "0 < length bs" "length bs \<le> 16" using assms(2) by (auto simp: addr_kinds_def)
  from set_binary_addr_fresh [OF b(2) this] obtain a where
    "nl_addr_alloc (\<lambda>_. True) (word_of_nat (length bs)) = Some (Some a)"
    "nl_addr_set_binary_addr (nl_addr_set_family a f) b (word_of_nat (length bs)) = Some (0, parsed_addr f bs 0)"
    by blast
  moreover have "c_strtol 0 (c_dec p) = (p, [])" using c_strtol_dec [of p] assms(3,4) by simp
  moreover have "sint (word_of_int p :: 32 word) = p"
    using sint_small [of "nat p"] assms(3,4) by simp
  ultimately show ?thesis
    using s b(1) c_dec_nonempty [of p]
    by (auto simp: nl_addr_parse_def prefix_text_def nl_addr_set_prefixlen_def parsed_addr_def)
qed

text \<open>
  C8. The text of an address is read back as the same address.  For an address of IPv4, IPv6,
  DECnet or a hardware address, with any prefix length, \<open>nl_addr2str\<close> into a buffer of at least
  64 bytes gives a text from which \<open>nl_addr_parse\<close>, with the family as its hint, makes an address
  with the same family, bytes and prefix length.  Of the system's \<open>inet_ntop\<close> and \<open>inet_pton\<close>
  the property needs what \<open>inet_agrees\<close> says.
\<close>

theorem nl_addr_text_roundtrip:
  assumes "inet_agrees pton ntop" "(a_family a, length bs) \<in> addr_kinds"
    and "a_len a = word_of_nat (length bs)" "bytes_at (a_addr a) 0 bs"
    and "0 \<le> a_prefixlen a" "a_prefixlen a \<le> INT_MAX" "64 \<le> unat sz" "unat sz \<le> length buf"
  shows "\<exists>b s. nl_addr2str ntop (Some a) buf sz = Some b \<and> c_str b = Some s
    \<and> nl_addr_parse pton (\<lambda>_. True) s (a_family a) = Some (0, Some (parsed_addr (a_family a) bs (a_prefixlen a)))"
  using addr_printed [OF assms(1-4,7,8,5,6)] addr_parsed [OF assms(1,2,5,6)] by blast

text \<open>A pair of conversions that agree: the bytes in hexadecimal.\<close>

fun sample_pton :: "int \<Rightarrow> string \<Rightarrow> byte list option" where
  "sample_pton f (c # d # s) =
     map_option ((#) (word_of_nat (16 * c_digit_val c + c_digit_val d))) (sample_pton f s)"
| "sample_pton f s = (if s = [] then Some [] else None)"

definition sample_ntop :: "int \<Rightarrow> byte list \<Rightarrow> string" where
  "sample_ntop f bs = concat (map c_hex2 bs)"

lemma sample_pton_ntop: "sample_pton f (sample_ntop f bs) = Some bs"
proof (induction bs)
  case (Cons b bs)
  have "unat b < 2 ^ LENGTH(8)" by (rule unsigned_less)
  then have "unat b div 16 < 16" "unat b mod 16 < 16" by auto
  then show ?case
    using Cons hex_char_props(1) by (simp add: sample_ntop_def c_hex2_def del: of_nat_add of_nat_mult)
qed (simp add: sample_ntop_def)

lemma sample_ntop_props: "set (sample_ntop f bs) \<subseteq> addr_chars" "length (sample_ntop f bs) = 2 * length bs"
  using c_hex2_chars by (auto simp: sample_ntop_def length_concat sum_list_triv comp_def)

lemma sample_agrees: "inet_agrees sample_pton sample_ntop"
  unfolding inet_agrees_def using sample_pton_ntop sample_ntop_props by auto

theorem nl_addr_text_roundtrip_witness:
  "\<exists>b s. nl_addr2str sample_ntop (Some (sample_net [10, 0, 129, 1] 20)) (replicate 64 None) 64 = Some b \<and> c_str b = Some s
    \<and> nl_addr_parse sample_pton (\<lambda>_. True) s (a_family (sample_net [10, 0, 129, 1] 20))
      = Some (0, Some (parsed_addr (a_family (sample_net [10, 0, 129, 1] 20)) [10, 0, 129, 1]
          (a_prefixlen (sample_net [10, 0, 129, 1] 20))))"
  by (rule nl_addr_text_roundtrip [OF sample_agrees])
    (simp_all add: sample_net_def bytes_at_def addr_kinds_def)

section \<open>Where the address functions fail\<close>

text \<open>A comparison of a prefix longer than the address reads behind it.\<close>

lemma cmp_prefix_overread:
  assumes "8 * int (length bs) < p" "p \<le> INT_MAX"
  shows "nl_addr_cmp_prefix (parsed_addr f bs p) (parsed_addr f bs p) = None"
proof -
  define q r where "q = nat p div 8" and "r = nat p mod 8"
  have qr: "p = int (8 * q + r)" "r < 8" using assms(1) by (auto simp: q_def r_def)
  have i: "p sdiv 8 = int q" "p smod 8 = int r"
    using assms(1) by (auto simp: q_def r_def signed_divide_int_def signed_modulo_int_def sgn_if zdiv_int zmod_int)
  have "q < 2 ^ 64" using assms(2) qr(1) by simp
  then have w: "uint (word_of_int (int q) :: 64 word) = int q"
    by (simp add: uint_of_unat unat_word_small del: of_nat_unat)
  show ?thesis
  proof (cases "q \<le> length bs")
    case True
    then have q: "q = length bs" "r \<noteq> 0" using assms(1) qr by auto
    have "c_memcmp (map Some bs) (map Some bs) (word_of_int (int q)) = Some 0"
      using q w by (simp add: c_memcmp_def c_read_def bytes_cmp_eq_0)
    then show ?thesis
      using i q by (simp add: nl_addr_cmp_prefix_def parsed_addr_def c_int_ok_def c_load_def)
  next
    case False
    then have "c_memcmp (map Some bs) (map Some bs) (word_of_int (int q)) = None"
      using w by (simp add: c_memcmp_def c_read_def)
    then show ?thesis
      using i by (simp add: nl_addr_cmp_prefix_def parsed_addr_def c_int_ok_def)
  qed
qed

text \<open>
  A prefix length is not checked against the address.  \<open>nl_addr_parse\<close> accepts a text whose
  prefix length exceeds the bits of the address, and comparing the prefix of the result, even
  with itself, then reads behind the address: \<open>nl_addr_cmp_prefix\<close> has no defined result.
\<close>

theorem nl_addr_parse_long_prefix:
  assumes "inet_agrees pton ntop" "(f, length bs) \<in> addr_kinds" "8 * int (length bs) < p" "p \<le> INT_MAX"
  shows "\<exists>a. nl_addr_parse pton (\<lambda>_. True) (addr_body ntop f bs @ CHR ''/'' # c_dec p) f = Some (0, Some a)
    \<and> nl_addr_cmp_prefix a a = None"
proof -
  have "prefix_text p (length bs) = CHR ''/'' # c_dec p" using assms(3) by (simp add: prefix_text_def)
  then show ?thesis
    using addr_parsed [OF assms(1,2), of p] cmp_prefix_overread [OF assms(3,4)] assms(3,4) by simp
qed

theorem nl_addr_parse_long_prefix_witness:
  "\<exists>a. nl_addr_parse sample_pton (\<lambda>_. True) (addr_body sample_ntop AF_INET [10, 0, 0, 1] @ CHR ''/'' # c_dec 64) AF_INET
      = Some (0, Some a) \<and> nl_addr_cmp_prefix a a = None"
  by (rule nl_addr_parse_long_prefix [OF sample_agrees]) (simp_all add: addr_kinds_def)

text \<open>
  The area and the node of a DECnet address are computed modulo \<open>2 ^ 16\<close> before they are
  checked, so a number that wraps around is accepted.
\<close>

lemma dnet_pton_wraps: "map_option fst (dnet_pton ''65537.1'' (replicate 2 None)) = Some 1"
  by code_simp

text \<open>
  The test for a hardware address counts the assignments of a scan that suppresses all of
  them: it never succeeds.
\<close>

lemma nl_addr_valid_llc: "nl_addr_valid pton s AF_LLC = Some 0"
  by (simp add: nl_addr_valid_def scan_suppressed_def)

text \<open>Two addresses without bytes are equal whatever their prefix lengths are.\<close>

lemma nl_addr_cmp_empty:
  "a_family a = a_family b \<Longrightarrow> a_len a = 0 \<Longrightarrow> a_len b = 0 \<Longrightarrow> nl_addr_cmp a b = Some 0"
  by (simp add: nl_addr_cmp_def c_int_ok_def)

section \<open>Abstract data\<close>

definition data_holds :: "nl_data \<Rightarrow> byte list \<Rightarrow> bool" where
  "data_holds d bs \<longleftrightarrow> d_data d = Some (map Some bs) \<and> d_size d = word_of_nat (length bs) \<and> length bs < 2 ^ 64"

lemma data_size: "data_holds d bs \<Longrightarrow> unat (d_size d) = length bs \<and> uint (d_size d) = int (length bs)"
  by (auto simp: data_holds_def unat_word_small uint_of_unat simp del: of_nat_unat)

lemma c_read_all: "c_read (map Some bs) 0 (int (length bs)) = Some bs"
  by (simp add: c_read_def)

lemma nl_data_alloc_holds:
  assumes "bytes_at m 0 bs" "length bs < 2 ^ 64"
  shows "\<exists>d. nl_data_alloc (\<lambda>_. True) (Some m) (word_of_nat (length bs)) = Some (Some d) \<and> data_holds d bs"
proof -
  let ?w = "word_of_nat (length bs) :: 64 word"
  have w: "unat ?w = length bs" "uint ?w = int (length bs)"
    using assms(2) by (simp_all add: unat_word_small uint_of_unat del: of_nat_unat)
  have "c_memcpy (replicate (length bs) (Some (0 :: byte))) 0 bs (int (length bs)) = Some (map Some bs)"
    by (simp add: c_memcpy_def c_write_def)
  then show ?thesis
    using addr_bytes_read [OF assms(1) refl] assms(2) by (simp add: nl_data_alloc_def w data_holds_def)
qed

lemma nl_data_clone_holds:
  assumes "data_holds d bs"
  shows "\<exists>d'. nl_data_clone (\<lambda>_. True) d = Some (Some d') \<and> data_holds d' bs"
  using nl_data_alloc_holds [of "map Some bs" bs] assms
  by (simp add: nl_data_clone_def data_holds_def bytes_at_def)

lemma nl_data_append_holds:
  assumes "data_holds d bs" "bytes_at m 0 cs" "length bs + length cs < 2 ^ 64"
  shows "\<exists>d'. nl_data_append (\<lambda>_. True) d (Some m) (word_of_nat (length cs)) = Some (0, d') \<and> data_holds d' (bs @ cs)"
proof (cases "cs = []")
  case True
  then show ?thesis using assms(1) by (simp add: nl_data_append_def)
next
  case False
  let ?w = "word_of_nat (length cs) :: 64 word"
  have w: "unat ?w = length cs" "uint ?w = int (length cs)"
    using assms(3) by (simp_all add: unat_word_small uint_of_unat del: of_nat_unat)
  have z: "?w > 0" using False w(1) by (simp add: word_gt_0_no word_less_nat_alt)
  have "d_size d + ?w = word_of_nat (length (bs @ cs))" using assms(1) by (simp add: data_holds_def)
  then have s: "d_size d + ?w = word_of_nat (length (bs @ cs))" "unat (d_size d + ?w) = length (bs @ cs)"
    using assms(3) unat_word_small [of "length (bs @ cs)", where 'a = 64] by simp_all
  have "c_memcpy (map Some bs @ replicate (length cs) None) (int (length bs)) cs (int (length cs)) = Some (map Some (bs @ cs))"
    by (simp add: c_memcpy_def c_write_def)
  then show ?thesis
    using addr_bytes_read [OF assms(2) refl] assms(1,3) data_size [OF assms(1)] z s
    by (simp add: nl_data_append_def w data_holds_def)
qed

text \<open>The comparison looks at as many bytes as the first one has.\<close>

lemma nl_data_cmp_correct:
  assumes "data_holds a xs" "data_holds b ys" "0 < length xs" "length xs \<le> length ys"
  shows "\<exists>d. nl_data_cmp a b = Some d \<and> (d = 0 \<longleftrightarrow> xs = take (length xs) ys)"
proof -
  have "d_size a > 0" "d_size b > 0"
    using data_size [OF assms(1)] data_size [OF assms(2)] assms(3,4) by (auto simp: word_less_nat_alt)
  moreover have "c_read (map Some ys) 0 (int (length xs)) = Some (take (length xs) ys)"
    using c_read_prefix [of "map Some ys" ys "length xs"] assms(4) by (simp add: bytes_at_def)
  ultimately show ?thesis
    using assms data_size [OF assms(1)] c_read_all [of xs] bytes_cmp_eq_0 [of xs "take (length xs) ys"]
    by (auto simp: nl_data_cmp_def nl_data_get_def nl_data_get_size_def c_memcmp_def data_holds_def)
qed

lemma nl_data_cmp_overread:
  assumes "data_holds a xs" "data_holds b ys" "length ys < length xs" "0 < length ys"
  shows "nl_data_cmp a b = None"
proof -
  have "d_size a > 0" "d_size b > 0"
    using data_size [OF assms(1)] data_size [OF assms(2)] assms(3,4) by (auto simp: word_less_nat_alt)
  then show ?thesis
    using assms data_size [OF assms(1)] c_read_all [of xs]
    by (simp add: nl_data_cmp_def nl_data_get_def nl_data_get_size_def c_memcmp_def data_holds_def c_read_def)
qed

text \<open>When the block cannot grow, the data is lost although its size stays.\<close>

lemma nl_data_append_failure:
  "sz > 0 \<Longrightarrow> \<not> mal (uint (d_size d + sz)) \<Longrightarrow>
   nl_data_append mal d buf sz = Some (- NLE_NOMEM, d\<lparr>d_data := None\<rparr>)"
  by (simp add: nl_data_append_def)

end
