(* ===== verification/Attr_Encoding.thy ===== *)
theory Attr_Encoding
  imports Net_Bytes
begin

text \<open>
  The encoding of netlink attributes, independent of who writes them: \<open>attr_bytes\<close> is
  one attribute, \<open>attrs_bytes\<close> a sequence and \<open>enc_attr\<close> a tree of nested attributes.
  The locale \<open>attr_builder\<close> is the interface of the two writers of the repository
  (libnl and the netlink client of \<open>network/code\<close>): add an attribute, open a nest,
  close it.  What a bracketed sequence of such calls writes is proved once, from the laws.
\<close>

section \<open>The encoding\<close>

definition attr_bytes :: "16 word \<Rightarrow> byte list \<Rightarrow> byte list" where
  "attr_bytes t d =
     le_bytes 2 (4 + length d) @ le_bytes 2 (unat t) @ d @ replicate (up4 (length d) - length d) 0"

definition attrs_bytes :: "(16 word \<times> byte list) list \<Rightarrow> byte list" where
  "attrs_bytes as = concat (map (\<lambda>(t, d). attr_bytes t d) as)"

lemma up4_header: "up4 (4 + n) = 4 + up4 n"
  unfolding up4_def by presburger

lemma up4_dvd [simp]: "4 dvd up4 n"
  by (simp add: up4_def)

lemma length_attr_bytes [simp]: "length (attr_bytes t d) = 4 + up4 (length d)"
  using up4_facts(1) [of "length d"] by (simp add: attr_bytes_def)

lemma attrs_bytes_simps [simp]:
  "attrs_bytes [] = []" "attrs_bytes ((t, d) # as) = attr_bytes t d @ attrs_bytes as"
  "attrs_bytes (as @ bs) = attrs_bytes as @ attrs_bytes bs"
  by (auto simp: attrs_bytes_def)

lemma attrs_bytes_dvd: "4 dvd length (attrs_bytes as)"
  by (induction as) auto

text \<open>A message: its length, the other twelve bytes of the header, the body.\<close>

definition msg_text :: "byte list \<Rightarrow> byte list \<Rightarrow> byte list" where
  "msg_text h body = le_bytes 4 (16 + length body) @ h @ body"

section \<open>Trees of attributes\<close>

datatype nattr = Leaf "16 word" "byte list" | Nest "16 word" "nattr list"

fun enc_attr :: "nattr \<Rightarrow> byte list" where
  "enc_attr (Leaf t d) = attr_bytes t d"
| "enc_attr (Nest t as) = attr_bytes t (concat (map enc_attr as))"

text \<open>What the 16-bit length field can express, with no empty nest.\<close>

fun attr_fits :: "nattr \<Rightarrow> bool" where
  "attr_fits (Leaf t d) \<longleftrightarrow> length d \<le> 65531"
| "attr_fits (Nest t as) \<longleftrightarrow>
     as \<noteq> [] \<and> list_all attr_fits as \<and> length (concat (map enc_attr as)) \<le> 65531"

text \<open>The calls that write a tree: one per leaf, and a pair around the members of a nest.\<close>

fun build_attr ::
    "('m \<Rightarrow> 16 word \<Rightarrow> byte list \<Rightarrow> 'm option) \<Rightarrow> ('m \<Rightarrow> 16 word \<Rightarrow> (int \<times> 'm) option)
       \<Rightarrow> ('m \<Rightarrow> int \<Rightarrow> 'm option) \<Rightarrow> nattr \<Rightarrow> 'm \<Rightarrow> 'm option" where
  "build_attr put start fin (Leaf t d) m = put m t d"
| "build_attr put start fin (Nest t as) m = do {
     (p, m) \<leftarrow> start m t;
     m \<leftarrow> ofold (build_attr put start fin) as m;
     fin m p
   }"

lemma enc_attr_dvd: "4 dvd length (enc_attr a)"
  by (cases a) auto

lemma enc_attrs_dvd: "4 dvd length (concat (map enc_attr as))"
  using enc_attr_dvd by (induction as) auto

lemma enc_attr_nonempty: "enc_attr a \<noteq> []"
  by (cases a) (auto simp flip: length_greater_0_conv)

locale attr_builder =
  fixes holds :: "'m \<Rightarrow> byte list \<Rightarrow> bool"
    and cap :: "'m \<Rightarrow> nat"
    and put :: "'m \<Rightarrow> 16 word \<Rightarrow> byte list \<Rightarrow> 'm option"
    and start :: "'m \<Rightarrow> 16 word \<Rightarrow> (int \<times> 'm) option"
    and fin :: "'m \<Rightarrow> int \<Rightarrow> 'm option"
  assumes put_law: "holds m X \<Longrightarrow> length d \<le> 65531 \<Longrightarrow> length X + (4 + up4 (length d)) \<le> cap m \<Longrightarrow>
      \<exists>m'. put m t d = Some m' \<and> holds m' (X @ attr_bytes t d) \<and> cap m' = cap m"
    and start_law: "holds m X \<Longrightarrow> length X + 4 \<le> cap m \<Longrightarrow>
      \<exists>m'. start m t = Some (int (16 + length X), m') \<and> holds m' (X @ attr_bytes t []) \<and> cap m' = cap m"
    and fin_law: "holds m (X @ attr_bytes t [] @ Y) \<Longrightarrow> Y \<noteq> [] \<Longrightarrow> 4 dvd length Y \<Longrightarrow>
      length Y \<le> 65531 \<Longrightarrow>
      \<exists>m'. fin m (int (16 + length X)) = Some m' \<and> holds m' (X @ attr_bytes t Y) \<and> cap m' = cap m"
begin

abbreviation build :: "nattr \<Rightarrow> 'm \<Rightarrow> 'm option" where
  "build \<equiv> build_attr put start fin"

lemma build_list:
  assumes "\<And>a m X. a \<in> set as \<Longrightarrow> holds m X \<Longrightarrow> length X + length (enc_attr a) \<le> cap m \<Longrightarrow>
      \<exists>m'. build a m = Some m' \<and> holds m' (X @ enc_attr a) \<and> cap m' = cap m"
    and "holds m X" "length X + length (concat (map enc_attr as)) \<le> cap m"
  shows "\<exists>m'. ofold build as m = Some m' \<and> holds m' (X @ concat (map enc_attr as)) \<and> cap m' = cap m"
  using assms
proof (induction as arbitrary: m X)
  case (Cons a as)
  obtain m1 where 1: "build a m = Some m1" "holds m1 (X @ enc_attr a)" "cap m1 = cap m"
    using Cons.prems(1) [of a m X] Cons.prems(2,3) by auto
  obtain m2 where "ofold build as m1 = Some m2"
    "holds m2 ((X @ enc_attr a) @ concat (map enc_attr as))" "cap m2 = cap m1"
    using Cons.IH [OF _ 1(2)] Cons.prems(1,3) 1(3) by (auto simp: add.assoc)
  with 1 show ?case by auto
qed auto

theorem build_writes:
  "attr_fits a \<Longrightarrow> holds m X \<Longrightarrow> length X + length (enc_attr a) \<le> cap m \<Longrightarrow>
   \<exists>m'. build a m = Some m' \<and> holds m' (X @ enc_attr a) \<and> cap m' = cap m"
proof (induction a arbitrary: m X)
  case (Leaf t d)
  then show ?case using put_law [of m X d t] by auto
next
  case (Nest t as)
  let ?Y = "concat (map enc_attr as)"
  have Y: "?Y \<noteq> []" "4 dvd length ?Y" "length ?Y \<le> 65531"
    using Nest.prems(1) enc_attrs_dvd [of as] enc_attr_nonempty by (cases as; auto)+
  have up: "up4 (length ?Y) = length ?Y" using up4_facts(4) [OF Y(2)] .
  obtain m1 where 1: "start m t = Some (int (16 + length X), m1)"
    "holds m1 (X @ attr_bytes t [])" "cap m1 = cap m"
    using start_law [OF Nest.prems(2), of t] Nest.prems(3) by auto
  obtain m2 where 2: "ofold build as m1 = Some m2"
    "holds m2 ((X @ attr_bytes t []) @ ?Y)" "cap m2 = cap m1"
    using build_list [of as m1 "X @ attr_bytes t []"] Nest 1(2,3) up by (auto simp: list_all_iff)
  obtain m3 where "fin m2 (int (16 + length X)) = Some m3" "holds m3 (X @ attr_bytes t ?Y)"
    "cap m3 = cap m2"
    using fin_law [of m2 X t ?Y] 2(2) Y by auto
  with 1 2 show ?case by simp
qed

end

end
