(* ===== verification/Net_Client.thy ===== *)
theory Net_Client
  imports Attr_Encoding Nl_Msg
begin

text \<open>
  The netlink client of \<open>network/code/nl.c\<close> and \<open>nl.h\<close>: its messages, its
  attributes and its socket.  Names that libnl uses too carry the suffix \<open>_nc\<close>.  The
  kernel is an argument, a record of the system calls the code makes on a state of its own; a
  failing call gives the negated \<open>errno\<close>.  The world adds what the process holds: the open
  descriptors, the number of live messages and the requests it has sent.
\<close>

abbreviation (input) ENOMEM :: int where "ENOMEM \<equiv> 12"
abbreviation (input) EINTR :: int where "EINTR \<equiv> 4"
abbreviation (input) ENODEV :: int where "ENODEV \<equiv> 19"
abbreviation (input) EINVAL :: int where "EINVAL \<equiv> 22"
abbreviation (input) EMSGSIZE :: int where "EMSGSIZE \<equiv> 90"
abbreviation (input) EPROTONOSUPPORT :: int where "EPROTONOSUPPORT \<equiv> 93"

section \<open>Messages\<close>

text \<open>\<open>struct nlmsg\<close>: the buffer and its capacity.\<close>

record nlmsg_nc =
  nc_hdr :: "byte cells"
  nc_cap :: "64 word"

text \<open>
  On a \<open>size_t\<close> the alignment macros of the netlink headers mask with \<open>~(4U - 1)\<close>, a
  32-bit constant: the upper half of the number is cleared.
\<close>

definition align_size :: "64 word \<Rightarrow> 64 word" where
  "align_size n = (n + 3) AND 0xFFFFFFFC"

definition nlmsg_len_nc :: "nlmsg_nc \<Rightarrow> 64 word option" where
  "nlmsg_len_nc m = do { l \<leftarrow> get_u32 (nc_hdr m) 0; Some (ucast (l - 16)) }"

text \<open>The offset at which \<open>NLMSG_TAIL\<close> points.\<close>

definition nlmsg_tail_nc :: "nlmsg_nc \<Rightarrow> int option" where
  "nlmsg_tail_nc m = do { l \<leftarrow> get_u32 (nc_hdr m) 0; Some (uint (NLMSG_ALIGN l)) }"

definition nla_put_nc :: "nlmsg_nc \<Rightarrow> int \<Rightarrow> byte list \<Rightarrow> 64 word \<Rightarrow> (int \<times> nlmsg_nc) option" where
  "nla_put_nc m attr data len = do {
     let rtalen = 4 + len;
     l \<leftarrow> get_u32 (nc_hdr m) 0;
     let tlen = ucast (NLMSG_ALIGN l) + align_size rtalen;
     if tlen > nc_cap m then Some (- ENOMEM, m)
     else do {
       rta \<leftarrow> nlmsg_tail_nc m;
       b \<leftarrow> put_u16 (nc_hdr m) (rta + 2) (word_of_int attr);
       b \<leftarrow> put_u16 b rta (ucast rtalen);
       b \<leftarrow> c_memcpy b (rta + 4) data (uint len);
       b \<leftarrow> put_u32 b 0 (ucast tlen);
       Some (0, m\<lparr>nc_hdr := b\<rparr>)
     }
   }"

definition nla_put_buffer :: "nlmsg_nc \<Rightarrow> int \<Rightarrow> byte list \<Rightarrow> 64 word \<Rightarrow> (int \<times> nlmsg_nc) option" where
  "nla_put_buffer m attr data sz = nla_put_nc m attr data sz"

text \<open>A C string argument is the list of its bytes before the terminating zero.\<close>

definition nla_put_string_nc :: "nlmsg_nc \<Rightarrow> int \<Rightarrow> byte list \<Rightarrow> (int \<times> nlmsg_nc) option" where
  "nla_put_string_nc m attr str = nla_put_nc m attr (str @ [0]) (word_of_nat (length str) + 1)"

definition nla_put_u32_nc :: "nlmsg_nc \<Rightarrow> int \<Rightarrow> int \<Rightarrow> (int \<times> nlmsg_nc) option" where
  "nla_put_u32_nc m attr value = nla_put_nc m attr (le_bytes 4 (unat (word_of_int value :: 32 word))) 4"

definition nla_put_u16_nc :: "nlmsg_nc \<Rightarrow> int \<Rightarrow> 16 word \<Rightarrow> (int \<times> nlmsg_nc) option" where
  "nla_put_u16_nc m attr value = nla_put_nc m attr (le_bytes 2 (unat value)) 2"

definition nla_put_attr :: "nlmsg_nc \<Rightarrow> int \<Rightarrow> (int \<times> nlmsg_nc) option" where
  "nla_put_attr m attr = nla_put_nc m attr [] 0"

definition nla_begin_nested :: "nlmsg_nc \<Rightarrow> int \<Rightarrow> (int option \<times> nlmsg_nc) option" where
  "nla_begin_nested m attr = do {
     rtattr \<leftarrow> nlmsg_tail_nc m;
     (r, m) \<leftarrow> nla_put_attr m attr;
     Some (if r \<noteq> 0 then None else Some rtattr, m)
   }"

definition nla_end_nested :: "nlmsg_nc \<Rightarrow> int \<Rightarrow> nlmsg_nc option" where
  "nla_end_nested m attr = do {
     t \<leftarrow> nlmsg_tail_nc m;
     b \<leftarrow> put_u16 (nc_hdr m) attr (word_of_int (t - attr));
     Some (m\<lparr>nc_hdr := b\<rparr>)
   }"

text \<open>
  \<open>sizeof (struct nlmsg)\<close> is 16.  The block is cleared by \<open>memset\<close>.
\<close>

definition nlmsg_alloc_nc :: "malloc_fn \<Rightarrow> 64 word \<Rightarrow> nlmsg_nc option option" where
  "nlmsg_alloc_nc mal sz =
     (let len = 16 + align_size sz in
      if \<not> mal 16 then Some None
      else if \<not> mal (uint len) then Some None
      else do {
        b \<leftarrow> c_memset (replicate (unat len) None) 0 0 (uint len);
        b \<leftarrow> put_u32 b 0 16;
        Some (Some \<lparr>nc_hdr = b, nc_cap = len\<rparr>)
      })"

definition nlmsg_reserve_nc :: "nlmsg_nc \<Rightarrow> 64 word \<Rightarrow> (int option \<times> nlmsg_nc) option" where
  "nlmsg_reserve_nc m len = do {
     l \<leftarrow> get_u32 (nc_hdr m) 0;
     let nlen = (ucast l :: 64 word);
     let tlen = align_size len;
     if nlen + tlen > nc_cap m then Some (None, m)
     else do {
       b \<leftarrow> put_u32 (nc_hdr m) 0 (l + ucast tlen);
       b \<leftarrow> (if tlen > len then c_memset b (uint nlen + uint len) 0 (uint (tlen - len)) else Some b);
       Some (Some (uint nlen), m\<lparr>nc_hdr := b\<rparr>)
     }
   }"

definition nlmsg_alloc_reserve :: "malloc_fn \<Rightarrow> 64 word \<Rightarrow> nlmsg_nc option option" where
  "nlmsg_alloc_reserve mal sz = do {
     m \<leftarrow> nlmsg_alloc_nc mal sz;
     case m of None \<Rightarrow> Some None
     | Some m \<Rightarrow> do {
         b \<leftarrow> put_u32 (nc_hdr m) 0 (ucast (nc_cap m));
         Some (Some (m\<lparr>nc_hdr := b\<rparr>))
       }
   }"

section \<open>The kernel and the world\<close>

text \<open>The requests of \<open>ioctl\<close> that the program makes, with the data they carry.\<close>

record rtentry =
  rt_dst_family :: int
  rt_dst :: "32 word"
  rt_gw_family :: int
  rt_gateway :: "32 word"
  rt_genmask :: "32 word"
  rt_flags :: int

datatype ioctl_req =
    SIOCBRADDBR "byte list"
  | SIOCBRDELBR "byte list"
  | SIOCSIFBR int "byte list"
  | SIOCBRADDIF "byte list" int
  | SIOCBRDELIF "byte list" int
  | SIOCDEVPRIVATE "byte list" "int list"
  | SIOCADDRT rtentry

text \<open>
  System calls.  A negative result is the negated \<open>errno\<close>; \<open>recvmsg\<close> gives the
  \<open>errno\<close> or the bytes of a message and whether it was cut.
\<close>

record 'k kern =
  k_socket :: "int \<Rightarrow> int \<Rightarrow> int \<Rightarrow> 'k \<Rightarrow> int \<times> 'k"
  k_setsockopt :: "int \<Rightarrow> int \<Rightarrow> int \<Rightarrow> 'k \<Rightarrow> int \<times> 'k"
  k_bind :: "int \<Rightarrow> sockaddr_nl \<Rightarrow> 'k \<Rightarrow> int \<times> 'k"
  k_getsockname :: "int \<Rightarrow> 'k \<Rightarrow> (int \<times> sockaddr_nl \<times> nat) \<times> 'k"
  k_time :: "'k \<Rightarrow> int \<times> 'k"
  k_sendmsg :: "int \<Rightarrow> byte list \<Rightarrow> 'k \<Rightarrow> int \<times> 'k"
  k_recvmsg :: "int \<Rightarrow> nat \<Rightarrow> 'k \<Rightarrow> (int + byte list \<times> bool) \<times> 'k"
  k_close :: "int \<Rightarrow> 'k \<Rightarrow> 'k"
  k_if_nametoindex :: "byte list \<Rightarrow> 'k \<Rightarrow> int \<times> 'k"
  k_ioctl :: "int \<Rightarrow> ioctl_req \<Rightarrow> 'k \<Rightarrow> int \<times> 'k"

text \<open>The descriptors the process has open, its live messages and the requests it has sent.\<close>

record 'k world =
  w_k :: 'k
  w_fds :: "int list"
  w_live :: nat
  w_sent :: "byte list list"
  w_br_fd :: int

definition sys_socket :: "'k kern \<Rightarrow> int \<Rightarrow> int \<Rightarrow> int \<Rightarrow> 'k world \<Rightarrow> int \<times> 'k world" where
  "sys_socket kn domain ty proto w =
     (let (r, k) = k_socket kn domain ty proto (w_k w)
      in (r, w\<lparr>w_k := k, w_fds := (if r \<ge> 0 then r # w_fds w else w_fds w)\<rparr>))"

definition sys_close :: "'k kern \<Rightarrow> int \<Rightarrow> 'k world \<Rightarrow> 'k world" where
  "sys_close kn fd w = w\<lparr>w_k := k_close kn fd (w_k w), w_fds := remove1 fd (w_fds w)\<rparr>"

text \<open>A system call that only changes the kernel.\<close>

definition sys_call :: "('k \<Rightarrow> 'a \<times> 'k) \<Rightarrow> 'k world \<Rightarrow> 'a \<times> 'k world" where
  "sys_call f w = (let (r, k) = f (w_k w) in (r, w\<lparr>w_k := k\<rparr>))"

section \<open>The netlink socket\<close>

abbreviation (input) AF_NETLINK :: int where "AF_NETLINK \<equiv> 16"
abbreviation (input) SO_SNDBUF :: int where "SO_SNDBUF \<equiv> 7"
abbreviation (input) SO_RCVBUF :: int where "SO_RCVBUF \<equiv> 8"

record nl_handler =
  nh_fd :: int
  nh_seq :: int
  nh_local :: sockaddr_nl
  nh_peer :: sockaddr_nl

definition netlink_open :: "'k kern \<Rightarrow> int \<Rightarrow> 'k world \<Rightarrow> int \<times> nl_handler \<times> 'k world" where
  "netlink_open kn protocol w =
     (let h = \<lparr>nh_fd = 0, nh_seq = 0, nh_local = zero_sockaddr, nh_peer = zero_sockaddr\<rparr>;
          (fd, w) = sys_socket kn AF_NETLINK 3 protocol w;
          h = h\<lparr>nh_fd := (if fd < 0 then -1 else fd)\<rparr>
      in if fd < 0 then (fd, h, w)
      else let (r, w) = sys_call (k_setsockopt kn fd SO_SNDBUF 32768) w in
      if r < 0 then (r, h, w)
      else let (r, w) = sys_call (k_setsockopt kn fd SO_RCVBUF 32768) w in
      if r < 0 then (r, h, w)
      else let h = h\<lparr>nh_local := zero_sockaddr\<lparr>nl_family := 16\<rparr>\<rparr>;
               (r, w) = sys_call (k_bind kn fd (nh_local h)) w in
      if r < 0 then (r, h, w)
      else let ((r, a, socklen), w) = sys_call (k_getsockname kn fd) w in
      if r < 0 then (r, h, w)
      else let h = h\<lparr>nh_local := a\<rparr> in
      if socklen \<noteq> 12 then (- EINVAL, h, w)
      else if nl_family (nh_local h) \<noteq> 16 then (- EINVAL, h, w)
      else let (t, w) = sys_call (k_time kn) w in
      (0, h\<lparr>nh_seq := sint (word_of_int t :: 32 word)\<rparr>, w))"

definition netlink_close :: "'k kern \<Rightarrow> nl_handler \<Rightarrow> 'k world \<Rightarrow> int \<times> nl_handler \<times> 'k world" where
  "netlink_close kn h w = (0, h\<lparr>nh_fd := -1\<rparr>, sys_close kn (nh_fd h) w)"

definition netlink_send :: "'k kern \<Rightarrow> nl_handler \<Rightarrow> nlmsg_nc \<Rightarrow> 'k world \<Rightarrow> (int \<times> 'k world) option" where
  "netlink_send kn h m w = do {
     l \<leftarrow> get_u32 (nc_hdr m) 0;
     bs \<leftarrow> c_read (nc_hdr m) 0 (uint l);
     let (r, w) = sys_call (k_sendmsg kn (nh_fd h) bs) w;
     Some (r, w\<lparr>w_sent := w_sent w @ [bs]\<rparr>)
   }"

text \<open>The \<open>again\<close> loop of \<open>netlink_rcv\<close>: an interrupted call is repeated.\<close>

partial_function (option) recv_again ::
    "'k kern \<Rightarrow> int \<Rightarrow> nat \<Rightarrow> 'k world \<Rightarrow> ((int + byte list \<times> bool) \<times> 'k world) option" where
  [code]: "recv_again kn fd n w =
     (let (r, w) = sys_call (k_recvmsg kn fd n) w
      in if r = Inl EINTR then recv_again kn fd n w else Some (r, w))"

definition netlink_rcv ::
    "'k kern \<Rightarrow> nl_handler \<Rightarrow> nlmsg_nc \<Rightarrow> 'k world \<Rightarrow> (int \<times> nlmsg_nc \<times> 'k world) option" where
  "netlink_rcv kn h answer w = do {
     l \<leftarrow> get_u32 (nc_hdr answer) 0;
     (r, w) \<leftarrow> recv_again kn (nh_fd h) (unat l) w;
     case r of Inl e \<Rightarrow> Some (- e, answer, w)
     | Inr (bs, trunc) \<Rightarrow> do {
         let bs = take (unat l) bs;
         b \<leftarrow> c_write (nc_hdr answer) 0 bs;
         let answer = answer\<lparr>nc_hdr := b\<rparr>;
         if length bs = 0 then Some (0, answer, w)
         else do {
           l' \<leftarrow> get_u32 b 0;
           if trunc \<and> word_of_nat (length bs) = l' then Some (- EMSGSIZE, answer, w)
           else Some (int (length bs), answer, w)
         }
       }
   }"

abbreviation (input) NLMSG_ERROR :: "16 word" where "NLMSG_ERROR \<equiv> 2"

definition netlink_transaction ::
    "'k kern \<Rightarrow> nl_handler \<Rightarrow> nlmsg_nc \<Rightarrow> nlmsg_nc \<Rightarrow> 'k world \<Rightarrow> (int \<times> nlmsg_nc \<times> 'k world) option" where
  "netlink_transaction kn h request answer w = do {
     (r, w) \<leftarrow> netlink_send kn h request w;
     if r < 0 then Some (r, answer, w)
     else do {
       (r, answer, w) \<leftarrow> netlink_rcv kn h answer w;
       if r < 0 then Some (r, answer, w)
       else do {
         t \<leftarrow> get_u16 (nc_hdr answer) 4;
         if t = NLMSG_ERROR then do {
           e \<leftarrow> get_u32 (nc_hdr answer) 16;
           Some (sint e, answer, w)
         } else Some (0, answer, w)
       }
     }
   }"

end
