(* ===== verification/Net_Ops.thy ===== *)
theory Net_Ops
  imports Net_Client
begin

text \<open>
  The operations of \<open>network/code/network.c\<close>: bridges and routes through
  \<open>ioctl\<close>, links and addresses through netlink requests.  A name is the list of its
  bytes before the terminating zero.  The \<open>goto out\<close> of the code is \<open>netdev_out\<close>, which
  closes the socket and frees the messages that were allocated.
\<close>

abbreviation (input) IFNAMSIZ :: nat where "IFNAMSIZ \<equiv> 16"
abbreviation (input) NLMSG_GOOD_SIZE :: "64 word" where "NLMSG_GOOD_SIZE \<equiv> 8192"
abbreviation (input) NETLINK_ROUTE :: int where "NETLINK_ROUTE \<equiv> 0"
abbreviation (input) RTM_NEWLINK :: "16 word" where "RTM_NEWLINK \<equiv> 16"
abbreviation (input) RTM_DELLINK :: "16 word" where "RTM_DELLINK \<equiv> 17"
abbreviation (input) RTM_NEWADDR :: "16 word" where "RTM_NEWADDR \<equiv> 20"
abbreviation (input) NLM_F_REQUEST :: "16 word" where "NLM_F_REQUEST \<equiv> 1"
abbreviation (input) NLM_F_ACK :: "16 word" where "NLM_F_ACK \<equiv> 4"
abbreviation (input) NLM_F_EXCL :: "16 word" where "NLM_F_EXCL \<equiv> 0x200"
abbreviation (input) NLM_F_CREATE :: "16 word" where "NLM_F_CREATE \<equiv> 0x400"
abbreviation (input) IFLA_IFNAME :: int where "IFLA_IFNAME \<equiv> 3"
abbreviation (input) IFLA_LINKINFO :: int where "IFLA_LINKINFO \<equiv> 18"
abbreviation (input) IFLA_NET_NS_PID :: int where "IFLA_NET_NS_PID \<equiv> 19"
abbreviation (input) IFLA_INFO_KIND :: int where "IFLA_INFO_KIND \<equiv> 1"
abbreviation (input) IFLA_INFO_DATA :: int where "IFLA_INFO_DATA \<equiv> 2"
abbreviation (input) VETH_INFO_PEER :: int where "VETH_INFO_PEER \<equiv> 1"
abbreviation (input) IFA_ADDRESS :: int where "IFA_ADDRESS \<equiv> 1"
abbreviation (input) IFA_LOCAL :: int where "IFA_LOCAL \<equiv> 2"
abbreviation (input) IFA_BROADCAST :: int where "IFA_BROADCAST \<equiv> 4"
abbreviation (input) IFF_UP :: int where "IFF_UP \<equiv> 1"

definition c_strncpy :: "nat \<Rightarrow> byte list \<Rightarrow> byte list" where
  "c_strncpy n s = take n s @ replicate (n - length s) 0"

section \<open>Bridges and the default route\<close>

definition br_init :: "'k kern \<Rightarrow> 'k world \<Rightarrow> int \<times> 'k world" where
  "br_init kn w =
     (let (r, w) = sys_socket kn 1 1 0 w
      in if r < 0 then (- r, w\<lparr>w_br_fd := -1\<rparr>) else (0, w\<lparr>w_br_fd := r\<rparr>))"

definition br_shutdown :: "'k kern \<Rightarrow> 'k world \<Rightarrow> 'k world" where
  "br_shutdown kn w = (sys_close kn (w_br_fd w) w)\<lparr>w_br_fd := -1\<rparr>"

definition br_add_bridge :: "'k kern \<Rightarrow> byte list \<Rightarrow> 'k world \<Rightarrow> int \<times> 'k world" where
  "br_add_bridge kn brname w =
     (let (r, w) = sys_call (k_ioctl kn (w_br_fd w) (SIOCBRADDBR brname)) w;
          (r, w) = (if r < 0 then sys_call (k_ioctl kn (w_br_fd w) (SIOCSIFBR 2 (c_strncpy IFNAMSIZ brname))) w
                    else (r, w))
      in (if r < 0 then - r else 0, w))"

definition br_del_bridge :: "'k kern \<Rightarrow> byte list \<Rightarrow> 'k world \<Rightarrow> int \<times> 'k world" where
  "br_del_bridge kn brname w =
     (let (r, w) = sys_call (k_ioctl kn (w_br_fd w) (SIOCBRDELBR brname)) w;
          (r, w) = (if r < 0 then sys_call (k_ioctl kn (w_br_fd w) (SIOCSIFBR 3 (c_strncpy IFNAMSIZ brname))) w
                    else (r, w))
      in (if r < 0 then - r else 0, w))"

definition br_add_interface :: "'k kern \<Rightarrow> byte list \<Rightarrow> byte list \<Rightarrow> 'k world \<Rightarrow> int \<times> 'k world" where
  "br_add_interface kn bridge dev w =
     (let (ifindex, w) = sys_call (k_if_nametoindex kn dev) w
      in if ifindex = 0 then (ENODEV, w)
      else let name = c_strncpy IFNAMSIZ bridge;
               (r, w) = sys_call (k_ioctl kn (w_br_fd w) (SIOCBRADDIF name ifindex)) w;
               (r, w) = (if r < 0 then sys_call (k_ioctl kn (w_br_fd w) (SIOCDEVPRIVATE name [4, ifindex, 0, 0])) w
                         else (r, w))
      in (if r < 0 then - r else 0, w))"

definition br_del_interface :: "'k kern \<Rightarrow> byte list \<Rightarrow> byte list \<Rightarrow> 'k world \<Rightarrow> int \<times> 'k world" where
  "br_del_interface kn bridge dev w =
     (let (ifindex, w) = sys_call (k_if_nametoindex kn dev) w
      in if ifindex = 0 then (ENODEV, w)
      else let name = c_strncpy IFNAMSIZ bridge;
               (r, w) = sys_call (k_ioctl kn (w_br_fd w) (SIOCBRDELIF name ifindex)) w;
               (r, w) = (if r < 0 then sys_call (k_ioctl kn (w_br_fd w) (SIOCDEVPRIVATE name [5, ifindex, 0, 0])) w
                         else (r, w))
      in (if r < 0 then - r else 0, w))"

text \<open>
  \<open>add_default_route\<close> has no \<open>return\<close>: its result must not be used.  The mask
  \<open>~(0xffffffffUL >> 0)\<close> is computed in 64 bits, its lower half is 0.  The address is in
  network byte order, as \<open>struct in_addr\<close> holds it.
\<close>

definition htonl :: "32 word \<Rightarrow> 32 word" where
  "htonl x = word_of_nat (le_nat (rev (le_bytes 4 (unat x))))"

definition add_default_route :: "'k kern \<Rightarrow> 32 word \<Rightarrow> 'k world \<Rightarrow> 'k world" where
  "add_default_route kn addr w =
     (let mask = (ucast (NOT (drop_bit 0 (0xffffffff :: 64 word))) :: 32 word);
          rt = \<lparr>rt_dst_family = AF_INET, rt_dst = 0, rt_gw_family = AF_INET, rt_gateway = addr,
                rt_genmask = htonl mask, rt_flags = 2\<rparr>;
          (fd, w) = sys_socket kn AF_INET 2 0 w;
          skfd = (if fd < 0 then -1 else fd);
          (r, w) = sys_call (k_ioctl kn skfd (SIOCADDRT rt)) w
      in sys_close kn skfd w)"

section \<open>Links and addresses\<close>

text \<open>Allocation and release of messages, counted in the world.\<close>

definition msg_new :: "nlmsg_nc option option \<Rightarrow> 'k world \<Rightarrow> (nlmsg_nc option \<times> 'k world) option" where
  "msg_new r w = do {
     m \<leftarrow> r;
     Some (m, if m = None then w else w\<lparr>w_live := Suc (w_live w)\<rparr>)
   }"

definition nlmsg_free_nc :: "nlmsg_nc option \<Rightarrow> 'k world \<Rightarrow> 'k world" where
  "nlmsg_free_nc m w = (if m = None then w else w\<lparr>w_live := w_live w - 1\<rparr>)"

definition netdev_out :: "'k kern \<Rightarrow> nl_handler \<Rightarrow> nlmsg_nc option \<Rightarrow> nlmsg_nc option \<Rightarrow> 'k world \<Rightarrow> 'k world" where
  "netdev_out kn h nlmsg answer w =
     (let (_, _, w) = netlink_close kn h w in nlmsg_free_nc answer (nlmsg_free_nc nlmsg w))"

text \<open>The assignments to \<open>nlmsg_flags\<close> and \<open>nlmsg_type\<close>.\<close>

definition set_kind :: "nlmsg_nc \<Rightarrow> 16 word \<Rightarrow> 16 word \<Rightarrow> nlmsg_nc option" where
  "set_kind m flags type = do {
     b \<leftarrow> put_u16 (nc_hdr m) 6 flags;
     b \<leftarrow> put_u16 b 4 type;
     Some (m\<lparr>nc_hdr := b\<rparr>)
   }"

text \<open>
  The frame that most operations share: allocate the request and the answer, leave through
  \<open>out\<close> with \<open>-ENOMEM\<close> when one of them is not granted, otherwise go on with both and
  leave through \<open>out\<close> with the resulting error.
\<close>

definition with_messages ::
    "'k kern \<Rightarrow> malloc_fn \<Rightarrow> nl_handler \<Rightarrow> 'k world
       \<Rightarrow> (nlmsg_nc \<Rightarrow> nlmsg_nc \<Rightarrow> 'k world \<Rightarrow> (int \<times> 'k world) option) \<Rightarrow> (int \<times> 'k world) option" where
  "with_messages kn mal h w act = do {
     (nlmsg, w) \<leftarrow> msg_new (nlmsg_alloc_nc mal NLMSG_GOOD_SIZE) w;
     case nlmsg of None \<Rightarrow> Some (- ENOMEM, netdev_out kn h None None w)
     | Some m \<Rightarrow> do {
         (answer, w) \<leftarrow> msg_new (nlmsg_alloc_reserve mal NLMSG_GOOD_SIZE) w;
         case answer of None \<Rightarrow> Some (- ENOMEM, netdev_out kn h (Some m) None w)
         | Some a \<Rightarrow> do {
             (err, w) \<leftarrow> act m a w;
             Some (err, netdev_out kn h (Some m) (Some a) w)
           }
       }
   }"

text \<open>\<open>struct ifinfomsg\<close>: family at 0, index at 4, flags at 8, change at 12.\<close>

definition netdev_set_flag ::
    "'k kern \<Rightarrow> malloc_fn \<Rightarrow> byte list \<Rightarrow> int \<Rightarrow> 'k world \<Rightarrow> (int \<times> 'k world) option" where
  "netdev_set_flag kn mal name flag w =
     (let (err, h, w) = netlink_open kn NETLINK_ROUTE w
      in if err \<noteq> 0 then Some (err, w)
      else if length name = 1 \<or> length name \<ge> IFNAMSIZ then Some (- EINVAL, netdev_out kn h None None w)
      else with_messages kn mal h w (\<lambda>m a w.
        let (index, w) = sys_call (k_if_nametoindex kn name) w
        in if index = 0 then Some (- EINVAL, w)
        else do {
          m \<leftarrow> set_kind m (NLM_F_REQUEST OR NLM_F_ACK) RTM_NEWLINK;
          (ifi, m) \<leftarrow> nlmsg_reserve_nc m 16;
          p \<leftarrow> ifi;
          b \<leftarrow> put_u8 (nc_hdr m) p 0;
          b \<leftarrow> put_u32 b (p + 4) (word_of_int index);
          c \<leftarrow> get_u32 b (p + 12);
          b \<leftarrow> put_u32 b (p + 12) (c OR word_of_int IFF_UP);
          f \<leftarrow> get_u32 b (p + 8);
          b \<leftarrow> put_u32 b (p + 8) (f OR word_of_int flag);
          (err, a, w) \<leftarrow> netlink_transaction kn h (m\<lparr>nc_hdr := b\<rparr>) a w;
          Some (err, w)
        }))"

definition network_dev_up :: "'k kern \<Rightarrow> malloc_fn \<Rightarrow> byte list \<Rightarrow> 'k world \<Rightarrow> (int \<times> 'k world) option" where
  "network_dev_up kn mal name w = netdev_set_flag kn mal name IFF_UP w"

definition network_dev_down :: "'k kern \<Rightarrow> malloc_fn \<Rightarrow> byte list \<Rightarrow> 'k world \<Rightarrow> (int \<times> 'k world) option" where
  "network_dev_down kn mal name w = netdev_set_flag kn mal name 0 w"

definition netdev_delete_by_index ::
    "'k kern \<Rightarrow> malloc_fn \<Rightarrow> int \<Rightarrow> 'k world \<Rightarrow> (int \<times> 'k world) option" where
  "netdev_delete_by_index kn mal ifindex w =
     (let (err, h, w) = netlink_open kn NETLINK_ROUTE w
      in if err \<noteq> 0 then Some (err, w)
      else with_messages kn mal h w (\<lambda>m a w. do {
        m \<leftarrow> set_kind m (NLM_F_ACK OR NLM_F_REQUEST) RTM_DELLINK;
        (ifi, m) \<leftarrow> nlmsg_reserve_nc m 16;
        p \<leftarrow> ifi;
        b \<leftarrow> put_u8 (nc_hdr m) p 0;
        b \<leftarrow> put_u32 b (p + 4) (word_of_int ifindex);
        (err, a, w) \<leftarrow> netlink_transaction kn h (m\<lparr>nc_hdr := b\<rparr>) a w;
        Some (err, w)
      }))"

definition netdev_delete_by_name ::
    "'k kern \<Rightarrow> malloc_fn \<Rightarrow> byte list \<Rightarrow> 'k world \<Rightarrow> (int \<times> 'k world) option" where
  "netdev_delete_by_name kn mal name w =
     (let (index, w) = sys_call (k_if_nametoindex kn name) w
      in if index = 0 then Some (- EINVAL, w) else netdev_delete_by_index kn mal index w)"

text \<open>
  \<open>netdev_move_to_namespace\<close> has one message for the request and the answer; a failing
  \<open>nla_put\<close> leaves \<open>-ENOMEM\<close>.
\<close>

definition netdev_move_to_namespace ::
    "'k kern \<Rightarrow> malloc_fn \<Rightarrow> byte list option \<Rightarrow> int \<Rightarrow> 'k world \<Rightarrow> (int \<times> 'k world) option" where
  "netdev_move_to_namespace kn mal ifname pid w = (case ifname of None \<Rightarrow> Some (-1, w)
     | Some name \<Rightarrow>
       let (ifindex, w) = sys_call (k_if_nametoindex kn name) w
       in if ifindex = 0 then Some (-1, w)
       else let (err, h, w) = netlink_open kn NETLINK_ROUTE w
       in if err \<noteq> 0 then Some (err, w)
       else do {
         (nlmsg, w) \<leftarrow> msg_new (nlmsg_alloc_nc mal NLMSG_GOOD_SIZE) w;
         case nlmsg of None \<Rightarrow> Some (- ENOMEM, netdev_out kn h None None w)
         | Some m0 \<Rightarrow> do {
             m \<leftarrow> set_kind m0 (NLM_F_REQUEST OR NLM_F_ACK) RTM_NEWLINK;
             (ifi, m) \<leftarrow> nlmsg_reserve_nc m 16;
             p \<leftarrow> ifi;
             b \<leftarrow> put_u8 (nc_hdr m) p 0;
             b \<leftarrow> put_u32 b (p + 4) (word_of_int ifindex);
             (r, m) \<leftarrow> nla_put_u32_nc (m\<lparr>nc_hdr := b\<rparr>) IFLA_NET_NS_PID pid;
             if r \<noteq> 0 then Some (- ENOMEM, netdev_out kn h (Some m0) None w)
             else do {
               (r, m) \<leftarrow> nla_put_string_nc m IFLA_IFNAME name;
               if r \<noteq> 0 then Some (- ENOMEM, netdev_out kn h (Some m0) None w)
               else do {
                 (err, m, w) \<leftarrow> netlink_transaction kn h m m w;
                 Some (err, netdev_out kn h (Some m0) None w)
               }
             }
           }
       })"

text \<open>
  The attributes of \<open>network_veth_create\<close>: \<open>Inl\<close> is the error with which the code
  jumps to \<open>out\<close>.
\<close>

definition veth_message :: "nlmsg_nc \<Rightarrow> byte list \<Rightarrow> byte list \<Rightarrow> (int + nlmsg_nc) option" where
  "veth_message m name1 name2 = do {
     m \<leftarrow> set_kind m (NLM_F_REQUEST OR NLM_F_CREATE OR NLM_F_EXCL OR NLM_F_ACK) RTM_NEWLINK;
     (ifi, m) \<leftarrow> nlmsg_reserve_nc m 16;
     p \<leftarrow> ifi;
     b \<leftarrow> put_u8 (nc_hdr m) p 0;
     (nest1, m) \<leftarrow> nla_begin_nested (m\<lparr>nc_hdr := b\<rparr>) IFLA_LINKINFO;
     case nest1 of None \<Rightarrow> Some (Inl (- EINVAL)) | Some nest1 \<Rightarrow> do {
     (r, m) \<leftarrow> nla_put_string_nc m IFLA_INFO_KIND [118, 101, 116, 104];
     if r \<noteq> 0 then Some (Inl (- EINVAL)) else do {
     (nest2, m) \<leftarrow> nla_begin_nested m IFLA_INFO_DATA;
     case nest2 of None \<Rightarrow> Some (Inl (- EINVAL)) | Some nest2 \<Rightarrow> do {
     (nest3, m) \<leftarrow> nla_begin_nested m VETH_INFO_PEER;
     case nest3 of None \<Rightarrow> Some (Inl (- EINVAL)) | Some nest3 \<Rightarrow> do {
     (ifi, m) \<leftarrow> nlmsg_reserve_nc m 16;
     if ifi = None then Some (Inl (- EINVAL)) else do {
     (r, m) \<leftarrow> nla_put_string_nc m IFLA_IFNAME name2;
     if r \<noteq> 0 then Some (Inl (- EINVAL)) else do {
     m \<leftarrow> nla_end_nested m nest3;
     m \<leftarrow> nla_end_nested m nest2;
     m \<leftarrow> nla_end_nested m nest1;
     (r, m) \<leftarrow> nla_put_string_nc m IFLA_IFNAME name1;
     if r \<noteq> 0 then Some (Inl (- EINVAL)) else Some (Inr m) }}}}}}
   }"

definition network_veth_create ::
    "'k kern \<Rightarrow> malloc_fn \<Rightarrow> byte list \<Rightarrow> byte list \<Rightarrow> 'k world \<Rightarrow> (int \<times> 'k world) option" where
  "network_veth_create kn mal name1 name2 w =
     (let (err, h, w) = netlink_open kn NETLINK_ROUTE w
      in if err \<noteq> 0 then Some (err, w)
      else if length name1 = 1 \<or> length name1 \<ge> IFNAMSIZ then Some (- EINVAL, netdev_out kn h None None w)
      else if length name2 = 1 \<or> length name2 \<ge> IFNAMSIZ then Some (- EINVAL, netdev_out kn h None None w)
      else with_messages kn mal h w (\<lambda>m a w. do {
        r \<leftarrow> veth_message m name1 name2;
        case r of Inl err \<Rightarrow> Some (err, w)
        | Inr m \<Rightarrow> do {
            (err, a, w) \<leftarrow> netlink_transaction kn h m a w;
            Some (err, w)
          }
      }))"

text \<open>
  \<open>struct ifaddrmsg\<close>: family, prefix length, flags and scope are bytes 0 to 3, the index is
  at 4.  The addresses are the bytes at the pointers.
\<close>

definition addr_message ::
    "nlmsg_nc \<Rightarrow> int \<Rightarrow> int \<Rightarrow> byte list \<Rightarrow> byte list \<Rightarrow> int \<Rightarrow> (int + nlmsg_nc) option" where
  "addr_message m family ifindex addr bcast prefix = do {
     let addrlen = (if family = AF_INET then 4 else 16);
     m \<leftarrow> set_kind m (NLM_F_ACK OR NLM_F_REQUEST OR NLM_F_CREATE OR NLM_F_EXCL) RTM_NEWADDR;
     (ifa, m) \<leftarrow> nlmsg_reserve_nc m 8;
     p \<leftarrow> ifa;
     b \<leftarrow> put_u8 (nc_hdr m) (p + 1) (word_of_int prefix);
     b \<leftarrow> put_u32 b (p + 4) (word_of_int ifindex);
     b \<leftarrow> put_u8 b p (word_of_int family);
     b \<leftarrow> put_u8 b (p + 3) 0;
     (r, m) \<leftarrow> nla_put_buffer (m\<lparr>nc_hdr := b\<rparr>) IFA_LOCAL addr addrlen;
     if r \<noteq> 0 then Some (Inl (- EINVAL)) else do {
     (r, m) \<leftarrow> nla_put_buffer m IFA_ADDRESS addr addrlen;
     if r \<noteq> 0 then Some (Inl (- EINVAL)) else do {
     (r, m) \<leftarrow> nla_put_buffer m IFA_BROADCAST bcast addrlen;
     if r \<noteq> 0 then Some (Inl (- EINVAL)) else Some (Inr m) }}
   }"

text \<open>A \<open>NULL\<close> anycast address is read only for IPv6, where it has no defined result.\<close>

definition ip_addr_add ::
    "'k kern \<Rightarrow> malloc_fn \<Rightarrow> int \<Rightarrow> int \<Rightarrow> byte list \<Rightarrow> byte list \<Rightarrow> byte list option \<Rightarrow> int
       \<Rightarrow> 'k world \<Rightarrow> (int \<times> 'k world) option" where
  "ip_addr_add kn mal family ifindex addr bcast acast prefix w =
     (let (err, h, w) = netlink_open kn NETLINK_ROUTE w
      in if err \<noteq> 0 then Some (err, w)
      else with_messages kn mal h w (\<lambda>m a w. do {
        r \<leftarrow> addr_message m family ifindex addr bcast prefix;
        case r of Inl err \<Rightarrow> Some (err, w)
        | Inr m \<Rightarrow> do {
            bad \<leftarrow> (if family = AF_INET6
                    then if take 16 bcast \<noteq> replicate 16 0 then Some True
                         else map_option (\<lambda>ac. take 16 ac \<noteq> replicate 16 0) acast
                    else Some False);
            if bad then Some (- EPROTONOSUPPORT, w)
            else do {
              (err, a, w) \<leftarrow> netlink_transaction kn h m a w;
              Some (err, w)
            }
          }
      }))"

definition ipv4_addr_add ::
    "'k kern \<Rightarrow> malloc_fn \<Rightarrow> byte list \<Rightarrow> byte list \<Rightarrow> byte list \<Rightarrow> int \<Rightarrow> 'k world \<Rightarrow> (int \<times> 'k world) option" where
  "ipv4_addr_add kn mal name addr bcast prefix w =
     (let (ifindex, w) = sys_call (k_if_nametoindex kn name) w
      in if ifindex = 0 then Some (-1, w)
      else ip_addr_add kn mal AF_INET ifindex addr bcast None prefix w)"

end
