(* ===== verification/Net_Client_Props.thy ===== *)
theory Net_Client_Props
  imports Net_Client
begin

text \<open>
  The client of \<open>network/code/nl.c\<close> as a builder of attributes.  Unlike libnl it never
  clears padding: it relies on the zeroes of the allocation, so its abstraction
  \<open>nc_holds\<close> also says that everything behind the message is still zero.
\<close>

lemma align_size_of_nat:
  assumes "n + 3 < 2 ^ 32"
  shows "align_size (word_of_nat n) = word_of_nat (up4 n)"
proof -
  let ?w = "word_of_nat (n + 3) :: 64 word"
  have u: "unat ?w = n + 3" by (rule unat_word_small) (use assms in simp)
  have m: "(0xFFFFFFFC :: 64 word) = mask 32 AND NOT 3" by code_simp
  have "take_bit 32 ?w = ?w"
    using assms u by (simp add: word_unat_eq_iff unsigned_take_bit_eq take_bit_nat_eq_self)
  then have "?w AND 0xFFFFFFFC = ?w AND NOT 3"
    unfolding m by (metis and.assoc take_bit_eq_mask)
  then have "unat (?w AND 0xFFFFFFFC) = up4 n"
    using word_mask_4 [of ?w] u by (simp add: up4_def)
  moreover have "unat (word_of_nat (up4 n) :: 64 word) = up4 n"
    by (rule unat_word_small) (use assms up4_facts(2) [of n] in simp)
  ultimately show ?thesis
    by (simp add: align_size_def word_unat_eq_iff)
qed

definition nc_holds :: "nlmsg_nc \<Rightarrow> byte list \<Rightarrow> byte list \<Rightarrow> bool" where
  "nc_holds m h body \<longleftrightarrow>
     length h = 12 \<and> 4 dvd length body \<and> length (nc_hdr m) = unat (nc_cap m)
     \<and> unat (nc_cap m) \<le> 2 ^ 30 \<and> 16 + length body \<le> unat (nc_cap m)
     \<and> bytes_at (nc_hdr m) 0 (msg_text h body @ replicate (unat (nc_cap m) - (16 + length body)) 0)"

lemma nc_holds_parts:
  assumes "nc_holds m h body"
  shows "length h = 12" "4 dvd length body" "length (nc_hdr m) = unat (nc_cap m)"
    "unat (nc_cap m) \<le> 2 ^ 30" "16 + length body \<le> unat (nc_cap m)"
    "bytes_at (nc_hdr m) 0 (le_bytes 4 (16 + length body))"
    "bytes_at (nc_hdr m) 4 h" "bytes_at (nc_hdr m) 16 body"
    "bytes_at (nc_hdr m) (16 + length body) (replicate (unat (nc_cap m) - (16 + length body)) 0)"
    "4 dvd 16 + length body"
  using assms by (auto simp: nc_holds_def msg_text_def bytes_at_append intro: dvd_add)

lemma zeros_split:
  "bytes_at m i (replicate n 0) \<Longrightarrow> j + k \<le> n \<Longrightarrow> bytes_at m (i + j) (replicate k 0)"
  by (auto simp: bytes_at_nth add.assoc)

lemma nc_len:
  assumes "nc_holds m h body"
  shows "get_u32 (nc_hdr m) 0 = Some (word_of_nat (16 + length body))"
proof -
  have "unat (word_of_nat (16 + length body) :: 32 word) = 16 + length body"
    using nc_holds_parts [OF assms] by (intro unat_word_small) simp
  then show ?thesis
    using u32.load_bytes [of "nc_hdr m" 0 "word_of_nat (16 + length body)"]
      nc_holds_parts(6) [OF assms] by simp
qed

lemma nc_align:
  assumes "nc_holds m h body"
  shows "NLMSG_ALIGN (word_of_nat (16 + length body) :: 32 word) = word_of_nat (16 + length body)"
  by (rule align_len) (use nc_holds_parts [OF assms] in simp_all)

lemma nc_tail:
  assumes "nc_holds m h body"
  shows "nlmsg_tail_nc m = Some (int (16 + length body))"
proof -
  have "uint (word_of_nat (16 + length body) :: 32 word) = int (16 + length body)"
    by (rule uint_of_unat, rule unat_word_small) (use nc_holds_parts [OF assms] in simp)
  then show ?thesis
    unfolding nlmsg_tail_nc_def nc_len [OF assms] bind.bind_lunit nc_align [OF assms] by simp
qed

text \<open>
  The buffer after an attribute has been written behind the body: the writes of
  \<open>nla_put_nc\<close> in their order.
\<close>

lemma nc_write_attr:
  assumes m: "nc_holds m h body" and n: "length d \<le> 65531"
    and room: "16 + length body + (4 + up4 (length d)) \<le> unat (nc_cap m)"
  shows "\<exists>b1 b2 b3 b4. put_u16 (nc_hdr m) (int (16 + length body) + 2) t = Some b1
    \<and> put_u16 b1 (int (16 + length body)) (word_of_nat (4 + length d)) = Some b2
    \<and> c_write b2 (int (16 + length body) + 4) d = Some b3
    \<and> put_u32 b3 0 (word_of_nat (16 + length body + (4 + up4 (length d)))) = Some b4
    \<and> nc_holds (m\<lparr>nc_hdr := b4\<rparr>) h (body @ attr_bytes t d)"
proof -
  note M = nc_holds_parts [OF m]
  define p where "p = 16 + length body"
  define N where "N = p + (4 + up4 (length d))"
  note up = up4_facts(1,2) [of "length d"]
  have N: "N \<le> length (nc_hdr m)" "N \<le> 2 ^ 30" using M room by (auto simp: N_def p_def)
  have u: "unat (word_of_nat (4 + length d) :: 16 word) = 4 + length d"
    "unat (word_of_nat N :: 32 word) = N"
    by (rule unat_word_small, use n N in simp)+
  obtain b1 where b1: "put_u16 (nc_hdr m) (int (p + 2)) t = Some b1"
    using u16.store_in [of "p + 2" "nc_hdr m"] N by (auto simp: N_def)
  have l1: "length b1 = length (nc_hdr m)" using u16.store_length [OF b1] .
  obtain b2 where b2: "put_u16 b1 (int p) (word_of_nat (4 + length d)) = Some b2"
    using u16.store_in [of p b1] N l1 by (auto simp: N_def)
  have l2: "length b2 = length (nc_hdr m)" using u16.store_length [OF b2] l1 by simp
  obtain b3 where b3: "c_write b2 (int (p + 4)) d = Some b3"
    using c_write_ex [of "p + 4" d b2] N up l2 by (auto simp: N_def)
  have l3: "length b3 = length (nc_hdr m)" using c_write_length [OF b3] l2 by simp
  obtain b4 where b4: "put_u32 b3 (int 0) (word_of_nat N) = Some b4"
    using u32.store_in [of 0 b3] N l3 by (auto simp: N_def p_def)
  have l4: "length b4 = length (nc_hdr m)" using u32.store_length [OF b4] l3 by simp
  note other = u16.store_other [OF b1] u16.store_other [OF b2] c_write_other [OF b3] u32.store_other [OF b4]
  have z: "bytes_at (nc_hdr m) (p + (4 + length d)) (replicate (up4 (length d) - length d) 0)"
    "bytes_at (nc_hdr m) (p + (4 + up4 (length d))) (replicate (unat (nc_cap m) - N) 0)"
    by (rule zeros_split [OF M(9) [folded p_def]], use N up room in \<open>simp add: N_def p_def\<close>)+
  have parts: "bytes_at b4 0 (le_bytes 4 N)" "bytes_at b4 4 h" "bytes_at b4 16 body"
    "bytes_at b4 p (le_bytes 2 (4 + length d))" "bytes_at b4 (p + 2) (le_bytes 2 (unat t))"
    "bytes_at b4 (p + 4) d"
    "bytes_at b4 (p + (4 + length d)) (replicate (up4 (length d) - length d) 0)"
    "bytes_at b4 N (replicate (unat (nc_cap m) - N) 0)"
    using M(1,7,8) z u16.store_bytes_at [OF b1] u16.store_bytes_at [OF b2, unfolded u]
      c_write_at [OF b3] u32.store_bytes_at [OF b4, unfolded u] other up
    by (simp_all add: p_def N_def)
  have "bytes_at b4 0 (msg_text h (body @ attr_bytes t d) @ replicate (unat (nc_cap m) - N) 0)"
    using parts M(1) up
    by (simp add: msg_text_def bytes_at_append attr_bytes_def p_def N_def add.assoc)
  moreover have "4 dvd length (body @ attr_bytes t d)"
    unfolding length_append length_attr_bytes by (intro dvd_add M(2)) auto
  ultimately have "nc_holds (m\<lparr>nc_hdr := b4\<rparr>) h (body @ attr_bytes t d)"
    using M(1,3,4) l4 N by (simp add: nc_holds_def N_def p_def add.assoc)
  then show ?thesis
    using b1 b2 b3 b4 unfolding N_def p_def by (auto simp: add.commute add.left_commute)
qed

lemma nc_tlen:
  assumes m: "nc_holds m h body" and n: "length d \<le> 65531"
  shows "ucast (NLMSG_ALIGN (word_of_nat (16 + length body) :: 32 word))
      + align_size (word_of_nat (4 + length d))
    = (word_of_nat (16 + length body + (4 + up4 (length d))) :: 64 word)"
proof -
  have "align_size (word_of_nat (4 + length d)) = word_of_nat (4 + up4 (length d))"
    using align_size_of_nat [of "4 + length d"] n up4_header by simp
  moreover have "(ucast (word_of_nat (16 + length body) :: 32 word) :: 64 word) = word_of_nat (16 + length body)"
    by (rule ucast_up_of_nat) (use nc_holds_parts [OF m] in simp)
  ultimately show ?thesis
    unfolding nc_align [OF m] by simp
qed

lemma nla_put_nc_appends:
  assumes m: "nc_holds m h body" and n: "length d \<le> 65531"
    and room: "16 + length body + (4 + up4 (length d)) \<le> unat (nc_cap m)"
  shows "\<exists>b. nla_put_nc m t d (word_of_nat (length d)) = Some (0, m\<lparr>nc_hdr := b\<rparr>)
    \<and> nc_holds (m\<lparr>nc_hdr := b\<rparr>) h (body @ attr_bytes (word_of_int t) d)"
proof -
  define p where "p = 16 + length body"
  define N where "N = p + (4 + up4 (length d))"
  obtain b1 b2 b3 b4 where b: "put_u16 (nc_hdr m) (int p + 2) (word_of_int t) = Some b1"
    "put_u16 b1 (int p) (word_of_nat (4 + length d)) = Some b2"
    "c_write b2 (int p + 4) d = Some b3" "put_u32 b3 0 (word_of_nat N) = Some b4"
    and holds: "nc_holds (m\<lparr>nc_hdr := b4\<rparr>) h (body @ attr_bytes (word_of_int t) d)"
    using nc_write_attr [OF m n room, of "word_of_int t"] unfolding p_def N_def by blast
  have N: "N \<le> 2 ^ 30" using nc_holds_parts [OF m] room by (simp add: N_def p_def)
  have fits: "\<not> (word_of_nat N :: 64 word) > nc_cap m"
    using unat_word_small [of N, where 'a = 64] N room by (simp add: word_less_nat_alt N_def p_def)
  have rt: "(4 + word_of_nat (length d) :: 64 word) = word_of_nat (4 + length d)" by simp
  have tl: "ucast (NLMSG_ALIGN (word_of_nat p :: 32 word)) + align_size (word_of_nat (4 + length d))
      = (word_of_nat N :: 64 word)"
    unfolding p_def N_def by (rule nc_tlen [OF m n])
  have c1: "(ucast (word_of_nat (4 + length d) :: 64 word) :: 16 word) = word_of_nat (4 + length d)"
    and c2: "(ucast (word_of_nat N :: 64 word) :: 32 word) = word_of_nat N"
    by (rule ucast_of_nat; simp)+
  have ud: "uint (word_of_nat (length d) :: 64 word) = int (length d)"
    by (rule uint_of_unat, rule unat_word_small) (use n in simp)
  have cp: "c_memcpy b2 (int p + 4) d (int (length d)) = Some b3"
    using b(3) by (simp add: c_memcpy_def)
  have "nla_put_nc m t d (word_of_nat (length d)) = Some (0, m\<lparr>nc_hdr := b4\<rparr>)"
    by (simp only: nla_put_nc_def Let_def nc_len [OF m] bind.bind_lunit nc_tail [OF m]
        p_def [symmetric] rt tl fits if_False c1 c2 ud b cp)
  with holds show ?thesis by blast
qed

lemma nla_put_nc_no_room:
  assumes m: "nc_holds m h body" and n: "length d \<le> 65531"
    and room: "unat (nc_cap m) < 16 + length body + (4 + up4 (length d))"
  shows "nla_put_nc m t d (word_of_nat (length d)) = Some (- ENOMEM, m)"
proof -
  define N where "N = 16 + length body + (4 + up4 (length d))"
  have "N < 2 ^ 31"
    using nc_holds_parts [OF m] n up4_facts(2) [of "length d"] by (simp add: N_def)
  then have full: "(word_of_nat N :: 64 word) > nc_cap m"
    using unat_word_small [of N, where 'a = 64] room by (simp add: word_less_nat_alt N_def)
  have rt: "(4 + word_of_nat (length d) :: 64 word) = word_of_nat (4 + length d)" by simp
  show ?thesis
    by (simp only: nla_put_nc_def Let_def nc_len [OF m] bind.bind_lunit rt nc_tlen [OF m n]
        N_def [symmetric] full if_True)
qed

lemma nla_begin_nested_appends:
  assumes m: "nc_holds m h body" and room: "16 + length body + 4 \<le> unat (nc_cap m)"
  shows "\<exists>b. nla_begin_nested m t = Some (Some (int (16 + length body)), m\<lparr>nc_hdr := b\<rparr>)
    \<and> nc_holds (m\<lparr>nc_hdr := b\<rparr>) h (body @ attr_bytes (word_of_int t) [])"
  using nla_put_nc_appends [OF m, of "[]" t] room nc_tail [OF m]
  by (auto simp: nla_begin_nested_def nla_put_attr_def)

lemma nla_end_nested_closes:
  assumes m: "nc_holds m h (X @ attr_bytes t [] @ Y)"
    and Y: "4 dvd length Y" "length Y \<le> 65531"
  shows "\<exists>b. nla_end_nested m (int (16 + length X)) = Some (m\<lparr>nc_hdr := b\<rparr>)
    \<and> nc_holds (m\<lparr>nc_hdr := b\<rparr>) h (X @ attr_bytes t Y)"
proof -
  note M = nc_holds_parts [OF m]
  define p where "p = 16 + length X"
  define z where "z = unat (nc_cap m) - (16 + length (X @ attr_bytes t [] @ Y))"
  obtain b where b: "put_u16 (nc_hdr m) (int p) (word_of_nat (4 + length Y)) = Some b"
    using u16.store_in [of p "nc_hdr m"] M(3,5) by (auto simp: p_def)
  have u: "unat (word_of_nat (4 + length Y) :: 16 word) = 4 + length Y"
    by (rule unat_word_small) (use Y in simp)
  have whole: "bytes_at (nc_hdr m) 0 (msg_text h (X @ attr_bytes t [] @ Y) @ replicate z 0)"
    using m by (simp add: nc_holds_def z_def)
  have "bytes_at b 0 (msg_text h (X @ attr_bytes t Y) @ replicate z 0)"
    using whole M(1) Y(1) u16.store_other [OF b] u16.store_bytes_at [OF b, unfolded u]
    by (auto simp: msg_text_def attr_bytes_def bytes_at_append up4_facts(4) p_def)
  then have holds: "nc_holds (m\<lparr>nc_hdr := b\<rparr>) h (X @ attr_bytes t Y)"
    using M(1-5) u16.store_length [OF b] up4_facts(4) [OF Y(1)]
    by (simp add: nc_holds_def z_def)
  have "nlmsg_tail_nc m = Some (int p + int (4 + length Y))"
    using nc_tail [OF m] by (simp add: p_def)
  then have "nla_end_nested m (int p) = Some (m\<lparr>nc_hdr := b\<rparr>)"
    using b by (simp add: nla_end_nested_def)
  with holds show ?thesis unfolding p_def by blast
qed

section \<open>The client as a builder of attributes\<close>

definition nc_put :: "nlmsg_nc \<Rightarrow> 16 word \<Rightarrow> byte list \<Rightarrow> nlmsg_nc option" where
  "nc_put m t d = do {
     (r, m) \<leftarrow> nla_put_nc m (uint t) d (word_of_nat (length d));
     if r \<noteq> 0 then None else Some m
   }"

definition nc_start :: "nlmsg_nc \<Rightarrow> 16 word \<Rightarrow> (int \<times> nlmsg_nc) option" where
  "nc_start m t = do {
     (p, m) \<leftarrow> nla_begin_nested m (uint t);
     p \<leftarrow> p;
     Some (p, m)
   }"

interpretation nc: attr_builder "\<lambda>m X. nc_holds m h X" "\<lambda>m. unat (nc_cap m) - 16"
    nc_put nc_start nla_end_nested for h
proof unfold_locales
  fix m X t and d :: "byte list"
  assume a: "nc_holds m h X" "length d \<le> 65531" "length X + (4 + up4 (length d)) \<le> unat (nc_cap m) - 16"
  from a(3) have "16 + length X + (4 + up4 (length d)) \<le> unat (nc_cap m)" by linarith
  with a show "\<exists>m'. nc_put m t d = Some m' \<and> nc_holds m' h (X @ attr_bytes t d)
      \<and> unat (nc_cap m') - 16 = unat (nc_cap m) - 16"
    using nla_put_nc_appends [of m h X d "uint t"] by (auto simp: nc_put_def)
next
  fix m X t
  assume a: "nc_holds m h X" "length X + 4 \<le> unat (nc_cap m) - 16"
  from a(2) have "16 + length X + 4 \<le> unat (nc_cap m)" by linarith
  with a show "\<exists>m'. nc_start m t = Some (int (16 + length X), m') \<and> nc_holds m' h (X @ attr_bytes t [])
      \<and> unat (nc_cap m') - 16 = unat (nc_cap m) - 16"
    using nla_begin_nested_appends [of m h X "uint t"] by (auto simp: nc_start_def)
next
  fix m X t Y
  assume "nc_holds m h (X @ attr_bytes t [] @ Y)" "Y \<noteq> []" "4 dvd length Y" "length Y \<le> 65531"
  then show "\<exists>m'. nla_end_nested m (int (16 + length X)) = Some m' \<and> nc_holds m' h (X @ attr_bytes t Y)
      \<and> unat (nc_cap m') - 16 = unat (nc_cap m) - 16"
    using nla_end_nested_closes [of m h X t Y] by auto
qed

section \<open>Allocation, reserved room and field assignments\<close>

lemma nlmsg_alloc_nc_holds:
  assumes "n + 19 < 2 ^ 30"
  shows "\<exists>m. nlmsg_alloc_nc (\<lambda>_. True) (word_of_nat n) = Some (Some m) \<and> nc_holds m (replicate 12 0) []
    \<and> unat (nc_cap m) = 16 + up4 n"
proof -
  define N where "N = 16 + up4 n"
  have N: "N < 2 ^ 30" using assms up4_facts(2) [of n] by (simp add: N_def)
  have al: "16 + align_size (word_of_nat n) = (word_of_nat N :: 64 word)"
    using align_size_of_nat [of n] assms by (simp add: N_def)
  have u: "unat (word_of_nat N :: 64 word) = N" "uint (word_of_nat N :: 64 word) = int N"
    using unat_word_small [of N, where 'a = 64] N by (simp_all add: uint_of_unat)
  have z: "c_memset (replicate N None) 0 0 (int N) = Some (map Some (replicate N (0 :: byte)))"
    by (simp add: c_memset_def c_write_def)
  obtain b where b: "put_u32 (map Some (replicate N 0)) (int 0) 16 = Some b"
    using u32.store_in [of 0 "map Some (replicate N 0)"] by (auto simp: N_def)
  have "bytes_at (map Some (replicate N (0 :: byte))) 4 (replicate 12 0)"
    "bytes_at (map Some (replicate N (0 :: byte))) 16 (replicate (N - 16) 0)"
    by (auto simp: bytes_at_nth N_def)
  then have "bytes_at b 0 (msg_text (replicate 12 0) [] @ replicate (N - 16) 0)"
    using u32.store_bytes_at [OF b] u32.store_other [OF b] by (simp add: msg_text_def bytes_at_append)
  moreover have "length b = N" using u32.store_length [OF b] by simp
  ultimately have "nc_holds \<lparr>nc_hdr = b, nc_cap = word_of_nat N\<rparr> (replicate 12 0) []"
    using N u by (simp add: nc_holds_def N_def [symmetric]) (simp add: N_def)
  moreover have "nlmsg_alloc_nc (\<lambda>_. True) (word_of_nat n) = Some (Some \<lparr>nc_hdr = b, nc_cap = word_of_nat N\<rparr>)"
    using b z unfolding nlmsg_alloc_nc_def Let_def al u by simp
  ultimately show ?thesis using u by (auto simp: N_def)
qed

lemma nlmsg_reserve_nc_appends:
  assumes m: "nc_holds m h body" and room: "16 + length body + up4 n \<le> unat (nc_cap m)"
  shows "\<exists>b. nlmsg_reserve_nc m (word_of_nat n) = Some (Some (int (16 + length body)), m\<lparr>nc_hdr := b\<rparr>)
    \<and> nc_holds (m\<lparr>nc_hdr := b\<rparr>) h (body @ replicate (up4 n) 0)"
proof -
  note M = nc_holds_parts [OF m]
  define p where "p = 16 + length body"
  have n: "n \<le> up4 n" "up4 n < n + 4" using up4_facts [of n] by auto
  have big: "p + up4 n \<le> 2 ^ 30" "p + up4 n \<le> length (nc_hdr m)" using M room by (auto simp: p_def)
  have u: "unat (word_of_nat n :: 64 word) = n" "unat (word_of_nat (up4 n) :: 64 word) = up4 n"
    "unat (word_of_nat p :: 64 word) = p" "unat (word_of_nat (p + up4 n) :: 64 word) = p + up4 n"
    "unat (word_of_nat (p + up4 n) :: 32 word) = p + up4 n"
    by (rule unat_word_small, use big n in simp)+
  obtain b1 where b1: "put_u32 (nc_hdr m) (int 0) (word_of_nat (p + up4 n)) = Some b1"
    using u32.store_in [of 0 "nc_hdr m"] big by (auto simp: p_def)
  have l1: "length b1 = length (nc_hdr m)" using u32.store_length [OF b1] .
  obtain b2 where b2: "c_write b1 (int (p + n)) (replicate (up4 n - n) 0) = Some b2"
    using c_write_ex [of "p + n" "replicate (up4 n - n) 0" b1] big n l1 by auto
  have l2: "length b2 = length (nc_hdr m)" using c_write_length [OF b2] l1 by simp
  have z: "bytes_at (nc_hdr m) (p + 0) (replicate n 0)"
    "bytes_at (nc_hdr m) (p + up4 n) (replicate (unat (nc_cap m) - (p + up4 n)) 0)"
    by (rule zeros_split [OF M(9) [folded p_def]], use room n in \<open>simp add: p_def\<close>)+
  have parts: "bytes_at b2 0 (le_bytes 4 (p + up4 n))" "bytes_at b2 4 h" "bytes_at b2 16 body"
    "bytes_at b2 p (replicate n 0)" "bytes_at b2 (p + n) (replicate (up4 n - n) 0)"
    "bytes_at b2 (p + up4 n) (replicate (unat (nc_cap m) - (p + up4 n)) 0)"
    using M(1,7,8) z n u32.store_bytes_at [OF b1, unfolded u] u32.store_other [OF b1]
      c_write_at [OF b2] c_write_other [OF b2] by (simp_all add: p_def)
  have split: "replicate (up4 n) (0 :: byte) = replicate n 0 @ replicate (up4 n - n) 0"
    using n by (simp flip: replicate_add)
  have "bytes_at b2 0 (msg_text h (body @ replicate (up4 n) 0) @ replicate (unat (nc_cap m) - (p + up4 n)) 0)"
    using parts M(1) n unfolding split
    by (simp add: msg_text_def bytes_at_append p_def add.assoc)
  then have "nc_holds (m\<lparr>nc_hdr := b2\<rparr>) h (body @ replicate (up4 n) 0)"
    using M(1-4) l2 room by (simp add: nc_holds_def p_def add.assoc)
  moreover have "nlmsg_reserve_nc m (word_of_nat n) = Some (Some (int p), m\<lparr>nc_hdr := b2\<rparr>)"
  proof -
    have al: "align_size (word_of_nat n) = word_of_nat (up4 n)"
      using align_size_of_nat [of n] big n by simp
    have nlen: "(ucast (word_of_nat p :: 32 word) :: 64 word) = word_of_nat p"
      by (rule ucast_up_of_nat) (use big in simp)
    have fits: "\<not> (word_of_nat (p + up4 n) > nc_cap m)"
      using u(4) room by (simp add: word_less_nat_alt p_def)
    have cast: "(ucast (word_of_nat (up4 n) :: 64 word) :: 32 word) = word_of_nat (up4 n)"
      by (rule ucast_of_nat) simp
    have d: "unat (word_of_nat (up4 n) - (word_of_nat n :: 64 word)) = up4 n - n"
      using u n by (simp add: unat_sub word_le_nat_alt)
    have pad: "(if word_of_nat n < (word_of_nat (up4 n) :: 64 word)
        then c_memset b1 (int p + uint (word_of_nat n :: 64 word)) 0
               (uint (word_of_nat (up4 n) - (word_of_nat n :: 64 word))) else Some b1) = Some b2"
      using b2 n u c_write_Nil [of b1 "int (p + n)" b2]
      unfolding uint_of_unat [OF u(1)] uint_of_unat [OF d] word_less_nat_alt
      by (cases "n < up4 n") (auto simp: c_memset_def nat_diff_distrib)
    have b1': "put_u32 (nc_hdr m) 0 (word_of_nat (p + up4 n)) = Some b1" using b1 by simp
    have len: "get_u32 (nc_hdr m) 0 = Some (word_of_nat p)" using nc_len [OF m] by (simp add: p_def)
    show ?thesis
      by (simp only: nlmsg_reserve_nc_def Let_def len bind.bind_lunit al nlen of_nat_add [symmetric] fits
          if_False cast b1' uint_of_unat [OF u(3)] pad)
  qed
  ultimately show ?thesis unfolding p_def by blast
qed

text \<open>Bytes of the header or of the body are replaced by as many others.\<close>

lemma nc_patch_body:
  assumes m: "nc_holds m h (X @ old @ Y)" and l: "length new = length old"
  shows "\<exists>b. c_write (nc_hdr m) (int (16 + length X)) new = Some b
    \<and> nc_holds (m\<lparr>nc_hdr := b\<rparr>) h (X @ new @ Y)"
proof -
  note M = nc_holds_parts [OF m]
  obtain b where b: "c_write (nc_hdr m) (int (16 + length X)) new = Some b"
    using c_write_ex [of "16 + length X" new "nc_hdr m"] M(3,5) l by auto
  have "bytes_at b 0 (msg_text h (X @ new @ Y) @ replicate (unat (nc_cap m) - (16 + length (X @ new @ Y))) 0)"
    using m l M(1) c_write_at [OF b] c_write_other [OF b]
    by (auto simp: nc_holds_def msg_text_def bytes_at_append)
  then show ?thesis
    using b M(1-5) l c_write_length [OF b] by (auto simp: nc_holds_def)
qed

lemma nc_patch_header:
  assumes m: "nc_holds m (A @ old @ B) body" and l: "length new = length old"
  shows "\<exists>b. c_write (nc_hdr m) (int (4 + length A)) new = Some b
    \<and> nc_holds (m\<lparr>nc_hdr := b\<rparr>) (A @ new @ B) body"
proof -
  note M = nc_holds_parts [OF m]
  have 12: "length A + (length old + length B) = 12" using M(1) by simp
  obtain b where b: "c_write (nc_hdr m) (int (4 + length A)) new = Some b"
    using c_write_ex [of "4 + length A" new "nc_hdr m"] M(3,5) l 12 by auto
  have "bytes_at b 0 (msg_text (A @ new @ B) body @ replicate (unat (nc_cap m) - (16 + length body)) 0)"
    using m l 12 c_write_at [OF b] c_write_other [OF b]
    by (auto simp: nc_holds_def msg_text_def bytes_at_append)
  then show ?thesis
    using b M(1-5) l c_write_length [OF b] by (auto simp: nc_holds_def)
qed

end
