(* ===== verification/Net_Ops_Props.thy ===== *)
theory Net_Ops_Props
  imports Net_Ops Net_Client_Props
begin

text \<open>
  What the operations of \<open>network/code\<close> do to the world: which bytes they send, that they
  give back what they took, when they return, and what a failing \<open>netlink_open\<close> leaves behind.
\<close>

section \<open>Frames\<close>

definition same_holdings :: "'k world \<Rightarrow> 'k world \<Rightarrow> bool" where
  "same_holdings w w' \<longleftrightarrow> w_fds w' = w_fds w \<and> w_live w' = w_live w"

lemma same_holdings_refl [simp]: "same_holdings w w"
  by (simp add: same_holdings_def)

lemma same_holdings_trans: "same_holdings w1 w2 \<Longrightarrow> same_holdings w2 w3 \<Longrightarrow> same_holdings w1 w3"
  by (simp add: same_holdings_def)

lemma sys_call_frame:
  assumes "sys_call f w = (r, w')"
  shows "same_holdings w w'" "w_sent w' = w_sent w"
  using assms by (auto simp: sys_call_def same_holdings_def split: prod.splits)

lemma netlink_open_frame:
  assumes "netlink_open kn protocol w = (err, h, w')"
  shows "w_live w' = w_live w" "w_sent w' = w_sent w"
    "w_fds w' = (if nh_fd h < 0 then w_fds w else nh_fd h # w_fds w)"
  using assms
  by (auto simp: netlink_open_def sys_call_def sys_socket_def Let_def split: prod.splits if_splits)

lemma netlink_open_ok_fd:
  "netlink_open kn protocol w = (0, h, w') \<Longrightarrow> 0 \<le> nh_fd h"
  by (auto simp: netlink_open_def sys_call_def sys_socket_def Let_def split: prod.splits if_splits)

lemma recv_again_frame_aux:
  assumes "recv_again kn fd n w = Some y"
  shows "same_holdings w (snd y) \<and> w_sent (snd y) = w_sent w"
proof (rule recv_again.raw_induct [OF _ assms])
  fix rec :: "'a kern \<Rightarrow> int \<Rightarrow> nat \<Rightarrow> 'a world \<Rightarrow> ((int + byte list \<times> bool) \<times> 'a world) option"
    and kn fd n w y
  assume IH: "\<And>kn fd n w y. rec kn fd n w = Some y \<Longrightarrow> same_holdings w (snd y) \<and> w_sent (snd y) = w_sent w"
    and y: "(let (r, w) = sys_call (k_recvmsg kn fd n) w
      in if r = Inl EINTR then rec kn fd n w else Some (r, w)) = Some y"
  obtain r1 w1 where s: "sys_call (k_recvmsg kn fd n) w = (r1, w1)" by force
  note f = sys_call_frame [OF s]
  show "same_holdings w (snd y) \<and> w_sent (snd y) = w_sent w"
  proof (cases "r1 = Inl EINTR")
    case True
    then have "rec kn fd n w1 = Some y" using y s by simp
    from IH [OF this] f show ?thesis by (auto intro: same_holdings_trans)
  next
    case False
    then have "y = (r1, w1)" using y s by simp
    with f show ?thesis by simp
  qed
qed

lemma recv_again_frame:
  "recv_again kn fd n w = Some (r, w') \<Longrightarrow> same_holdings w w' \<and> w_sent w' = w_sent w"
  using recv_again_frame_aux [of kn fd n w "(r, w')"] by simp

lemma netlink_send_frame:
  assumes "netlink_send kn h m w = Some (r, w')"
  shows "same_holdings w w'"
proof -
  obtain l bs where lb: "get_u32 (nc_hdr m) 0 = Some l" "c_read (nc_hdr m) 0 (uint l) = Some bs"
    using assms by (auto simp: netlink_send_def bind_eq_Some_conv)
  obtain r1 w1 where c: "sys_call (k_sendmsg kn (nh_fd h) bs) w = (r1, w1)" by force
  have "w' = w1\<lparr>w_sent := w_sent w1 @ [bs]\<rparr>"
    using assms lb c by (simp add: netlink_send_def)
  then show ?thesis
    using sys_call_frame(1) [OF c] by (simp add: same_holdings_def)
qed

lemma netlink_rcv_frame:
  assumes "netlink_rcv kn h a w = Some (r, a', w')"
  shows "same_holdings w w' \<and> w_sent w' = w_sent w"
proof -
  obtain l where l: "get_u32 (nc_hdr a) 0 = Some l"
    using assms by (auto simp: netlink_rcv_def bind_eq_Some_conv)
  obtain x w1 where r: "recv_again kn (nh_fd h) (unat l) w = Some (x, w1)"
    using assms l by (auto simp: netlink_rcv_def bind_eq_Some_conv)
  have "w' = w1"
  proof (cases x)
    case (Inl e)
    then show ?thesis using assms l r by (simp add: netlink_rcv_def)
  next
    case (Inr y)
    then show ?thesis using assms l r
      by (cases y) (auto simp: netlink_rcv_def bind_eq_Some_conv Let_def split: if_splits)
  qed
  then show ?thesis using recv_again_frame [OF r] by simp
qed

lemma netlink_transaction_frame:
  assumes "netlink_transaction kn h m a w = Some (r, a', w')"
  shows "same_holdings w w'"
proof -
  obtain r1 w1 where s: "netlink_send kn h m w = Some (r1, w1)"
    and rest: "w' = w1 \<or> (\<exists>r2 a2. netlink_rcv kn h a w1 = Some (r2, a2, w'))"
    using assms unfolding netlink_transaction_def
    by (auto simp: bind_eq_Some_conv split: if_splits)
  show ?thesis
    using netlink_send_frame [OF s] rest netlink_rcv_frame same_holdings_trans by metis
qed

section \<open>Returning from a transaction\<close>

text \<open>
  The kernel answers when it does not interrupt for ever: after some number of interrupted
  calls the next one is not interrupted.
\<close>

definition answers :: "'k kern \<Rightarrow> int \<Rightarrow> nat \<Rightarrow> 'k \<Rightarrow> bool" where
  "answers kn fd n k \<longleftrightarrow>
     (\<exists>j. fst (k_recvmsg kn fd n (((\<lambda>k. snd (k_recvmsg kn fd n k)) ^^ j) k)) \<noteq> Inl EINTR)"

lemma recv_again_returns_aux:
  "fst (k_recvmsg kn fd n (((\<lambda>k. snd (k_recvmsg kn fd n k)) ^^ j) (w_k w))) \<noteq> Inl EINTR \<Longrightarrow>
   \<exists>r w'. recv_again kn fd n w = Some (r, w') \<and> r \<noteq> Inl EINTR"
proof (induction j arbitrary: w)
  case 0
  then show ?case
    by (subst recv_again.simps) (auto simp: sys_call_def split: prod.splits)
next
  case (Suc j)
  obtain r k where c: "k_recvmsg kn fd n (w_k w) = (r, k)" by force
  have "fst (k_recvmsg kn fd n (((\<lambda>k. snd (k_recvmsg kn fd n k)) ^^ j) k)) \<noteq> Inl EINTR"
    using Suc.prems c by (simp add: funpow_Suc_right del: funpow.simps)
  then show ?case
    using Suc.IH [of "w\<lparr>w_k := k\<rparr>"] c
    by (subst recv_again.simps) (auto simp: sys_call_def)
qed

lemma recv_again_returns:
  "answers kn fd n (w_k w) \<Longrightarrow> \<exists>r w'. recv_again kn fd n w = Some (r, w') \<and> r \<noteq> Inl EINTR"
  unfolding answers_def using recv_again_returns_aux by blast

text \<open>A message that can take an answer.\<close>

definition nc_ready :: "nlmsg_nc \<Rightarrow> nat \<Rightarrow> bool" where
  "nc_ready a n \<longleftrightarrow> initialised (nc_hdr a) \<and> 20 \<le> length (nc_hdr a) \<and> n \<le> length (nc_hdr a)
     \<and> (\<exists>l. get_u32 (nc_hdr a) 0 = Some l \<and> unat l = n)"

lemma netlink_rcv_returns:
  assumes a: "nc_ready a n" and k: "answers kn (nh_fd h) n (w_k w)"
  shows "\<exists>r a' w'. netlink_rcv kn h a w = Some (r, a', w')
    \<and> initialised (nc_hdr a') \<and> length (nc_hdr a') = length (nc_hdr a)"
proof -
  obtain l where l: "get_u32 (nc_hdr a) 0 = Some l" "unat l = n" and init: "initialised (nc_hdr a)"
    and len: "20 \<le> length (nc_hdr a)" "n \<le> length (nc_hdr a)"
    using a by (auto simp: nc_ready_def)
  obtain x w1 where x: "recv_again kn (nh_fd h) n w = Some (x, w1)"
    using recv_again_returns [OF k] by blast
  show ?thesis
  proof (cases x)
    case (Inl e)
    then show ?thesis using l x init by (simp add: netlink_rcv_def)
  next
    case (Inr y)
    obtain bs tr where y: "y = (bs, tr)" by force
    have "0 + length (take n bs) \<le> length (nc_hdr a)" using len by simp
    from c_write_ex [OF this] obtain b where b: "c_write (nc_hdr a) 0 (take n bs) = Some b" by auto
    have b': "initialised b" "length b = length (nc_hdr a)"
      using c_write_initialised [OF init b] c_write_length [OF b] by auto
    obtain l' where "get_u32 b 0 = Some l'"
      using get_u32_initialised [OF b'(1), of 0] b'(2) len by auto
    then show ?thesis
      using l x Inr y b b' by (auto simp: netlink_rcv_def Let_def)
  qed
qed

lemma netlink_transaction_returns:
  assumes a: "nc_ready a n" and k: "\<And>k. answers kn (nh_fd h) n k"
    and m: "get_u32 (nc_hdr m) 0 = Some l" "c_read (nc_hdr m) 0 (uint l) = Some bs"
  shows "\<exists>r a' w'. netlink_transaction kn h m a w = Some (r, a', w') \<and> w_sent w' = w_sent w @ [bs]
    \<and> same_holdings w w'"
proof -
  obtain r1 w1 where c: "sys_call (k_sendmsg kn (nh_fd h) bs) w = (r1, w1)" by force
  define w2 where "w2 = w1\<lparr>w_sent := w_sent w1 @ [bs]\<rparr>"
  have s: "netlink_send kn h m w = Some (r1, w2)"
    using m c by (simp add: netlink_send_def w2_def)
  have sent: "w_sent w2 = w_sent w @ [bs]"
    using sys_call_frame(2) [OF c] by (simp add: w2_def)
  obtain r2 a2 w3 where r: "netlink_rcv kn h a w2 = Some (r2, a2, w3)"
    and a2: "initialised (nc_hdr a2)" "length (nc_hdr a2) = length (nc_hdr a)"
    using netlink_rcv_returns [OF a, of kn h w2] k by blast
  obtain t e where "get_u16 (nc_hdr a2) 4 = Some t" "get_u32 (nc_hdr a2) 16 = Some e"
    using get_u16_initialised [OF a2(1), of 4] get_u32_initialised [OF a2(1), of 16] a2(2) a
    by (auto simp: nc_ready_def)
  then have "\<exists>r a' w'. netlink_transaction kn h m a w = Some (r, a', w') \<and> w_sent w' = w_sent w @ [bs]"
    using s r sent netlink_rcv_frame [OF r] by (auto simp: netlink_transaction_def)
  then show ?thesis using netlink_transaction_frame by blast
qed

section \<open>Building requests\<close>

lemma nc_holds_initialised:
  assumes "nc_holds m h body"
  shows "initialised (nc_hdr m)"
proof -
  let ?bs = "msg_text h body @ replicate (unat (nc_cap m) - (16 + length body)) 0"
  have "length ?bs = length (nc_hdr m)" and "bytes_at (nc_hdr m) 0 ?bs"
    using assms by (auto simp: nc_holds_def msg_text_def)
  then have "nc_hdr m = map Some ?bs" by (simp add: bytes_at_def del: map_append)
  then show ?thesis by (auto simp: initialised_def)
qed

lemma nc_holds_sends:
  assumes "nc_holds m h body"
  shows "\<exists>l. get_u32 (nc_hdr m) 0 = Some l \<and> c_read (nc_hdr m) 0 (uint l) = Some (msg_text h body)"
proof -
  note M = nc_holds_parts [OF assms]
  have "bytes_at (nc_hdr m) 0 (msg_text h body)"
    using assms by (auto simp: nc_holds_def bytes_at_append)
  moreover have "uint (word_of_nat (16 + length body) :: 32 word) = int (length (msg_text h body))"
    using uint_of_unat [OF unat_word_small, of "16 + length body", where 'a = 32] M(1,4,5)
    by (simp add: msg_text_def)
  ultimately show ?thesis
    using nc_len [OF assms] c_read_bytes by fastforce
qed

lemma nlmsg_alloc_reserve_ready:
  "\<exists>a. nlmsg_alloc_reserve (\<lambda>_. True) NLMSG_GOOD_SIZE = Some (Some a) \<and> nc_ready a 8208"
proof -
  obtain m where m: "nlmsg_alloc_nc (\<lambda>_. True) 8192 = Some (Some m)" "nc_holds m (replicate 12 0) []"
    "unat (nc_cap m) = 8208"
    using nlmsg_alloc_nc_holds [of 8192] by (auto simp: up4_def)
  have l: "length (nc_hdr m) = 8208" using nc_holds_parts(3) [OF m(2)] m(3) by simp
  obtain b where b: "put_u32 (nc_hdr m) (int 0) (ucast (nc_cap m)) = Some b"
    using u32.store_in [of 0 "nc_hdr m"] l by auto
  have "nc_cap m = word_of_nat 8208"
    using m(3) by (simp add: word_unat_eq_iff)
  then have c: "unat (ucast (nc_cap m) :: 32 word) = 8208"
    by (simp add: unsigned_ucast_eq)
  have "nc_ready (m\<lparr>nc_hdr := b\<rparr>) 8208"
    using nc_holds_initialised [OF m(2)] b u32.load_stored [OF b] u32.store_length [OF b] l c
    by (auto simp: nc_ready_def put_u32_def intro: c_write_initialised)
  then show ?thesis using m(1) b by (auto simp: nlmsg_alloc_reserve_def)
qed

text \<open>With memory available the frame of an operation runs its action on two fresh messages.\<close>

lemma with_messages_runs:
  obtains m a where "nc_holds m (replicate 12 0) []" "unat (nc_cap m) = 8208" "nc_ready a 8208"
    "with_messages kn (\<lambda>_. True) h w act = do {
       (err, w) \<leftarrow> act m a (w\<lparr>w_live := Suc (Suc (w_live w))\<rparr>);
       Some (err, netdev_out kn h (Some m) (Some a) w)
     }"
proof -
  obtain m where m: "nlmsg_alloc_nc (\<lambda>_. True) 8192 = Some (Some m)" "nc_holds m (replicate 12 0) []"
    "unat (nc_cap m) = 8208"
    using nlmsg_alloc_nc_holds [of 8192] by (auto simp: up4_def)
  obtain a where a: "nlmsg_alloc_reserve (\<lambda>_. True) 8192 = Some (Some a)" "nc_ready a 8208"
    using nlmsg_alloc_reserve_ready by auto
  show ?thesis
    by (rule that [OF m(2,3) a(2)]) (simp add: with_messages_def msg_new_def m(1) a(1))
qed

lemma netdev_out_releases:
  assumes "netlink_open kn protocol w = (0, h, w1)" "w_fds w2 = w_fds w1" "w_live w2 = Suc (Suc (w_live w1))"
  shows "same_holdings w (netdev_out kn h (Some m) (Some a) w2)"
    "w_sent (netdev_out kn h (Some m) (Some a) w2) = w_sent w2"
  using netlink_open_frame [OF assms(1)] netlink_open_ok_fd [OF assms(1)] assms(2,3)
  by (simp_all add: netdev_out_def netlink_close_def sys_close_def nlmsg_free_nc_def same_holdings_def)

lemma put_patch_u8:
  assumes "nc_holds m h (X @ old @ Y)" "length old = 1" "p = int (16 + length X)"
  shows "\<exists>b. put_u8 (nc_hdr m) p v = Some b \<and> nc_holds (m\<lparr>nc_hdr := b\<rparr>) h (X @ le_bytes 1 (unat v) @ Y)"
  using nc_patch_body [OF assms(1), of "le_bytes 1 (unat v)"] assms(2,3) by (simp add: put_u8_def)

lemma put_patch_u32:
  assumes "nc_holds m h (X @ old @ Y)" "length old = 4" "p = int (16 + length X)"
  shows "\<exists>b. put_u32 (nc_hdr m) p v = Some b \<and> nc_holds (m\<lparr>nc_hdr := b\<rparr>) h (X @ le_bytes 4 (unat v) @ Y)"
  using nc_patch_body [OF assms(1), of "le_bytes 4 (unat v)"] assms(2,3) by (simp add: put_u32_def)

lemma get_body_u32:
  assumes "nc_holds m h (X @ le_bytes 4 (unat v) @ Y)" "p = int (16 + length X)"
  shows "get_u32 (nc_hdr m) p = Some v"
  using nc_holds_parts(8) [OF assms(1)] assms(2) u32.load_bytes [of "nc_hdr m" "16 + length X" v]
  by (simp add: bytes_at_append)

definition kind_bytes :: "16 word \<Rightarrow> 16 word \<Rightarrow> byte list" where
  "kind_bytes type flags = le_bytes 2 (unat type) @ le_bytes 2 (unat flags) @ replicate 8 0"

lemma set_kind_holds:
  assumes "nc_holds m (replicate 12 0) body"
  shows "\<exists>b. set_kind m flags type = Some (m\<lparr>nc_hdr := b\<rparr>)
    \<and> nc_holds (m\<lparr>nc_hdr := b\<rparr>) (kind_bytes type flags) body"
proof -
  have z: "replicate 12 (0 :: byte) = replicate 2 0 @ replicate 2 0 @ replicate 8 0"
    by (simp flip: replicate_add)
  obtain b1 where b1: "put_u16 (nc_hdr m) 6 flags = Some b1"
    "nc_holds (m\<lparr>nc_hdr := b1\<rparr>) (replicate 2 0 @ le_bytes 2 (unat flags) @ replicate 8 0) body"
    using nc_patch_header [OF assms [unfolded z], of "le_bytes 2 (unat flags)"] by (auto simp: put_u16_def)
  obtain b2 where "put_u16 b1 4 type = Some b2"
    "nc_holds (m\<lparr>nc_hdr := b2\<rparr>) (kind_bytes type flags) body"
    using nc_patch_header [of "m\<lparr>nc_hdr := b1\<rparr>" "[]" "replicate 2 0"
        "le_bytes 2 (unat flags) @ replicate 8 0" body "le_bytes 2 (unat type)"] b1(2)
    by (auto simp: put_u16_def kind_bytes_def)
  then show ?thesis using b1(1) by (auto simp: set_kind_def)
qed

lemma nla_put_string_nc_appends:
  assumes m: "nc_holds m h body" and n: "length s < 65531"
    and room: "16 + length body + (4 + up4 (length s + 1)) \<le> unat (nc_cap m)"
  shows "\<exists>b. nla_put_string_nc m t s = Some (0, m\<lparr>nc_hdr := b\<rparr>)
    \<and> nc_holds (m\<lparr>nc_hdr := b\<rparr>) h (body @ attr_bytes (word_of_int t) (s @ [0]))"
  using nla_put_nc_appends [OF m, of "s @ [0]" t] n room
  by (simp add: nla_put_string_nc_def add.commute)

section \<open>The requests\<close>

text \<open>The bytes of a link request: \<open>struct ifinfomsg\<close> and what follows it.\<close>

definition ifinfo_bytes :: "32 word \<Rightarrow> 32 word \<Rightarrow> 32 word \<Rightarrow> byte list" where
  "ifinfo_bytes index flags change =
     replicate 4 0 @ le_bytes 4 (unat index) @ le_bytes 4 (unat flags) @ le_bytes 4 (unat change)"

lemma le_bytes_0: "le_bytes n 0 = replicate n 0"
  by (induction n) auto

lemma ifinfo_zero: "ifinfo_bytes 0 0 0 = replicate 16 0"
  by (simp add: ifinfo_bytes_def le_bytes_0 flip: replicate_add)

definition name_attr :: "byte list \<Rightarrow> byte list" where
  "name_attr s = attr_bytes 3 (s @ [0])"

text \<open>The peer, the data nest and the link information of a pair of virtual interfaces.\<close>

definition veth_peer :: "byte list \<Rightarrow> byte list" where
  "veth_peer name2 = replicate 16 0 @ name_attr name2"

definition veth_info :: "byte list \<Rightarrow> byte list" where
  "veth_info name2 = attr_bytes 1 [118, 101, 116, 104, 0] @ attr_bytes 2 (attr_bytes 1 (veth_peer name2))"

definition veth_request :: "byte list \<Rightarrow> byte list \<Rightarrow> byte list" where
  "veth_request name1 name2 = msg_text (kind_bytes RTM_NEWLINK 0x605)
     (replicate 16 0 @ attr_bytes 18 (veth_info name2) @ name_attr name1)"

lemma name_room: "length s < IFNAMSIZ \<Longrightarrow> up4 (length s + 1) \<le> 16"
  unfolding up4_def by presburger

lemma attr_bytes_dvd: "4 dvd length (attr_bytes t d)"
  by (simp only: length_attr_bytes dvd_add_triv_left_iff up4_dvd)

lemma length_veth_parts:
  assumes "length name2 < IFNAMSIZ"
  shows "length (name_attr name2) = 4 + up4 (length name2 + 1)" "4 dvd length (name_attr name2)"
    "length (veth_peer name2) = 20 + up4 (length name2 + 1)" "4 dvd length (veth_peer name2)"
    "up4 (length (veth_peer name2)) = 20 + up4 (length name2 + 1)"
    "length (veth_info name2) = 40 + up4 (length name2 + 1)" "4 dvd length (veth_info name2)"
    "up4 (length (veth_info name2)) = 40 + up4 (length name2 + 1)"
proof -
  show 1: "length (name_attr name2) = 4 + up4 (length name2 + 1)" by (simp add: name_attr_def)
  show "4 dvd length (name_attr name2)" unfolding 1 by (simp only: dvd_add_triv_left_iff up4_dvd)
  show 2: "length (veth_peer name2) = 20 + up4 (length name2 + 1)" by (simp add: veth_peer_def 1)
  have d20: "(4 :: nat) dvd 20" "(4 :: nat) dvd 40" by simp_all
  show 3: "4 dvd length (veth_peer name2)" unfolding 2 by (intro dvd_add d20 up4_dvd)
  show 4: "up4 (length (veth_peer name2)) = 20 + up4 (length name2 + 1)"
    using up4_facts(4) [OF 3] 2 by simp
  have "up4 (4 + up4 (length (veth_peer name2))) = 4 + up4 (length (veth_peer name2))"
    by (rule up4_facts(4)) (simp only: dvd_add_triv_left_iff up4_dvd)
  moreover have up_kind: "up4 (length [118, 101, 116, 104, 0 :: byte]) = 8" by (simp add: up4_def)
  ultimately show 5: "length (veth_info name2) = 40 + up4 (length name2 + 1)"
    using 4 up_kind by (simp add: veth_info_def)
  show 6: "4 dvd length (veth_info name2)" unfolding 5 by (intro dvd_add d20 up4_dvd)
  show "up4 (length (veth_info name2)) = 40 + up4 (length name2 + 1)"
    using up4_facts(4) [OF 6] 5 by simp
qed

lemma attr_types [simp]:
  "(word_of_int IFLA_IFNAME :: 16 word) = 3" "(word_of_int IFLA_LINKINFO :: 16 word) = 18"
  "(word_of_int IFLA_INFO_KIND :: 16 word) = 1" "(word_of_int IFLA_INFO_DATA :: 16 word) = 2"
  by simp_all

text \<open>The steps of \<open>veth_message\<close> up to the innermost name, with the body after each.\<close>

lemma veth_message_opens:
  assumes m: "nc_holds m (replicate 12 0) []" "unat (nc_cap m) = 8208" and n2: "length name2 < IFNAMSIZ"
  defines "B0 \<equiv> replicate 16 0"
  defines "B1 \<equiv> B0 @ attr_bytes 18 []"
  defines "B2 \<equiv> B1 @ attr_bytes 1 [118, 101, 116, 104, 0]"
  defines "B3 \<equiv> B2 @ attr_bytes 2 []"
  defines "B4 \<equiv> B3 @ attr_bytes 1 []"
  shows "\<exists>m1 m2 b m3 m4 m5 m6 m7 m8.
      set_kind m (NLM_F_REQUEST OR NLM_F_CREATE OR NLM_F_EXCL OR NLM_F_ACK) RTM_NEWLINK = Some m1
    \<and> nlmsg_reserve_nc m1 16 = Some (Some 16, m2) \<and> put_u8 (nc_hdr m2) 16 0 = Some b
    \<and> nla_begin_nested (m2\<lparr>nc_hdr := b\<rparr>) IFLA_LINKINFO = Some (Some (int (16 + length B0)), m3)
    \<and> nla_put_string_nc m3 IFLA_INFO_KIND [118, 101, 116, 104] = Some (0, m4)
    \<and> nla_begin_nested m4 IFLA_INFO_DATA = Some (Some (int (16 + length B2)), m5)
    \<and> nla_begin_nested m5 VETH_INFO_PEER = Some (Some (int (16 + length B3)), m6)
    \<and> nlmsg_reserve_nc m6 16 = Some (Some (int (16 + length B4)), m7)
    \<and> nla_put_string_nc m7 IFLA_IFNAME name2 = Some (0, m8)
    \<and> nc_holds m8 (kind_bytes RTM_NEWLINK 0x605) (B4 @ veth_peer name2) \<and> unat (nc_cap m8) = 8208"
proof -
  have u16: "up4 16 = 16" "up4 (Suc (Suc (Suc (Suc (Suc 0))))) = 8" by (simp_all add: up4_def)
  have fl: "NLM_F_REQUEST OR NLM_F_CREATE OR NLM_F_EXCL OR NLM_F_ACK = (0x605 :: 16 word)" by simp
  note nm = name_room [OF n2]
  obtain b1 where 1: "set_kind m 0x605 RTM_NEWLINK = Some (m\<lparr>nc_hdr := b1\<rparr>)"
    "nc_holds (m\<lparr>nc_hdr := b1\<rparr>) (kind_bytes RTM_NEWLINK 0x605) []"
    using set_kind_holds [OF m(1)] by blast
  obtain b2 where 2: "nlmsg_reserve_nc (m\<lparr>nc_hdr := b1\<rparr>) 16 = Some (Some 16, m\<lparr>nc_hdr := b2\<rparr>)"
    "nc_holds (m\<lparr>nc_hdr := b2\<rparr>) (kind_bytes RTM_NEWLINK 0x605) B0"
    using nlmsg_reserve_nc_appends [OF 1(2), of 16] m(2) u16 by (auto simp: B0_def)
  have "B0 = [] @ replicate 1 0 @ replicate 15 0" 
    unfolding B0_def append_Nil replicate_add [symmetric] by simp
  then obtain b where 3: "put_u8 b2 16 0 = Some b" "nc_holds (m\<lparr>nc_hdr := b\<rparr>) (kind_bytes RTM_NEWLINK 0x605) B0"
    using put_patch_u8 [of "m\<lparr>nc_hdr := b2\<rparr>" _ "[]" "replicate 1 0" "replicate 15 0" 16 0] 2(2)
    by (auto simp: le_bytes_0)
  obtain b3 where 4: "nla_begin_nested (m\<lparr>nc_hdr := b\<rparr>) IFLA_LINKINFO
      = Some (Some (int (16 + length B0)), m\<lparr>nc_hdr := b3\<rparr>)"
    "nc_holds (m\<lparr>nc_hdr := b3\<rparr>) (kind_bytes RTM_NEWLINK 0x605) B1"
    using nla_begin_nested_appends [OF 3(2), of IFLA_LINKINFO] m(2) by (auto simp: B0_def B1_def)
  obtain b4 where 5: "nla_put_string_nc (m\<lparr>nc_hdr := b3\<rparr>) IFLA_INFO_KIND [118, 101, 116, 104] = Some (0, m\<lparr>nc_hdr := b4\<rparr>)"
    "nc_holds (m\<lparr>nc_hdr := b4\<rparr>) (kind_bytes RTM_NEWLINK 0x605) B2"
    using nla_put_string_nc_appends [OF 4(2), of "[118, 101, 116, 104]" IFLA_INFO_KIND] m(2) u16
    by (auto simp: B0_def B1_def B2_def)
  obtain b5 where 6: "nla_begin_nested (m\<lparr>nc_hdr := b4\<rparr>) IFLA_INFO_DATA
      = Some (Some (int (16 + length B2)), m\<lparr>nc_hdr := b5\<rparr>)"
    "nc_holds (m\<lparr>nc_hdr := b5\<rparr>) (kind_bytes RTM_NEWLINK 0x605) B3"
    using nla_begin_nested_appends [OF 5(2), of IFLA_INFO_DATA] m(2) u16 by (auto simp: B0_def B1_def B2_def B3_def)
  obtain b6 where 7: "nla_begin_nested (m\<lparr>nc_hdr := b5\<rparr>) VETH_INFO_PEER
      = Some (Some (int (16 + length B3)), m\<lparr>nc_hdr := b6\<rparr>)"
    "nc_holds (m\<lparr>nc_hdr := b6\<rparr>) (kind_bytes RTM_NEWLINK 0x605) B4"
    using nla_begin_nested_appends [OF 6(2), of VETH_INFO_PEER] m(2) u16
    by (auto simp: B0_def B1_def B2_def B3_def B4_def)
  obtain b7 where 8: "nlmsg_reserve_nc (m\<lparr>nc_hdr := b6\<rparr>) 16 = Some (Some (int (16 + length B4)), m\<lparr>nc_hdr := b7\<rparr>)"
    "nc_holds (m\<lparr>nc_hdr := b7\<rparr>) (kind_bytes RTM_NEWLINK 0x605) (B4 @ replicate 16 0)"
    using nlmsg_reserve_nc_appends [OF 7(2), of 16] m(2) u16
    by (auto simp: B0_def B1_def B2_def B3_def B4_def)
  obtain b8 where 9: "nla_put_string_nc (m\<lparr>nc_hdr := b7\<rparr>) IFLA_IFNAME name2 = Some (0, m\<lparr>nc_hdr := b8\<rparr>)"
    "nc_holds (m\<lparr>nc_hdr := b8\<rparr>) (kind_bytes RTM_NEWLINK 0x605) (B4 @ veth_peer name2)"
    using nla_put_string_nc_appends [OF 8(2), of name2 IFLA_IFNAME] m(2) u16 n2 nm
    by (auto simp: B0_def B1_def B2_def B3_def B4_def veth_peer_def name_attr_def)
  show ?thesis
    unfolding fl using 1 2 3 4 5 6 7 8 9 m(2) by force
qed

lemma veth_closes:
  assumes m: "nc_holds m h (replicate 16 0 @ attr_bytes 18 [] @ attr_bytes 1 [118, 101, 116, 104, 0]
      @ attr_bytes 2 [] @ attr_bytes 1 [] @ veth_peer name2)" "unat (nc_cap m) = 8208"
    and n: "length name1 < IFNAMSIZ" "length name2 < IFNAMSIZ"
  shows "\<exists>m1 m2 m3 m4. nla_end_nested m 52 = Some m1 \<and> nla_end_nested m1 48 = Some m2
    \<and> nla_end_nested m2 32 = Some m3 \<and> nla_put_string_nc m3 IFLA_IFNAME name1 = Some (0, m4)
    \<and> nc_holds m4 h (replicate 16 0 @ attr_bytes 18 (veth_info name2) @ name_attr name1)"
proof -
  note L = length_veth_parts [OF n(2)] and nm = name_room [OF n(1)] name_room [OF n(2)]
  let ?B0 = "replicate 16 0 :: byte list" and ?K = "attr_bytes 1 [118, 101, 116, 104, 0]"
  let ?P = "attr_bytes 1 (veth_peer name2)"
  have len: "length (?B0 @ attr_bytes 18 [] @ ?K) = 32"
    "length (?B0 @ attr_bytes 18 [] @ ?K @ attr_bytes 2 []) = 36"
    by (simp_all add: up4_def)
  have P: "length ?P = 24 + up4 (length name2 + 1)" "4 dvd length ?P"
    using L(5) attr_bytes_dvd by simp_all
  obtain b1 where 1: "nla_end_nested m 52 = Some (m\<lparr>nc_hdr := b1\<rparr>)"
    "nc_holds (m\<lparr>nc_hdr := b1\<rparr>) h ((?B0 @ attr_bytes 18 [] @ ?K @ attr_bytes 2 []) @ ?P)"
    using nla_end_nested_closes [of m h "?B0 @ attr_bytes 18 [] @ ?K @ attr_bytes 2 []" 1 "veth_peer name2"]
      m(1) L(3,4) nm len(2) by auto
  obtain b2 where 2: "nla_end_nested (m\<lparr>nc_hdr := b1\<rparr>) 48 = Some (m\<lparr>nc_hdr := b2\<rparr>)"
    "nc_holds (m\<lparr>nc_hdr := b2\<rparr>) h ((?B0 @ attr_bytes 18 [] @ ?K) @ attr_bytes 2 ?P)"
    using nla_end_nested_closes [of "m\<lparr>nc_hdr := b1\<rparr>" h "?B0 @ attr_bytes 18 [] @ ?K" 2 ?P]
      1(2) P nm len(1) by auto
  obtain b3 where 3: "nla_end_nested (m\<lparr>nc_hdr := b2\<rparr>) 32 = Some (m\<lparr>nc_hdr := b3\<rparr>)"
    "nc_holds (m\<lparr>nc_hdr := b3\<rparr>) h (?B0 @ attr_bytes 18 (veth_info name2))"
    using nla_end_nested_closes [of "m\<lparr>nc_hdr := b2\<rparr>" h ?B0 18 "veth_info name2"] 2(2) L(6,7) nm
    by (auto simp: veth_info_def)
  have "16 + length (?B0 @ attr_bytes 18 (veth_info name2)) + (4 + up4 (length name1 + 1)) \<le> unat (nc_cap m)"
    using L(8) nm m(2) by simp
  then show ?thesis
    using nla_put_string_nc_appends [OF 3(2), of name1 IFLA_IFNAME] 1(1) 2(1) 3(1) n(1)
    by (auto simp: name_attr_def)
qed

lemma veth_message_holds:
  assumes m: "nc_holds m (replicate 12 0) []" "unat (nc_cap m) = 8208"
    and n: "length name1 < IFNAMSIZ" "length name2 < IFNAMSIZ"
  shows "\<exists>m'. veth_message m name1 name2 = Some (Inr m') \<and> nc_holds m' (kind_bytes RTM_NEWLINK 0x605)
      (replicate 16 0 @ attr_bytes 18 (veth_info name2) @ name_attr name1)"
proof -
  let ?B2 = "(replicate 16 0 @ attr_bytes 18 []) @ attr_bytes 1 [118, 101, 116, 104, 0]"
  have len: "16 + length (replicate 16 (0 :: byte)) = 32" "16 + length ?B2 = 48"
    "16 + length (?B2 @ attr_bytes 2 []) = 52"
    by (simp_all add: up4_def)
  obtain m1 m2 b m3 m4 m5 m6 m7 m8 p where o:
    "set_kind m (NLM_F_REQUEST OR NLM_F_CREATE OR NLM_F_EXCL OR NLM_F_ACK) RTM_NEWLINK = Some m1"
    "nlmsg_reserve_nc m1 16 = Some (Some 16, m2)" "put_u8 (nc_hdr m2) 16 0 = Some b"
    "nla_begin_nested (m2\<lparr>nc_hdr := b\<rparr>) IFLA_LINKINFO = Some (Some 32, m3)"
    "nla_put_string_nc m3 IFLA_INFO_KIND [118, 101, 116, 104] = Some (0, m4)"
    "nla_begin_nested m4 IFLA_INFO_DATA = Some (Some 48, m5)"
    "nla_begin_nested m5 VETH_INFO_PEER = Some (Some 52, m6)"
    "nlmsg_reserve_nc m6 16 = Some (Some p, m7)"
    "nla_put_string_nc m7 IFLA_IFNAME name2 = Some (0, m8)"
    "nc_holds m8 (kind_bytes RTM_NEWLINK 0x605) (((?B2 @ attr_bytes 2 []) @ attr_bytes 1 []) @ veth_peer name2)"
    "unat (nc_cap m8) = 8208"
    using veth_message_opens [OF m n(2)] unfolding len of_nat_numeral by blast
  obtain m9 m10 m11 m12 where c: "nla_end_nested m8 52 = Some m9" "nla_end_nested m9 48 = Some m10"
    "nla_end_nested m10 32 = Some m11" "nla_put_string_nc m11 IFLA_IFNAME name1 = Some (0, m12)"
    "nc_holds m12 (kind_bytes RTM_NEWLINK 0x605)
      (replicate 16 0 @ attr_bytes 18 (veth_info name2) @ name_attr name1)"
    using veth_closes [OF o(10) [unfolded append_assoc] o(11) n] by blast
  show ?thesis
    using c(5) by (simp only: veth_message_def o(1-9) c(1-4) bind.bind_lunit prod.case option.case
        refl if_True if_False not_True_eq_False option.distinct) simp
qed

text \<open>The frame of an operation whose action sends one request.\<close>

lemma with_messages_sends:
  assumes op: "netlink_open kn protocol w = (0, h, w1)"
    and act: "\<And>m a. nc_holds m (replicate 12 0) [] \<Longrightarrow> unat (nc_cap m) = 8208 \<Longrightarrow> nc_ready a 8208 \<Longrightarrow>
      \<exists>err w'. act m a (w1\<lparr>w_live := Suc (Suc (w_live w1))\<rparr>) = Some (err, w')
        \<and> w_sent w' = w_sent w1 @ bss \<and> same_holdings (w1\<lparr>w_live := Suc (Suc (w_live w1))\<rparr>) w'"
  shows "\<exists>err w'. with_messages kn (\<lambda>_. True) h w1 act = Some (err, w')
    \<and> w_sent w' = w_sent w @ bss \<and> same_holdings w w'"
proof -
  obtain m a where ma: "nc_holds m (replicate 12 0) []" "unat (nc_cap m) = 8208" "nc_ready a 8208"
    and run: "with_messages kn (\<lambda>_. True) h w1 act = do {
       (err, w) \<leftarrow> act m a (w1\<lparr>w_live := Suc (Suc (w_live w1))\<rparr>);
       Some (err, netdev_out kn h (Some m) (Some a) w) }"
    by (rule with_messages_runs)
  obtain err w' where "act m a (w1\<lparr>w_live := Suc (Suc (w_live w1))\<rparr>) = Some (err, w')"
    "w_sent w' = w_sent w1 @ bss" "same_holdings (w1\<lparr>w_live := Suc (Suc (w_live w1))\<rparr>) w'"
    using act [OF ma] by blast
  then show ?thesis
    using run netdev_out_releases [OF op, of w' m a] netlink_open_frame(2) [OF op]
    by (auto simp: same_holdings_def)
qed

lemma transaction_sends:
  assumes "nc_holds m h body" "nc_ready a 8208" "\<And>k. answers kn (nh_fd nh) 8208 k"
  shows "\<exists>r a' w'. netlink_transaction kn nh m a w = Some (r, a', w')
    \<and> w_sent w' = w_sent w @ [msg_text h body] \<and> same_holdings w w'"
  using nc_holds_sends [OF assms(1)] netlink_transaction_returns [OF assms(2,3)] by blast

lemma network_veth_create_sends:
  assumes "netlink_open kn NETLINK_ROUTE w = (0, h, w1)"
    and "length name1 \<noteq> 1" "length name1 < IFNAMSIZ" "length name2 \<noteq> 1" "length name2 < IFNAMSIZ"
    and "\<And>k. answers kn (nh_fd h) 8208 k"
  shows "\<exists>err w'. network_veth_create kn (\<lambda>_. True) name1 name2 w = Some (err, w')
    \<and> w_sent w' = w_sent w @ [veth_request name1 name2] \<and> same_holdings w w'"
proof -
  have "\<exists>err w'. with_messages kn (\<lambda>_. True) h w1 (\<lambda>m a w. do {
        r \<leftarrow> veth_message m name1 name2;
        case r of Inl err \<Rightarrow> Some (err, w)
        | Inr m \<Rightarrow> do { (err, a, w) \<leftarrow> netlink_transaction kn h m a w; Some (err, w) }
      }) = Some (err, w')
    \<and> w_sent w' = w_sent w @ [veth_request name1 name2] \<and> same_holdings w w'"
  proof (rule with_messages_sends [OF assms(1)])
    fix m a
    assume m: "nc_holds m (replicate 12 0) []" "unat (nc_cap m) = 8208" and a: "nc_ready a 8208"
    let ?w = "w1\<lparr>w_live := Suc (Suc (w_live w1))\<rparr>"
    obtain m' where m': "veth_message m name1 name2 = Some (Inr m')"
      "nc_holds m' (kind_bytes RTM_NEWLINK 0x605)
         (replicate 16 0 @ attr_bytes 18 (veth_info name2) @ name_attr name1)"
      using veth_message_holds [OF m assms(3,5)] by blast
    obtain r a' w' where "netlink_transaction kn h m' a ?w = Some (r, a', w')"
      "w_sent w' = w_sent ?w @ [veth_request name1 name2]" "same_holdings ?w w'"
      using transaction_sends [OF m'(2) a assms(6), of ?w] unfolding veth_request_def by blast
    then show "\<exists>err w'. (do {
        r \<leftarrow> veth_message m name1 name2;
        case r of Inl err \<Rightarrow> Some (err, ?w)
        | Inr m \<Rightarrow> do { (err, a, w) \<leftarrow> netlink_transaction kn h m a ?w; Some (err, w) }
      }) = Some (err, w') \<and> w_sent w' = w_sent w1 @ [veth_request name1 name2] \<and> same_holdings ?w w'"
      using m'(1) by simp
  qed
  then show ?thesis
    using assms(1-5) by (simp add: network_veth_create_def)
qed

section \<open>Properties\<close>

text \<open>
  C20. Creating a pair of virtual interfaces sends exactly one request, and it is the right one.
  When the socket opens, memory is available, both names have an accepted length and the kernel
  does not interrupt \<open>recvmsg\<close> for ever, \<open>network_veth_create\<close> returns; the bytes
  sent are the \<open>RTM_NEWLINK\<close> request with the kind \<open>veth\<close>, the second name inside the
  peer nest inside the data nest inside the link information, and the first name at the top;
  afterwards the process holds the same descriptors and messages as before.
\<close>

theorem network_veth_create_request:
  assumes "netlink_open kn NETLINK_ROUTE w = (0, h, w1)"
    and "length name1 \<noteq> 1" "length name1 < IFNAMSIZ" "length name2 \<noteq> 1" "length name2 < IFNAMSIZ"
    and "\<And>k. answers kn (nh_fd h) 8208 k"
  shows "\<exists>err w'. network_veth_create kn (\<lambda>_. True) name1 name2 w = Some (err, w')
    \<and> w_sent w' = w_sent w @ [veth_request name1 name2] \<and> same_holdings w w'"
  by (rule network_veth_create_sends [OF assms])

text \<open>A kernel that grants everything and acknowledges every request.\<close>

definition ack_bytes :: "byte list" where
  "ack_bytes = le_bytes 4 36 @ le_bytes 2 2 @ replicate 30 0"

definition sample_kern :: "unit kern" where
  "sample_kern = \<lparr>
     k_socket = \<lambda>_ _ _ k. (5, k), k_setsockopt = \<lambda>_ _ _ k. (0, k), k_bind = \<lambda>_ _ k. (0, k),
     k_getsockname = \<lambda>_ k. ((0, zero_sockaddr\<lparr>nl_family := 16\<rparr>, 12), k), k_time = \<lambda>k. (0, k),
     k_sendmsg = \<lambda>_ bs k. (int (length bs), k), k_recvmsg = \<lambda>_ _ k. (Inr (ack_bytes, False), k),
     k_close = \<lambda>_ k. k, k_if_nametoindex = \<lambda>_ k. (7, k), k_ioctl = \<lambda>_ _ k. (0, k)\<rparr>"

definition sample_world :: "unit world" where
  "sample_world = \<lparr>w_k = (), w_fds = [], w_live = 0, w_sent = [], w_br_fd = -1\<rparr>"

definition sample_handler :: nl_handler where
  "sample_handler = \<lparr>nh_fd = 5, nh_seq = 0, nh_local = zero_sockaddr\<lparr>nl_family := 16\<rparr>, nh_peer = zero_sockaddr\<rparr>"

lemma sample_open:
  "netlink_open sample_kern 0 sample_world = (0, sample_handler, sample_world\<lparr>w_fds := [5]\<rparr>)"
  by (simp add: netlink_open_def sample_kern_def sample_world_def sample_handler_def sys_call_def
      sys_socket_def zero_sockaddr_def)

lemma sample_answers: "answers sample_kern fd n k"
  unfolding answers_def by (rule exI [of _ 0]) (simp add: sample_kern_def)

theorem network_veth_create_request_witness:
  "\<exists>err w'. network_veth_create sample_kern (\<lambda>_. True) [101, 95, 105] [118, 95, 105] sample_world = Some (err, w')
    \<and> w_sent w' = w_sent sample_world @ [veth_request [101, 95, 105] [118, 95, 105]]
    \<and> same_holdings sample_world w'"
  by (rule network_veth_create_request [OF sample_open]) (simp_all add: sample_answers)

lemma ifinfo_fields:
  assumes m: "nc_holds m h (replicate 16 0)"
  shows "\<exists>b1 b2 b3 b4. put_u8 (nc_hdr m) 16 0 = Some b1 \<and> put_u32 b1 20 i = Some b2
    \<and> get_u32 b2 28 = Some 0 \<and> put_u32 b2 28 c = Some b3
    \<and> get_u32 b3 24 = Some 0 \<and> put_u32 b3 24 f = Some b4
    \<and> nc_holds (m\<lparr>nc_hdr := b2\<rparr>) h (ifinfo_bytes i 0 0)
    \<and> nc_holds (m\<lparr>nc_hdr := b4\<rparr>) h (ifinfo_bytes i f c)"
proof -
  let ?Z = "replicate 4 0 :: byte list"
  have z: "replicate 16 (0 :: byte) = [] @ replicate 1 0 @ replicate 15 0"
    "[] @ le_bytes 1 (unat (0 :: 8 word)) @ replicate 15 0 = ?Z @ ?Z @ ?Z @ ?Z"
    by (simp_all only: append_Nil le_bytes_0 unat_0 replicate_add [symmetric]) simp_all
  obtain b1 where 1: "put_u8 (nc_hdr m) 16 0 = Some b1" "nc_holds (m\<lparr>nc_hdr := b1\<rparr>) h (?Z @ ?Z @ ?Z @ ?Z)"
    using put_patch_u8 [OF m [unfolded z(1)], of 16 0] unfolding z(2) by auto
  obtain b2 where 2: "put_u32 b1 20 i = Some b2"
    "nc_holds (m\<lparr>nc_hdr := b2\<rparr>) h (?Z @ le_bytes 4 (unat i) @ ?Z @ ?Z)"
    using put_patch_u32 [OF 1(2), of 20 i] by auto
  have r1: "nc_holds (m\<lparr>nc_hdr := b2\<rparr>) h ((?Z @ le_bytes 4 (unat i) @ ?Z) @ le_bytes 4 (unat (0 :: 32 word)) @ [])"
    using 2(2) by (simp add: le_bytes_0)
  obtain b3 where 3: "put_u32 b2 28 c = Some b3"
    "nc_holds (m\<lparr>nc_hdr := b3\<rparr>) h ((?Z @ le_bytes 4 (unat i) @ ?Z) @ le_bytes 4 (unat c) @ [])"
    using put_patch_u32 [OF r1, of 28 c] by auto
  have r2: "nc_holds (m\<lparr>nc_hdr := b3\<rparr>) h
      ((?Z @ le_bytes 4 (unat i)) @ le_bytes 4 (unat (0 :: 32 word)) @ le_bytes 4 (unat c))"
    using 3(2) by (simp add: le_bytes_0)
  obtain b4 where 4: "put_u32 b3 24 f = Some b4"
    "nc_holds (m\<lparr>nc_hdr := b4\<rparr>) h ((?Z @ le_bytes 4 (unat i)) @ le_bytes 4 (unat f) @ le_bytes 4 (unat c))"
    using put_patch_u32 [OF r2, of 24 f] by auto
  show ?thesis
    using 1(1) 2 3(1) 4 get_body_u32 [OF r1, of 28] get_body_u32 [OF r2, of 24]
    by (auto simp: ifinfo_bytes_def le_bytes_0)
qed

definition link_request :: "16 word \<Rightarrow> byte list \<Rightarrow> byte list" where
  "link_request type ifinfo = msg_text (kind_bytes type 5) ifinfo"

lemma reserve_first:
  assumes "nc_holds m (replicate 12 0) []" "unat (nc_cap m) = 8208" "n \<le> 16"
  obtains b1 b2 where "set_kind m flags type = Some (m\<lparr>nc_hdr := b1\<rparr>)"
    "nlmsg_reserve_nc (m\<lparr>nc_hdr := b1\<rparr>) (word_of_nat n) = Some (Some 16, m\<lparr>nc_hdr := b2\<rparr>)"
    "nc_holds (m\<lparr>nc_hdr := b2\<rparr>) (kind_bytes type flags) (replicate (up4 n) 0)"
proof -
  obtain b1 where 1: "set_kind m flags type = Some (m\<lparr>nc_hdr := b1\<rparr>)"
    "nc_holds (m\<lparr>nc_hdr := b1\<rparr>) (kind_bytes type flags) []"
    using set_kind_holds [OF assms(1)] by blast
  have "up4 n \<le> 19" using up4_facts(2) [of n] assms(3) by simp
  then show ?thesis
    using that 1 nlmsg_reserve_nc_appends [OF 1(2), of n] assms(2) by auto
qed

text \<open>
  Bringing an interface up or down sends one \<open>RTM_NEWLINK\<close> request for its index with
  the change mask \<open>IFF_UP\<close> and the given flags, and gives back the socket and the
  messages.
\<close>

theorem netdev_set_flag_request:
  assumes "netlink_open kn NETLINK_ROUTE w = (0, h, w1)"
    and "length name \<noteq> 1" "length name < IFNAMSIZ"
    and "fst (k_if_nametoindex kn name (w_k w1)) = index" "index \<noteq> 0"
    and "\<And>k. answers kn (nh_fd h) 8208 k"
  shows "\<exists>err w'. netdev_set_flag kn (\<lambda>_. True) name flag w = Some (err, w')
    \<and> w_sent w' = w_sent w @ [link_request RTM_NEWLINK (ifinfo_bytes (word_of_int index) (word_of_int flag) 1)]
    \<and> same_holdings w w'"
proof -
  define act where "act = (\<lambda>m a w. let (index, w) = sys_call (k_if_nametoindex kn name) w
        in if index = 0 then Some (- EINVAL, w)
        else do {
          m \<leftarrow> set_kind m (NLM_F_REQUEST OR NLM_F_ACK) RTM_NEWLINK;
          (ifi, m) \<leftarrow> nlmsg_reserve_nc m 16;
          p \<leftarrow> ifi;
          b \<leftarrow> put_u8 (nc_hdr m) p 0;
          b \<leftarrow> put_u32 b (p + 4) (word_of_int index);
          c \<leftarrow> get_u32 b (p + 12);
          b \<leftarrow> put_u32 b (p + 12) (c OR word_of_int IFF_UP);
          f \<leftarrow> get_u32 b (p + 8);
          b \<leftarrow> put_u32 b (p + 8) (f OR word_of_int flag);
          (err, a, w) \<leftarrow> netlink_transaction kn h (m\<lparr>nc_hdr := b\<rparr>) a w;
          Some (err, w)
        })"
  let ?req = "link_request RTM_NEWLINK (ifinfo_bytes (word_of_int index) (word_of_int flag) 1)"
  let ?w = "w1\<lparr>w_live := Suc (Suc (w_live w1))\<rparr>"
  have "\<exists>err w'. act m a ?w = Some (err, w') \<and> w_sent w' = w_sent w1 @ [?req] \<and> same_holdings ?w w'"
    if m: "nc_holds m (replicate 12 0) []" "unat (nc_cap m) = 8208" and a: "nc_ready a 8208" for m a
  proof -
    obtain k where ix: "k_if_nametoindex kn name (w_k w1) = (index, k)" using assms(4) by (metis prod.collapse)
    let ?w2 = "?w\<lparr>w_k := k\<rparr>"
    obtain c1 c2 where c: "set_kind m 5 RTM_NEWLINK = Some (m\<lparr>nc_hdr := c1\<rparr>)"
      "nlmsg_reserve_nc (m\<lparr>nc_hdr := c1\<rparr>) 16 = Some (Some 16, m\<lparr>nc_hdr := c2\<rparr>)"
      "nc_holds (m\<lparr>nc_hdr := c2\<rparr>) (kind_bytes RTM_NEWLINK 5) (replicate 16 0)"
      using reserve_first [OF m, of 16 5 RTM_NEWLINK] by (auto simp: up4_def)
    obtain b1 b2 b3 b4 where b: "put_u8 c2 16 0 = Some b1" "put_u32 b1 20 (word_of_int index) = Some b2"
      "get_u32 b2 28 = Some 0" "put_u32 b2 28 1 = Some b3" "get_u32 b3 24 = Some 0"
      "put_u32 b3 24 (word_of_int flag) = Some b4"
      "nc_holds (m\<lparr>nc_hdr := b4\<rparr>) (kind_bytes RTM_NEWLINK 5) (ifinfo_bytes (word_of_int index) (word_of_int flag) 1)"
      using ifinfo_fields [OF c(3), of "word_of_int index" 1 "word_of_int flag"] by auto
    obtain r a' w' where t: "netlink_transaction kn h (m\<lparr>nc_hdr := b4\<rparr>) a ?w2 = Some (r, a', w')"
      "w_sent w' = w_sent ?w2 @ [?req]" "same_holdings ?w2 w'"
      using transaction_sends [OF b(7) a assms(6), of ?w2] unfolding link_request_def by blast
    have "act m a ?w = Some (r, w')"
      using ix assms(5) c(1,2) b(1-6) t(1) by (simp add: act_def sys_call_def)
    then show ?thesis using t(2,3) by (auto simp: same_holdings_def)
  qed
  then have "\<exists>err w'. with_messages kn (\<lambda>_. True) h w1 act = Some (err, w')
      \<and> w_sent w' = w_sent w @ [?req] \<and> same_holdings w w'"
    by (rule with_messages_sends [OF assms(1)])
  then show ?thesis
    using assms(1-3) by (simp add: netdev_set_flag_def act_def)
qed

theorem netdev_set_flag_request_witness:
  "\<exists>err w'. netdev_set_flag sample_kern (\<lambda>_. True) [108, 111] 1 sample_world = Some (err, w')
    \<and> w_sent w' = w_sent sample_world @ [link_request RTM_NEWLINK (ifinfo_bytes (word_of_int 7) (word_of_int 1) 1)]
    \<and> same_holdings sample_world w'"
  by (rule netdev_set_flag_request [OF sample_open]) (simp_all add: sample_answers, simp add: sample_kern_def)

lemma netdev_out_holdings:
  assumes "netlink_open kn protocol w = (0, h, w1)" "w_fds w2 = w_fds w1"
    "w_live w2 = w_live w1 + (if m = None then 0 else 1) + (if a = None then 0 else 1)"
  shows "same_holdings w (netdev_out kn h m a w2)"
  using netlink_open_frame [OF assms(1)] netlink_open_ok_fd [OF assms(1)] assms(2,3)
  by (auto simp: netdev_out_def netlink_close_def sys_close_def nlmsg_free_nc_def same_holdings_def)

lemma with_messages_release:
  assumes op: "netlink_open kn protocol w = (0, h, w1)"
    and act: "\<And>m a w err w'. act m a w = Some (err, w') \<Longrightarrow> same_holdings w w'"
    and run: "with_messages kn mal h w1 act = Some (err, w')"
  shows "same_holdings w w'"
proof -
  obtain x where x: "nlmsg_alloc_nc mal NLMSG_GOOD_SIZE = Some x"
    using run by (auto simp: with_messages_def msg_new_def bind_eq_Some_conv)
  show ?thesis
  proof (cases x)
    case None
    then have "w' = netdev_out kn h None None w1"
      using run x by (simp add: with_messages_def msg_new_def)
    then show ?thesis using netdev_out_holdings [OF op] by simp
  next
    case (Some m)
    then obtain y where y: "nlmsg_alloc_reserve mal NLMSG_GOOD_SIZE = Some y"
      using run x by (auto simp: with_messages_def msg_new_def bind_eq_Some_conv)
    show ?thesis
    proof (cases y)
      case None
      then have "w' = netdev_out kn h (Some m) None (w1\<lparr>w_live := Suc (w_live w1)\<rparr>)"
        using run x Some y by (simp add: with_messages_def msg_new_def)
      then show ?thesis using netdev_out_holdings [OF op] by simp
    next
      case (Some a)
      let ?w = "w1\<lparr>w_live := Suc (Suc (w_live w1))\<rparr>"
      obtain w2 where "act m a ?w = Some (err, w2)" "w' = netdev_out kn h (Some m) (Some a) w2"
        using run x \<open>x = Some m\<close> y Some by (auto simp: with_messages_def msg_new_def bind_eq_Some_conv)
      then show ?thesis
        using act [of m a ?w err w2] netdev_out_holdings [OF op, of w2 "Some m" "Some a"]
        by (simp add: same_holdings_def)
    qed
  qed
qed

lemma set_flag_act_frame:
  assumes "(let (index, w) = sys_call (k_if_nametoindex kn name) w
        in if index = 0 then Some (- EINVAL, w)
        else do {
          m \<leftarrow> set_kind m (NLM_F_REQUEST OR NLM_F_ACK) RTM_NEWLINK;
          (ifi, m) \<leftarrow> nlmsg_reserve_nc m 16;
          p \<leftarrow> ifi;
          b \<leftarrow> put_u8 (nc_hdr m) p 0;
          b \<leftarrow> put_u32 b (p + 4) (word_of_int index);
          c \<leftarrow> get_u32 b (p + 12);
          b \<leftarrow> put_u32 b (p + 12) (c OR word_of_int IFF_UP);
          f \<leftarrow> get_u32 b (p + 8);
          b \<leftarrow> put_u32 b (p + 8) (f OR word_of_int flag);
          (err, a, w) \<leftarrow> netlink_transaction kn h (m\<lparr>nc_hdr := b\<rparr>) a w;
          Some (err, w)
        }) = Some (err, w')"
  shows "same_holdings w w'"
proof -
  obtain i w1 where s: "sys_call (k_if_nametoindex kn name) w = (i, w1)" by force
  have "w' = w1 \<or> (\<exists>m a e a'. netlink_transaction kn h m a w1 = Some (e, a', w'))"
    using assms s by (auto simp: bind_eq_Some_conv split: if_splits)
  then show ?thesis
    using sys_call_frame(1) [OF s] netlink_transaction_frame same_holdings_trans by blast
qed

lemma delete_act_frame:
  assumes "(do {
        m \<leftarrow> set_kind m (NLM_F_ACK OR NLM_F_REQUEST) RTM_DELLINK;
        (ifi, m) \<leftarrow> nlmsg_reserve_nc m 16;
        p \<leftarrow> ifi;
        b \<leftarrow> put_u8 (nc_hdr m) p 0;
        b \<leftarrow> put_u32 b (p + 4) (word_of_int ifindex);
        (err, a, w) \<leftarrow> netlink_transaction kn h (m\<lparr>nc_hdr := b\<rparr>) a w;
        Some (err, w)
      }) = Some (err, w')"
  shows "same_holdings w w'"
proof -
  have "\<exists>m a e a'. netlink_transaction kn h m a w = Some (e, a', w')"
    using assms by (auto simp: bind_eq_Some_conv)
  then show ?thesis using netlink_transaction_frame by blast
qed

lemma veth_act_frame:
  assumes "(do {
        r \<leftarrow> veth_message m name1 name2;
        case r of Inl err \<Rightarrow> Some (err, w)
        | Inr m \<Rightarrow> do { (err, a, w) \<leftarrow> netlink_transaction kn h m a w; Some (err, w) }
      }) = Some (err, w')"
  shows "same_holdings w w'"
proof -
  obtain r where "veth_message m name1 name2 = Some r"
    using assms by (auto simp: bind_eq_Some_conv)
  then have "w' = w \<or> (\<exists>m a e a'. netlink_transaction kn h m a w = Some (e, a', w'))"
    using assms by (cases r) (auto simp: bind_eq_Some_conv)
  then show ?thesis using netlink_transaction_frame same_holdings_refl by blast
qed

lemma addr_act_frame:
  assumes "(do {
        r \<leftarrow> addr_message m family ifindex addr bcast prefix;
        case r of Inl err \<Rightarrow> Some (err, w)
        | Inr m \<Rightarrow> do {
            bad \<leftarrow> f;
            if bad then Some (- EPROTONOSUPPORT, w)
            else do { (err, a, w) \<leftarrow> netlink_transaction kn h m a w; Some (err, w) }
          }
      }) = Some (err, w')"
  shows "same_holdings w w'"
proof -
  obtain r where "addr_message m family ifindex addr bcast prefix = Some r"
    using assms by (auto simp: bind_eq_Some_conv)
  then have "w' = w \<or> (\<exists>m a e a'. netlink_transaction kn h m a w = Some (e, a', w'))"
    using assms by (cases r) (auto simp: bind_eq_Some_conv split: if_splits)
  then show ?thesis using netlink_transaction_frame same_holdings_refl by blast
qed



text \<open>
  C38. A failing \<open>netlink_open\<close> leaks its socket.  When the socket was created and a later
  step of \<open>netlink_open\<close> fails, the operations return its error at once, without the
  close of their exit path: the descriptor stays open.
\<close>

theorem netlink_open_failure_leaks:
  assumes "netlink_open kn NETLINK_ROUTE w = (err, h, w1)" "err \<noteq> 0" "0 \<le> nh_fd h"
  shows "network_veth_create kn mal name1 name2 w = Some (err, w1)
    \<and> netdev_set_flag kn mal name1 flag w = Some (err, w1)
    \<and> w_fds w1 = nh_fd h # w_fds w"
  using assms netlink_open_frame(3) [OF assms(1)]
  by (simp add: network_veth_create_def netdev_set_flag_def)

theorem netlink_open_failure_leaks_witness:
  "network_veth_create (sample_kern\<lparr>k_setsockopt := \<lambda>_ _ _ k. (-12, k)\<rparr>) (\<lambda>_. True) [97, 98] [99, 100] sample_world
      = Some (-12, sample_world\<lparr>w_fds := [5]\<rparr>)
    \<and> netdev_set_flag (sample_kern\<lparr>k_setsockopt := \<lambda>_ _ _ k. (-12, k)\<rparr>) (\<lambda>_. True) [97, 98] 0 sample_world
      = Some (-12, sample_world\<lparr>w_fds := [5]\<rparr>)
    \<and> w_fds (sample_world\<lparr>w_fds := [5]\<rparr>) = 5 # w_fds sample_world"
proof -
  let ?kn = "sample_kern\<lparr>k_setsockopt := \<lambda>_ _ _ k. (-12, k)\<rparr>"
  let ?h = "\<lparr>nh_fd = 5, nh_seq = 0, nh_local = zero_sockaddr, nh_peer = zero_sockaddr\<rparr>"
  have "netlink_open ?kn 0 sample_world = (-12, ?h, sample_world\<lparr>w_fds := [5]\<rparr>)"
    by (simp add: netlink_open_def sample_kern_def sample_world_def sys_call_def sys_socket_def)
  from netlink_open_failure_leaks [OF this, of "\<lambda>_. True" "[97, 98]" "[99, 100]" 0]
  show ?thesis by simp
qed

text \<open>
  C23. The result of a transaction is the kernel's verdict.  When the request is sent and a
  complete answer of at least twenty bytes arrives, \<open>netlink_transaction\<close> returns the error
  code of an \<open>NLMSG_ERROR\<close> answer (0 for an acknowledgement) and 0 for every other answer.
\<close>

theorem netlink_transaction_verdict:
  fixes t :: "16 word" and e :: "32 word"
  assumes "get_u32 (nc_hdr m) 0 = Some l" "c_read (nc_hdr m) 0 (uint l) = Some bs"
    and "k_sendmsg kn (nh_fd h) bs (w_k w) = (r, k1)" "0 \<le> r" "nc_ready a n"
    and "k_recvmsg kn (nh_fd h) n k1 = (Inr (A @ le_bytes 2 (unat t) @ B @ le_bytes 4 (unat e) @ C, False), k2)"
    and "length A = 4" "length B = 10" "20 + length C \<le> n"
  shows "\<exists>a' w'. netlink_transaction kn h m a w = Some (if t = NLMSG_ERROR then sint e else 0, a', w')"
proof -
  define reply where "reply = A @ le_bytes 2 (unat t) @ B @ le_bytes 4 (unat e) @ C"
  obtain la where la: "get_u32 (nc_hdr a) 0 = Some la" "unat la = n" and n: "n \<le> length (nc_hdr a)"
    using assms(5) by (auto simp: nc_ready_def)
  have len: "length reply = 20 + length C" using assms(7,8) by (simp add: reply_def)
  have cut: "take n reply = reply" using len assms(9) by simp
  define w1 where "w1 = w\<lparr>w_k := k1, w_sent := w_sent w @ [bs]\<rparr>"
  have send: "netlink_send kn h m w = Some (r, w1)"
    using assms(1-3) by (simp add: netlink_send_def sys_call_def w1_def)
  have "0 + length reply \<le> length (nc_hdr a)" using len assms(9) n by simp
  from c_write_ex [OF this] obtain b where b: "c_write (nc_hdr a) (int 0) reply = Some b" by blast
  have at: "bytes_at b 4 (le_bytes 2 (unat t))" "bytes_at b 16 (le_bytes 4 (unat e))"
    using c_write_at [OF b] assms(7,8) by (simp_all add: reply_def bytes_at_append)
  have "20 \<le> length b"
    using c_write_length [OF b] len assms(9) n by simp
  moreover have "initialised b"
    using c_write_initialised [OF _ b] assms(5) by (simp add: nc_ready_def)
  ultimately obtain l' where l': "get_u32 b 0 = Some l'"
    using get_u32_initialised [of b 0] by auto
  have "recv_again kn (nh_fd h) n w1 = Some (Inr (reply, False), w1\<lparr>w_k := k2\<rparr>)"
    by (subst recv_again.simps) (simp add: sys_call_def w1_def reply_def assms(6))
  then have rcv: "netlink_rcv kn h a w1 = Some (int (length reply), a\<lparr>nc_hdr := b\<rparr>, w1\<lparr>w_k := k2\<rparr>)"
    using la b l' cut len by (auto simp: netlink_rcv_def Let_def)
  have t: "get_u16 b 4 = Some t" and e: "get_u32 b 16 = Some e"
    using u16.load_bytes [OF at(1)] u32.load_bytes [OF at(2)] by simp_all
  show ?thesis
    using send rcv t e assms(4) by (simp add: netlink_transaction_def)
qed

lemma recv_again_answers:
  assumes "recv_again kn fd n w = Some y"
  shows "answers kn fd n (w_k w)"
proof (rule recv_again.raw_induct [OF _ assms])
  fix rec :: "'a kern \<Rightarrow> int \<Rightarrow> nat \<Rightarrow> 'a world \<Rightarrow> ((int + byte list \<times> bool) \<times> 'a world) option"
    and kn fd n w y
  assume IH: "\<And>kn fd n w y. rec kn fd n w = Some y \<Longrightarrow> answers kn fd n (w_k w)"
    and y: "(let (r, w) = sys_call (k_recvmsg kn fd n) w
      in if r = Inl EINTR then rec kn fd n w else Some (r, w)) = Some y"
  obtain r k where c: "k_recvmsg kn fd n (w_k w) = (r, k)" by force
  show "answers kn fd n (w_k w)"
  proof (cases "r = Inl EINTR")
    case True
    then have "answers kn fd n k" using IH [of kn fd n "w\<lparr>w_k := k\<rparr>" y] y c by (simp add: sys_call_def)
    then obtain j where "fst (k_recvmsg kn fd n (((\<lambda>k. snd (k_recvmsg kn fd n k)) ^^ j) k)) \<noteq> Inl EINTR"
      by (auto simp: answers_def)
    then show ?thesis
      unfolding answers_def using c
      by (intro exI [of _ "Suc j"]) (simp add: funpow_Suc_right del: funpow.simps)
  next
    case False
    then show ?thesis unfolding answers_def using c by (intro exI [of _ 0]) simp
  qed
qed

text \<open>
  C22. Receiving ends exactly when the kernel stops interrupting.  For a buffer that can take the
  answer, \<open>netlink_rcv\<close> returns if some \<open>recvmsg\<close> after finitely many interrupted ones is
  not interrupted, and it never returns otherwise.
\<close>

theorem netlink_rcv_returns_iff:
  assumes "nc_ready a n"
  shows "(\<exists>r a' w'. netlink_rcv kn h a w = Some (r, a', w')) \<longleftrightarrow> answers kn (nh_fd h) n (w_k w)"
proof
  assume "\<exists>r a' w'. netlink_rcv kn h a w = Some (r, a', w')"
  then show "answers kn (nh_fd h) n (w_k w)"
    using assms recv_again_answers by (fastforce simp: netlink_rcv_def nc_ready_def bind_eq_Some_conv)
next
  assume "answers kn (nh_fd h) n (w_k w)"
  then show "\<exists>r a' w'. netlink_rcv kn h a w = Some (r, a', w')"
    using netlink_rcv_returns [OF assms] by blast
qed

definition sample_answer :: nlmsg_nc where
  "sample_answer = \<lparr>nc_hdr = map Some (le_bytes 4 36 @ replicate 32 0), nc_cap = 36\<rparr>"

lemma sample_answer_len: "get_u32 (nc_hdr sample_answer) 0 = Some 36"
  using u32.load_bytes [of "nc_hdr sample_answer" 0 36] by (simp add: sample_answer_def bytes_at_def)

lemma sample_answer_ready: "nc_ready sample_answer 36"
  using sample_answer_len unfolding nc_ready_def by (auto simp: sample_answer_def initialised_def)

theorem netlink_rcv_returns_iff_witness:
  "(\<exists>r a' w'. netlink_rcv sample_kern sample_handler sample_answer sample_world = Some (r, a', w'))
    \<longleftrightarrow> answers sample_kern (nh_fd sample_handler) 36 (w_k sample_world)"
  by (rule netlink_rcv_returns_iff [OF sample_answer_ready])

theorem netlink_transaction_verdict_witness:
  "\<exists>a' w'. netlink_transaction sample_kern sample_handler sample_answer sample_answer sample_world
     = Some (if (2 :: 16 word) = NLMSG_ERROR then sint (0 :: 32 word) else 0, a', w')"
proof (rule netlink_transaction_verdict [OF sample_answer_len _ _ _ sample_answer_ready])
  show "c_read (nc_hdr sample_answer) 0 (uint (36 :: 32 word)) = Some (le_bytes 4 36 @ replicate 32 0)"
    by (simp add: sample_answer_def c_read_def del: map_append)
  show "k_sendmsg sample_kern (nh_fd sample_handler) (le_bytes 4 36 @ replicate 32 0) (w_k sample_world) = (36, ())"
    by (simp add: sample_kern_def)
  show "k_recvmsg sample_kern (nh_fd sample_handler) 36 () = (Inr (le_bytes 4 36 @ le_bytes 2 (unat (2 :: 16 word))
      @ replicate 10 0 @ le_bytes 4 (unat (0 :: 32 word)) @ replicate 16 0, False), ())"
    by (simp add: sample_kern_def ack_bytes_def le_bytes_0 flip: replicate_add)
qed simp_all

section \<open>Adding an address\<close>

definition ifaddr_bytes :: "int \<Rightarrow> int \<Rightarrow> int \<Rightarrow> byte list" where
  "ifaddr_bytes family prefix index =
     [word_of_int family, word_of_int prefix, 0, 0] @ le_bytes 4 (unat (word_of_int index :: 32 word))"

definition addr_request :: "int \<Rightarrow> byte list \<Rightarrow> byte list \<Rightarrow> int \<Rightarrow> byte list" where
  "addr_request index addr bcast prefix = msg_text (kind_bytes RTM_NEWADDR 0x605)
     (ifaddr_bytes AF_INET prefix index @ attrs_bytes [(2, addr), (1, addr), (4, bcast)])"

lemma le_bytes_1: "le_bytes 1 (unat (v :: 8 word)) = [v]"
  by simp

lemma ifaddr_fields:
  assumes m: "nc_holds m h (replicate 8 0)"
  shows "\<exists>b1 b2 b3 b4. put_u8 (nc_hdr m) 17 (word_of_int prefix) = Some b1
    \<and> put_u32 b1 20 (word_of_int index) = Some b2 \<and> put_u8 b2 16 (word_of_int family) = Some b3
    \<and> put_u8 b3 19 0 = Some b4 \<and> nc_holds (m\<lparr>nc_hdr := b4\<rparr>) h (ifaddr_bytes family prefix index)"
proof -
  let ?p = "word_of_int prefix :: 8 word" and ?f = "word_of_int family :: 8 word"
  let ?i = "le_bytes 4 (unat (word_of_int index :: 32 word))"
  have z: "replicate 8 (0 :: byte) = [0] @ [0] @ [0, 0, 0, 0, 0, 0]" by code_simp
  obtain b1 where 1: "put_u8 (nc_hdr m) 17 ?p = Some b1" "nc_holds (m\<lparr>nc_hdr := b1\<rparr>) h ([0, ?p, 0, 0] @ [0, 0, 0, 0] @ [])"
    using put_patch_u8 [OF m [unfolded z], of 17 ?p] unfolding le_bytes_1 by auto
  obtain b2 where 2: "put_u32 b1 20 (word_of_int index) = Some b2"
    "nc_holds (m\<lparr>nc_hdr := b2\<rparr>) h ([] @ [0] @ [?p, 0, 0] @ ?i)"
    using put_patch_u32 [OF 1(2), of 20 "word_of_int index"] by auto
  obtain b3 where 3: "put_u8 b2 16 ?f = Some b3" "nc_holds (m\<lparr>nc_hdr := b3\<rparr>) h ([?f, ?p, 0] @ [0] @ ?i)"
    using put_patch_u8 [OF 2(2), of 16 ?f] unfolding le_bytes_1 by auto
  obtain b4 where 4: "put_u8 b3 19 0 = Some b4" "nc_holds (m\<lparr>nc_hdr := b4\<rparr>) h ([?f, ?p, 0] @ [0] @ ?i)"
    using put_patch_u8 [OF 3(2), of 19 0] unfolding le_bytes_1 by auto
  show ?thesis using 1(1) 2(1) 3(1) 4 by (auto simp: ifaddr_bytes_def)
qed

lemma addr_message_holds:
  assumes m: "nc_holds m (replicate 12 0) []" "unat (nc_cap m) = 8208"
    and l: "length addr = 4" "length bcast = 4"
  shows "\<exists>m'. addr_message m AF_INET index addr bcast prefix = Some (Inr m')
    \<and> nc_holds m' (kind_bytes RTM_NEWADDR 0x605)
        (ifaddr_bytes AF_INET prefix index @ attrs_bytes [(2, addr), (1, addr), (4, bcast)])"
proof -
  let ?h = "kind_bytes RTM_NEWADDR 0x605" and ?B = "ifaddr_bytes AF_INET prefix index"
  have up: "up4 4 = 4" "up4 8 = 8" by (simp_all add: up4_def)
  have B: "length ?B = 8" by (simp add: ifaddr_bytes_def)
  have fl: "NLM_F_ACK OR NLM_F_REQUEST OR NLM_F_CREATE OR NLM_F_EXCL = (0x605 :: 16 word)" by simp
  obtain c1 c2 where c: "set_kind m 0x605 RTM_NEWADDR = Some (m\<lparr>nc_hdr := c1\<rparr>)"
    "nlmsg_reserve_nc (m\<lparr>nc_hdr := c1\<rparr>) 8 = Some (Some 16, m\<lparr>nc_hdr := c2\<rparr>)"
    "nc_holds (m\<lparr>nc_hdr := c2\<rparr>) ?h (replicate 8 0)"
    using reserve_first [OF m, of 8 "0x605" RTM_NEWADDR] by (auto simp: up)
  obtain b1 b2 b3 b4 where b: "put_u8 c2 17 (word_of_int prefix) = Some b1"
    "put_u32 b1 20 (word_of_int index) = Some b2" "put_u8 b2 16 (word_of_int AF_INET) = Some b3"
    "put_u8 b3 19 0 = Some b4" "nc_holds (m\<lparr>nc_hdr := b4\<rparr>) ?h ?B"
    using ifaddr_fields [OF c(3), of prefix index AF_INET] by auto
  obtain d1 where 1: "nla_put_nc (m\<lparr>nc_hdr := b4\<rparr>) IFA_LOCAL addr 4 = Some (0, m\<lparr>nc_hdr := d1\<rparr>)"
    "nc_holds (m\<lparr>nc_hdr := d1\<rparr>) ?h (?B @ attr_bytes 2 addr)"
    using nla_put_nc_appends [OF b(5), of addr IFA_LOCAL] m(2) l up B by auto
  obtain d2 where 2: "nla_put_nc (m\<lparr>nc_hdr := d1\<rparr>) IFA_ADDRESS addr 4 = Some (0, m\<lparr>nc_hdr := d2\<rparr>)"
    "nc_holds (m\<lparr>nc_hdr := d2\<rparr>) ?h ((?B @ attr_bytes 2 addr) @ attr_bytes 1 addr)"
    using nla_put_nc_appends [OF 1(2), of addr IFA_ADDRESS] m(2) l up B by auto
  obtain d3 where 3: "nla_put_nc (m\<lparr>nc_hdr := d2\<rparr>) IFA_BROADCAST bcast 4 = Some (0, m\<lparr>nc_hdr := d3\<rparr>)"
    "nc_holds (m\<lparr>nc_hdr := d3\<rparr>) ?h (((?B @ attr_bytes 2 addr) @ attr_bytes 1 addr) @ attr_bytes 4 bcast)"
    using nla_put_nc_appends [OF 2(2), of bcast IFA_BROADCAST] m(2) l up B by auto
  show ?thesis
    using c b 1 2 3 by (simp add: addr_message_def nla_put_buffer_def fl)
qed

text \<open>
  C24. Giving an interface an IPv4 address sends one \<open>RTM_NEWADDR\<close> request with the prefix
  length and the index of the interface, the address twice (local and interface address) and
  the broadcast address, and gives back the socket and the messages.
\<close>

theorem ipv4_addr_add_request:
  assumes "k_if_nametoindex kn name (w_k w) = (index, k)" "index \<noteq> 0"
    and "netlink_open kn NETLINK_ROUTE (w\<lparr>w_k := k\<rparr>) = (0, h, w1)"
    and "length addr = 4" "length bcast = 4" "\<And>k. answers kn (nh_fd h) 8208 k"
  shows "\<exists>err w'. ipv4_addr_add kn (\<lambda>_. True) name addr bcast prefix w = Some (err, w')
    \<and> w_sent w' = w_sent w @ [addr_request index addr bcast prefix] \<and> same_holdings w w'"
proof -
  define act where "act = (\<lambda>m a w. do {
        r \<leftarrow> addr_message m AF_INET index addr bcast prefix;
        case r of Inl err \<Rightarrow> Some (err, w)
        | Inr m \<Rightarrow> do { (err, a, w) \<leftarrow> netlink_transaction kn h m a w; Some (err, w) }
      })"
  let ?w = "w1\<lparr>w_live := Suc (Suc (w_live w1))\<rparr>" and ?req = "addr_request index addr bcast prefix"
  have "\<exists>err w'. act m a ?w = Some (err, w') \<and> w_sent w' = w_sent w1 @ [?req] \<and> same_holdings ?w w'"
    if m: "nc_holds m (replicate 12 0) []" "unat (nc_cap m) = 8208" and a: "nc_ready a 8208" for m a
  proof -
    obtain m' where m': "addr_message m AF_INET index addr bcast prefix = Some (Inr m')"
      "nc_holds m' (kind_bytes RTM_NEWADDR 0x605)
         (ifaddr_bytes AF_INET prefix index @ attrs_bytes [(2, addr), (1, addr), (4, bcast)])"
      using addr_message_holds [OF m assms(4,5)] by blast
    obtain r a' w' where "netlink_transaction kn h m' a ?w = Some (r, a', w')"
      "w_sent w' = w_sent ?w @ [?req]" "same_holdings ?w w'"
      using transaction_sends [OF m'(2) a assms(6), of ?w] unfolding addr_request_def by blast
    then show ?thesis using m'(1) by (simp add: act_def)
  qed
  then have "\<exists>err w'. with_messages kn (\<lambda>_. True) h w1 act = Some (err, w')
      \<and> w_sent w' = w_sent (w\<lparr>w_k := k\<rparr>) @ [?req] \<and> same_holdings (w\<lparr>w_k := k\<rparr>) w'"
    by (rule with_messages_sends [OF assms(3)])
  then show ?thesis
    using assms(1-3) by (simp add: ipv4_addr_add_def ip_addr_add_def sys_call_def act_def same_holdings_def)
qed

theorem ipv4_addr_add_request_witness:
  "\<exists>err w'. ipv4_addr_add sample_kern (\<lambda>_. True) [118, 95, 105] [172, 16, 0, 2] [172, 16, 0, 255] 24 sample_world = Some (err, w')
    \<and> w_sent w' = w_sent sample_world @ [addr_request 7 [172, 16, 0, 2] [172, 16, 0, 255] 24]
    \<and> same_holdings sample_world w'"
proof (rule ipv4_addr_add_request)
  show "k_if_nametoindex sample_kern [118, 95, 105] (w_k sample_world) = (7, ())"
    by (simp add: sample_kern_def)
  have "sample_world\<lparr>w_k := ()\<rparr> = sample_world" by (simp add: sample_world_def)
  then show "netlink_open sample_kern NETLINK_ROUTE (sample_world\<lparr>w_k := ()\<rparr>)
      = (0, sample_handler, sample_world\<lparr>w_fds := [5]\<rparr>)"
    by (simp only: sample_open)
qed (simp_all add: sample_answers)

end
