(* ===== verification/Nl_Attr_Props.thy ===== *)
theory Nl_Attr_Props
  imports Nl_Attr Attr_Encoding
begin

text \<open>
  What the attribute functions of libnl guarantee.  \<open>msg_holds\<close> relates a message to
  its abstract content: the twelve header bytes after the length, and the body.
\<close>

section \<open>The abstract content of a message\<close>

definition msg_holds :: "nl_msg \<Rightarrow> byte list \<Rightarrow> byte list \<Rightarrow> bool" where
  "msg_holds m h body \<longleftrightarrow>
     length h = 12 \<and> 4 dvd length body \<and> length (nm_nlh m) = unat (nm_size m)
     \<and> unat (nm_size m) \<le> 2 ^ 30 \<and> bytes_at (nm_nlh m) 0 (msg_text h body)"

lemma msg_holds_parts:
  assumes "msg_holds m h body"
  shows "length h = 12" "4 dvd length body" "length (nm_nlh m) = unat (nm_size m)"
    "unat (nm_size m) \<le> 2 ^ 30" "16 + length body \<le> unat (nm_size m)"
    "bytes_at (nm_nlh m) 0 (le_bytes 4 (16 + length body))"
    "bytes_at (nm_nlh m) 4 h" "bytes_at (nm_nlh m) 16 body"
  using assms
  by (auto simp: msg_holds_def msg_text_def bytes_at_append bytes_at_def [of _ 16 body])

lemma msg_holds_len:
  assumes "msg_holds m h body"
  shows "hdr_len (nm_nlh m) 0 = Some (word_of_nat (16 + length body))"
proof -
  have "unat (word_of_nat (16 + length body) :: 32 word) = 16 + length body"
    using msg_holds_parts [OF assms] by (intro unat_word_small) simp
  then show ?thesis
    using u32.load_bytes [of "nm_nlh m" 0 "word_of_nat (16 + length body)"]
      msg_holds_parts(6) [OF assms] by (simp add: hdr_len_def)
qed

lemma msg_holds_tail:
  assumes "msg_holds m h body"
  shows "nlmsg_tail (nm_nlh m) 0 = Some (int (16 + length body))"
proof -
  have b: "16 + length body \<le> 2 ^ 30" "4 dvd 16 + length body"
    using msg_holds_parts [OF assms] by auto
  have "uint (word_of_nat (16 + length body) :: 32 word) = int (16 + length body)"
    using b unat_word_small [of "16 + length body", where 'a = 32]
    by (simp add: uint_nat)
  then show ?thesis
    using align_len [of "16 + length body"] b
    by (simp add: nlmsg_tail_def msg_holds_len [OF assms])
qed

section \<open>Adding an attribute\<close>

lemma attr_sizes:
  assumes "n \<le> 2 ^ 30"
  shows "nla_attr_size (int n) = Some (4 + int n)"
    "nla_total_size (int n) = Some (int (4 + up4 n))"
    "nla_padlen (int n) = Some (int (up4 n - n))"
proof -
  have "NLA_ALIGN (4 + int n) = int (4 + up4 n)"
    using NLA_ALIGN_int [of "4 + n"] up4_header [of n] by simp
  then show "nla_attr_size (int n) = Some (4 + int n)"
    "nla_total_size (int n) = Some (int (4 + up4 n))"
    "nla_padlen (int n) = Some (int (up4 n - n))"
    using assms up4_facts(1) [of n]
    by (auto simp: nla_attr_size_def nla_total_size_def nla_padlen_def c_int_ok_def)
qed

lemma new_length:
  assumes "p + k < 2 ^ 31" "4 dvd p"
  shows "sint (NLMSG_ALIGN (word_of_nat p) + word_of_int (int k) :: 32 word) = int (p + k)"
proof -
  have "NLMSG_ALIGN (word_of_nat p :: 32 word) + word_of_int (int k) = word_of_nat (p + k)"
    using align_len [of p] assms by simp
  then show ?thesis
    using sint_small [of "p + k"] assms by simp
qed

lemma nla_reserve_room:
  assumes m: "msg_holds m h body" and n: "n \<le> 65531"
    and room: "16 + length body + (4 + up4 n) \<le> unat (nm_size m)"
  shows "\<exists>b. nla_reserve m t (int n) = Some (Some (int (16 + length body)), m\<lparr>nm_nlh := b\<rparr>)
    \<and> length b = length (nm_nlh m)
    \<and> bytes_at b 0 (le_bytes 4 (16 + length body + (4 + up4 n)))
    \<and> bytes_at b 4 h \<and> bytes_at b 16 body
    \<and> bytes_at b (16 + length body) (le_bytes 2 (4 + n) @ le_bytes 2 (unat (word_of_int t :: 16 word)))
    \<and> bytes_at b (16 + length body + 4 + n) (replicate (up4 n - n) 0)"
proof -
  note M = msg_holds_parts [OF m]
  define p where "p = 16 + length body"
  define N where "N = p + (4 + up4 n)"
  have p4: "4 dvd p" and pN: "N \<le> 2 ^ 30" "N \<le> length (nm_nlh m)" "n \<le> up4 n"
    using M room up4_facts(1) [of n] by (auto simp: p_def N_def)
  have alen: "unat (word_of_int (4 + int n) :: 16 word) = 4 + n"
    using n unat_word_small [of "4 + n", where 'a = 16] by simp
  have tlen: "sint (NLMSG_ALIGN (word_of_nat p) + word_of_int (int (4 + up4 n)) :: 32 word) = int N"
    unfolding N_def by (rule new_length) (use pN p4 in \<open>auto simp: N_def\<close>)
  have fits: "\<not> (word_of_int (int N) :: 64 word) > nm_size m"
    using room pN unat_word_small [of N, where 'a = 64]
    by (simp add: word_less_nat_alt N_def p_def)
  obtain b1 where b1: "put_u16 (nm_nlh m) (int (p + 2)) (word_of_int t) = Some b1"
    using u16.store_in [of "p + 2" "nm_nlh m"] pN by (auto simp: N_def)
  have l1: "length b1 = length (nm_nlh m)" using u16.store_length [OF b1] .
  obtain b2 where b2: "put_u16 b1 (int p) (word_of_int (4 + int n)) = Some b2"
    using u16.store_in [of p b1] pN l1 by (auto simp: N_def)
  have l2: "length b2 = length (nm_nlh m)" using u16.store_length [OF b2] l1 by simp
  obtain b3 where b3: "c_write b2 (int (p + 4 + n)) (replicate (up4 n - n) 0) = Some b3"
    using c_write_ex [of "p + 4 + n" "replicate (up4 n - n) 0" b2] pN l2 by (auto simp: N_def)
  have l3: "length b3 = length (nm_nlh m)" using c_write_length [OF b3] l2 by simp
  obtain b4 where b4: "put_u32 b3 (int 0) (word_of_nat N) = Some b4"
    using u32.store_in [of 0 b3] pN l3 by (auto simp: N_def p_def)
  have len: "hdr_len (nm_nlh m) 0 = Some (word_of_nat p)"
    and tail: "nlmsg_tail (nm_nlh m) 0 = Some (int p)"
    using msg_holds_len [OF m] msg_holds_tail [OF m] by (simp_all add: p_def)
  note sz = attr_sizes [of n]
  have n30: "n \<le> 2 ^ 30" using n by simp
  have ua: "uint (word_of_int (4 + int n) :: 16 word) = 4 + int n"
    using alen by (simp add: uint_nat del: of_nat_unat)
  have pad: "(if int n \<noteq> 0 then nla_padlen (int n) \<bind>
        c_memset b2 (int p + uint (word_of_int (4 + int n) :: 16 word)) 0 else Some b2) = Some b3"
    unfolding ua using sz(3) [OF n30] b3 c_write_Nil [of b2 "int (p + 4)" b3]
    by (cases "n = 0") (auto simp: c_memset_def add.assoc add.left_commute)
  have b1': "put_u16 (nm_nlh m) (int p + 2) (word_of_int t) = Some b1"
    and b4': "put_u32 b3 0 (word_of_int (int N)) = Some b4"
    using b1 b4 by (simp_all add: add.commute)
  have res: "nla_reserve m t (int n) = Some (Some (int p), m\<lparr>nm_nlh := b4\<rparr>)"
    by (simp only: nla_reserve_def Let_def len tail sz(1,2) [OF n30] bind.bind_lunit tlen fits if_False
        b1' b2 pad b4')
  have "bytes_at b4 0 (le_bytes 4 N)"
    using u32.store_bytes_at [OF b4] unat_word_small [of N, where 'a = 32] pN by simp
  moreover have "bytes_at b4 4 h" "bytes_at b4 16 body"
    using M(1,7,8) u16.store_other [OF b1] u16.store_other [OF b2] u32.store_other [OF b4]
      c_write_other [OF b3] by (simp_all add: p_def)
  moreover have "bytes_at b4 p (le_bytes 2 (4 + n))"
    using u16.store_bytes_at [OF b2] u32.store_other [OF b4] c_write_other [OF b3] alen
    by (simp add: p_def)
  moreover have "bytes_at b4 (p + 2) (le_bytes 2 (unat (word_of_int t :: 16 word)))"
    using u16.store_bytes_at [OF b1] u16.store_other [OF b2] u32.store_other [OF b4]
      c_write_other [OF b3] by (simp add: p_def)
  moreover have "bytes_at b4 (p + 4 + n) (replicate (up4 n - n) 0)"
    using c_write_at [OF b3] u32.store_other [OF b4] by (simp add: p_def)
  ultimately show ?thesis
    using res u32.store_length [OF b4] l3 by (auto simp: bytes_at_append p_def N_def)
qed

text \<open>An attribute that fits is appended to the body; one that does not is refused.\<close>

lemma nla_put_appends:
  assumes m: "msg_holds m h body" and n: "length d \<le> 65531"
    and room: "16 + length body + (4 + up4 (length d)) \<le> unat (nm_size m)"
  shows "\<exists>b. nla_put m t (int (length d)) d = Some (0, m\<lparr>nm_nlh := b\<rparr>)
    \<and> msg_holds (m\<lparr>nm_nlh := b\<rparr>) h (body @ attr_bytes (word_of_int t) d)"
proof -
  note M = msg_holds_parts [OF m]
  define p where "p = 16 + length body"
  obtain b where b: "nla_reserve m t (int (length d)) = Some (Some (int p), m\<lparr>nm_nlh := b\<rparr>)"
    and l: "length b = length (nm_nlh m)"
    and b0: "bytes_at b 0 (le_bytes 4 (p + (4 + up4 (length d))))" "bytes_at b 4 h" "bytes_at b 16 body"
      "bytes_at b p (le_bytes 2 (4 + length d) @ le_bytes 2 (unat (word_of_int t :: 16 word)))"
      "bytes_at b (p + 4 + length d) (replicate (up4 (length d) - length d) 0)"
    using nla_reserve_room [OF m n room, of t] unfolding p_def by blast
  obtain b' where b': "c_write b (int (p + 4)) d = Some b'"
    using c_write_ex [of "p + 4" d b] room l M(3) up4_facts(1) [of "length d"] by (auto simp: p_def)
  have keep: "bytes_at b' 0 (le_bytes 4 (p + (4 + up4 (length d))))" "bytes_at b' 4 h" "bytes_at b' 16 body"
    "bytes_at b' p (le_bytes 2 (4 + length d) @ le_bytes 2 (unat (word_of_int t :: 16 word)))"
    "bytes_at b' (p + 4 + length d) (replicate (up4 (length d) - length d) 0)"
    using b0 M(1) c_write_other [OF b'] by (simp_all add: p_def)
  have d: "bytes_at b' (p + 4) d"
    using c_write_at [OF b'] by simp
  have dvd: "4 dvd length (body @ attr_bytes (word_of_int t) d)"
    unfolding length_append length_attr_bytes by (intro dvd_add M(2)) auto
  have "bytes_at b' 0 (msg_text h (body @ attr_bytes (word_of_int t) d))"
    using keep d M(1)
    by (simp add: msg_text_def bytes_at_append attr_bytes_def p_def up4_facts(1) add.assoc)
  then have "msg_holds (m\<lparr>nm_nlh := b'\<rparr>) h (body @ attr_bytes (word_of_int t) d)"
    using M(1,3,4) dvd c_write_length [OF b'] l by (simp add: msg_holds_def)
  moreover have "nla_put m t (int (length d)) d = Some (0, m\<lparr>nm_nlh := b'\<rparr>)"
    using b b' c_write_Nil [of b "int (p + 4)" b']
    by (cases d) (auto simp: nla_put_def nla_data_def c_memcpy_def add.commute)
  ultimately show ?thesis by blast
qed

lemma nla_put_no_room:
  assumes m: "msg_holds m h body" and n: "n \<le> 65531"
    and room: "unat (nm_size m) < 16 + length body + (4 + up4 n)"
  shows "nla_put m t (int n) d = Some (- NLE_NOMEM, m)"
proof -
  note M = msg_holds_parts [OF m]
  define p where "p = 16 + length body"
  define N where "N = p + (4 + up4 n)"
  have N: "N < 2 ^ 31" "4 dvd p"
    using M n up4_facts(2) [of n] by (auto simp: N_def p_def)
  have tlen: "sint (NLMSG_ALIGN (word_of_nat p) + word_of_int (int (4 + up4 n)) :: 32 word) = int N"
    unfolding N_def by (rule new_length) (use N in \<open>auto simp: N_def\<close>)
  have full: "(word_of_int (int N) :: 64 word) > nm_size m"
    using room N unat_word_small [of N, where 'a = 64] by (simp add: word_less_nat_alt N_def p_def)
  have len: "hdr_len (nm_nlh m) 0 = Some (word_of_nat p)"
    using msg_holds_len [OF m] by (simp add: p_def)
  have n30: "n \<le> 2 ^ 30" using n by simp
  have "nla_reserve m t (int n) = Some (None, m)"
    by (simp only: nla_reserve_def Let_def len attr_sizes(2) [OF n30] bind.bind_lunit tlen full if_True)
  then show ?thesis by (simp add: nla_put_def)
qed

section \<open>Nesting\<close>

lemma nla_nest_start_appends:
  assumes m: "msg_holds m h body" and room: "16 + length body + 4 \<le> unat (nm_size m)"
  shows "\<exists>b. nla_nest_start m t = Some (Some (int (16 + length body)), m\<lparr>nm_nlh := b\<rparr>)
    \<and> msg_holds (m\<lparr>nm_nlh := b\<rparr>) h (body @ attr_bytes (word_of_int t) [])"
  using nla_put_appends [OF m, of "[]" t] room msg_holds_tail [OF m]
  by (auto simp: nla_nest_start_def)

lemma msg_holds_update_len:
  assumes m: "msg_holds m h (X @ attr_bytes t [] @ Y)"
    and Y: "4 dvd length Y" "length Y \<le> 65531"
  shows "\<exists>b. put_u16 (nm_nlh m) (int (16 + length X)) (word_of_nat (4 + length Y)) = Some b
    \<and> msg_holds (m\<lparr>nm_nlh := b\<rparr>) h (X @ attr_bytes t Y)"
proof -
  note M = msg_holds_parts [OF m]
  define p where "p = 16 + length X"
  obtain b where b: "put_u16 (nm_nlh m) (int p) (word_of_nat (4 + length Y)) = Some b"
    using u16.store_in [of p "nm_nlh m"] M(3,5) by (auto simp: p_def)
  have whole: "bytes_at (nm_nlh m) 0 (msg_text h (X @ attr_bytes t [] @ Y))"
    using m by (simp add: msg_holds_def)
  have u: "unat (word_of_nat (4 + length Y) :: 16 word) = 4 + length Y"
    using Y unat_word_small [of "4 + length Y", where 'a = 16] by simp
  have "bytes_at b 0 (msg_text h (X @ attr_bytes t Y))"
    using whole M(1) Y(1) u16.store_other [OF b] u16.store_bytes_at [OF b, unfolded u]
    by (auto simp: msg_text_def attr_bytes_def bytes_at_append up4_facts(4) p_def)
  then have "msg_holds (m\<lparr>nm_nlh := b\<rparr>) h (X @ attr_bytes t Y)"
    using M(1-4) u16.store_length [OF b] up4_facts(4) [OF Y(1)]
    by (simp add: msg_holds_def)
  with b show ?thesis unfolding p_def by blast
qed

lemma msg_holds_total:
  assumes "msg_holds m h body"
  shows "4 dvd 16 + length body" "16 + length body \<le> 2 ^ 30"
  using msg_holds_parts [OF assms] by (auto intro: dvd_add)

lemma nla_nest_end_closes:
  assumes m: "msg_holds m h (X @ attr_bytes t [] @ Y)"
    and Y: "Y \<noteq> []" "4 dvd length Y" "length Y \<le> 65531"
  shows "\<exists>b. nla_nest_end m (int (16 + length X)) = Some (0, m\<lparr>nm_nlh := b\<rparr>)
    \<and> msg_holds (m\<lparr>nm_nlh := b\<rparr>) h (X @ attr_bytes t Y)"
proof -
  define p where "p = 16 + length X"
  obtain b where b: "put_u16 (nm_nlh m) (int p) (word_of_nat (4 + length Y)) = Some b"
    and b': "msg_holds (m\<lparr>nm_nlh := b\<rparr>) h (X @ attr_bytes t Y)"
    using msg_holds_update_len [OF m Y(2,3)] unfolding p_def by blast
  define N where "N = 16 + length (X @ attr_bytes t Y)"
  have tail: "nlmsg_tail (nm_nlh m) 0 = Some (int p + int (4 + length Y))"
    using msg_holds_tail [OF m] by (simp add: p_def)
  have len: "hdr_len b 0 = Some (word_of_nat N)"
    using msg_holds_len [OF b'] by (simp add: N_def)
  have "4 dvd N" "N \<le> 2 ^ 31"
    using msg_holds_total [OF b'] unfolding N_def by simp_all
  then have pad: "NLMSG_ALIGN (word_of_nat N :: 32 word) - word_of_nat N = 0"
    using align_len by simp
  have l64: "(word_of_int (int p + int (4 + length Y) - int p) :: 64 word) = word_of_nat (4 + length Y)"
    by simp
  have ne: "(word_of_nat (4 + length Y) :: 64 word) \<noteq> word_of_int NLA_HDRLEN"
  proof
    assume "(word_of_nat (4 + length Y) :: 64 word) = word_of_int NLA_HDRLEN"
    then have "unat (word_of_nat (4 + length Y) :: 64 word) = 4" by simp
    then show False
      using Y unat_word_small [of "4 + length Y", where 'a = 64] by simp
  qed
  have cast: "(ucast (word_of_nat (4 + length Y) :: 64 word) :: 16 word) = word_of_nat (4 + length Y)"
    by (rule ucast_of_nat) simp
  have "nla_nest_end m (int p) = Some (0, m\<lparr>nm_nlh := b\<rparr>)"
    by (simp only: nla_nest_end_def Let_def tail bind.bind_lunit l64 ne if_False cast b nl_msg.simps
        len pad) simp
  with b' show ?thesis unfolding p_def by blast
qed

lemma nla_nest_cancel_restores:
  assumes m: "msg_holds m h (X @ attr_bytes t [] @ Y)" and X: "4 dvd length X"
  shows "\<exists>b. nla_nest_cancel m (int (16 + length X)) = Some (m\<lparr>nm_nlh := b\<rparr>)
    \<and> msg_holds (m\<lparr>nm_nlh := b\<rparr>) h X"
proof -
  note M = msg_holds_parts [OF m]
  define p where "p = 16 + length X"
  define k where "k = 4 + length Y"
  have pk: "p + k \<le> length (nm_nlh m)" "p + k \<le> 2 ^ 30" "0 < k"
    using M by (auto simp: p_def k_def)
  have len: "hdr_len (nm_nlh m) 0 = Some (word_of_nat (p + k))"
    and tail: "nlmsg_tail (nm_nlh m) 0 = Some (int (p + k))"
    using msg_holds_len [OF m] msg_holds_tail [OF m] by (simp_all add: p_def k_def add.commute add.left_commute)
  obtain b where b: "put_u32 (nm_nlh m) (int 0) (word_of_nat p) = Some b"
    using u32.store_in [of 0 "nm_nlh m"] pk by (auto simp: p_def)
  have lb: "length b = length (nm_nlh m)" using u32.store_length [OF b] .
  have u: "unat (word_of_nat p :: 32 word) = p"
    using pk unat_word_small [of p, where 'a = 32] by simp
  have X': "bytes_at b 0 (msg_text h X)"
    using M(1,7,8) u32.store_bytes_at [OF b, unfolded u] u32.store_other [OF b]
    by (simp add: msg_text_def bytes_at_append p_def)
  have hb: "msg_holds (m\<lparr>nm_nlh := b\<rparr>) h X"
    using M(1,3,4) X X' lb by (simp add: msg_holds_def)
  have tail': "nlmsg_tail b 0 = Some (int p)"
    using msg_holds_tail [OF hb] by (simp add: p_def)
  obtain b' where b': "c_write b (int p) (replicate k 0) = Some b'"
    using c_write_ex [of p "replicate k 0" b] pk lb by auto
  have "bytes_at b' 0 (msg_text h X)"
    using X' c_write_other [OF b', of 0 "msg_text h X"] M(1) by (simp add: msg_text_def p_def)
  then have "msg_holds (m\<lparr>nm_nlh := b'\<rparr>) h X"
    using M(1,3,4) X lb c_write_length [OF b'] by (simp add: msg_holds_def)
  moreover have "nla_nest_cancel m (int p) = Some (m\<lparr>nm_nlh := b'\<rparr>)"
    using b b' pk tail' by (simp add: nla_nest_cancel_def len tail c_memset_def)
  ultimately show ?thesis unfolding p_def by blast
qed

lemma nla_nest_end_empty:
  assumes m: "msg_holds m h (X @ attr_bytes t [])" and X: "4 dvd length X"
  shows "\<exists>b. nla_nest_end m (int (16 + length X)) = Some (0, m\<lparr>nm_nlh := b\<rparr>)
    \<and> msg_holds (m\<lparr>nm_nlh := b\<rparr>) h X"
  using nla_nest_cancel_restores [of m h X t "[]"] m X msg_holds_tail [OF m]
  by (auto simp: nla_nest_end_def)

section \<open>Allocation\<close>

lemma nlmsg_alloc_len_holds:
  assumes mal: "mal 72" "mal (uint (if len < 16 then 16 else len))" and len: "unat len \<le> 2 ^ 30"
  shows "\<exists>m. nlmsg_alloc_len mal len = Some (Some m) \<and> msg_holds m (replicate 12 0) []
    \<and> nm_size m = (if len < 16 then 16 else len) \<and> nm_refcnt m = 1"
proof -
  define n where "n = (if len < 16 then 16 else len)"
  have n: "16 \<le> unat n" "unat n \<le> 2 ^ 30"
    using len by (auto simp: n_def word_less_nat_alt)
  obtain b where b: "put_u32 (replicate (unat n) (Some 0)) (int 0) 16 = Some b"
    using u32.store_in [of 0 "replicate (unat n) (Some 0)"] n by auto
  have "bytes_at (replicate (unat n) (Some (0 :: byte))) 4 (replicate 12 0)"
    using n by (auto simp: bytes_at_nth)
  then have "bytes_at b 0 (msg_text (replicate 12 0) [])"
    using u32.store_bytes_at [OF b] u32.store_other [OF b] by (simp add: msg_text_def bytes_at_append)
  moreover have "length b = unat n" using u32.store_length [OF b] by simp
  moreover have "nlmsg_total_size 0 = Some 16" by code_simp
  ultimately show ?thesis
    using b n mal unfolding nlmsg_alloc_len_def n_def [symmetric] Let_def
    by (auto simp: msg_holds_def)
qed

section \<open>libnl as a builder of attributes\<close>

definition libnl_put :: "nl_msg \<Rightarrow> 16 word \<Rightarrow> byte list \<Rightarrow> nl_msg option" where
  "libnl_put m t d = do {
     (r, m) \<leftarrow> nla_put m (uint t) (int (length d)) d;
     if r < 0 then None else Some m
   }"

definition libnl_start :: "nl_msg \<Rightarrow> 16 word \<Rightarrow> (int \<times> nl_msg) option" where
  "libnl_start m t = do {
     (p, m) \<leftarrow> nla_nest_start m (uint t);
     p \<leftarrow> p;
     Some (p, m)
   }"

definition libnl_fin :: "nl_msg \<Rightarrow> int \<Rightarrow> nl_msg option" where
  "libnl_fin m p = do {
     (r, m) \<leftarrow> nla_nest_end m p;
     if r < 0 then None else Some m
   }"

interpretation libnl: attr_builder "\<lambda>m X. msg_holds m h X" "\<lambda>m. unat (nm_size m) - 16"
    libnl_put libnl_start libnl_fin for h
proof unfold_locales
  fix m X t and d :: "byte list"
  assume a: "msg_holds m h X" "length d \<le> 65531" "length X + (4 + up4 (length d)) \<le> unat (nm_size m) - 16"
  from a(3) have "16 + length X + (4 + up4 (length d)) \<le> unat (nm_size m)" by linarith
  with a show "\<exists>m'. libnl_put m t d = Some m' \<and> msg_holds m' h (X @ attr_bytes t d)
      \<and> unat (nm_size m') - 16 = unat (nm_size m) - 16"
    using nla_put_appends [of m h X d "uint t"] by (auto simp: libnl_put_def)
next
  fix m X t
  assume a: "msg_holds m h X" "length X + 4 \<le> unat (nm_size m) - 16"
  from a(2) have "16 + length X + 4 \<le> unat (nm_size m)" by linarith
  with a show "\<exists>m'. libnl_start m t = Some (int (16 + length X), m') \<and> msg_holds m' h (X @ attr_bytes t [])
      \<and> unat (nm_size m') - 16 = unat (nm_size m) - 16"
    using nla_nest_start_appends [of m h X "uint t"] by (auto simp: libnl_start_def)
next
  fix m X t Y
  assume "msg_holds m h (X @ attr_bytes t [] @ Y)" "Y \<noteq> []" "4 dvd length Y" "length Y \<le> 65531"
  then show "\<exists>m'. libnl_fin m (int (16 + length X)) = Some m' \<and> msg_holds m' h (X @ attr_bytes t Y)
      \<and> unat (nm_size m') - 16 = unat (nm_size m) - 16"
    using nla_nest_end_closes [of m h X t Y] by (auto simp: libnl_fin_def)
qed

section \<open>Parsing what was written\<close>

lemma attr_at_fields:
  assumes "bytes_at m q (attr_bytes t d)" "length d \<le> 65531"
  shows "get_u16 m (int q) = Some (word_of_nat (4 + length d))"
    "get_u16 m (int q + 2) = Some t"
    "nla_len m (int q) = Some (int (length d))"
    "c_read m (nla_data (int q)) (int (length d)) = Some d"
proof -
  have u: "unat (word_of_nat (4 + length d) :: 16 word) = 4 + length d"
    using assms(2) unat_word_small [of "4 + length d", where 'a = 16] by simp
  have parts: "bytes_at m q (le_bytes 2 (unat (word_of_nat (4 + length d) :: 16 word)))"
    "bytes_at m (q + 2) (le_bytes 2 (unat t))" "bytes_at m (q + 4) d"
    unfolding u using assms(1)
    by (simp_all add: attr_bytes_def bytes_at_append add.assoc del: add_2_eq_Suc add_2_eq_Suc')
  show l: "get_u16 m (int q) = Some (word_of_nat (4 + length d))"
    using u16.load_bytes [OF parts(1)] .
  show "get_u16 m (int q + 2) = Some t"
    using u16.load_bytes [OF parts(2)] by (simp add: add.commute)
  show "nla_len m (int q) = Some (int (length d))"
    using l u by (simp add: nla_len_def uint_nat del: of_nat_unat)
  show "c_read m (nla_data (int q)) (int (length d)) = Some d"
    using c_read_bytes [OF parts(3)] by (simp add: nla_data_def)
qed

lemma nla_each_Nil:
  "nla_for_each_attr m body p 0 s = Some (Inl (0, s))"
  by (subst nla_for_each_attr.simps) (simp add: nla_ok_def)

lemma nla_each_Cons:
  assumes at: "bytes_at m q (attr_bytes t d)" and d: "length d \<le> 65531"
    and rem: "rem = 4 + up4 (length d) + k" "rem < 2 ^ 31"
  shows "nla_for_each_attr m body (int q) (int rem) s = body (int q) s \<bind> (\<lambda>x.
    case x of Inr r \<Rightarrow> Some (Inr r)
    | Inl s \<Rightarrow> nla_for_each_attr m body (int (q + (4 + up4 (length d)))) (int k) s)"
proof -
  have u: "uint (word_of_nat (4 + length d) :: 16 word) = 4 + int (length d)"
    using d unat_word_small [of "4 + length d", where 'a = 16] by (simp add: uint_nat del: of_nat_unat)
  have r4: "4 + length d \<le> rem" using rem up4_facts(1) [of "length d"] by simp
  have "\<not> (word_of_int (int rem) :: 64 word) < 4"
    using rem r4 unat_word_small [of rem, where 'a = 64] by (simp add: word_less_nat_alt)
  then have ok: "nla_ok m (int q) (int rem) = Some True"
    using attr_at_fields(1) [OF at d] u r4 by (simp add: nla_ok_def)
  have "NLA_ALIGN (4 + int (length d)) = int (4 + up4 (length d))"
    using NLA_ALIGN_int [of "4 + length d"] up4_header by simp
  then have nxt: "nla_next m (int q) (int rem) = Some (int (q + (4 + up4 (length d))), int k)"
    using attr_at_fields(1) [OF at d] u rem by (simp add: nla_next_def c_int_ok_def)
  show ?thesis
    by (subst nla_for_each_attr.simps) (simp add: ok nxt)
qed

lemma take_and_push: "take_bit n a AND push_bit n b = (0 :: int)"
  by (rule bit_eqI) (auto simp: bit_simps)

lemma nla_type_plain:
  assumes "get_u16 m (p + 2) = Some t" "unat t < 2 ^ 14"
  shows "nla_type m p = Some (int (unat t))"
proof -
  have "uint t AND NOT (0x8000 OR 0x4000) = uint t - (uint t AND (0x8000 OR 0x4000))"
    by (rule and_not_mask)
  moreover have "uint t AND (0x8000 OR 0x4000) = 0"
  proof -
    have "int (unat t) < int (2 ^ 14)" using assms(2) by (simp only: of_nat_less_iff)
    then have t: "take_bit 14 (uint t) = uint t"
      by (intro take_bit_int_eq_self) simp_all
    have c: "(0x8000 OR 0x4000 :: int) = push_bit 14 3" by code_simp
    show ?thesis unfolding c using take_and_push [of 14 "uint t" 3] unfolding t .
  qed
  ultimately show ?thesis unfolding nla_type_def using assms(1) by simp
qed

text \<open>An attribute that a policy lets pass.\<close>

definition policy_accepts :: "nla_policy \<Rightarrow> byte list \<Rightarrow> bool" where
  "policy_accepts pt d \<longleftrightarrow> pol_type pt \<le> NLA_TYPE_MAX
     \<and> (if pol_minlen pt \<noteq> 0 then pol_minlen pt else if pol_type pt \<noteq> NLA_UNSPEC then nla_attr_minlen ! pol_type pt else 0) \<le> length d
     \<and> (pol_maxlen pt \<noteq> 0 \<longrightarrow> length d \<le> pol_maxlen pt) \<and> (pol_type pt = NLA_STRING \<longrightarrow> d \<noteq> [] \<and> last d = 0)"

definition policy_fits :: "nla_policy list option \<Rightarrow> nat \<Rightarrow> 16 word \<Rightarrow> byte list \<Rightarrow> bool" where
  "policy_fits policy mx t d \<longleftrightarrow> (case policy of None \<Rightarrow> True
     | Some pol \<Rightarrow> unat t \<le> mx \<longrightarrow> unat t < length pol \<and> policy_accepts (pol ! unat t) d)"

lemma validate_fits:
  assumes at: "bytes_at m q (attr_bytes t d)" and d: "length d \<le> 65531" and t: "unat t < 2 ^ 14"
    and fits: "policy_fits (Some pol) mx t d" "unat t \<le> mx"
  shows "validate_nla m (int q) (int mx) pol = Some 0"
proof -
  define pt where "pt = pol ! unat t"
  define mn where "mn = (if pol_minlen pt \<noteq> 0 then pol_minlen pt
    else if pol_type pt \<noteq> NLA_UNSPEC then nla_attr_minlen ! pol_type pt else 0)"
  have acc: "unat t < length pol" "policy_accepts pt d" "mn \<le> length d"
    using fits by (auto simp: policy_fits_def pt_def mn_def policy_accepts_def)
  have ty: "nla_type m (int q) = Some (int (unat t))"
    by (rule nla_type_plain [OF attr_at_fields(2) [OF at d] t])
  have n: "nla_len m (int q) = Some (int (length d))"
    by (rule attr_at_fields(3) [OF at d])
  have "unat (word_of_nat (length d) :: 32 word) = length d" "unat (word_of_nat mn :: 32 word) = mn"
    using d acc(3) by (simp_all add: unat_word_small)
  then have lo: "\<not> (word_of_nat (length d) :: 32 word) < word_of_nat mn"
    using acc(3) by (simp add: word_less_nat_alt)
  have str: "c_load m (nla_data (int q) + (int (length d) - 1)) = Some 0" if s: "pol_type pt = NLA_STRING"
  proof -
    have dd: "d \<noteq> []" "last d = 0"
      using acc(2) s by (auto simp: policy_accepts_def)
    have "bytes_at m (q + 4) d"
      using attr_at_fields(4) [OF at d] c_read_Some [of m "nla_data (int q)" "int (length d)" d]
      by (simp add: nla_data_def nat_add_distrib add.commute)
    moreover have "length d - 1 < length d"
      using dd(1) by simp
    ultimately have "q + 4 + (length d - 1) < length m" "m ! (q + 4 + (length d - 1)) = Some (last d)"
      using dd(1) unfolding bytes_at_nth last_conv_nth [OF dd(1)] by (linarith, blast)
    then have "c_load m (int (q + 4 + (length d - 1))) = Some (last d)"
      unfolding c_load_def by (simp del: of_nat_add)
    moreover have "nla_data (int q) + (int (length d) - 1) = int (q + 4 + (length d - 1))"
      using dd(1) by (cases d) (simp_all add: nla_data_def)
    ultimately show ?thesis
      using dd(2) by (simp only:)
  qed
  show ?thesis
    using acc(1,2) fits(2) lo [unfolded mn_def] str
    by (auto simp: validate_nla_def ty n policy_accepts_def pt_def [symmetric] Let_def simp del: of_nat_unat split: if_splits)
qed

text \<open>
  The index that a parse builds when the policy refuses no attribute: for every type, the last
  attribute of that type in the stream.
\<close>

lemma nla_parse_index:
  assumes "bytes_at m q (attrs_bytes as)" "length (attrs_bytes as) < 2 ^ 31"
    and "\<forall>(t, d) \<in> set as. unat t < 2 ^ 14 \<and> length d \<le> 65531" "length tb = Suc mx"
    and "\<forall>(t, d) \<in> set as. policy_fits policy mx t d"
  shows "\<exists>tb'. nla_for_each_attr m (nla_parse_body m (int mx) policy) (int q) (int (length (attrs_bytes as))) tb
      = Some (Inl (0, tb')) \<and> length tb' = Suc mx
    \<and> (\<forall>t. unat t \<le> mx \<longrightarrow> (case map_of (rev as) t of None \<Rightarrow> tb' ! unat t = tb ! unat t
         | Some d \<Rightarrow> \<exists>p. tb' ! unat t = Some (int p) \<and> bytes_at m p (attr_bytes t d)))"
  using assms
proof (induction as arbitrary: q tb)
  case Nil
  then show ?case by (simp add: nla_each_Nil)
next
  case (Cons a as)
  obtain t d where a: "a = (t, d)" by force
  have at: "bytes_at m q (attr_bytes t d)" "bytes_at m (q + (4 + up4 (length d))) (attrs_bytes as)"
    and t: "unat t < 2 ^ 14" and d: "length d \<le> 65531"
    and fit: "policy_fits policy mx t d" and fits: "\<forall>(t, d) \<in> set as. policy_fits policy mx t d"
    using Cons.prems a by (auto simp: bytes_at_append)
  define tb1 where "tb1 = (if unat t > mx then tb else tb[unat t := Some (int q)])"
  have l1: "length tb1 = Suc mx" using Cons.prems(4) by (simp add: tb1_def)
  have "nla_parse_body m (int mx) policy (int q) tb = Some (Inl tb1)"
    using nla_type_plain [OF attr_at_fields(2) [OF at(1) d] t] validate_fits [OF at(1) d t] fit
    by (cases policy) (auto simp: nla_parse_body_def tb1_def policy_fits_def simp del: of_nat_unat)
  then have step: "nla_for_each_attr m (nla_parse_body m (int mx) policy) (int q) (int (length (attrs_bytes (a # as)))) tb
      = nla_for_each_attr m (nla_parse_body m (int mx) policy) (int (q + (4 + up4 (length d))))
          (int (length (attrs_bytes as))) tb1"
    using nla_each_Cons [OF at(1) d, of "length (attrs_bytes (a # as))" "length (attrs_bytes as)"
        "nla_parse_body m (int mx) policy" tb] Cons.prems(2) a by simp
  have small: "length (attrs_bytes as) < 2 ^ 31"
    and rest: "\<forall>(t, d) \<in> set as. unat t < 2 ^ 14 \<and> length d \<le> 65531"
    using Cons.prems(2,3) a by simp_all
  obtain tb' where tb': "nla_for_each_attr m (nla_parse_body m (int mx) policy)
      (int (q + (4 + up4 (length d)))) (int (length (attrs_bytes as))) tb1 = Some (Inl (0, tb'))"
    "length tb' = Suc mx"
    "\<forall>u. unat u \<le> mx \<longrightarrow> (case map_of (rev as) u of None \<Rightarrow> tb' ! unat u = tb1 ! unat u
       | Some d \<Rightarrow> \<exists>p. tb' ! unat u = Some (int p) \<and> bytes_at m p (attr_bytes u d))"
    using Cons.IH [OF at(2) small rest l1 fits] by (elim exE conjE)
  have "case map_of (rev (a # as)) u of None \<Rightarrow> tb' ! unat u = tb ! unat u
       | Some d \<Rightarrow> \<exists>p. tb' ! unat u = Some (int p) \<and> bytes_at m p (attr_bytes u d)"
    if "unat u \<le> mx" for u
  proof (cases "map_of (rev as) u")
    case None
    have "unat u = unat t \<longleftrightarrow> u = t"
      by (rule word_unat_eq_iff [symmetric])
    then have "tb1 ! unat u = (if u = t then Some (int q) else tb ! unat u)"
      unfolding tb1_def using that Cons.prems(4) by (cases "u = t") simp_all
    then show ?thesis
      using tb'(3) [rule_format, OF that] None at(1) a by (auto simp: map_add_def)
  next
    case (Some d')
    then show ?thesis
      using tb'(3) [rule_format, OF that] a by (simp add: map_add_def)
  qed
  then show ?case unfolding step
    by (intro exI [of _ tb'] conjI allI impI tb'(1,2))
qed

section \<open>The family header\<close>

lemma reserve_tlen:
  assumes "n + 3 < 2 ^ 31"
  shows "(word_of_nat n + word_of_int (4 - 1)) AND word_of_int (NOT (4 - 1)) = (word_of_nat (up4 n) :: 64 word)"
proof -
  have u: "unat (word_of_nat n :: 64 word) = n"
    using assms unat_word_small [of n, where 'a = 64] by simp
  have "(word_of_nat n + word_of_int (4 - 1)) AND word_of_int (NOT (4 - 1))
      = NLMSG_ALIGN (word_of_nat n :: 64 word)"
    by (simp add: NLMSG_ALIGN_def)
  moreover have "unat (NLMSG_ALIGN (word_of_nat n :: 64 word)) = up4 n"
    using unat_NLMSG_ALIGN [of "word_of_nat n :: 64 word"] assms u by simp
  moreover have "unat (word_of_nat (up4 n) :: 64 word) = up4 n"
    using assms up4_facts(2) [of n] unat_word_small [of "up4 n", where 'a = 64] by simp
  ultimately show ?thesis by (metis word_unat_eq_iff)
qed

text \<open>Reserving with padding to four: where the room starts and which cells are cleared.\<close>

lemma nlmsg_reserve_eq:
  assumes len: "hdr_len (nm_nlh m) 0 = Some (word_of_nat p)"
    and fits: "p + up4 n \<le> unat (nm_size m)" "p + up4 n \<le> 2 ^ 30"
    and b1: "put_u32 (nm_nlh m) 0 (word_of_nat (p + up4 n)) = Some b1"
    and b2: "c_write b1 (int (p + n)) (replicate (up4 n - n) 0) = Some b2"
  shows "nlmsg_reserve m (word_of_nat n) NLMSG_ALIGNTO = Some (Some (int p), m\<lparr>nm_nlh := b2\<rparr>)"
proof -
  have n: "n \<le> up4 n" "up4 n < n + 4" using up4_facts [of n] by auto
  have u: "unat (word_of_nat n :: 64 word) = n" "unat (word_of_nat (up4 n) :: 64 word) = up4 n"
    "unat (word_of_nat p :: 64 word) = p" "unat (word_of_nat (up4 n + p) :: 64 word) = up4 n + p"
    by (rule unat_word_small, use fits n in simp)+
  have tlen: "(word_of_nat n + word_of_int (4 - 1)) AND word_of_int (NOT (4 - 1)) = (word_of_nat (up4 n) :: 64 word)"
    by (rule reserve_tlen) (use fits n in simp)
  have nlen: "(ucast (word_of_nat p :: 32 word) :: 64 word) = word_of_nat p"
    by (rule ucast_up_of_nat) (use fits in simp)
  have room: "\<not> (word_of_nat (up4 n + p) > nm_size m)"
    using u(4) fits by (simp add: word_less_nat_alt)
  have cast: "(ucast (word_of_nat (up4 n) :: 64 word) :: 32 word) = word_of_nat (up4 n)"
    by (rule ucast_of_nat) simp
  have gt: "(word_of_nat n < (word_of_nat (up4 n) :: 64 word)) \<longleftrightarrow> n < up4 n"
    using u by (simp add: word_less_nat_alt)
  have d: "unat (word_of_nat (up4 n) - (word_of_nat n :: 64 word)) = up4 n - n"
    using u n by (simp add: unat_sub word_le_nat_alt)
  have pad: "(if word_of_nat n < (word_of_nat (up4 n) :: 64 word)
      then c_memset b1 (uint (word_of_nat p :: 64 word) + uint (word_of_nat n :: 64 word)) 0
             (uint (word_of_nat (up4 n) - (word_of_nat n :: 64 word))) else Some b1) = Some b2"
    using b2 n c_write_Nil [of b1 "int (p + n)" b2]
    unfolding gt uint_of_unat [OF u(1)] uint_of_unat [OF u(3)] uint_of_unat [OF d]
    by (cases "n < up4 n") (auto simp: c_memset_def nat_diff_distrib)
  have p4: "(4 :: int) \<noteq> 0" by simp
  show ?thesis
    by (simp only: nlmsg_reserve_def Let_def len bind.bind_lunit p4 if_True not_False_eq_True tlen nlen room
        if_False cast b1 of_nat_add [symmetric] uint_of_unat [OF u(3)] pad [unfolded uint_of_unat [OF u(3)]])
qed

lemma nlmsg_append_appends:
  assumes m: "msg_holds m h body" and room: "16 + length body + up4 (length d) \<le> unat (nm_size m)"
  shows "\<exists>b. nlmsg_append m d (word_of_nat (length d)) NLMSG_ALIGNTO = Some (0, m\<lparr>nm_nlh := b\<rparr>)
    \<and> msg_holds (m\<lparr>nm_nlh := b\<rparr>) h (body @ d @ replicate (up4 (length d) - length d) 0)"
proof -
  note M = msg_holds_parts [OF m]
  define p where "p = 16 + length body"
  define n where "n = length d"
  have n: "n \<le> up4 n" "up4 n < n + 4" using up4_facts [of n] by auto
  have big: "p + up4 n \<le> 2 ^ 30" "p + up4 n \<le> length (nm_nlh m)"
    using M room by (auto simp: p_def n_def)
  have u: "unat (word_of_nat n :: 64 word) = n" "unat (word_of_nat (up4 n) :: 64 word) = up4 n"
    "unat (word_of_nat p :: 64 word) = p" "unat (word_of_nat (p + up4 n) :: 32 word) = p + up4 n"
    "unat (word_of_nat (up4 n + p) :: 64 word) = up4 n + p"
    by (rule unat_word_small, use big n in simp)+
  obtain b1 where b1: "put_u32 (nm_nlh m) (int 0) (word_of_nat (p + up4 n)) = Some b1"
    using u32.store_in [of 0 "nm_nlh m"] big by (auto simp: p_def)
  have l1: "length b1 = length (nm_nlh m)" using u32.store_length [OF b1] .
  obtain b2 where b2: "c_write b1 (int (p + n)) (replicate (up4 n - n) 0) = Some b2"
    using c_write_ex [of "p + n" "replicate (up4 n - n) 0" b1] big n l1 by auto
  have l2: "length b2 = length (nm_nlh m)" using c_write_length [OF b2] l1 by simp
  obtain b3 where b3: "c_write b2 (int p) d = Some b3"
    using c_write_ex [of p d b2] big n l2 by (auto simp: n_def)
  have l3: "length b3 = length (nm_nlh m)" using c_write_length [OF b3] l2 by simp
  have "bytes_at b3 0 (msg_text h (body @ d @ replicate (up4 n - n) 0))"
    using M(1,7,8) u32.store_bytes_at [OF b1, unfolded u] u32.store_other [OF b1]
      c_write_at [OF b2] c_write_other [OF b2] c_write_at [OF b3] c_write_other [OF b3] n
    by (simp add: msg_text_def bytes_at_append p_def n_def add.assoc)
  moreover have "4 dvd length (body @ d @ replicate (up4 n - n) 0)"
    using M(2) n by (simp add: n_def)
  ultimately have "msg_holds (m\<lparr>nm_nlh := b3\<rparr>) h (body @ d @ replicate (up4 n - n) 0)"
    using M(1,3,4) l3 by (simp add: msg_holds_def)
  moreover have "nlmsg_append m d (word_of_nat n) NLMSG_ALIGNTO = Some (0, m\<lparr>nm_nlh := b3\<rparr>)"
    using nlmsg_reserve_eq [of m p n b1 b2] msg_holds_len [OF m] big M(3) b1 b2 b3 u(1)
    by (simp add: nlmsg_append_def c_memcpy_def p_def n_def uint_of_unat)
  ultimately show ?thesis unfolding n_def by blast
qed

lemma nlmsg_parse_area:
  assumes m: "msg_holds m h (F @ A)" and F: "length F = up4 k"
  shows "nlmsg_valid_hdr (nm_nlh m) 0 (int k) = Some True"
    "nlmsg_attrlen (nm_nlh m) 0 (int k) = Some (int (length A))"
    "nlmsg_attrdata 0 (int k) = int (16 + length F)"
    "bytes_at (nm_nlh m) (16 + length F) A"
proof -
  note M = msg_holds_parts [OF m]
  define N where "N = 16 + length F + length A"
  have N: "N \<le> 2 ^ 30" "k \<le> length F" "k \<le> 2 ^ 30"
    using M F up4_facts(1) [of k] by (auto simp: N_def)
  have len: "hdr_len (nm_nlh m) 0 = Some (word_of_nat N)"
    using msg_holds_len [OF m] by (simp add: N_def add.assoc)
  have u: "unat (word_of_nat N :: 32 word) = N" "unat (word_of_nat (16 + k) :: 32 word) = 16 + k"
    "unat (word_of_nat k :: 32 word) = k" "unat (word_of_nat (length F) :: 32 word) = length F"
    by (rule unat_word_small, use N in \<open>simp add: N_def\<close>)+
  have "unat (NLMSG_ALIGN (word_of_nat k :: 32 word)) = length F"
    using unat_NLMSG_ALIGN [of "word_of_nat k :: 32 word"] u(3) N F by simp
  then have al: "NLMSG_ALIGN (word_of_nat k :: 32 word) = word_of_nat (length F)"
    using u(4) by (simp add: word_unat_eq_iff)
  have "nlmsg_msg_size (int k) = Some (int (16 + k))"
    using N by (simp add: nlmsg_msg_size_def nlmsg_size_def c_int_ok_def)
  moreover have "\<not> (word_of_nat N :: 32 word) < word_of_nat (16 + k)"
    using u N by (simp only: word_less_nat_alt) (simp add: N_def)
  ultimately show "nlmsg_valid_hdr (nm_nlh m) 0 (int k) = Some True"
    by (simp add: nlmsg_valid_hdr_def len)
  show "nlmsg_attrdata 0 (int k) = int (16 + length F)"
    using al uint_of_unat [OF u(4)] by (simp add: nlmsg_attrdata_def nlmsg_data_def)
  have d1: "(word_of_nat N - word_of_int NLMSG_HDRLEN :: 32 word) = word_of_nat (length F + length A)"
    by (simp add: N_def)
  have "sint (word_of_nat (length F + length A) :: 32 word) = int (length F + length A)"
    by (rule sint_small) (use N in \<open>simp add: N_def\<close>)
  then have n: "nlmsg_datalen (nm_nlh m) 0 = Some (int (length F + length A))"
    unfolding nlmsg_datalen_def len using d1 by simp
  have d2: "(word_of_int (int (length F + length A)) - word_of_nat (length F) :: 32 word) = word_of_nat (length A)"
    by simp
  have "sint (word_of_nat (length A) :: 32 word) = int (length A)"
    by (rule sint_small) (use N in \<open>simp add: N_def\<close>)
  then show "nlmsg_attrlen (nm_nlh m) 0 (int k) = Some (int (length A))"
    unfolding nlmsg_attrlen_def n using al d2 by (simp del: of_nat_add)
  show "bytes_at (nm_nlh m) (16 + length F) A"
    using M(8) by (simp add: bytes_at_append)
qed

text \<open>The lookups that an index array answers for a list of attributes.\<close>

definition indexes :: "byte cells \<Rightarrow> nat \<Rightarrow> (16 word \<times> byte list) list \<Rightarrow> int option list \<Rightarrow> bool" where
  "indexes m mx as tb \<longleftrightarrow> length tb = Suc mx \<and> (\<forall>t. unat t \<le> mx \<longrightarrow>
     (case map_of (rev as) t of None \<Rightarrow> tb ! unat t = None
      | Some d \<Rightarrow> \<exists>p. tb ! unat t = Some p \<and> nla_len m p = Some (int (length d))
          \<and> c_read m (nla_data p) (int (length d)) = Some d))"

definition attrs_plain :: "(16 word \<times> byte list) list \<Rightarrow> bool" where
  "attrs_plain as \<longleftrightarrow> list_all (\<lambda>(t, d). unat t < 2 ^ 14 \<and> length d \<le> 65531) as"

lemma nla_parse_policy:
  assumes "bytes_at m q (attrs_bytes as)" "length (attrs_bytes as) < 2 ^ 31" "attrs_plain as"
    and mx: "int mx < INT_MAX" and fits: "list_all (\<lambda>(t, d). policy_fits policy mx t d) as"
  shows "\<exists>tb. nla_parse m (int mx) (int q) (int (length (attrs_bytes as))) policy = Some (0, tb)
    \<and> indexes m mx as tb"
proof -
  have pl: "\<forall>(t, d) \<in> set as. unat t < 2 ^ 14 \<and> length d \<le> 65531"
    using assms(3) by (simp add: attrs_plain_def list_all_iff)
  let ?tb0 = "replicate (Suc mx) None :: int option list"
  obtain tb where tb: "nla_for_each_attr m (nla_parse_body m (int mx) policy) (int q)
        (int (length (attrs_bytes as))) ?tb0 = Some (Inl (0, tb))" "length tb = Suc mx"
    and ix: "\<forall>t. unat t \<le> mx \<longrightarrow> (case map_of (rev as) t of None \<Rightarrow> tb ! unat t = ?tb0 ! unat t
         | Some d \<Rightarrow> \<exists>p. tb ! unat t = Some (int p) \<and> bytes_at m p (attr_bytes t d))"
    using nla_parse_index [OF assms(1,2) pl, of ?tb0 mx policy] fits by (auto simp: list_all_iff simp del: replicate_Suc)
  have "nat (int mx + 1) = Suc mx" by simp
  then have "nla_parse m (int mx) (int q) (int (length (attrs_bytes as))) policy = Some (0, tb)"
    using tb(1) mx by (simp add: nla_parse_def c_int_ok_def del: replicate_Suc)
  moreover have "case map_of (rev as) t of None \<Rightarrow> tb ! unat t = None
      | Some d \<Rightarrow> \<exists>p. tb ! unat t = Some p \<and> nla_len m p = Some (int (length d))
          \<and> c_read m (nla_data p) (int (length d)) = Some d" if "unat t \<le> mx" for t
  proof (cases "map_of (rev as) t")
    case None
    then show ?thesis using ix [rule_format, OF that] that by (simp del: replicate_Suc)
  next
    case (Some d)
    have "length d \<le> 65531" using pl map_of_SomeD [OF Some] by auto
    then show ?thesis
      using ix [rule_format, OF that] Some attr_at_fields(3,4) [of m _ t d] by auto
  qed
  ultimately show ?thesis using tb(2) unfolding indexes_def by blast
qed

lemma nla_parse_indexes:
  assumes "bytes_at m q (attrs_bytes as)" "length (attrs_bytes as) < 2 ^ 31" "attrs_plain as" "int mx < INT_MAX"
  shows "\<exists>tb. nla_parse m (int mx) (int q) (int (length (attrs_bytes as))) None = Some (0, tb)
    \<and> indexes m mx as tb"
  using assms by (intro nla_parse_policy) (simp_all add: policy_fits_def list_all_iff)

lemma libnl_puts:
  assumes "msg_holds m h X" "attrs_plain as" "length X + length (attrs_bytes as) \<le> unat (nm_size m) - 16"
  shows "\<exists>m'. ofold (\<lambda>(t, d) m. libnl_put m t d) as m = Some m'
    \<and> msg_holds m' h (X @ attrs_bytes as) \<and> nm_size m' = nm_size m"
  using assms
proof (induction as arbitrary: m X)
  case (Cons a as)
  obtain t d where a: "a = (t, d)" by force
  have d: "length d \<le> 65531" "attrs_plain as"
    using Cons.prems(2) a by (simp_all add: attrs_plain_def)
  have fit: "16 + length X + (4 + up4 (length d)) \<le> unat (nm_size m)"
    using Cons.prems(3) a by simp
  obtain m1 where m1: "libnl_put m t d = Some m1" "msg_holds m1 h (X @ attr_bytes t d)" "nm_size m1 = nm_size m"
    using nla_put_appends [OF Cons.prems(1) d(1) fit, of "uint t"] by (auto simp: libnl_put_def)
  have "length (X @ attr_bytes t d) + length (attrs_bytes as) \<le> unat (nm_size m1) - 16"
    using Cons.prems(3) a m1(3) by simp
  then obtain m2 where "ofold (\<lambda>(t, d) m. libnl_put m t d) as m1 = Some m2"
    "msg_holds m2 h ((X @ attr_bytes t d) @ attrs_bytes as)" "nm_size m2 = nm_size m1"
    using Cons.IH [OF m1(2) d(2)] by blast
  then show ?case using a m1 by simp
qed simp

lemma nlmsg_alloc_size_holds:
  assumes "16 \<le> unat len" "unat len \<le> 2 ^ 30"
  shows "\<exists>m. nlmsg_alloc_size (\<lambda>_. True) len = Some (Some m) \<and> msg_holds m (replicate 12 0) []
    \<and> nm_size m = len"
proof -
  have "\<not> len < 16" using assms by (simp add: word_less_nat_alt)
  then show ?thesis
    using nlmsg_alloc_len_holds [of "\<lambda>_. True" len] assms(2) unfolding nlmsg_alloc_size_def
    by (auto simp del: word_neq_0_conv)
qed

section \<open>Properties\<close>

text \<open>
  C5. What is put into a message with libnl is what parsing the message finds.  A message
  with room for them, given a family header and a list of attributes (types without flag bits,
  payloads that the length field can express), accepts every \<open>nla_put\<close>; parsing it with the
  size of that family header then yields, for every type up to the maximum, the payload of the
  last attribute of the type, and \<open>NULL\<close> for a type that was not put.
\<close>

theorem libnl_attrs_roundtrip:
  assumes "unat len \<le> 2 ^ 30"
    and "16 + up4 (length F) + length (attrs_bytes as) \<le> unat len"
    and "attrs_plain as" "int mx < INT_MAX"
  shows "\<exists>m0 m1 m tb. nlmsg_alloc_size (\<lambda>_. True) len = Some (Some m0)
    \<and> nlmsg_append m0 F (word_of_nat (length F)) NLMSG_ALIGNTO = Some (0, m1)
    \<and> ofold (\<lambda>(t, d) m. libnl_put m t d) as m1 = Some m
    \<and> nlmsg_parse (nm_nlh m) 0 (int (length F)) [] (int mx) None = Some (0, tb)
    \<and> indexes (nm_nlh m) mx as tb"
proof -
  obtain m0 where m0: "nlmsg_alloc_size (\<lambda>_. True) len = Some (Some m0)"
    "msg_holds m0 (replicate 12 0) []" "nm_size m0 = len"
    using nlmsg_alloc_size_holds [of len] assms(1,2) by auto
  define G where "G = F @ replicate (up4 (length F) - length F) 0"
  have G: "length G = up4 (length F)" using up4_facts(1) [of "length F"] by (simp add: G_def)
  obtain b where m1: "nlmsg_append m0 F (word_of_nat (length F)) NLMSG_ALIGNTO = Some (0, m0\<lparr>nm_nlh := b\<rparr>)"
    "msg_holds (m0\<lparr>nm_nlh := b\<rparr>) (replicate 12 0) G"
    using nlmsg_append_appends [OF m0(2), of F] assms(2) m0(3) by (auto simp: G_def)
  have room: "length G + length (attrs_bytes as) \<le> unat (nm_size (m0\<lparr>nm_nlh := b\<rparr>)) - 16"
    using assms(2) G m0(3) by simp
  obtain m where m: "ofold (\<lambda>(t, d) m. libnl_put m t d) as (m0\<lparr>nm_nlh := b\<rparr>) = Some m"
    "msg_holds m (replicate 12 0) (G @ attrs_bytes as)"
    using libnl_puts [OF m1(2) assms(3) room] by blast
  note A = nlmsg_parse_area [OF m(2) G]
  have "length (attrs_bytes as) < 2 ^ 31" using assms(1,2) by simp
  then obtain tb where "nla_parse (nm_nlh m) (int mx) (int (16 + length G)) (int (length (attrs_bytes as))) None
      = Some (0, tb)" "indexes (nm_nlh m) mx as tb"
    using nla_parse_indexes [OF A(4) _ assms(3,4)] by blast
  then have "nlmsg_parse (nm_nlh m) 0 (int (length F)) [] (int mx) None = Some (0, tb)"
    using A(1-3) by (simp add: nlmsg_parse_def)
  with \<open>indexes (nm_nlh m) mx as tb\<close> m0(1) m1(1) m(1) show ?thesis by blast
qed

theorem libnl_attrs_roundtrip_witness:
  "\<exists>m0 m1 m tb. nlmsg_alloc_size (\<lambda>_. True) 64 = Some (Some m0)
    \<and> nlmsg_append m0 [1, 2, 3] (word_of_nat (length [1, 2, 3 :: byte])) NLMSG_ALIGNTO = Some (0, m1)
    \<and> ofold (\<lambda>(t, d) m. libnl_put m t d) [(1, [5, 6]), (3, []), (1, [7, 8, 9])] m1 = Some m
    \<and> nlmsg_parse (nm_nlh m) 0 (int (length [1, 2, 3 :: byte])) [] (int 4) None = Some (0, tb)
    \<and> indexes (nm_nlh m) 4 [(1, [5, 6]), (3, []), (1, [7, 8, 9])] tb"
  by (rule libnl_attrs_roundtrip) (simp_all add: up4_def attrs_plain_def)



end
