(* ===== verification/Net_Interop.thy ===== *)
theory Net_Interop
  imports Net_Ops_Props Nl_Attr_Props
begin

text \<open>
  The two netlink implementations of the repository understand each other: what the client of
  \<open>network/code\<close> sends is what the parser of libnl finds in it, nest by nest.
\<close>

section \<open>Attributes found by a parse\<close>

definition attr_at :: "byte cells \<Rightarrow> int \<Rightarrow> byte list \<Rightarrow> bool" where
  "attr_at m p d \<longleftrightarrow> nla_len m p = Some (int (length d)) \<and> c_read m (nla_data p) (int (length d)) = Some d"

lemma indexes_attr:
  assumes "indexes m mx as tb" "map_of (rev as) t = Some d" "unat t \<le> mx"
  shows "\<exists>p. tb ! unat t = Some p \<and> attr_at m p d"
proof -
  have "case map_of (rev as) t of None \<Rightarrow> tb ! unat t = None
      | Some d \<Rightarrow> \<exists>p. tb ! unat t = Some p \<and> nla_len m p = Some (int (length d))
          \<and> c_read m (nla_data p) (int (length d)) = Some d"
    using assms(1,3) unfolding indexes_def by blast
  then show ?thesis using assms(2) by (simp add: attr_at_def)
qed

lemma attr_at_bytes: "attr_at m p d \<Longrightarrow> \<exists>q. nla_data p = int q \<and> bytes_at m q d"
  using c_read_Some [of m "nla_data p" "int (length d)" d] by (auto simp: attr_at_def intro: exI [of _ "nat (nla_data p)"])

lemma nla_parse_nested_indexes:
  assumes "attr_at m p (attrs_bytes as)" "length (attrs_bytes as) < 2 ^ 31" "attrs_plain as" "int mx < INT_MAX"
  shows "\<exists>tb. nla_parse_nested m (int mx) p None = Some (0, tb) \<and> indexes m mx as tb"
proof -
  obtain q where "nla_data p = int q" "bytes_at m q (attrs_bytes as)"
    using attr_at_bytes [OF assms(1)] by blast
  then show ?thesis
    using nla_parse_indexes [of m q as mx] assms by (simp add: nla_parse_nested_def attr_at_def)
qed

lemma bytes_cmp_same [simp]: "bytes_cmp xs xs = 0"
  by (induction xs) auto

lemma nla_strcmp_same:
  assumes "attr_at m p (s @ [0])" "int (length s) < INT_MAX"
  shows "nla_strcmp m p s = Some 0"
  using assms by (simp add: nla_strcmp_def attr_at_def c_int_ok_def add.commute)

lemma nlmsg_parse_text_policy:
  assumes "length h = 12" "length F = up4 k" "length (F @ attrs_bytes as) \<le> 2 ^ 29"
    and "attrs_plain as" "int mx < INT_MAX" "list_all (\<lambda>(t, d). policy_fits policy mx t d) as"
  shows "\<exists>tb. nlmsg_parse (map Some (msg_text h (F @ attrs_bytes as))) 0 (int k) tb0 (int mx) policy = Some (0, tb)
    \<and> indexes (map Some (msg_text h (F @ attrs_bytes as))) mx as tb"
proof -
  let ?t = "msg_text h (F @ attrs_bytes as)"
  define m where "m = \<lparr>nm_protocol = 0, nm_flags = 0, nm_src = zero_sockaddr, nm_dst = zero_sockaddr,
     nm_creds = \<lparr>cr_pid = 0, cr_uid = 0, cr_gid = 0\<rparr>, nm_nlh = map Some ?t, nm_size = word_of_nat (length ?t), nm_refcnt = 0\<rparr>"
  have l: "length ?t = 16 + length (F @ attrs_bytes as)" using assms(1) by (simp add: msg_text_def)
  then have u: "unat (word_of_nat (length ?t) :: 64 word) = length ?t"
    using assms(3) by (intro unat_word_small) simp
  have "4 dvd length (F @ attrs_bytes as)" using assms(2) attrs_bytes_dvd [of as] by simp
  then have m: "msg_holds m h (F @ attrs_bytes as)"
    using assms(1,3) l u by (simp add: msg_holds_def m_def bytes_at_def del: of_nat_add)
  note A = nlmsg_parse_area [OF m assms(2)]
  have "length (attrs_bytes as) < 2 ^ 31" using assms(3) by simp
  then obtain tb where "nla_parse (nm_nlh m) (int mx) (int (16 + length F)) (int (length (attrs_bytes as))) policy
      = Some (0, tb)" "indexes (nm_nlh m) mx as tb"
    using nla_parse_policy [OF A(4) _ assms(4-6)] by blast
  then show ?thesis
    using A(1-3) by (auto simp: nlmsg_parse_def m_def)
qed

lemma nlmsg_parse_text:
  assumes "length h = 12" "length F = up4 k" "length (F @ attrs_bytes as) \<le> 2 ^ 29"
    and "attrs_plain as" "int mx < INT_MAX"
  shows "\<exists>tb. nlmsg_parse (map Some (msg_text h (F @ attrs_bytes as))) 0 (int k) [] (int mx) None = Some (0, tb)
    \<and> indexes (map Some (msg_text h (F @ attrs_bytes as))) mx as tb"
  by (rule nlmsg_parse_text_policy [OF assms]) (simp add: policy_fits_def list_all_iff)

section \<open>The request for a pair of interfaces\<close>

text \<open>
  What a reader with libnl finds in a request: the name and the kind of the link, then, inside
  the link information, its data and the peer, the name of the other end.
\<close>

definition reads_veth :: "byte cells \<Rightarrow> byte list \<Rightarrow> byte list \<Rightarrow> bool option" where
  "reads_veth m name1 name2 = do {
     (e0, tb0) \<leftarrow> nlmsg_parse m 0 16 [] 18 None;
     ifname \<leftarrow> tb0 ! 3;
     c1 \<leftarrow> nla_strcmp m ifname name1;
     info \<leftarrow> tb0 ! 18;
     (e1, tb1) \<leftarrow> nla_parse_nested m 2 info None;
     kind \<leftarrow> tb1 ! 1;
     c2 \<leftarrow> nla_strcmp m kind [118, 101, 116, 104];
     data \<leftarrow> tb1 ! 2;
     (e2, tb2) \<leftarrow> nla_parse_nested m 1 data None;
     peer \<leftarrow> tb2 ! 1;
     n \<leftarrow> nla_len m peer;
     (e3, tb3) \<leftarrow> nla_parse m 3 (nla_data peer + 16) (n - 16) None;
     peername \<leftarrow> tb3 ! 3;
     c3 \<leftarrow> nla_strcmp m peername name2;
     Some (e0 = 0 \<and> e1 = 0 \<and> e2 = 0 \<and> e3 = 0 \<and> c1 = 0 \<and> c2 = 0 \<and> c3 = 0)
   }"

lemma veth_request_read:
  assumes n1: "length name1 < IFNAMSIZ" and n2: "length name2 < IFNAMSIZ"
  shows "reads_veth (map Some (veth_request name1 name2)) name1 name2 = Some True"
proof -
  let ?m = "map Some (veth_request name1 name2)"
  let ?as0 = "[(18, veth_info name2), (3, name1 @ [0])]"
  let ?as1 = "[(1, [118, 101, 116, 104, 0]), (2, attr_bytes 1 (veth_peer name2))]"
  note P = length_veth_parts [OF n2] name_room [OF n2]
  note Q = length_veth_parts(1) [OF n1] name_room [OF n1]
  have up: "up4 (Suc (length name1)) \<le> 16" "up4 (Suc (length name2)) \<le> 16" using P Q by simp_all
  have req: "veth_request name1 name2 = msg_text (kind_bytes RTM_NEWLINK 0x605) (replicate 16 0 @ attrs_bytes ?as0)"
    by (simp add: veth_request_def name_attr_def)
  have info: "veth_info name2 = attrs_bytes ?as1" by (simp add: veth_info_def)
  have data: "attr_bytes 1 (veth_peer name2) = attrs_bytes [(1, veth_peer name2)]" by simp
  have l1: "length (attr_bytes 1 (veth_peer name2)) \<le> 40" using P up by simp
  have "\<exists>tb. nlmsg_parse ?m 0 (int 16) [] (int 18) None = Some (0, tb) \<and> indexes ?m 18 ?as0 tb"
    unfolding req using P up n1
    by (intro nlmsg_parse_text) (simp_all add: kind_bytes_def up4_def [of 16] attrs_plain_def)
  then obtain tb0 where t0: "nlmsg_parse ?m 0 16 [] 18 None = Some (0, tb0)" "indexes ?m 18 ?as0 tb0" by auto
  obtain p3 where p3: "tb0 ! 3 = Some p3" "attr_at ?m p3 (name1 @ [0])"
    using indexes_attr [OF t0(2), of 3 "name1 @ [0]"] by auto
  obtain p18 where p18: "tb0 ! 18 = Some p18" "attr_at ?m p18 (attrs_bytes ?as1)"
    using indexes_attr [OF t0(2), of 18 "veth_info name2"] info by auto
  obtain tb1 where t1: "nla_parse_nested ?m 2 p18 None = Some (0, tb1)" "indexes ?m 2 ?as1 tb1"
    using nla_parse_nested_indexes [OF p18(2), of 2] P up l1 info by (auto simp: attrs_plain_def)
  obtain k where k: "tb1 ! 1 = Some k" "attr_at ?m k ([118, 101, 116, 104] @ [0])"
    using indexes_attr [OF t1(2), of 1 "[118, 101, 116, 104, 0]"] by auto
  obtain d where d: "tb1 ! 2 = Some d" "attr_at ?m d (attrs_bytes [(1, veth_peer name2)])"
    using indexes_attr [OF t1(2), of 2 "attr_bytes 1 (veth_peer name2)"] by auto
  obtain tb2 where t2: "nla_parse_nested ?m 1 d None = Some (0, tb2)" "indexes ?m 1 [(1, veth_peer name2)] tb2"
    using nla_parse_nested_indexes [OF d(2), of 1] P up l1 by (auto simp: attrs_plain_def)
  obtain p where p: "tb2 ! 1 = Some p" "attr_at ?m p (veth_peer name2)"
    using indexes_attr [OF t2(2), of 1 "veth_peer name2"] by auto
  obtain q where q: "nla_data p = int q" "bytes_at ?m q (veth_peer name2)" using attr_at_bytes [OF p(2)] by blast
  have "bytes_at ?m (q + 16) (attrs_bytes [(3, name2 @ [0])])"
    using q(2) by (simp add: veth_peer_def name_attr_def bytes_at_append)
  then obtain tb3 where t3: "nla_parse ?m 3 (int q + 16) (int (length (veth_peer name2)) - 16) None = Some (0, tb3)"
    "indexes ?m 3 [(3, name2 @ [0])] tb3"
    using nla_parse_indexes [of ?m "q + 16" "[(3, name2 @ [0])]" 3] P up n2 by (auto simp: attrs_plain_def)
  obtain r where r: "tb3 ! 3 = Some r" "attr_at ?m r (name2 @ [0])"
    using indexes_attr [OF t3(2), of 3 "name2 @ [0]"] by auto
  show ?thesis
    using t0(1) p3 p18(1) t1(1) k d(1) t2(1) p q(1) t3(1) r nla_strcmp_same n1 n2
    by (simp add: reads_veth_def attr_at_def [of _ p])
qed

end
