(* ===== verification/Nl_Neigh.thy ===== *)
theory Nl_Neigh
  imports Nl_Cache_Ops Nl_Addr_Props Net_Interop
begin

text \<open>
  \<^verbatim>\<open>lib/route/neigh.c\<close> of libnl: the kind of objects for neighbour table entries, with its key and
  comparison functions, its reader and its writer of messages.  The addresses of an entry are
  values here: the model does not follow which entries share an address struct.
\<close>

abbreviation (input) NLE_MISSING_ATTR :: int where "NLE_MISSING_ATTR \<equiv> 14"
abbreviation (input) NLE_AF_MISMATCH :: int where "NLE_AF_MISMATCH \<equiv> 15"
abbreviation (input) NLE_MSGSIZE :: int where "NLE_MSGSIZE \<equiv> 9"

abbreviation (input) AF_BRIDGE :: int where "AF_BRIDGE \<equiv> 7"

abbreviation (input) NEIGH_ATTR_FLAGS :: "32 word" where "NEIGH_ATTR_FLAGS \<equiv> 0x01"
abbreviation (input) NEIGH_ATTR_STATE :: "32 word" where "NEIGH_ATTR_STATE \<equiv> 0x02"
abbreviation (input) NEIGH_ATTR_LLADDR :: "32 word" where "NEIGH_ATTR_LLADDR \<equiv> 0x04"
abbreviation (input) NEIGH_ATTR_DST :: "32 word" where "NEIGH_ATTR_DST \<equiv> 0x08"
abbreviation (input) NEIGH_ATTR_CACHEINFO :: "32 word" where "NEIGH_ATTR_CACHEINFO \<equiv> 0x10"
abbreviation (input) NEIGH_ATTR_IFINDEX :: "32 word" where "NEIGH_ATTR_IFINDEX \<equiv> 0x20"
abbreviation (input) NEIGH_ATTR_FAMILY :: "32 word" where "NEIGH_ATTR_FAMILY \<equiv> 0x40"
abbreviation (input) NEIGH_ATTR_TYPE :: "32 word" where "NEIGH_ATTR_TYPE \<equiv> 0x80"
abbreviation (input) NEIGH_ATTR_PROBES :: "32 word" where "NEIGH_ATTR_PROBES \<equiv> 0x100"
abbreviation (input) NEIGH_ATTR_MASTER :: "32 word" where "NEIGH_ATTR_MASTER \<equiv> 0x200"

section \<open>The kind\<close>

record rtnl_ncacheinfo =
  nci_confirmed :: "32 word"
  nci_used :: "32 word"
  nci_updated :: "32 word"
  nci_refcnt :: "32 word"

record rtnl_neigh =
  n_family :: "32 word"
  n_ifindex :: "32 word"
  n_state :: "16 word"
  n_flags :: "8 word"
  n_type :: "8 word"
  n_lladdr :: "nl_addr option"
  n_dst :: "nl_addr option"
  n_probes :: "32 word"
  n_cacheinfo :: rtnl_ncacheinfo
  n_state_mask :: "32 word"
  n_flag_mask :: "32 word"
  n_master :: "32 word"

type_synonym neigh = "rtnl_neigh nl_object"

definition neigh_zero :: rtnl_neigh where
  "neigh_zero = \<lparr>n_family = 0, n_ifindex = 0, n_state = 0, n_flags = 0, n_type = 0, n_lladdr = None, n_dst = None,
     n_probes = 0, n_cacheinfo = \<lparr>nci_confirmed = 0, nci_used = 0, nci_updated = 0, nci_refcnt = 0\<rparr>,
     n_state_mask = 0, n_flag_mask = 0, n_master = 0\<rparr>"

text \<open>
  Both addresses of the copy are new ones.  When the first copy fails, the data is left with the
  second address of the original.
\<close>

definition neigh_clone :: "malloc_fn \<Rightarrow> neigh \<Rightarrow> neigh \<Rightarrow> (int \<times> rtnl_neigh) option" where
  "neigh_clone mal dst src = do {
     let d = ce_data dst;
     ll \<leftarrow> (case n_lladdr (ce_data src) of None \<Rightarrow> Some (Some (n_lladdr d))
            | Some a \<Rightarrow> do { x \<leftarrow> nl_addr_clone mal a; Some (if x = None then None else Some x) });
     case ll of None \<Rightarrow> Some (- NLE_NOMEM, d\<lparr>n_lladdr := None\<rparr>)
     | Some ll \<Rightarrow> do {
         let d = d\<lparr>n_lladdr := ll\<rparr>;
         ds \<leftarrow> (case n_dst (ce_data src) of None \<Rightarrow> Some (Some (n_dst d))
                | Some a \<Rightarrow> do { x \<leftarrow> nl_addr_clone mal a; Some (if x = None then None else Some x) });
         Some (case ds of None \<Rightarrow> (- NLE_NOMEM, d\<lparr>n_dst := None\<rparr>) | Some x \<Rightarrow> (0, d\<lparr>n_dst := x\<rparr>))
       }
   }"

text \<open>The address that identifies an entry, and the bytes that are hashed.\<close>

definition neigh_key_addr :: "rtnl_neigh \<Rightarrow> nl_addr option" where
  "neigh_key_addr d = (if n_family d = word_of_int AF_BRIDGE then n_lladdr d else n_dst d)"

definition neigh_hash_key :: "rtnl_neigh \<Rightarrow> byte list option" where
  "neigh_hash_key d = do {
     let dev = (if n_family d = word_of_int AF_BRIDGE then n_master d else n_ifindex d);
     a \<leftarrow> (case neigh_key_addr d of None \<Rightarrow> Some []
           | Some a \<Rightarrow> c_read (nl_addr_get_binary_addr a) 0 (uint (nl_addr_get_len a)));
     Some (le_bytes 4 (unat (n_family d)) @ le_bytes 4 (unat dev) @ a)
   }"

definition neigh_keygen :: "malloc_fn \<Rightarrow> neigh \<Rightarrow> 32 word \<Rightarrow> 32 word option" where
  "neigh_keygen mal ob table_sz = do {
     let d = ce_data ob;
     let nkey_sz = 8 + (case neigh_key_addr d of None \<Rightarrow> 0 | Some a \<Rightarrow> nl_addr_get_len a);
     if \<not> mal (uint nkey_sz) then Some 0
     else do {
       c_assert (8 \<le> nkey_sz);
       nkey \<leftarrow> neigh_hash_key d;
       h \<leftarrow> nl_hash 0 (map Some nkey) 0 (ucast nkey_sz) 0;
       c_assert (table_sz \<noteq> 0);
       Some (h mod table_sz)
     }
   }"

text \<open>\<open>ATTR_DIFF\<close>: the expression is looked at only when both objects have the attribute.\<close>

definition ATTR_DIFF :: "32 word \<Rightarrow> 32 word \<Rightarrow> 'd nl_object \<Rightarrow> 'd nl_object \<Rightarrow> bool option \<Rightarrow> 32 word option" where
  "ATTR_DIFF attrs attr a b differ =
     (if attrs AND attr = 0 then Some 0
      else if (ce_mask a XOR ce_mask b) AND attr \<noteq> 0 then Some attr
      else if (ce_mask a AND ce_mask b) AND attr \<noteq> 0 then map_option (\<lambda>d. if d then attr else 0) differ
      else Some 0)"

definition addrs_differ :: "nl_addr option \<Rightarrow> nl_addr option \<Rightarrow> bool option" where
  "addrs_differ x y = do { a \<leftarrow> x; b \<leftarrow> y; d \<leftarrow> nl_addr_cmp a b; Some (d \<noteq> 0) }"

definition neigh_compare :: "neigh \<Rightarrow> neigh \<Rightarrow> 32 word \<Rightarrow> 32 word \<Rightarrow> 32 word option" where
  "neigh_compare oa ob attrs flags = do {
     let a = ce_data oa;
     let b = ce_data ob;
     d1 \<leftarrow> ATTR_DIFF attrs NEIGH_ATTR_IFINDEX oa ob (Some (n_ifindex a \<noteq> n_ifindex b));
     d2 \<leftarrow> ATTR_DIFF attrs NEIGH_ATTR_FAMILY oa ob (Some (n_family a \<noteq> n_family b));
     d3 \<leftarrow> ATTR_DIFF attrs NEIGH_ATTR_TYPE oa ob (Some (n_type a \<noteq> n_type b));
     d4 \<leftarrow> ATTR_DIFF attrs NEIGH_ATTR_LLADDR oa ob (addrs_differ (n_lladdr a) (n_lladdr b));
     d5 \<leftarrow> ATTR_DIFF attrs NEIGH_ATTR_DST oa ob (addrs_differ (n_dst a) (n_dst b));
     d6 \<leftarrow> ATTR_DIFF attrs NEIGH_ATTR_MASTER oa ob (Some (n_master a \<noteq> n_master b));
     d7 \<leftarrow> ATTR_DIFF attrs NEIGH_ATTR_STATE oa ob (Some
             (if flags AND LOOSE_COMPARISON \<noteq> 0 then ucast (n_state a XOR n_state b) AND n_state_mask b \<noteq> 0 else n_state a \<noteq> n_state b));
     d8 \<leftarrow> ATTR_DIFF attrs NEIGH_ATTR_FLAGS oa ob (Some
             (if flags AND LOOSE_COMPARISON \<noteq> 0 then ucast (n_flags a XOR n_flags b) AND n_flag_mask b \<noteq> 0 else n_flags a \<noteq> n_flags b));
     Some (d1 OR d2 OR d3 OR d4 OR d5 OR d6 OR d7 OR d8)
   }"

definition neigh_id_attrs_get :: "neigh \<Rightarrow> 32 word" where
  "neigh_id_attrs_get ob =
     (if n_family (ce_data ob) = word_of_int AF_BRIDGE then NEIGH_ATTR_LLADDR OR NEIGH_ATTR_FAMILY OR NEIGH_ATTR_MASTER
      else NEIGH_ATTR_IFINDEX OR NEIGH_ATTR_DST OR NEIGH_ATTR_FAMILY)"

text \<open>The table of the kind, with \<open>sizeof (struct rtnl_neigh)\<close>, and the cache operations.\<close>

definition neigh_obj_ops :: "malloc_fn \<Rightarrow> rtnl_neigh nl_object_ops" where
  "neigh_obj_ops mal = \<lparr>oo_name = ''route/neigh'', oo_size = 112, oo_zero = neigh_zero,
     oo_id_attrs = NEIGH_ATTR_IFINDEX OR NEIGH_ATTR_DST OR NEIGH_ATTR_FAMILY, oo_constructor = None, oo_free_data = True,
     oo_clone = Some (neigh_clone mal), oo_compare = Some neigh_compare, oo_update = None,
     oo_keygen = Some (neigh_keygen mal), oo_id_attrs_get = Some neigh_id_attrs_get\<rparr>"

abbreviation (input) RTM_NEWNEIGH :: int where "RTM_NEWNEIGH \<equiv> 28"
abbreviation (input) RTM_DELNEIGH :: int where "RTM_DELNEIGH \<equiv> 29"
abbreviation (input) RTM_GETNEIGH :: int where "RTM_GETNEIGH \<equiv> 30"

definition rtnl_neigh_ops :: nl_cache_ops where
  "rtnl_neigh_ops = \<lparr>co_name = ''route/neigh'', co_protocol = 0, co_hash_size = 0, co_flags = 0, co_obj_ops = 0,
     co_msgtypes = [(RTM_NEWNEIGH, 1), (RTM_DELNEIGH, 2), (RTM_GETNEIGH, 3)]\<rparr>"

definition neigh_env :: "malloc_fn \<Rightarrow> rtnl_neigh nlenv" where
  "neigh_env mal = \<lparr>e_ops = \<lambda>_. neigh_obj_ops mal, e_cops = \<lambda>_. rtnl_neigh_ops, e_mal = mal\<rparr>"

section \<open>The laws of the kind\<close>

text \<open>The bytes of an address, and what \<open>nl_addr_cmp\<close> compares.\<close>

definition addr_wf :: "nl_addr \<Rightarrow> bool" where
  "addr_wf a \<longleftrightarrow> unat (a_len a) \<le> length (a_addr a) \<and> None \<notin> set (take (unat (a_len a)) (a_addr a))
     \<and> unat (a_len a) < 2 ^ 31 \<and> 0 \<le> a_family a \<and> a_family a \<le> INT_MAX \<and> 0 \<le> a_prefixlen a \<and> a_prefixlen a \<le> INT_MAX"

definition addr_bytes :: "nl_addr \<Rightarrow> byte list" where
  "addr_bytes a = map the (take (unat (a_len a)) (a_addr a))"

definition addr_id :: "nl_addr \<Rightarrow> int \<times> byte list \<times> int" where
  "addr_id a = (a_family a, addr_bytes a, if a_len a = 0 then 0 else a_prefixlen a)"

lemma length_addr_bytes: "addr_wf a \<Longrightarrow> length (addr_bytes a) = unat (a_len a)"
  by (simp add: addr_wf_def addr_bytes_def)

lemma addr_wf_bytes: "addr_wf a \<Longrightarrow> bytes_at (a_addr a) 0 (addr_bytes a)"
  by (auto simp: addr_wf_def addr_bytes_def bytes_at_def intro!: map_idI [symmetric]) (metis option.collapse)

lemma addr_wf_read:
  assumes "addr_wf a"
  shows "c_read (a_addr a) 0 (uint (a_len a)) = Some (addr_bytes a)"
  using c_read_prefix [OF addr_wf_bytes [OF assms], of "unat (a_len a)"] length_addr_bytes [OF assms] by simp

lemma addr_len_eq:
  assumes "addr_wf a" "addr_wf b" "addr_bytes a = addr_bytes b"
  shows "a_len a = a_len b"
  using assms length_addr_bytes by (metis word_unat_eq_iff)

lemma nl_addr_cmp_id:
  assumes "addr_wf a" "addr_wf b"
  shows "\<exists>d. nl_addr_cmp a b = Some d \<and> (d = 0 \<longleftrightarrow> addr_id a = addr_id b)"
proof (cases "a_family a = a_family b \<and> a_len a = a_len b")
  case True
  then have len: "length (addr_bytes a) = length (addr_bytes b)"
    using assms by (simp add: length_addr_bytes)
  have u: "uint (ucast (a_len b) :: 64 word) = uint (a_len b)"
    using uint_lt2p [of "a_len b"] by (simp add: unsigned_ucast_eq take_bit_int_eq_self_iff)
  have cmp: "c_memcmp (a_addr a) (a_addr b) (ucast (a_len a)) = Some (bytes_cmp (addr_bytes a) (addr_bytes b))"
    using addr_wf_read [OF assms(1)] addr_wf_read [OF assms(2)] True by (simp add: c_memcmp_def u)
  have "addr_bytes a = []" "addr_bytes b = []" if "a_len a = 0"
    using that True by (simp_all add: addr_bytes_def)
  then show ?thesis
    using True cmp bytes_cmp_eq_0 [OF len] assms
    by (auto simp: nl_addr_cmp_def addr_id_def c_int_ok_def addr_wf_def)
next
  case False
  have "a_len a = a_len b" if "addr_id a = addr_id b"
    using addr_len_eq [OF assms] that by (simp add: addr_id_def)
  moreover have "sint (a_len a - a_len b) = 0 \<longleftrightarrow> a_len a = a_len b"
    by (metis eq_iff_diff_eq_0 signed_0 signed_word_eqI)
  ultimately show ?thesis
    using False assms by (auto simp: nl_addr_cmp_def addr_id_def c_int_ok_def addr_wf_def)
qed

lemma addrs_differ_id:
  assumes "x = Some a" "y = Some b" "addr_wf a" "addr_wf b"
  shows "addrs_differ x y = Some (addr_id a \<noteq> addr_id b)"
  using nl_addr_cmp_id [OF assms(3, 4)] assms(1, 2) by (auto simp: addrs_differ_def)

text \<open>
  A sound entry has the addresses that its mask promises, and its addresses are sound.  An entry
  that has all the attributes that identify it is identified by its family, its device and one of
  its addresses.
\<close>

definition addr_opt_wf :: "nl_addr option \<Rightarrow> bool" where
  "addr_opt_wf x \<longleftrightarrow> (case x of None \<Rightarrow> True | Some a \<Rightarrow> addr_wf a)"

definition neigh_good :: "neigh \<Rightarrow> bool" where
  "neigh_good ob \<longleftrightarrow> ce_ops ob = 0 \<and> addr_opt_wf (n_lladdr (ce_data ob)) \<and> addr_opt_wf (n_dst (ce_data ob))
     \<and> (ce_mask ob AND NEIGH_ATTR_LLADDR \<noteq> 0 \<longrightarrow> n_lladdr (ce_data ob) \<noteq> None)
     \<and> (ce_mask ob AND NEIGH_ATTR_DST \<noteq> 0 \<longrightarrow> n_dst (ce_data ob) \<noteq> None)"

definition neigh_oid :: "neigh \<Rightarrow> (32 word \<times> 32 word \<times> int \<times> byte list \<times> int) option" where
  "neigh_oid ob =
     (let d = ce_data ob
      in if ce_mask ob AND neigh_id_attrs_get ob \<noteq> neigh_id_attrs_get ob then None
         else if n_family d = word_of_int AF_BRIDGE then Some (n_family d, n_master d, addr_id (the (n_lladdr d)))
         else Some (n_family d, n_ifindex d, addr_id (the (n_dst d))))"

lemma mask_has:
  fixes m r x :: "32 word"
  assumes "m AND r = r" "r AND x = x"
  shows "m AND x = x"
  using assms by (metis and.assoc)

lemma ATTR_DIFF_both:
  assumes "attrs AND attr = attr" "attr \<noteq> 0" "ce_mask a AND attr = attr" "ce_mask b AND attr = attr"
  shows "ATTR_DIFF attrs attr a b df = map_option (\<lambda>d. if d then attr else 0) df"
proof -
  have "(ce_mask a AND ce_mask b) AND attr = attr"
    using assms by (simp add: and.assoc)
  moreover have "(ce_mask a XOR ce_mask b) AND attr = 0"
    using assms by (simp add: and.commute [of _ attr] bit.conj_xor_distrib)
  ultimately show ?thesis
    using assms by (simp add: ATTR_DIFF_def)
qed

lemma ATTR_DIFF_none: "attrs AND attr = 0 \<Longrightarrow> ATTR_DIFF attrs attr a b df = Some 0"
  by (simp add: ATTR_DIFF_def)

lemma neigh_good_addr:
  assumes "neigh_good ob"
  shows "ce_mask ob AND NEIGH_ATTR_LLADDR \<noteq> 0 \<Longrightarrow> \<exists>a. n_lladdr (ce_data ob) = Some a \<and> addr_wf a"
    and "ce_mask ob AND NEIGH_ATTR_DST \<noteq> 0 \<Longrightarrow> \<exists>a. n_dst (ce_data ob) = Some a \<and> addr_wf a"
  using assms by (auto simp: neigh_good_def addr_opt_wf_def)

lemma neigh_compare_bridge:
  assumes "neigh_good a" "neigh_good b" "ce_mask a AND 0x244 = 0x244" "ce_mask b AND 0x244 = 0x244"
  shows "\<exists>d. neigh_compare a b 0x244 0 = Some d
    \<and> (d = 0 \<longleftrightarrow> n_family (ce_data a) = n_family (ce_data b) \<and> n_master (ce_data a) = n_master (ce_data b)
         \<and> addr_id (the (n_lladdr (ce_data a))) = addr_id (the (n_lladdr (ce_data b))))"
proof -
  have m: "ce_mask x AND 4 = 4 \<and> ce_mask x AND 0x40 = 0x40 \<and> ce_mask x AND 0x200 = 0x200" if "ce_mask x AND 0x244 = 0x244" for x :: neigh
    using mask_has [OF that] by simp
  obtain u v where uv: "n_lladdr (ce_data a) = Some u" "addr_wf u" "n_lladdr (ce_data b) = Some v" "addr_wf v"
    using neigh_good_addr(1) [OF assms(1)] neigh_good_addr(1) [OF assms(2)] m [OF assms(3)] m [OF assms(4)] by auto
  show ?thesis
    using m [OF assms(3)] m [OF assms(4)] addrs_differ_id [OF uv(1,3,2,4)] uv
    by (simp add: neigh_compare_def ATTR_DIFF_both ATTR_DIFF_none Let_def)
qed

lemma neigh_compare_route:
  assumes "neigh_good a" "neigh_good b" "ce_mask a AND 0x68 = 0x68" "ce_mask b AND 0x68 = 0x68"
  shows "\<exists>d. neigh_compare a b 0x68 0 = Some d
    \<and> (d = 0 \<longleftrightarrow> n_family (ce_data a) = n_family (ce_data b) \<and> n_ifindex (ce_data a) = n_ifindex (ce_data b)
         \<and> addr_id (the (n_dst (ce_data a))) = addr_id (the (n_dst (ce_data b))))"
proof -
  have m: "ce_mask x AND 8 = 8 \<and> ce_mask x AND 0x40 = 0x40 \<and> ce_mask x AND 0x20 = 0x20" if "ce_mask x AND 0x68 = 0x68" for x :: neigh
    using mask_has [OF that] by simp
  obtain u v where uv: "n_dst (ce_data a) = Some u" "addr_wf u" "n_dst (ce_data b) = Some v" "addr_wf v"
    using neigh_good_addr(2) [OF assms(1)] neigh_good_addr(2) [OF assms(2)] m [OF assms(3)] m [OF assms(4)] by auto
  show ?thesis
    using m [OF assms(3)] m [OF assms(4)] addrs_differ_id [OF uv(1,3,2,4)] uv
    by (simp add: neigh_compare_def ATTR_DIFF_both ATTR_DIFF_none Let_def)
qed

lemma ATTR_DIFF_total:
  assumes "ce_mask a AND attr \<noteq> 0 \<Longrightarrow> ce_mask b AND attr \<noteq> 0 \<Longrightarrow> df \<noteq> None"
  shows "\<exists>d. ATTR_DIFF attrs attr a b df = Some d"
proof -
  have "(ce_mask a AND ce_mask b) AND attr = ce_mask b AND (ce_mask a AND attr)"
    "(ce_mask a AND ce_mask b) AND attr = ce_mask a AND (ce_mask b AND attr)"
    by (simp_all add: ac_simps)
  then have "(ce_mask a AND ce_mask b) AND attr \<noteq> 0 \<Longrightarrow> ce_mask a AND attr \<noteq> 0 \<and> ce_mask b AND attr \<noteq> 0"
    by (metis and_zero_eq)
  then show ?thesis
    using assms by (cases df) (auto simp: ATTR_DIFF_def)
qed

lemma ATTR_DIFF_Some: "\<exists>d. ATTR_DIFF attrs attr a b (Some x) = Some d"
  by (simp add: ATTR_DIFF_def)

lemma bind_total:
  assumes "\<exists>x. m = Some x" "\<And>x. \<exists>d. f x = Some d"
  shows "\<exists>d. m \<bind> f = Some d"
  using assms by auto

lemma neigh_compare_total:
  assumes "neigh_good a" "neigh_good b"
  shows "\<exists>d. neigh_compare a b attrs flags = Some d"
proof -
  have l: "ce_mask a AND NEIGH_ATTR_LLADDR \<noteq> 0 \<Longrightarrow> ce_mask b AND NEIGH_ATTR_LLADDR \<noteq> 0
      \<Longrightarrow> addrs_differ (n_lladdr (ce_data a)) (n_lladdr (ce_data b)) \<noteq> None"
    using neigh_good_addr(1) [OF assms(1)] neigh_good_addr(1) [OF assms(2)] addrs_differ_id by fastforce
  have d: "ce_mask a AND NEIGH_ATTR_DST \<noteq> 0 \<Longrightarrow> ce_mask b AND NEIGH_ATTR_DST \<noteq> 0
      \<Longrightarrow> addrs_differ (n_dst (ce_data a)) (n_dst (ce_data b)) \<noteq> None"
    using neigh_good_addr(2) [OF assms(1)] neigh_good_addr(2) [OF assms(2)] addrs_differ_id by fastforce
  show ?thesis
    unfolding neigh_compare_def Let_def
    by (intro bind_total ATTR_DIFF_Some ATTR_DIFF_total [OF l] ATTR_DIFF_total [OF d]) simp_all
qed

text \<open>The key depends on the identity only, and there is one for every sound entry.\<close>

lemma key_addr_wf: "neigh_good ob \<Longrightarrow> addr_opt_wf (neigh_key_addr (ce_data ob))"
  by (simp add: neigh_good_def neigh_key_addr_def)

lemma neigh_hash_key_read:
  assumes "addr_opt_wf (neigh_key_addr d)"
  shows "neigh_hash_key d = Some (le_bytes 4 (unat (n_family d))
    @ le_bytes 4 (unat (if n_family d = word_of_int AF_BRIDGE then n_master d else n_ifindex d))
    @ (case neigh_key_addr d of None \<Rightarrow> [] | Some a \<Rightarrow> addr_bytes a))"
  using assms addr_wf_read
  by (auto simp: neigh_hash_key_def addr_opt_wf_def Let_def nl_addr_get_binary_addr_def nl_addr_get_len_def split: option.splits)

lemma key_size:
  assumes "addr_wf a"
  shows "8 \<le> 8 + a_len a" "unat (8 + a_len a) = 8 + length (addr_bytes a)"
proof -
  have "unat (8 + a_len a) = 8 + unat (a_len a)"
    using assms by (simp add: addr_wf_def unat_word_ariths)
  then show "8 \<le> 8 + a_len a" "unat (8 + a_len a) = 8 + length (addr_bytes a)"
    using assms by (simp_all add: word_le_nat_alt length_addr_bytes)
qed

lemma nl_hash_total:
  assumes "unat n = length bs"
  shows "\<exists>h. nl_hash 0 (map Some bs) 0 (ucast (n :: 32 word)) v = Some h"
proof -
  have "unat n < 2 ^ 32"
    using unsigned_less [of n] by simp
  then have "length bs < 2 ^ 64" "ucast n = (word_of_nat (length bs) :: 64 word)"
    by (simp_all flip: assms)
  then show ?thesis
    using hashlittle_bytes [of "map Some bs" 0 bs 0 v]
    by (simp add: nl_hash_def nl_hash_any_def bytes_at_def)
qed

lemma neigh_key_range:
  assumes "neigh_good ob" "sz \<noteq> 0"
  shows "\<exists>k < sz. neigh_keygen mal ob sz = Some k"
proof -
  let ?d = "ce_data ob"
  let ?n = "8 + (case neigh_key_addr ?d of None \<Rightarrow> 0 | Some a \<Rightarrow> nl_addr_get_len a) :: 32 word"
  obtain bs where bs: "neigh_hash_key ?d = Some bs" "unat ?n = length bs" "8 \<le> ?n"
    using neigh_hash_key_read [OF key_addr_wf [OF assms(1)]] key_addr_wf [OF assms(1)] key_size
    by (auto simp: addr_opt_wf_def nl_addr_get_len_def split: option.splits)
  obtain h where h: "nl_hash 0 (map Some bs) 0 (ucast ?n) 0 = Some h"
    using nl_hash_total [OF bs(2)] by blast
  have "0 < sz" "h mod sz < sz"
    using assms(2) by (simp_all add: word_greater_zero_iff word_mod_less_divisor)
  then show ?thesis
    using bs h assms(2) by (auto simp: neigh_keygen_def Let_def)
qed

lemma neigh_key_oid:
  assumes "neigh_good a" "neigh_good b" "same_id neigh_oid a b"
  shows "neigh_keygen mal a sz = neigh_keygen mal b sz"
proof -
  let ?ka = "neigh_key_addr (ce_data a)" and ?kb = "neigh_key_addr (ce_data b)"
  have has: "\<exists>x. neigh_key_addr (ce_data o1) = Some x \<and> addr_wf x" if g: "neigh_good o1" and i: "neigh_oid o1 \<noteq> None" for o1
  proof -
    have "ce_mask o1 AND neigh_id_attrs_get o1 = neigh_id_attrs_get o1"
      using i by (auto simp: neigh_oid_def Let_def split: if_splits)
    then show ?thesis
      using neigh_good_addr [OF g] mask_has [of "ce_mask o1" "neigh_id_attrs_get o1" 4] mask_has [of "ce_mask o1" "neigh_id_attrs_get o1" 8]
      by (simp add: neigh_id_attrs_get_def neigh_key_addr_def split: if_splits)
  qed
  obtain x y where xy: "?ka = Some x" "addr_wf x" "?kb = Some y" "addr_wf y"
    using has [OF assms(1)] has [OF assms(2)] assms(3) unfolding same_id_def by metis
  have fam: "n_family (ce_data a) = n_family (ce_data b)"
    using assms(3) by (auto simp: same_id_def neigh_oid_def Let_def split: if_splits)
  moreover have "(if n_family (ce_data a) = word_of_int AF_BRIDGE then n_master (ce_data a) else n_ifindex (ce_data a))
      = (if n_family (ce_data a) = word_of_int AF_BRIDGE then n_master (ce_data b) else n_ifindex (ce_data b))"
    using assms(3) by (auto simp: same_id_def neigh_oid_def Let_def split: if_splits)
  moreover have "addr_id x = addr_id y"
    using assms(3) xy(1,3) fam by (auto simp: same_id_def neigh_oid_def neigh_key_addr_def Let_def split: if_splits)
  then have b: "addr_bytes x = addr_bytes y"
    by (simp add: addr_id_def)
  moreover have "a_len x = a_len y"
    by (rule addr_len_eq [OF xy(2,4) b])
  moreover have "addr_opt_wf ?ka" "addr_opt_wf ?kb"
    by (simp_all add: xy addr_opt_wf_def)
  ultimately have "neigh_hash_key (ce_data a) = neigh_hash_key (ce_data b)" "a_len x = a_len y"
    using xy by (simp_all add: neigh_hash_key_read)
  then show ?thesis
    using xy by (simp add: neigh_keygen_def nl_addr_get_len_def Let_def)
qed

lemma neigh_identical_oid:
  assumes "neigh_good a" "neigh_good b"
  shows "nl_object_identical (neigh_env mal) a b = Some (same_id neigh_oid a b)"
proof -
  let ?br = "\<lambda>x. n_family (ce_data x) = (word_of_int AF_BRIDGE :: 32 word)"
  let ?i = "neigh_id_attrs_get"
  have ops: "ce_ops a = ce_ops b"
    using assms by (simp add: neigh_good_def)
  have i: "?i x = (if ?br x then 0x244 else 0x68)" for x
    by (simp add: neigh_id_attrs_get_def)
  show ?thesis
  proof (cases "?br a = ?br b \<and> ce_mask a AND ?i a = ?i a \<and> ce_mask b AND ?i b = ?i b")
    case True
    show ?thesis
    proof (cases "?br a")
      case br: True
      then show ?thesis
        using neigh_compare_bridge [OF assms] True ops
        by (auto simp: i nl_object_identical_def required_attrs_def neigh_env_def neigh_obj_ops_def same_id_def neigh_oid_def Let_def)
    next
      case br: False
      then show ?thesis
        using neigh_compare_route [OF assms] True ops
        by (auto simp: i nl_object_identical_def required_attrs_def neigh_env_def neigh_obj_ops_def same_id_def neigh_oid_def Let_def)
    qed
  next
    case False
    then show ?thesis
      using ops
      by (auto simp: i nl_object_identical_def required_attrs_def neigh_env_def neigh_obj_ops_def same_id_def neigh_oid_def Let_def
               split: if_splits)
  qed
qed

lemma neigh_view:
  assumes "view a = view b"
  shows "ce_ops a = ce_ops b" "ce_mask a = ce_mask b" "ce_data a = ce_data b"
  using assms by (auto simp: view_def)

lemma neigh_compare_view:
  assumes "view a = view a'" "view b = view b'"
  shows "neigh_compare a b attrs flags = neigh_compare a' b' attrs flags"
proof -
  have "ATTR_DIFF attrs attr a b df = ATTR_DIFF attrs attr a' b' df" for attr df
    using neigh_view [OF assms(1)] neigh_view [OF assms(2)] by (simp add: ATTR_DIFF_def)
  then show ?thesis
    using neigh_view [OF assms(1)] neigh_view [OF assms(2)] by (simp add: neigh_compare_def)
qed

text \<open>Neighbour entries obey the laws that the caches rely on, whatever allocations fail.\<close>

interpretation nk: object_kinds "neigh_env mal" neigh_good neigh_oid for mal
proof
  show "nl_object_identical (neigh_env mal) a b = Some (same_id neigh_oid a b)" if "neigh_good a" "neigh_good b" for a b
    by (rule neigh_identical_oid [OF that])
  show "\<exists>d. nl_object_diff (neigh_env mal) a b = Some d" if "neigh_good a" "neigh_good b" for a b
    using neigh_compare_total [OF that] by (simp add: nl_object_diff_def neigh_env_def neigh_obj_ops_def)
  show "nl_object_diff (neigh_env mal) a b = nl_object_diff (neigh_env mal) a' b'" if "view a = view a'" "view b = view b'" for a a' b b'
    using neigh_view(1) [OF that(1)] neigh_view(1) [OF that(2)] neigh_compare_view [OF that]
    by (simp add: nl_object_diff_def neigh_env_def neigh_obj_ops_def)
  show "\<exists>k < sz. nl_object_keygen (neigh_env mal) a sz = Some k" if "neigh_good a" "sz \<noteq> 0" for a sz
    using neigh_key_range [OF that] by (simp add: nl_object_keygen_def neigh_env_def neigh_obj_ops_def)
  show "nl_object_keygen (neigh_env mal) a sz = nl_object_keygen (neigh_env mal) b sz"
    if "neigh_good a" "neigh_good b" "same_id neigh_oid a b" for a b sz
    using neigh_key_oid [OF that] by (simp add: nl_object_keygen_def neigh_env_def neigh_obj_ops_def)
  show "neigh_good a = neigh_good b \<and> neigh_oid a = neigh_oid b
      \<and> nl_object_keygen (neigh_env mal) a sz = nl_object_keygen (neigh_env mal) b sz" if "view a = view b" for a b sz
    using neigh_view [OF that]
    by (simp add: neigh_good_def neigh_oid_def neigh_id_attrs_get_def nl_object_keygen_def neigh_env_def neigh_obj_ops_def neigh_keygen_def)
qed

end
