(* ===== verification/Nl_Attr_Safety.thy ===== *)
theory Nl_Attr_Safety
  imports Nl_Attr_Props
begin

text \<open>
  Parsing bytes that nobody vouches for.  Whatever the stream holds, the loop of
  \<open>nla_for_each_attr\<close> stays inside it except for one load: after an unpadded last attribute
  \<open>nla_ok\<close> is called with a negative remainder, passes its unsigned comparison and reads a
  length field up to five bytes past the stream.  The theorems give the guarantee when the
  block is that much longer than the stream, and the undefined read when it is not.
\<close>

text \<open>An attribute that starts and ends inside the stream.\<close>

definition attr_in :: "byte cells \<Rightarrow> int \<Rightarrow> int \<Rightarrow> int \<Rightarrow> bool" where
  "attr_in m lo hi p \<longleftrightarrow>
     lo \<le> p \<and> (\<exists>l. get_u16 m p = Some l \<and> 4 \<le> uint l \<and> p + uint l \<le> hi)"

lemma rem_small_iff:
  assumes "- 3 \<le> rem" "rem \<le> INT_MAX"
  shows "(word_of_int rem :: 64 word) < 4 \<longleftrightarrow> 0 \<le> rem \<and> rem < 4"
proof (cases "0 \<le> rem")
  case True
  then have "uint (word_of_int rem :: 64 word) = rem"
    using assms by (simp add: uint_word_of_int)
  then show ?thesis using True by (simp add: word_less_def)
next
  case False
  then have "uint (word_of_int rem :: 64 word) = rem + 2 ^ 64"
    using assms mod_add_self2 [of rem "2 ^ 64 :: int"]
      mod_pos_pos_trivial [of "rem + 2 ^ 64" "2 ^ 64 :: int"] by (simp add: uint_word_of_int)
  then show ?thesis using False assms by (simp add: word_less_def)
qed

lemma nla_each_safe:
  assumes init: "initialised m" "hi + 5 \<le> int (length m)" "0 \<le> lo"
    and body: "\<And>p s. attr_in m lo hi p \<Longrightarrow> Q s \<Longrightarrow>
      (\<exists>s'. body p s = Some (Inl s') \<and> Q s') \<or> (\<exists>r. body p s = Some (Inr r) \<and> R r)"
  shows "Q s \<Longrightarrow> lo \<le> p \<Longrightarrow> p + rem = hi \<Longrightarrow> rem \<le> INT_MAX \<Longrightarrow> - 3 \<le> rem \<Longrightarrow>
    (\<exists>rem' s'. nla_for_each_attr m body p rem s = Some (Inl (rem', s')) \<and> Q s')
    \<or> (\<exists>r. nla_for_each_attr m body p rem s = Some (Inr r) \<and> R r)"
proof (induction "nat rem" arbitrary: p rem s rule: less_induct)
  case less
  obtain l where l: "get_u16 m p = Some l"
    using get_u16_initialised [OF init(1), of p] init less.prems by auto
  have ok: "nla_ok m p rem = Some (4 \<le> uint l \<and> uint l \<le> rem)"
    using rem_small_iff [OF less.prems(5,4)] l by (auto simp: nla_ok_def)
  show ?case
  proof (cases "4 \<le> uint l \<and> uint l \<le> rem")
    case False
    then show ?thesis
      using ok less.prems(1) by (subst (1 2) nla_for_each_attr.simps) simp
  next
    case True
    define k where "k = NLA_ALIGN (uint l)"
    have k: "uint l \<le> k" "k < uint l + 4" by (auto simp: k_def NLA_ALIGN_eq)
    have nxt: "nla_next m p rem = Some (p + k, rem - k)"
      using l less.prems True k by (simp add: nla_next_def k_def [symmetric] c_int_ok_def)
    have "attr_in m lo hi p"
      using l True less.prems by (auto simp: attr_in_def)
    then consider s' where "body p s = Some (Inl s')" "Q s'" | r where "body p s = Some (Inr r)" "R r"
      using body less.prems(1) by blast
    then show ?thesis
    proof cases
      case 1
      have "nla_for_each_attr m body p rem s = nla_for_each_attr m body (p + k) (rem - k) s'"
        using ok True nxt 1(1) by (subst nla_for_each_attr.simps) simp
      then show ?thesis
        using less.hyps [of "rem - k" s' "p + k"] 1(2) less.prems True k by auto
    next
      case 2
      then show ?thesis
        using ok True by (subst (1 2) nla_for_each_attr.simps) simp
    qed
  qed
qed

section \<open>Validation\<close>

definition policy_ok :: "nat \<Rightarrow> nla_policy list \<Rightarrow> bool" where
  "policy_ok mx pol \<longleftrightarrow> mx < length pol
     \<and> list_all (\<lambda>pt. pol_type pt \<le> NLA_TYPE_MAX \<and> pol_minlen pt < 2 ^ 16) pol"

text \<open>The payload length that a policy entry asks for, and its other demands.\<close>

definition meets :: "byte cells \<Rightarrow> int \<Rightarrow> nla_policy \<Rightarrow> bool" where
  "meets m p pt \<longleftrightarrow> (\<exists>k. nla_len m p = Some k
     \<and> int (if pol_minlen pt \<noteq> 0 then pol_minlen pt else nla_attr_minlen ! pol_type pt) \<le> k
     \<and> (pol_maxlen pt \<noteq> 0 \<longrightarrow> k \<le> int (pol_maxlen pt))
     \<and> (pol_type pt = NLA_STRING \<longrightarrow> c_load m (nla_data p + (k - 1)) = Some 0))"

lemma minlen_table:
  "t \<le> 8 \<Longrightarrow> nla_attr_minlen ! t \<le> 8" "nla_attr_minlen ! 0 = 0" "nla_attr_minlen ! 5 = 1"
proof -
  have "list_all (\<lambda>t. nla_attr_minlen ! t \<le> 8) [0..<9]"
    by code_simp
  then show "t \<le> 8 \<Longrightarrow> nla_attr_minlen ! t \<le> 8"
    by (auto simp: list_all_iff)
qed (simp_all add: nla_attr_minlen_def)

lemma validate_nla_safe:
  assumes p: "attr_in m lo hi p" and init: "initialised m" "hi \<le> int (length m)" "0 \<le> lo"
    and t: "nla_type m p = Some (int t)" "t \<le> mx" and pol: "policy_ok mx pol"
  shows "\<exists>err. validate_nla m p (int mx) pol = Some err
    \<and> (err = 0 \<and> meets m p (pol ! t) \<or> err = - NLE_INVAL \<or> err = - NLE_RANGE)"
proof -
  obtain l where l: "get_u16 m p = Some l" "4 \<le> uint l" "p + uint l \<le> hi" "lo \<le> p"
    using p by (auto simp: attr_in_def)
  define k where "k = uint l - 4"
  define pt where "pt = pol ! t"
  define mn where "mn = (if pol_minlen pt \<noteq> 0 then pol_minlen pt else nla_attr_minlen ! pol_type pt)"
  have "pt \<in> set pol" and tl: "t < length pol" using t(2) pol by (auto simp: pt_def policy_ok_def)
  then have pt: "pol_type pt \<le> 8" "pol_minlen pt < 2 ^ 16"
    using pol by (auto simp: policy_ok_def list_all_iff)
  have k: "nla_len m p = Some k" "0 \<le> k" "k < 2 ^ 16"
    using l(1,2) uint_lt2p [of l] by (simp_all add: nla_len_def k_def)
  have mn: "mn < 2 ^ 16" "mn = (if pol_minlen pt \<noteq> 0 then pol_minlen pt
      else if pol_type pt \<noteq> NLA_UNSPEC then nla_attr_minlen ! pol_type pt else 0)"
    using pt minlen_table(1) [OF pt(1)] minlen_table(2) by (auto simp: mn_def)
  have less: "(word_of_int k :: 32 word) < word_of_nat mn \<longleftrightarrow> k < int mn"
    using k mn(1) by (simp add: word_less_def uint_word_of_int unsigned_of_nat take_bit_int_eq_self
        take_bit_nat_eq_self)
  have load: "\<exists>c. c_load m (nla_data p + (k - 1)) = Some c" if "1 \<le> k"
    using c_load_initialised [OF init(1), of "nla_data p + (k - 1)"] that l init(2,3)
    by (simp add: nla_data_def k_def)
  have one: "1 \<le> mn" if "pol_type pt = NLA_STRING"
    using that minlen_table(3) by (auto simp: mn_def)
  have v: "validate_nla m p (int mx) pol =
      (if k < int mn then Some (- NLE_RANGE)
       else if pol_maxlen pt \<noteq> 0 \<and> k > int (pol_maxlen pt) then Some (- NLE_RANGE)
       else if pol_type pt = NLA_STRING then do {
         c \<leftarrow> c_load m (nla_data p + (k - 1));
         Some (if c \<noteq> 0 then - NLE_INVAL else 0)
       } else Some 0)"
    unfolding validate_nla_def Let_def t(1) k(1) bind.bind_lunit nat_int pt_def [symmetric]
      mn(2) [symmetric] less
    using t(2) tl pt(1) by simp
  show ?thesis
  proof (cases "k < int mn \<or> pol_maxlen pt \<noteq> 0 \<and> k > int (pol_maxlen pt)")
    case True
    then show ?thesis by (auto simp: v)
  next
    case False
    then have "meets m p pt \<longleftrightarrow> (pol_type pt = NLA_STRING \<longrightarrow> c_load m (nla_data p + (k - 1)) = Some 0)"
      unfolding meets_def mn_def [symmetric] k(1) by auto
    then show ?thesis
      using False load one v by (auto simp: pt_def [symmetric] split: if_splits)
  qed
qed

lemma nla_type_in:
  assumes "attr_in m lo hi p" "initialised m" "hi \<le> int (length m)" "0 \<le> lo"
  shows "\<exists>t. nla_type m p = Some (int t)"
proof -
  obtain l :: "16 word" where l: "4 \<le> uint l" "p + uint l \<le> hi" "lo \<le> p"
    using assms(1) by (auto simp: attr_in_def)
  obtain w where w: "get_u16 m (p + 2) = Some w"
    using get_u16_initialised [OF assms(2), of "p + 2"] l assms(3,4) by auto
  have "0 \<le> uint w AND NOT (0x8000 OR 0x4000)"
    using AND_lower [of "uint w"] by simp
  then show ?thesis
    using w zero_le_imp_eq_int unfolding nla_type_def by auto
qed

text \<open>What an entry of the index array stands for.\<close>

definition entry_ok :: "byte cells \<Rightarrow> int \<Rightarrow> int \<Rightarrow> nla_policy list option \<Rightarrow> nat \<Rightarrow> int \<Rightarrow> bool" where
  "entry_ok m lo hi policy t p \<longleftrightarrow> attr_in m lo hi p \<and> nla_type m p = Some (int t)
     \<and> (case policy of None \<Rightarrow> True | Some pol \<Rightarrow> meets m p (pol ! t))"

definition table_ok :: "byte cells \<Rightarrow> int \<Rightarrow> int \<Rightarrow> nla_policy list option \<Rightarrow> nat \<Rightarrow> int option list \<Rightarrow> bool" where
  "table_ok m lo hi policy mx tb \<longleftrightarrow> length tb = Suc mx
     \<and> (\<forall>t p. t \<le> mx \<longrightarrow> tb ! t = Some p \<longrightarrow> entry_ok m lo hi policy t p)"

lemma nla_parse_body_safe:
  assumes p: "attr_in m lo hi p" and tb: "table_ok m lo hi policy mx tb"
    and init: "initialised m" "hi \<le> int (length m)" "0 \<le> lo"
    and pol: "case policy of None \<Rightarrow> True | Some pol \<Rightarrow> policy_ok mx pol"
  shows "(\<exists>tb'. nla_parse_body m (int mx) policy p tb = Some (Inl tb') \<and> table_ok m lo hi policy mx tb')
    \<or> (\<exists>r. nla_parse_body m (int mx) policy p tb = Some (Inr r)
         \<and> fst r \<in> {- NLE_INVAL, - NLE_RANGE} \<and> table_ok m lo hi policy mx (snd r))"
proof -
  obtain t where t: "nla_type m p = Some (int t)"
    using nla_type_in [OF p init] by blast
  show ?thesis
  proof (cases "t \<le> mx")
    case False
    then show ?thesis using t tb by (simp add: nla_parse_body_def)
  next
    case True
    have upd: "table_ok m lo hi policy mx (tb[t := Some p])"
      if "case policy of None \<Rightarrow> True | Some pol \<Rightarrow> meets m p (pol ! t)"
      using tb that p t True by (auto simp: table_ok_def entry_ok_def nth_list_update)
    show ?thesis
    proof (cases policy)
      case None
      then show ?thesis using t True upd by (simp add: nla_parse_body_def)
    next
      case (Some pl)
      then obtain err where "validate_nla m p (int mx) pl = Some err"
        "err = 0 \<and> meets m p (pl ! t) \<or> err = - NLE_INVAL \<or> err = - NLE_RANGE"
        using validate_nla_safe [OF p init t True, of pl] pol by auto
      then show ?thesis
        using Some t True upd tb by (auto simp: nla_parse_body_def)
    qed
  qed
qed

lemma nla_parse_table:
  assumes "initialised m" "q + n + 5 \<le> length m" "int n \<le> INT_MAX" "int mx < INT_MAX"
    and "case policy of None \<Rightarrow> True | Some pol \<Rightarrow> policy_ok mx pol"
  shows "\<exists>err tb. nla_parse m (int mx) (int q) (int n) policy = Some (err, tb)
    \<and> err \<in> {0, - NLE_INVAL, - NLE_RANGE}
    \<and> table_ok m (int q) (int (q + n)) policy mx tb"
proof -
  let ?tb0 = "replicate (Suc mx) None :: int option list"
  let ?loop = "nla_for_each_attr m (nla_parse_body m (int mx) policy) (int q) (int n) ?tb0"
  have tb0: "table_ok m (int q) (int (q + n)) policy mx ?tb0"
    by (simp add: table_ok_def del: replicate_Suc)
  have "(\<exists>rem tb. ?loop = Some (Inl (rem, tb)) \<and> table_ok m (int q) (int (q + n)) policy mx tb)
      \<or> (\<exists>r. ?loop = Some (Inr r) \<and> fst r \<in> {- NLE_INVAL, - NLE_RANGE}
            \<and> table_ok m (int q) (int (q + n)) policy mx (snd r))"
    by (rule nla_each_safe [where lo = "int q" and hi = "int (q + n)"])
      (use assms tb0 nla_parse_body_safe [OF _ _ assms(1), of "int q" "int (q + n)"] in auto)
  moreover have "nat (int mx + 1) = Suc mx" by simp
  ultimately show ?thesis
    using assms(4) by (auto simp: nla_parse_def c_int_ok_def simp del: replicate_Suc)
qed

section \<open>Messages\<close>

text \<open>A message in a block of initialised bytes, with the five bytes that the parser may read after it.\<close>

definition msg_in :: "byte cells \<Rightarrow> nat \<Rightarrow> nat \<Rightarrow> bool" where
  "msg_in m q n \<longleftrightarrow> initialised m \<and> hdr_len m (int q) = Some (word_of_nat n) \<and> 16 \<le> n \<and> n < 2 ^ 31 \<and> q + n + 5 \<le> length m"

lemma nlmsg_parse_table:
  assumes m: "msg_in m q n" and k: "4 dvd k" "k < 2 ^ 16" and mx: "int mx < INT_MAX" "policy_ok mx pol"
  shows "if n < 16 + k then nlmsg_parse m (int q) (int k) tb (int mx) (Some pol) = Some (- NLE_MSG_TOOSHORT, tb)
    else \<exists>err tb'. nlmsg_parse m (int q) (int k) tb (int mx) (Some pol) = Some (err, tb')
      \<and> err \<in> {0, - NLE_INVAL, - NLE_RANGE} \<and> table_ok m (int (q + 16 + k)) (int (q + n)) (Some pol) mx tb'"
proof -
  have h: "hdr_len m (int q) = Some (word_of_nat n)" and n: "16 \<le> n" "n < 2 ^ 31"
    using m by (auto simp: msg_in_def)
  have u: "unat (word_of_nat n :: 32 word) = n" "unat (word_of_nat (16 + k) :: 32 word) = 16 + k" "unat (word_of_nat k :: 32 word) = k"
    by (rule unat_word_small, use n k in simp)+
  have v: "nlmsg_valid_hdr m (int q) (int k) = Some (\<not> n < 16 + k)"
  proof -
    have "nlmsg_msg_size (int k) = Some (int (16 + k))"
      using k by (simp add: nlmsg_msg_size_def nlmsg_size_def c_int_ok_def)
    moreover have "(word_of_nat n :: 32 word) < word_of_nat (16 + k) \<longleftrightarrow> n < 16 + k"
      unfolding word_less_nat_alt u by simp
    ultimately show ?thesis
      by (simp add: nlmsg_valid_hdr_def h)
  qed
  show ?thesis
  proof (cases "n < 16 + k")
    case True
    then show ?thesis by (simp add: nlmsg_parse_def v)
  next
    case False
    have al: "NLMSG_ALIGN (word_of_nat k :: 32 word) = word_of_nat k"
      using k by (intro align_len) simp_all
    have "nlmsg_attrdata (int q) (int k) = int (q + 16 + k)"
      using al uint_of_unat [OF u(3)] by (simp add: nlmsg_attrdata_def nlmsg_data_def)
    moreover have "nlmsg_attrlen m (int q) (int k) = Some (int (n - 16 - k))"
    proof -
      have "(word_of_nat n - word_of_int NLMSG_HDRLEN :: 32 word) = word_of_nat (n - 16)"
        using n by (simp add: of_nat_diff)
      moreover have "sint (word_of_nat (n - 16) :: 32 word) = int (n - 16)"
        by (rule sint_small) (use n in simp)
      ultimately have d: "nlmsg_datalen m (int q) = Some (int (n - 16))"
        by (simp add: nlmsg_datalen_def h)
      have "(word_of_int (int (n - 16)) - word_of_nat k :: 32 word) = word_of_nat (n - 16 - k)"
        using False by (simp add: of_nat_diff)
      moreover have "sint (word_of_nat (n - 16 - k) :: 32 word) = int (n - 16 - k)"
        by (rule sint_small) (use n in simp)
      ultimately show ?thesis
        using al by (simp add: nlmsg_attrlen_def d)
    qed
    ultimately have "nlmsg_parse m (int q) (int k) tb (int mx) (Some pol) = nla_parse m (int mx) (int (q + 16 + k)) (int (n - 16 - k)) (Some pol)"
      using False by (simp add: nlmsg_parse_def v)
    then show ?thesis
      using False m n mx nla_parse_table [of m "q + 16 + k" "n - 16 - k" mx "Some pol"] by (simp add: msg_in_def)
  qed
qed

lemma table_entry:
  assumes "table_ok m lo hi (Some pol) mx tb" "t \<le> mx" "tb ! t = Some p"
  shows "attr_in m lo hi p" "\<exists>k. nla_len m p = Some k
    \<and> int (if pol_minlen (pol ! t) \<noteq> 0 then pol_minlen (pol ! t) else nla_attr_minlen ! pol_type (pol ! t)) \<le> k"
proof -
  have "entry_ok m lo hi (Some pol) t p"
    using assms by (simp add: table_ok_def)
  then show "attr_in m lo hi p" "\<exists>k. nla_len m p = Some k
    \<and> int (if pol_minlen (pol ! t) \<noteq> 0 then pol_minlen (pol ! t) else nla_attr_minlen ! pol_type (pol ! t)) \<le> k"
    unfolding entry_ok_def meets_def by auto
qed

section \<open>Properties\<close>

text \<open>
  C6. Parsing is safe on arbitrary bytes.  For any initialised block, any stream in it that is
  followed by five more readable bytes and any well-formed policy, \<open>nla_parse\<close> returns: it
  loops only finitely often and reads only inside the block.  It gives 0, \<open>-NLE_INVAL\<close>
  or \<open>-NLE_RANGE\<close>, and every entry it has stored points to an attribute of that type which
  lies entirely inside the stream and meets the policy entry of its type.
\<close>

theorem nla_parse_safe:
  assumes "initialised m" "q + n + 5 \<le> length m" "int n \<le> INT_MAX" "int mx < INT_MAX"
    and "case policy of None \<Rightarrow> True | Some pol \<Rightarrow> policy_ok mx pol"
  shows "\<exists>err tb. nla_parse m (int mx) (int q) (int n) policy = Some (err, tb)
    \<and> err \<in> {0, - NLE_INVAL, - NLE_RANGE}
    \<and> table_ok m (int q) (int (q + n)) policy mx tb"
  by (rule nla_parse_table [OF assms])

theorem nla_parse_safe_witness:
  "\<exists>err tb. nla_parse (map Some [6, 0, 1, 0, 104, 0, 9, 9, 9, 9, 9, 9]) (int 1) (int 0) (int 6)
       (Some [\<lparr>pol_type = 0, pol_minlen = 0, pol_maxlen = 0\<rparr>, \<lparr>pol_type = NLA_STRING, pol_minlen = 0, pol_maxlen = 4\<rparr>])
     = Some (err, tb)
    \<and> err \<in> {0, - NLE_INVAL, - NLE_RANGE}
    \<and> table_ok (map Some [6, 0, 1, 0, 104, 0, 9, 9, 9, 9, 9, 9]) (int 0) (int (0 + 6))
       (Some [\<lparr>pol_type = 0, pol_minlen = 0, pol_maxlen = 0\<rparr>, \<lparr>pol_type = NLA_STRING, pol_minlen = 0, pol_maxlen = 4\<rparr>]) 1 tb"
  by (rule nla_parse_safe) (simp_all add: initialised_def policy_ok_def)

text \<open>
  C34. The five bytes are needed.  When the last attribute of a stream ends unpadded at the end
  of its block, \<open>nla_next\<close> makes the remainder negative; \<open>nla_ok\<close> compares it as an
  unsigned number, takes it for a large one and reads the length of an attribute outside the
  block, so the parse has no defined result.
\<close>

theorem nla_parse_overread:
  fixes t :: "16 word"
  assumes "unat t < 2 ^ 14" "length d \<le> 65531" "\<not> 4 dvd length d" "int mx < INT_MAX"
  shows "nla_parse (map Some (le_bytes 2 (4 + length d) @ le_bytes 2 (unat t) @ d)) (int mx) 0
    (int (4 + length d)) None = None"
proof -
  let ?bs = "le_bytes 2 (4 + length d) @ le_bytes 2 (unat t) @ d"
  let ?m = "map Some ?bs"
  have u: "unat (word_of_nat (4 + length d) :: 16 word) = 4 + length d"
    using assms(2) by (intro unat_word_small) simp
  have whole: "bytes_at ?m 0 ?bs" by (simp add: bytes_at_def)
  then have at: "bytes_at ?m 0 (le_bytes 2 (unat (word_of_nat (4 + length d) :: 16 word)))"
      "bytes_at ?m 2 (le_bytes 2 (unat t))"
    unfolding u by (simp_all only: bytes_at_append length_le_bytes add_0)
  have l: "get_u16 ?m 0 = Some (word_of_nat (4 + length d))"
    using u16.load_bytes [OF at(1)] by simp
  have "nla_type ?m 0 = Some (int (unat t))"
    using nla_type_plain [of ?m 0 t] u16.load_bytes [OF at(2)] assms(1) by simp
  then have "\<exists>tb. nla_parse_body ?m (int mx) None 0 (replicate (Suc mx) None) = Some (Inl tb)"
    by (simp add: nla_parse_body_def del: replicate_Suc of_nat_unat map_append)
  then obtain tb where body: "nla_parse_body ?m (int mx) None 0 (replicate (Suc mx) None) = Some (Inl tb)" ..
  define r where "r = int (length d) - int (up4 (length d))"
  have "up4 (length d) \<noteq> length d" using assms(3) up4_dvd [of "length d"] by metis
  then have r: "- 3 \<le> r" "r < 0" using up4_facts(1,2) [of "length d"] by (auto simp: r_def)
  have n: "\<not> (word_of_int (4 + int (length d)) :: 64 word) < 4"
    using rem_small_iff [of "4 + int (length d)"] assms(2) by simp
  have ok: "nla_ok ?m 0 (4 + int (length d)) = Some True"
    using l n uint_of_unat [OF u] by (simp add: nla_ok_def del: map_append)
  have al: "NLA_ALIGN (4 + int (length d)) = int (4 + up4 (length d))"
    using NLA_ALIGN_int [of "4 + length d"] up4_header by simp
  have nxt: "nla_next ?m 0 (4 + int (length d)) = Some (int (4 + up4 (length d)), r)"
    using l uint_of_unat [OF u] al r by (simp add: nla_next_def r_def c_int_ok_def del: map_append)
  have "\<not> (word_of_int r :: 64 word) < 4"
    using rem_small_iff [of r] r by simp
  moreover have "get_u16 ?m (int (4 + up4 (length d))) = None"
    using up4_facts(1) [of "length d"] by (simp add: get_u16_def c_read_def)
  ultimately have out: "nla_ok ?m (int (4 + up4 (length d))) r = None"
    by (simp add: nla_ok_def del: map_append)
  have "nla_for_each_attr ?m (nla_parse_body ?m (int mx) None) 0 (4 + int (length d)) (replicate (Suc mx) None) = None"
    by (subst nla_for_each_attr.simps)
      (simp add: ok body nxt del: map_append replicate_Suc,
       subst nla_for_each_attr.simps, use out in \<open>simp del: map_append\<close>)
  moreover have "nat (int mx + 1) = Suc mx" by simp
  ultimately show ?thesis
    using assms(4) by (simp add: nla_parse_def c_int_ok_def del: map_append replicate_Suc)
qed

theorem nla_parse_overread_witness:
  "nla_parse (map Some (le_bytes 2 (4 + length [42 :: byte]) @ le_bytes 2 (unat (1 :: 16 word)) @ [42])) (int 1) 0
    (int (4 + length [42 :: byte])) None = None"
  by (rule nla_parse_overread) simp_all


end
