(* ===== verification/Nl_Neigh_Msg.thy ===== *)
theory Nl_Neigh_Msg
  imports Nl_Neigh Nl_Attr_Safety
begin

text \<open>
  The operations of \<^verbatim>\<open>lib/route/neigh.c\<close> on neighbour entries: reading an entry from a message of
  the kernel, building the messages that add and delete one, and the functions that set and get
  its attributes.  Reading never leaves the message and gives a sound entry, and it reads
  back what is built.
\<close>

section \<open>Messages\<close>

abbreviation (input) NDA_DST :: int where "NDA_DST \<equiv> 1"
abbreviation (input) NDA_LLADDR :: int where "NDA_LLADDR \<equiv> 2"
abbreviation (input) NDA_CACHEINFO :: int where "NDA_CACHEINFO \<equiv> 3"
abbreviation (input) NDA_PROBES :: int where "NDA_PROBES \<equiv> 4"
abbreviation (input) NDA_MAX :: int where "NDA_MAX \<equiv> 4"

definition rtnl_neigh_alloc :: "rtnl_neigh nlenv \<Rightarrow> rtnl_neigh nlstate \<Rightarrow> (nat option \<times> rtnl_neigh nlstate) option" where
  "rtnl_neigh_alloc E s = nl_object_alloc E 0 s"

definition rtnl_neigh_put :: "rtnl_neigh nlenv \<Rightarrow> nat option \<Rightarrow> rtnl_neigh nlstate \<Rightarrow> rtnl_neigh nlstate option" where
  "rtnl_neigh_put E p s = nl_object_put E p s"

text \<open>\<open>struct nda_cacheinfo\<close> has sixteen bytes.\<close>

definition neigh_policy :: "nla_policy list" where
  "neigh_policy =
     [\<lparr>pol_type = NLA_UNSPEC, pol_minlen = 0, pol_maxlen = 0\<rparr>, \<lparr>pol_type = NLA_UNSPEC, pol_minlen = 0, pol_maxlen = 0\<rparr>,
      \<lparr>pol_type = NLA_UNSPEC, pol_minlen = 0, pol_maxlen = 0\<rparr>, \<lparr>pol_type = NLA_UNSPEC, pol_minlen = 16, pol_maxlen = 0\<rparr>,
      \<lparr>pol_type = NLA_U32, pol_minlen = 0, pol_maxlen = 0\<rparr>]"

text \<open>The fields of \<open>struct ndmsg\<close> at \<open>nm\<close>, which has twelve bytes.\<close>

definition read_ndmsg :: "byte cells \<Rightarrow> int \<Rightarrow> rtnl_neigh \<Rightarrow> rtnl_neigh option" where
  "read_ndmsg m nm d = do {
     family \<leftarrow> c_load m nm;
     ifindex \<leftarrow> get_u32 m (nm + 4);
     state \<leftarrow> get_u16 m (nm + 8);
     flags \<leftarrow> c_load m (nm + 10);
     type \<leftarrow> c_load m (nm + 11);
     Some (d\<lparr>n_family := ucast family, n_ifindex := ifindex, n_state := state, n_flags := flags, n_type := type\<rparr>)
   }"

definition read_lladdr :: "malloc_fn \<Rightarrow> byte cells \<Rightarrow> int option \<Rightarrow> neigh \<Rightarrow> (int \<times> neigh) option" where
  "read_lladdr mal m at ob = (case at of None \<Rightarrow> Some (0, ob)
     | Some p \<Rightarrow> do {
         a \<leftarrow> nl_addr_alloc_attr mal m p AF_UNSPEC;
         Some (case a of None \<Rightarrow> (- NLE_NOMEM, ob)
           | Some a \<Rightarrow> (0, ob\<lparr>ce_mask := ce_mask ob OR NEIGH_ATTR_LLADDR,
               ce_data := (ce_data ob)\<lparr>n_lladdr := Some (nl_addr_set_family a (nl_addr_guess_family a))\<rparr>\<rparr>))
       })"

definition read_dst :: "malloc_fn \<Rightarrow> byte cells \<Rightarrow> int option \<Rightarrow> neigh \<Rightarrow> (int \<times> neigh) option" where
  "read_dst mal m at ob = (case at of None \<Rightarrow> Some (0, ob)
     | Some p \<Rightarrow> do {
         a \<leftarrow> nl_addr_alloc_attr mal m p (sint (n_family (ce_data ob)));
         Some (case a of None \<Rightarrow> (- NLE_NOMEM, ob)
           | Some a \<Rightarrow> (0, ob\<lparr>ce_mask := ce_mask ob OR NEIGH_ATTR_DST, ce_data := (ce_data ob)\<lparr>n_dst := Some a\<rparr>\<rparr>))
       })"

definition read_cacheinfo :: "byte cells \<Rightarrow> int option \<Rightarrow> neigh \<Rightarrow> neigh option" where
  "read_cacheinfo m at ob = (case at of None \<Rightarrow> Some ob
     | Some p \<Rightarrow> do {
         let ci = nla_data p;
         confirmed \<leftarrow> get_u32 m ci;
         used \<leftarrow> get_u32 m (ci + 4);
         updated \<leftarrow> get_u32 m (ci + 8);
         refcnt \<leftarrow> get_u32 m (ci + 12);
         Some (ob\<lparr>ce_mask := ce_mask ob OR NEIGH_ATTR_CACHEINFO, ce_data := (ce_data ob)
           \<lparr>n_cacheinfo := \<lparr>nci_confirmed = confirmed, nci_used = used, nci_updated = updated, nci_refcnt = refcnt\<rparr>\<rparr>\<rparr>)
       })"

definition read_probes :: "byte cells \<Rightarrow> int option \<Rightarrow> neigh \<Rightarrow> neigh option" where
  "read_probes m at ob = (case at of None \<Rightarrow> Some ob
     | Some p \<Rightarrow> do {
         v \<leftarrow> nla_get_u32 m p;
         Some (ob\<lparr>ce_mask := ce_mask ob OR NEIGH_ATTR_PROBES, ce_data := (ce_data ob)\<lparr>n_probes := v\<rparr>\<rparr>)
       })"

text \<open>
  The master of a bridge entry comes from the cache of links of the cache manager, if there is one
  and it has the link: \<open>master\<close> is that lookup.
\<close>

definition read_master :: "(32 word \<Rightarrow> 32 word option) \<Rightarrow> neigh \<Rightarrow> neigh" where
  "read_master master ob =
     (if n_family (ce_data ob) \<noteq> word_of_int AF_BRIDGE then ob
      else case master (n_ifindex (ce_data ob)) of None \<Rightarrow> ob
        | Some w \<Rightarrow> ob\<lparr>ce_mask := ce_mask ob OR NEIGH_ATTR_MASTER, ce_data := (ce_data ob)\<lparr>n_master := w\<rparr>\<rparr>)"

text \<open>\<open>rtnl_neigh_parse\<close> without the allocation: the error and the entry.\<close>

definition neigh_read :: "malloc_fn \<Rightarrow> (32 word \<Rightarrow> 32 word option) \<Rightarrow> byte cells \<Rightarrow> int \<Rightarrow> neigh \<Rightarrow> (int \<times> neigh) option" where
  "neigh_read mal master m n ob = do {
     ty \<leftarrow> hdr_type m n;
     let ob = ob\<lparr>ce_msgtype := uint ty\<rparr>;
     let nm = nlmsg_data n;
     (err, tb) \<leftarrow> nlmsg_parse m n 12 [] NDA_MAX (Some neigh_policy);
     if err < 0 then Some (err, ob)
     else do {
       d \<leftarrow> read_ndmsg m nm (ce_data ob);
       let ob = ob\<lparr>ce_mask := ce_mask ob OR (NEIGH_ATTR_FAMILY OR NEIGH_ATTR_IFINDEX OR NEIGH_ATTR_STATE OR NEIGH_ATTR_FLAGS
                     OR NEIGH_ATTR_TYPE), ce_data := d\<rparr>;
       (err, ob) \<leftarrow> read_lladdr mal m (tb ! nat NDA_LLADDR) ob;
       if err < 0 then Some (err, ob)
       else do {
         (err, ob) \<leftarrow> read_dst mal m (tb ! nat NDA_DST) ob;
         if err < 0 then Some (err, ob)
         else do {
           ob \<leftarrow> read_cacheinfo m (tb ! nat NDA_CACHEINFO) ob;
           ob \<leftarrow> read_probes m (tb ! nat NDA_PROBES) ob;
           Some (0, read_master master ob)
         }
       }
     }
   }"

definition rtnl_neigh_parse ::
    "rtnl_neigh nlenv \<Rightarrow> (32 word \<Rightarrow> 32 word option) \<Rightarrow> byte cells \<Rightarrow> int \<Rightarrow> rtnl_neigh nlstate
       \<Rightarrow> (int \<times> nat option \<times> rtnl_neigh nlstate) option" where
  "rtnl_neigh_parse E master m n s = do {
     (r, s) \<leftarrow> rtnl_neigh_alloc E s;
     case r of None \<Rightarrow> do { s \<leftarrow> rtnl_neigh_put E None s; Some (- NLE_NOMEM, None, s) }
     | Some p \<Rightarrow> do {
         ob \<leftarrow> nobjs s p;
         (err, ob) \<leftarrow> neigh_read (e_mal E) master m n ob;
         let s = set_obj p ob s;
         if err < 0 then do { s \<leftarrow> rtnl_neigh_put E (Some p) s; Some (err, None, s) }
         else Some (0, Some p, s)
       }
   }"

text \<open>The parser of the cache operations hands the entry to \<open>pp_cb\<close> and gives its reference back.\<close>

definition neigh_msg_parser ::
    "rtnl_neigh nlenv \<Rightarrow> (32 word \<Rightarrow> 32 word option) \<Rightarrow> (nat \<Rightarrow> rtnl_neigh nlstate \<Rightarrow> (int \<times> rtnl_neigh nlstate) option)
       \<Rightarrow> byte cells \<Rightarrow> int \<Rightarrow> rtnl_neigh nlstate \<Rightarrow> (int \<times> rtnl_neigh nlstate) option" where
  "neigh_msg_parser E master pp_cb m n s = do {
     (err, r, s) \<leftarrow> rtnl_neigh_parse E master m n s;
     if err < 0 then Some (err, s)
     else do {
       p \<leftarrow> r;
       (err, s) \<leftarrow> pp_cb p s;
       s \<leftarrow> rtnl_neigh_put E r s;
       Some (err, s)
     }
   }"

text \<open>An entry without destination in the cache of the interface has no result: \<open>nl_addr_cmp\<close> reads it.\<close>

definition is_neigh :: "rtnl_neigh nlstate \<Rightarrow> int \<Rightarrow> nl_addr \<Rightarrow> nat \<Rightarrow> bool option" where
  "is_neigh s ifindex dst p = do {
     ob \<leftarrow> nobjs s p;
     if n_ifindex (ce_data ob) = word_of_int ifindex
     then do { a \<leftarrow> n_dst (ce_data ob); d \<leftarrow> nl_addr_cmp a dst; Some (d = 0) }
     else Some False
   }"

definition rtnl_neigh_get :: "nat \<Rightarrow> int \<Rightarrow> nl_addr \<Rightarrow> rtnl_neigh nlstate \<Rightarrow> (nat option \<times> rtnl_neigh nlstate) option" where
  "rtnl_neigh_get c ifindex dst s = do {
     ps \<leftarrow> cache_entries s c;
     r \<leftarrow> first_passing (is_neigh s ifindex dst) ps;
     found r s
   }"

abbreviation (input) NUD_PERMANENT :: "16 word" where "NUD_PERMANENT \<equiv> 0x80"

text \<open>\<open>nhdr\<close>, with zeros in the padding and the type.\<close>

definition ndmsg_bytes :: "8 word \<Rightarrow> 32 word \<Rightarrow> 16 word \<Rightarrow> 8 word \<Rightarrow> byte list" where
  "ndmsg_bytes family ifindex state flags =
     family # replicate 3 0 @ le_bytes 4 (unat ifindex) @ le_bytes 2 (unat state) @ [flags, 0]"

definition build_neigh_msg :: "malloc_fn \<Rightarrow> 64 word \<Rightarrow> neigh \<Rightarrow> int \<Rightarrow> int \<Rightarrow> (int \<times> nl_msg option) option" where
  "build_neigh_msg mal default_msg_size tmpl cmd flags = do {
     let d = ce_data tmpl;
     let bridge = (n_family d = word_of_int AF_BRIDGE);
     if \<not> bridge \<and> ce_mask tmpl AND NEIGH_ATTR_DST = 0 then Some (- NLE_MISSING_ATTR, None)
     else do {
       family \<leftarrow> (if bridge then Some AF_BRIDGE else do { a \<leftarrow> n_dst d; Some (nl_addr_get_family a) });
       let nhdr = ndmsg_bytes (word_of_int family) (n_ifindex d)
                    (if ce_mask tmpl AND NEIGH_ATTR_STATE \<noteq> 0 then n_state d else NUD_PERMANENT)
                    (if ce_mask tmpl AND NEIGH_ATTR_FLAGS \<noteq> 0 then n_flags d else 0);
       msg \<leftarrow> nlmsg_alloc_simple mal default_msg_size cmd flags;
       case msg of None \<Rightarrow> Some (- NLE_NOMEM, None)
       | Some msg \<Rightarrow> do {
           (err, msg) \<leftarrow> nlmsg_append msg nhdr 12 NLMSG_ALIGNTO;
           (err, msg) \<leftarrow> (if err < 0 \<or> bridge then Some (err, msg) else do { a \<leftarrow> n_dst d; nla_put_addr msg NDA_DST a });
           (err, msg) \<leftarrow> (if err < 0 \<or> ce_mask tmpl AND NEIGH_ATTR_LLADDR = 0 then Some (err, msg)
                          else do { a \<leftarrow> n_lladdr d; nla_put_addr msg NDA_LLADDR a });
           if err < 0 then do { nlmsg_free (Some msg); Some (- NLE_MSGSIZE, None) }
           else Some (0, Some msg)
         }
     }
   }"

definition rtnl_neigh_build_add_request :: "malloc_fn \<Rightarrow> 64 word \<Rightarrow> neigh \<Rightarrow> int \<Rightarrow> (int \<times> nl_msg option) option" where
  "rtnl_neigh_build_add_request mal default_msg_size tmpl flags = build_neigh_msg mal default_msg_size tmpl RTM_NEWNEIGH flags"

definition rtnl_neigh_build_delete_request :: "malloc_fn \<Rightarrow> 64 word \<Rightarrow> neigh \<Rightarrow> int \<Rightarrow> (int \<times> nl_msg option) option" where
  "rtnl_neigh_build_delete_request mal default_msg_size neigh flags = build_neigh_msg mal default_msg_size neigh RTM_DELNEIGH flags"

section \<open>Attributes\<close>

definition rtnl_neigh_set_state :: "neigh \<Rightarrow> int \<Rightarrow> neigh" where
  "rtnl_neigh_set_state neigh state = (let d = ce_data neigh in neigh\<lparr>ce_mask := ce_mask neigh OR NEIGH_ATTR_STATE,
     ce_data := d\<lparr>n_state_mask := n_state_mask d OR word_of_int state, n_state := n_state d OR word_of_int state\<rparr>\<rparr>)"

definition rtnl_neigh_get_state :: "neigh \<Rightarrow> int" where
  "rtnl_neigh_get_state neigh = (if ce_mask neigh AND NEIGH_ATTR_STATE \<noteq> 0 then uint (n_state (ce_data neigh)) else - 1)"

definition rtnl_neigh_unset_state :: "neigh \<Rightarrow> int \<Rightarrow> neigh" where
  "rtnl_neigh_unset_state neigh state = (let d = ce_data neigh in neigh\<lparr>ce_mask := ce_mask neigh OR NEIGH_ATTR_STATE,
     ce_data := d\<lparr>n_state_mask := n_state_mask d OR word_of_int state, n_state := n_state d AND NOT (word_of_int state)\<rparr>\<rparr>)"

definition rtnl_neigh_set_flags :: "neigh \<Rightarrow> 32 word \<Rightarrow> neigh" where
  "rtnl_neigh_set_flags neigh flags = (let d = ce_data neigh in neigh\<lparr>ce_mask := ce_mask neigh OR NEIGH_ATTR_FLAGS,
     ce_data := d\<lparr>n_flag_mask := n_flag_mask d OR flags, n_flags := n_flags d OR ucast flags\<rparr>\<rparr>)"

definition rtnl_neigh_get_flags :: "neigh \<Rightarrow> 32 word" where
  "rtnl_neigh_get_flags neigh = ucast (n_flags (ce_data neigh))"

definition rtnl_neigh_unset_flags :: "neigh \<Rightarrow> 32 word \<Rightarrow> neigh" where
  "rtnl_neigh_unset_flags neigh flags = (let d = ce_data neigh in neigh\<lparr>ce_mask := ce_mask neigh OR NEIGH_ATTR_FLAGS,
     ce_data := d\<lparr>n_flag_mask := n_flag_mask d OR flags, n_flags := n_flags d AND NOT (ucast flags)\<rparr>\<rparr>)"

definition rtnl_neigh_set_ifindex :: "neigh \<Rightarrow> int \<Rightarrow> neigh" where
  "rtnl_neigh_set_ifindex neigh ifindex = neigh\<lparr>ce_mask := ce_mask neigh OR NEIGH_ATTR_IFINDEX,
     ce_data := (ce_data neigh)\<lparr>n_ifindex := word_of_int ifindex\<rparr>\<rparr>"

definition rtnl_neigh_get_ifindex :: "neigh \<Rightarrow> int" where
  "rtnl_neigh_get_ifindex neigh = sint (n_ifindex (ce_data neigh))"

text \<open>
  \<open>__assign_addr\<close>, with the field that \<open>pos\<close> points to as a pair of functions.  The new address is
  a different one from the address it replaces.
\<close>

definition assign_addr ::
    "neigh \<Rightarrow> (rtnl_neigh \<Rightarrow> nl_addr option) \<Rightarrow> ((nl_addr option \<Rightarrow> nl_addr option) \<Rightarrow> rtnl_neigh \<Rightarrow> rtnl_neigh)
       \<Rightarrow> nl_addr \<Rightarrow> 32 word \<Rightarrow> bool \<Rightarrow> (int \<times> neigh) option" where
  "assign_addr neigh get upd new flag nocheck = do {
     let known = (ce_mask neigh AND NEIGH_ATTR_FAMILY \<noteq> 0);
     if \<not> nocheck \<and> known \<and> word_of_int (a_family new) \<noteq> n_family (ce_data neigh) then Some (- NLE_AF_MISMATCH, neigh)
     else do {
       let neigh = (if nocheck \<or> known then neigh
                    else neigh\<lparr>ce_mask := ce_mask neigh OR NEIGH_ATTR_FAMILY,
                           ce_data := (ce_data neigh)\<lparr>n_family := word_of_int (a_family new)\<rparr>\<rparr>);
       nl_addr_put (get (ce_data neigh));
       new \<leftarrow> nl_addr_get new;
       Some (0, neigh\<lparr>ce_mask := ce_mask neigh OR flag, ce_data := upd (\<lambda>_. Some new) (ce_data neigh)\<rparr>)
     }
   }"

definition rtnl_neigh_set_lladdr :: "neigh \<Rightarrow> nl_addr \<Rightarrow> neigh option" where
  "rtnl_neigh_set_lladdr neigh addr = map_option snd (assign_addr neigh n_lladdr n_lladdr_update addr NEIGH_ATTR_LLADDR True)"

definition rtnl_neigh_get_lladdr :: "neigh \<Rightarrow> nl_addr option" where
  "rtnl_neigh_get_lladdr neigh = (if ce_mask neigh AND NEIGH_ATTR_LLADDR \<noteq> 0 then n_lladdr (ce_data neigh) else None)"

definition rtnl_neigh_set_dst :: "neigh \<Rightarrow> nl_addr \<Rightarrow> (int \<times> neigh) option" where
  "rtnl_neigh_set_dst neigh addr = assign_addr neigh n_dst n_dst_update addr NEIGH_ATTR_DST False"

definition rtnl_neigh_get_dst :: "neigh \<Rightarrow> nl_addr option" where
  "rtnl_neigh_get_dst neigh = (if ce_mask neigh AND NEIGH_ATTR_DST \<noteq> 0 then n_dst (ce_data neigh) else None)"

definition rtnl_neigh_set_family :: "neigh \<Rightarrow> int \<Rightarrow> neigh" where
  "rtnl_neigh_set_family neigh family = neigh\<lparr>ce_mask := ce_mask neigh OR NEIGH_ATTR_FAMILY,
     ce_data := (ce_data neigh)\<lparr>n_family := word_of_int family\<rparr>\<rparr>"

definition rtnl_neigh_get_family :: "neigh \<Rightarrow> int" where
  "rtnl_neigh_get_family neigh = sint (n_family (ce_data neigh))"

text \<open>Setting the type drops all other attributes from the mask.\<close>

definition rtnl_neigh_set_type :: "neigh \<Rightarrow> int \<Rightarrow> neigh" where
  "rtnl_neigh_set_type neigh type = neigh\<lparr>ce_mask := NEIGH_ATTR_TYPE,
     ce_data := (ce_data neigh)\<lparr>n_type := word_of_int type\<rparr>\<rparr>"

definition rtnl_neigh_get_type :: "neigh \<Rightarrow> int" where
  "rtnl_neigh_get_type neigh = (if ce_mask neigh AND NEIGH_ATTR_TYPE \<noteq> 0 then uint (n_type (ce_data neigh)) else - 1)"

section \<open>Addresses in messages\<close>

definition attr_addr :: "int \<Rightarrow> byte list \<Rightarrow> nl_addr" where
  "attr_addr f bs = \<lparr>a_family = f, a_maxsize = word_of_nat (length bs), a_len = word_of_nat (length bs),
     a_prefixlen = 8 * int (length bs), a_refcnt = 1, a_addr = map Some bs\<rparr>"

lemma attr_addr_simps [simp]:
  "a_family (attr_addr f bs) = f" "a_prefixlen (attr_addr f bs) = 8 * int (length bs)"
  "length bs < 2 ^ 32 \<Longrightarrow> addr_bytes (attr_addr f bs) = bs"
  by (simp_all add: attr_addr_def addr_bytes_def unat_word_small)

lemma attr_addr_wf: "length bs < 2 ^ 16 \<Longrightarrow> 0 \<le> f \<Longrightarrow> f \<le> INT_MAX \<Longrightarrow> addr_wf (attr_addr f bs)"
  by (auto simp: addr_wf_def attr_addr_def unat_word_small)

lemma nl_addr_build_bytes:
  assumes "bytes_at buf 0 bs" "length bs < 2 ^ 16"
  shows "nl_addr_build mal f buf (word_of_nat (length bs))
    = Some (if mal (20 + int (length bs)) then Some (attr_addr f bs) else None)"
proof -
  let ?n = "word_of_nat (length bs) :: 64 word"
  have n: "unat ?n = length bs" "uint ?n = int (length bs)"
    using assms(2) by (simp_all add: unat_word_small uint_of_unat del: of_nat_unat)
  have t: "20 + ?n = word_of_nat (20 + length bs)"
    by simp
  have ut: "unat (20 + ?n) = 20 + length bs"
    unfolding t using assms(2) by (intro unat_word_small) simp
  then have u20: "uint (20 + ?n) = 20 + int (length bs)" "20 \<le> 20 + ?n"
    using uint_of_unat [OF ut] by (simp_all add: word_le_nat_alt)
  have uc: "(ucast ?n :: 32 word) = word_of_nat (length bs)"
    by (metis n(1) of_nat_unat)
  have "(ucast (?n * 8) :: 32 word) = word_of_nat (length bs * 8)"
  proof -
    have "unat (?n * 8) = length bs * 8"
      using assms(2) unat_word_small [of "length bs * 8", where 'a = 64] by simp
    then show ?thesis
      by (metis of_nat_unat)
  qed
  then have pl: "sint (ucast (?n * 8) :: 32 word) = 8 * int (length bs)"
    using sint_small [of "length bs * 8"] assms(2) by simp
  have rd: "c_read buf 0 (int (length bs)) = Some bs"
    by (rule addr_bytes_read [OF assms(1) refl])
  have cp: "c_memcpy (replicate (length bs) (Some 0)) 0 bs (int (length bs)) = Some (map Some bs)"
    by (simp add: c_memcpy_def c_write_def)
  have z: "bs = []" if "?n = 0"
    using n(1) that by simp
  show ?thesis
    using z by (auto simp: nl_addr_build_def nl_addr_alloc_def u20 uc pl n rd cp attr_addr_def Let_def)
qed

lemma nl_addr_alloc_attr_bytes:
  assumes "attr_at m p bs" "length bs < 2 ^ 16"
  shows "nl_addr_alloc_attr mal m p f = Some (if mal (20 + int (length bs)) then Some (attr_addr f bs) else None)"
proof -
  have "nla_len m p = Some (int (length bs))" "0 \<le> nla_data p" "bytes_at m (nat (nla_data p)) bs"
    using assms(1) c_read_Some [of m "nla_data p" _ bs] by (auto simp: attr_at_def)
  moreover from this(3) have "bytes_at (drop (nat (nla_data p)) m) 0 bs"
    by (auto simp: bytes_at_def)
  ultimately show ?thesis
    using nl_addr_build_bytes [OF _ assms(2), of "drop (nat (nla_data p)) m" mal f]
    by (simp add: nl_addr_alloc_attr_def)
qed

lemma attr_in_at:
  assumes "attr_in m lo hi p" "initialised m" "hi \<le> int (length m)" "0 \<le> lo"
  shows "\<exists>bs. attr_at m p bs \<and> length bs < 2 ^ 16"
proof -
  obtain l where l: "get_u16 m p = Some l" "4 \<le> uint l" "p + uint l \<le> hi" "lo \<le> p"
    using assms(1) by (auto simp: attr_in_def)
  then obtain bs where "c_read m (nla_data p) (uint l - 4) = Some bs"
    using c_read_initialised [OF assms(2), of "nla_data p" "uint l - 4"] assms(3,4) by (auto simp: nla_data_def)
  moreover from this have "int (length bs) = uint l - 4"
    using c_read_Some by metis
  moreover have "uint l < 2 ^ 16"
    using uint_lt2p [of l] by simp
  ultimately show ?thesis
    using l(1) by (intro exI [of _ bs]) (simp add: attr_at_def nla_len_def)
qed

section \<open>Reading is safe\<close>

text \<open>An entry while it is read: its reference and the cache are those of the new object.\<close>

definition neigh_fresh :: "neigh \<Rightarrow> bool" where
  "neigh_fresh ob \<longleftrightarrow> neigh_good ob \<and> ce_refcnt ob = 1 \<and> ce_cache ob = None \<and> uint (n_family (ce_data ob)) < 256"

lemma neigh_fresh_mask:
  assumes "neigh_fresh ob" "x AND NEIGH_ATTR_LLADDR = 0" "x AND NEIGH_ATTR_DST = 0"
  shows "neigh_fresh (ob\<lparr>ce_mask := ce_mask ob OR x\<rparr>)"
  using assms by (simp add: neigh_fresh_def neigh_good_def bit.conj_disj_distrib2)

lemma neigh_fresh_data:
  assumes "neigh_fresh ob" "n_lladdr d = n_lladdr (ce_data ob)" "n_dst d = n_dst (ce_data ob)" "uint (n_family d) < 256"
  shows "neigh_fresh (ob\<lparr>ce_data := d\<rparr>)" "neigh_fresh (ob\<lparr>ce_msgtype := ty\<rparr>)"
  using assms by (simp_all add: neigh_fresh_def neigh_good_def)

lemma read_lladdr_safe:
  assumes "neigh_fresh ob" "\<And>p. at = Some p \<Longrightarrow> attr_in m lo hi p" "initialised m" "hi \<le> int (length m)" "0 \<le> lo"
  shows "\<exists>err ob'. read_lladdr mal m at ob = Some (err, ob') \<and> err \<in> {0, - NLE_NOMEM} \<and> neigh_fresh ob'"
proof (cases at)
  case None
  then show ?thesis using assms(1) by (simp add: read_lladdr_def)
next
  case (Some p)
  obtain bs where bs: "attr_at m p bs" "length bs < 2 ^ 16"
    using attr_in_at [OF assms(2) [OF Some] assms(3-5)] by blast
  define a where "a = attr_addr AF_UNSPEC bs"
  have "0 \<le> nl_addr_guess_family a" "nl_addr_guess_family a \<le> INT_MAX" "addr_wf a"
    using attr_addr_wf [OF bs(2), of AF_UNSPEC] by (simp_all add: nl_addr_guess_family_def a_def)
  then have "addr_wf (nl_addr_set_family a (nl_addr_guess_family a))"
    by (simp add: addr_wf_def nl_addr_set_family_def)
  then show ?thesis
    using nl_addr_alloc_attr_bytes [OF bs, of mal AF_UNSPEC] assms(1) Some
    by (simp add: read_lladdr_def neigh_fresh_def neigh_good_def addr_opt_wf_def bit.conj_disj_distrib2 a_def)
qed

lemma read_dst_safe:
  assumes "neigh_fresh ob" "\<And>p. at = Some p \<Longrightarrow> attr_in m lo hi p" "initialised m" "hi \<le> int (length m)" "0 \<le> lo"
  shows "\<exists>err ob'. read_dst mal m at ob = Some (err, ob') \<and> err \<in> {0, - NLE_NOMEM} \<and> neigh_fresh ob'"
proof (cases at)
  case None
  then show ?thesis using assms(1) by (simp add: read_dst_def)
next
  case (Some p)
  obtain bs where bs: "attr_at m p bs" "length bs < 2 ^ 16"
    using attr_in_at [OF assms(2) [OF Some] assms(3-5)] by blast
  let ?f = "n_family (ce_data ob)"
  have "uint ?f < 256"
    using assms(1) by (simp add: neigh_fresh_def)
  then have u: "int (unat ?f) < 256"
    by simp
  then have "unat ?f < 256"
    by linarith
  then have "unat ?f < 2 ^ 31"
    by simp
  then have "0 \<le> sint ?f" "sint ?f \<le> INT_MAX"
    using sint_small [of "unat ?f"] u by simp_all
  then have "addr_wf (attr_addr (sint ?f) bs)"
    by (rule attr_addr_wf [OF bs(2)])
  then show ?thesis
    using nl_addr_alloc_attr_bytes [OF bs, of mal "sint ?f"] assms(1) Some
    by (simp add: read_dst_def neigh_fresh_def neigh_good_def addr_opt_wf_def bit.conj_disj_distrib2)
qed

lemma read_cacheinfo_safe:
  assumes "neigh_fresh ob" "\<And>p. at = Some p \<Longrightarrow> attr_in m lo hi p \<and> (\<exists>k. nla_len m p = Some k \<and> 16 \<le> k)"
    and "initialised m" "hi \<le> int (length m)" "0 \<le> lo"
  shows "\<exists>ob'. read_cacheinfo m at ob = Some ob' \<and> neigh_fresh ob'"
proof (cases at)
  case None
  then show ?thesis using assms(1) by (simp add: read_cacheinfo_def)
next
  case (Some p)
  then obtain l where l: "get_u16 m p = Some l" "20 \<le> uint l" "p + uint l \<le> hi" "lo \<le> p"
    using assms(2) by (auto simp: attr_in_def nla_len_def)
  have "\<exists>v. get_u32 m (nla_data p + k) = Some v" if "0 \<le> k" "k \<le> 12" for k
    using get_u32_initialised [OF assms(3), of "nla_data p + k"] l assms(4,5) that by (simp add: nla_data_def)
  from this [of 0] this [of 4] this [of 8] this [of 12] show ?thesis
    using Some assms(1)
    by (auto simp: read_cacheinfo_def neigh_fresh_def neigh_good_def bit.conj_disj_distrib2)
qed

lemma read_probes_safe:
  assumes "neigh_fresh ob" "\<And>p. at = Some p \<Longrightarrow> attr_in m lo hi p \<and> (\<exists>k. nla_len m p = Some k \<and> 4 \<le> k)"
    and "initialised m" "hi \<le> int (length m)" "0 \<le> lo"
  shows "\<exists>ob'. read_probes m at ob = Some ob' \<and> neigh_fresh ob'"
proof (cases at)
  case None
  then show ?thesis using assms(1) by (simp add: read_probes_def)
next
  case (Some p)
  then obtain l where l: "get_u16 m p = Some l" "8 \<le> uint l" "p + uint l \<le> hi" "lo \<le> p"
    using assms(2) by (auto simp: attr_in_def nla_len_def)
  have "\<exists>v. nla_get_u32 m p = Some v"
    using get_u32_initialised [OF assms(3), of "nla_data p"] l assms(4,5) by (simp add: nla_data_def nla_get_u32_def)
  then show ?thesis
    using Some assms(1)
    by (auto simp: read_probes_def neigh_fresh_def neigh_good_def bit.conj_disj_distrib2)
qed

lemma read_master_safe: "neigh_fresh ob \<Longrightarrow> neigh_fresh (read_master f ob)"
  by (auto simp: read_master_def neigh_fresh_def neigh_good_def bit.conj_disj_distrib2 split: option.splits)

lemma read_ndmsg_safe:
  assumes "initialised m" "0 \<le> nm" "nm + 12 \<le> int (length m)"
  shows "\<exists>d'. read_ndmsg m nm d = Some d' \<and> n_lladdr d' = n_lladdr d \<and> n_dst d' = n_dst d \<and> uint (n_family d') < 256"
proof -
  obtain a b c e f where v: "c_load m nm = Some a" "get_u32 m (nm + 4) = Some b" "get_u16 m (nm + 8) = Some c"
      "c_load m (nm + 10) = Some e" "c_load m (nm + 11) = Some f"
    using c_load_initialised [OF assms(1), of nm] get_u32_initialised [OF assms(1), of "nm + 4"]
      get_u16_initialised [OF assms(1), of "nm + 8"] c_load_initialised [OF assms(1), of "nm + 10"]
      c_load_initialised [OF assms(1), of "nm + 11"] assms(2,3) by auto
  have "uint (ucast a :: 32 word) < 256"
    using uint_lt2p [of a] take_bit_int_less_eq_self_iff [of 32 "uint a"] by (simp add: unsigned_ucast_eq)
  then show ?thesis
    using v by (simp add: read_ndmsg_def)
qed

lemma neigh_read_safe:
  assumes m: "msg_in m q n" and ob: "neigh_fresh ob"
  shows "\<exists>err ob'. neigh_read mal master m (int q) ob = Some (err, ob') \<and> neigh_fresh ob'
    \<and> err \<in> {0, - NLE_NOMEM, - NLE_INVAL, - NLE_RANGE, - NLE_MSG_TOOSHORT}"
proof -
  have init: "initialised m" and len: "16 \<le> n" "q + n + 5 \<le> length m"
    using m by (auto simp: msg_in_def)
  obtain ty where ty: "hdr_type m (int q) = Some ty"
    using get_u16_initialised [OF init, of "int q + 4"] len by (auto simp: hdr_type_def)
  let ?o1 = "ob\<lparr>ce_msgtype := uint ty\<rparr>"
  have o1: "neigh_fresh ?o1"
    using ob by (simp add: neigh_fresh_def neigh_good_def)
  have pol: "policy_ok 4 neigh_policy"
    by (simp add: policy_ok_def neigh_policy_def)
  note P = nlmsg_parse_table [OF m, of 12 4 neigh_policy "[]"]
  show ?thesis
  proof (cases "n < 16 + 12")
    case True
    then show ?thesis
      using P pol o1 by (simp add: neigh_read_def ty Let_def)
  next
    case False
    let ?lo = "int (q + 16 + 12)" and ?hi = "int (q + n)"
    obtain e tb where e: "nlmsg_parse m (int q) 12 [] NDA_MAX (Some neigh_policy) = Some (e, tb)"
        "e \<in> {0, - NLE_INVAL, - NLE_RANGE}" and tb: "table_ok m ?lo ?hi (Some neigh_policy) 4 tb"
      using P pol False by auto
    show ?thesis
    proof (cases "e < 0")
      case True
      then show ?thesis
        using e o1 by (auto simp: neigh_read_def ty Let_def)
    next
      case ge: False
      have hi: "?hi \<le> int (length m)" "0 \<le> ?lo"
        using len by simp_all
      obtain d where d: "read_ndmsg m (nlmsg_data (int q)) (ce_data ob) = Some d" "n_lladdr d = n_lladdr (ce_data ob)"
          "n_dst d = n_dst (ce_data ob)" "uint (n_family d) < 256"
        using read_ndmsg_safe [OF init, of "nlmsg_data (int q)" "ce_data ob"] False len by (auto simp: nlmsg_data_def)
      define o2 where "o2 = ?o1\<lparr>ce_mask := ce_mask ?o1 OR (NEIGH_ATTR_FAMILY OR NEIGH_ATTR_IFINDEX OR NEIGH_ATTR_STATE
        OR NEIGH_ATTR_FLAGS OR NEIGH_ATTR_TYPE), ce_data := d\<rparr>"
      have o2: "neigh_fresh o2"
        using o1 d by (simp add: o2_def neigh_fresh_def neigh_good_def bit.conj_disj_distrib2)
      note T = table_entry [OF tb]
      obtain e3 o3 where o3: "read_lladdr mal m (tb ! 2) o2 = Some (e3, o3)" "e3 \<in> {0, - NLE_NOMEM}" "neigh_fresh o3"
        using read_lladdr_safe [OF o2 _ init hi, of "tb ! 2" mal] T(1) [of 2] by auto
      obtain e4 o4 where o4: "read_dst mal m (tb ! 1) o3 = Some (e4, o4)" "e4 \<in> {0, - NLE_NOMEM}" "neigh_fresh o4"
        using read_dst_safe [OF o3(3) _ init hi, of "tb ! 1" mal] T(1) [of 1] by auto
      obtain o5 where o5: "read_cacheinfo m (tb ! 3) o4 = Some o5" "neigh_fresh o5"
        using read_cacheinfo_safe [OF o4(3) _ init hi, of "tb ! 3"] T [of 3] by (auto simp: neigh_policy_def)
      obtain o6 where o6: "read_probes m (tb ! 4) o5 = Some o6" "neigh_fresh o6"
        using read_probes_safe [OF o5(2) _ init hi, of "tb ! 4"] T [of 4] by (auto simp: neigh_policy_def nla_attr_minlen_def)
      show ?thesis
        using ge e(1) d(1) o3 o4 o5 o6 read_master_safe [OF o6(2), of master]
        by (auto simp: neigh_read_def ty Let_def o2_def)
    qed
  qed
qed

section \<open>Reading what was built\<close>

definition header_bytes :: "16 word \<Rightarrow> 16 word \<Rightarrow> 32 word \<Rightarrow> 32 word \<Rightarrow> byte list" where
  "header_bytes t f s i = le_bytes 2 (unat t) @ le_bytes 2 (unat f) @ le_bytes 4 (unat s) @ le_bytes 4 (unat i)"

lemma put_hdr_fields_holds:
  assumes m: "msg_holds m h body"
  shows "\<exists>b. put_hdr_fields (nm_nlh m) t f s i = Some b \<and> msg_holds (m\<lparr>nm_nlh := b\<rparr>) (header_bytes t f s i) body"
proof -
  note M = msg_holds_parts [OF m]
  have l: "16 \<le> length (nm_nlh m)" using M by simp
  obtain b1 where b1: "put_u16 (nm_nlh m) (int 4) t = Some b1" using u16.store_in [of 4 "nm_nlh m"] l by auto
  note l1 = u16.store_length [OF b1]
  obtain b2 where b2: "put_u16 b1 (int 6) f = Some b2" using u16.store_in [of 6 b1] l l1 by auto
  note l2 = u16.store_length [OF b2]
  obtain b3 where b3: "put_u32 b2 (int 8) s = Some b3" using u32.store_in [of 8 b2] l l1 l2 by auto
  note l3 = u32.store_length [OF b3]
  obtain b4 where b4: "put_u32 b3 (int 12) i = Some b4" using u32.store_in [of 12 b3] l l1 l2 l3 by auto
  have other: "bytes_at b4 j ys \<longleftrightarrow> bytes_at (nm_nlh m) j ys" if "j + length ys \<le> 4 \<or> 16 \<le> j" for j ys
    using u16.store_other [OF b1, of j ys] u16.store_other [OF b2, of j ys] u32.store_other [OF b3, of j ys]
      u32.store_other [OF b4, of j ys] that by auto
  have "bytes_at b4 4 (le_bytes 2 (unat t))" "bytes_at b4 6 (le_bytes 2 (unat f))" "bytes_at b4 8 (le_bytes 4 (unat s))"
      "bytes_at b4 12 (le_bytes 4 (unat i))"
    using u16.store_bytes_at [OF b1] u16.store_bytes_at [OF b2] u32.store_bytes_at [OF b3] u32.store_bytes_at [OF b4]
      u16.store_other [OF b2] u32.store_other [OF b3] u32.store_other [OF b4] by simp_all
  moreover have "bytes_at (nm_nlh m) 0 (le_bytes 4 (16 + length body))" "bytes_at (nm_nlh m) 16 body"
    using m by (auto simp: msg_holds_def msg_text_def bytes_at_append)
  ultimately have "bytes_at b4 0 (msg_text (header_bytes t f s i) body)"
    using other [of 0 "le_bytes 4 (16 + length body)"] other [of 16 body]
    by (simp add: msg_text_def header_bytes_def bytes_at_append)
  then show ?thesis
    using b1 b2 b3 b4 M l1 l2 l3 u32.store_length [OF b4]
    by (intro exI [of _ b4]) (simp add: put_hdr_fields_def msg_holds_def header_bytes_def)
qed

lemma nlmsg_alloc_simple_holds:
  assumes "16 \<le> unat dms" "unat dms \<le> 2 ^ 30"
  shows "\<exists>m. nlmsg_alloc_simple (\<lambda>_. True) dms cmd flags = Some (Some m) \<and> nm_size m = dms
    \<and> msg_holds m (header_bytes (word_of_int cmd) (word_of_int flags) 0 0) []"
proof -
  obtain m where m: "nlmsg_alloc (\<lambda>_. True) dms = Some (Some m)" "msg_holds m (replicate 12 0) []" "nm_size m = dms"
    using nlmsg_alloc_size_holds [OF assms] by (auto simp: nlmsg_alloc_def nlmsg_alloc_size_def)
  then show ?thesis
    using put_hdr_fields_holds [OF m(2), of "word_of_int cmd" "word_of_int flags" 0 0]
    by (auto simp: nlmsg_alloc_simple_def nlmsg_inherit_def)
qed

lemma takeWhile_prefix: "None \<notin> set (take n xs) \<Longrightarrow> take n (takeWhile (\<lambda>x. x \<noteq> None) xs) = take n xs"
  by (induction xs arbitrary: n) (auto simp: take_Cons' split: if_splits, metis option.exhaust)

lemma nla_put_addr_appends:
  assumes m: "msg_holds m h body" and a: "addr_wf a" "length (addr_bytes a) \<le> 65531"
    and room: "16 + length body + (4 + up4 (length (addr_bytes a))) \<le> unat (nm_size m)"
  shows "\<exists>m'. nla_put_addr m t a = Some (0, m') \<and> msg_holds m' h (body @ attr_bytes (word_of_int t) (addr_bytes a))
    \<and> nm_size m' = nm_size m"
proof -
  let ?bs = "addr_bytes a" and ?rb = "readable_bytes (a_addr a)"
  have len: "length ?bs = unat (a_len a)" by (rule length_addr_bytes [OF a(1)])
  have "sint (word_of_nat (length ?bs) :: 32 word) = int (length ?bs)"
    by (rule sint_small) (use a(2) in simp)
  then have s: "sint (a_len a) = int (length ?bs)"
    unfolding len by simp
  have tk: "take (length ?bs) ?rb = ?bs"
    using a(1) takeWhile_prefix [of "unat (a_len a)" "a_addr a"] len
    by (simp add: readable_bytes_def take_map addr_bytes_def addr_wf_def)
  then have "length ?bs \<le> length ?rb"
    by (metis length_take min.cobounded1)
  then have cp: "c_memcpy M p ?rb (int (length ?bs)) = c_memcpy M p ?bs (int (length ?bs))" for M p
    using tk by (simp add: c_memcpy_def)
  have "nla_put_addr m t a = nla_put m t (int (length ?bs)) ?bs"
    unfolding nla_put_addr_def nla_put_def nl_addr_get_len_def nl_addr_get_binary_addr_def s cp ..
  then show ?thesis
    using nla_put_appends [OF m a(2) room, of t] by auto
qed

text \<open>The attributes of the message for an entry.\<close>

definition neigh_attr_list :: "neigh \<Rightarrow> (16 word \<times> byte list) list" where
  "neigh_attr_list t = (1, addr_bytes (the (n_dst (ce_data t))))
     # (if ce_mask t AND NEIGH_ATTR_LLADDR = 0 then [] else [(2, addr_bytes (the (n_lladdr (ce_data t))))])"

definition neigh_head :: "neigh \<Rightarrow> byte list" where
  "neigh_head t = ndmsg_bytes (word_of_int (a_family (the (n_dst (ce_data t))))) (n_ifindex (ce_data t))
     (if ce_mask t AND NEIGH_ATTR_STATE \<noteq> 0 then n_state (ce_data t) else NUD_PERMANENT)
     (if ce_mask t AND NEIGH_ATTR_FLAGS \<noteq> 0 then n_flags (ce_data t) else 0)"

text \<open>An entry that is no bridge entry, with a destination, and addresses of ordinary sizes.\<close>

definition neigh_tmpl :: "neigh \<Rightarrow> bool" where
  "neigh_tmpl t \<longleftrightarrow> neigh_good t \<and> n_family (ce_data t) \<noteq> word_of_int AF_BRIDGE \<and> ce_mask t AND NEIGH_ATTR_DST \<noteq> 0
     \<and> length (addr_bytes (the (n_dst (ce_data t)))) \<le> 1024
     \<and> (ce_mask t AND NEIGH_ATTR_LLADDR \<noteq> 0 \<longrightarrow> length (addr_bytes (the (n_lladdr (ce_data t)))) \<le> 1024)"

lemma length_ndmsg [simp]: "length (ndmsg_bytes f i s g) = 12"
  by (simp add: ndmsg_bytes_def)

lemma up4_le: "n \<le> 1024 \<Longrightarrow> up4 n \<le> 1024"
  using up4_facts [of n] by (simp add: up4_def)

lemma build_neigh_msg_holds:
  assumes t: "neigh_tmpl t" and dms: "4096 \<le> unat dms" "unat dms \<le> 2 ^ 30"
  shows "\<exists>msg. build_neigh_msg (\<lambda>_. True) dms t cmd flags = Some (0, Some msg) \<and> nm_size msg = dms
    \<and> msg_holds msg (header_bytes (word_of_int cmd) (word_of_int flags) 0 0) (neigh_head t @ attrs_bytes (neigh_attr_list t))"
proof -
  let ?h = "header_bytes (word_of_int cmd) (word_of_int flags) 0 0"
  obtain a where a: "n_dst (ce_data t) = Some a" "addr_wf a" "length (addr_bytes a) \<le> 1024"
    using neigh_good_addr(2) [of t] t by (auto simp: neigh_tmpl_def)
  obtain m0 where m0: "nlmsg_alloc_simple (\<lambda>_. True) dms cmd flags = Some (Some m0)" "nm_size m0 = dms" "msg_holds m0 ?h []"
    using nlmsg_alloc_simple_holds [of dms cmd flags] dms by auto
  have h12: "length (neigh_head t) = 12" "up4 12 = 12" "(word_of_nat 12 :: 64 word) = 12"
    by (simp_all add: neigh_head_def up4_def)
  obtain m1 where m1: "nlmsg_append m0 (neigh_head t) 12 NLMSG_ALIGNTO = Some (0, m1)" "msg_holds m1 ?h (neigh_head t)" "nm_size m1 = dms"
    using nlmsg_append_appends [OF m0(3), of "neigh_head t"] dms m0(2) h12 by auto
  obtain m2 where m2: "nla_put_addr m1 NDA_DST a = Some (0, m2)" "msg_holds m2 ?h (neigh_head t @ attr_bytes 1 (addr_bytes a))" "nm_size m2 = dms"
    using nla_put_addr_appends [OF m1(2) a(2), of NDA_DST] a(3) up4_le [OF a(3)] dms m1(3) h12 by auto
  show ?thesis
  proof (cases "ce_mask t AND NEIGH_ATTR_LLADDR = 0")
    case True
    then show ?thesis
      using t m0 m1 m2 a
      by (simp add: build_neigh_msg_def neigh_tmpl_def neigh_attr_list_def neigh_head_def nl_addr_get_family_def Let_def)
  next
    case False
    then obtain b where b: "n_lladdr (ce_data t) = Some b" "addr_wf b" "length (addr_bytes b) \<le> 1024"
      using neigh_good_addr(1) [of t] t by (auto simp: neigh_tmpl_def)
    obtain m3 where m3: "nla_put_addr m2 NDA_LLADDR b = Some (0, m3)"
        "msg_holds m3 ?h ((neigh_head t @ attr_bytes 1 (addr_bytes a)) @ attr_bytes 2 (addr_bytes b))" "nm_size m3 = dms"
      using nla_put_addr_appends [OF m2(2) b(2), of NDA_LLADDR] b(3) up4_le [OF b(3)] up4_le [OF a(3)] dms m2(3) h12 by auto
    then show ?thesis
      using t m0 m1 m2 a b False
      by (simp add: build_neigh_msg_def neigh_tmpl_def neigh_attr_list_def neigh_head_def nl_addr_get_family_def Let_def)
  qed
qed

lemma read_ndmsg_bytes:
  assumes "bytes_at m 16 (ndmsg_bytes f i s g)"
  shows "read_ndmsg m 16 d = Some (d\<lparr>n_family := ucast f, n_ifindex := i, n_state := s, n_flags := g, n_type := 0\<rparr>)"
proof -
  have nth: "c_load m (int (16 + k)) = Some (ndmsg_bytes f i s g ! k)" if "k < 12" for k
    using assms that by (simp add: bytes_at_nth c_load_def del: of_nat_add)
  have "ndmsg_bytes f i s g = [f, 0, 0, 0] @ le_bytes 4 (unat i) @ le_bytes 2 (unat s) @ [g, 0]"
    by (simp add: ndmsg_bytes_def numeral_3_eq_3)
  then have at: "bytes_at m 20 (le_bytes 4 (unat i))" "bytes_at m 24 (le_bytes 2 (unat s))"
    using assms by (auto simp only: bytes_at_append length_le_bytes) simp_all
  have "c_load m 16 = Some f" "c_load m 26 = Some g" "c_load m 27 = Some 0"
    using nth [of 0] nth [of 10] nth [of 11] by (simp_all add: ndmsg_bytes_def nth_append)
  then show ?thesis
    using u32.load_bytes [OF at(1)] u16.load_bytes [OF at(2)] by (simp add: read_ndmsg_def)
qed

definition new_neigh :: neigh where
  "new_neigh = \<lparr>ce_refcnt = 1, ce_ops = 0, ce_cache = None, ce_msgtype = 0, ce_flags = 0, ce_mask = 0, ce_data = neigh_zero\<rparr>"

lemma family_byte:
  fixes f :: "32 word"
  assumes "uint f < 256"
  shows "ucast (word_of_int (uint f) :: 8 word) = f" "sint f = uint f"
proof -
  have n: "int (unat f) < 256"
    using assms by simp
  then have "unat f < 256"
    by linarith
  then have u: "unat (word_of_nat (unat f) :: 8 word) = unat f"
    by (intro unat_word_small) simp
  have "(word_of_int (uint f) :: 8 word) = word_of_nat (unat f)"
    by simp
  then show "ucast (word_of_int (uint f) :: 8 word) = f"
    by (metis u of_nat_unat ucast_id)
  show "sint f = uint f"
    using sint_small [of "unat f"] assms by simp
qed

text \<open>The entry that is read.\<close>

definition neigh_reread :: "neigh \<Rightarrow> neigh" where
  "neigh_reread t = (let d = ce_data t; ll = (ce_mask t AND NEIGH_ATTR_LLADDR \<noteq> 0) in new_neigh
     \<lparr>ce_msgtype := RTM_NEWNEIGH, ce_mask := 0xEB OR (if ll then NEIGH_ATTR_LLADDR else 0),
      ce_data := neigh_zero\<lparr>n_family := n_family d, n_ifindex := n_ifindex d,
        n_state := (if ce_mask t AND NEIGH_ATTR_STATE \<noteq> 0 then n_state d else NUD_PERMANENT),
        n_flags := (if ce_mask t AND NEIGH_ATTR_FLAGS \<noteq> 0 then n_flags d else 0),
        n_lladdr := (if ll then Some (let bs = addr_bytes (the (n_lladdr d)); a = attr_addr AF_UNSPEC bs
                       in nl_addr_set_family a (nl_addr_guess_family a)) else None),
        n_dst := Some (attr_addr (uint (n_family d)) (addr_bytes (the (n_dst d))))\<rparr>\<rparr>)"

lemma neigh_index:
  assumes t: "neigh_tmpl t" and m: "msg_holds msg h (neigh_head t @ attrs_bytes (neigh_attr_list t))"
  shows "\<exists>tb p. nlmsg_parse (nm_nlh msg) 0 12 [] NDA_MAX (Some neigh_policy) = Some (0, tb)
    \<and> tb ! 1 = Some p \<and> attr_at (nm_nlh msg) p (addr_bytes (the (n_dst (ce_data t)))) \<and> tb ! 3 = None \<and> tb ! 4 = None
    \<and> (if ce_mask t AND NEIGH_ATTR_LLADDR = 0 then tb ! 2 = None
       else \<exists>q. tb ! 2 = Some q \<and> attr_at (nm_nlh msg) q (addr_bytes (the (n_lladdr (ce_data t)))))"
proof -
  let ?as = "neigh_attr_list t" and ?m = "nm_nlh msg"
  have h: "length (neigh_head t) = up4 12"
    by (simp add: neigh_head_def up4_def)
  note A = nlmsg_parse_area [OF m h]
  have pl: "attrs_plain ?as" "list_all (\<lambda>(t, d). policy_fits (Some neigh_policy) 4 t d) ?as"
    using t by (auto simp: neigh_attr_list_def attrs_plain_def neigh_tmpl_def policy_fits_def policy_accepts_def neigh_policy_def)
  have "length (attrs_bytes ?as) < 2 ^ 31"
    using msg_holds_parts(4,5) [OF m] by simp
  then obtain tb where tb: "nla_parse ?m (int 4) (int (16 + length (neigh_head t))) (int (length (attrs_bytes ?as))) (Some neigh_policy) = Some (0, tb)"
      "indexes ?m 4 ?as tb"
    using nla_parse_policy [OF A(4) _ pl(1) _ pl(2)] by auto
  then have p: "nlmsg_parse ?m 0 12 [] NDA_MAX (Some neigh_policy) = Some (0, tb)"
    using A(1-3) by (simp add: nlmsg_parse_def)
  have none: "tb ! unat k = None" if "map_of (rev ?as) k = None" "unat k \<le> 4" for k :: "16 word"
    using tb(2) that by (auto simp: indexes_def)
  show ?thesis
    using p indexes_attr [OF tb(2), of 1] indexes_attr [OF tb(2), of 2] none [of 2] none [of 3] none [of 4]
    by (auto simp: neigh_attr_list_def split: if_splits)
qed

lemma neigh_read_built:
  assumes t: "neigh_tmpl t" and m: "msg_holds msg (header_bytes (word_of_int RTM_NEWNEIGH) f 0 0) (neigh_head t @ attrs_bytes (neigh_attr_list t))"
    and fam: "a_family (the (n_dst (ce_data t))) = uint (n_family (ce_data t))" "uint (n_family (ce_data t)) < 256"
  shows "neigh_read (\<lambda>_. True) master (nm_nlh msg) 0 new_neigh = Some (0, neigh_reread t)"
proof -
  let ?m = "nm_nlh msg" and ?d = "ce_data t"
  have ty: "hdr_type ?m 0 = Some (word_of_int RTM_NEWNEIGH)"
    using msg_holds_parts [OF m] m u16.load_bytes [of ?m 4 "word_of_int RTM_NEWNEIGH"]
    by (simp add: hdr_type_def msg_holds_def msg_text_def bytes_at_append header_bytes_def)
  have "bytes_at ?m 16 (neigh_head t)"
    using m by (simp add: msg_holds_def msg_text_def bytes_at_append header_bytes_def)
  note nd = read_ndmsg_bytes [OF this [unfolded neigh_head_def], of neigh_zero] 
  obtain tb p where tb: "nlmsg_parse ?m 0 12 [] NDA_MAX (Some neigh_policy) = Some (0, tb)" "tb ! 1 = Some p"
      "attr_at ?m p (addr_bytes (the (n_dst ?d)))" "tb ! 3 = None" "tb ! 4 = None"
    and ll: "if ce_mask t AND NEIGH_ATTR_LLADDR = 0 then tb ! 2 = None
       else \<exists>q. tb ! 2 = Some q \<and> attr_at ?m q (addr_bytes (the (n_lladdr ?d)))"
    using neigh_index [OF t m] by blast
  have sz: "length (addr_bytes (the (n_dst ?d))) < 2 ^ 16" "ce_mask t AND NEIGH_ATTR_LLADDR \<noteq> 0 \<Longrightarrow> length (addr_bytes (the (n_lladdr ?d))) < 2 ^ 16"
    using t by (auto simp: neigh_tmpl_def)
  have br: "n_family ?d \<noteq> 7"
    using t by (simp add: neigh_tmpl_def)
  note F = family_byte [OF fam(2)]
  note D = nl_addr_alloc_attr_bytes [OF tb(3) sz(1), of "\<lambda>_. True"]
  show ?thesis
  proof (cases "ce_mask t AND NEIGH_ATTR_LLADDR = 0")
    case True
    then show ?thesis
      using ty nd tb ll D F br
      by (simp add: neigh_read_def read_lladdr_def read_dst_def read_cacheinfo_def read_probes_def read_master_def
          nlmsg_data_def new_neigh_def neigh_reread_def fam Let_def neigh_zero_def)
  next
    case False
    then obtain q where q: "tb ! 2 = Some q" "attr_at ?m q (addr_bytes (the (n_lladdr ?d)))"
      using ll by auto
    show ?thesis
      using ty nd tb q D F br False nl_addr_alloc_attr_bytes [OF q(2) sz(2), of "\<lambda>_. True"]
      by (simp add: neigh_read_def read_lladdr_def read_dst_def read_cacheinfo_def read_probes_def read_master_def
          nlmsg_data_def new_neigh_def neigh_reread_def fam Let_def neigh_zero_def)
  qed
qed

section \<open>Properties\<close>

lemma neigh_env_simps [simp]:
  "e_ops (neigh_env mal) t = neigh_obj_ops mal" "e_cops (neigh_env mal) t = rtnl_neigh_ops" "e_mal (neigh_env mal) = mal"
  by (simp_all add: neigh_env_def)

lemma nl_inv_start: "nl_inv E good oid nl_start A"
  by (auto simp: nl_inv_def nl_start_def)

lemma new_neigh_fresh: "neigh_fresh new_neigh"
  by (simp add: neigh_fresh_def neigh_good_def new_neigh_def neigh_zero_def addr_opt_wf_def)

lemma rtnl_neigh_alloc_eq:
  "rtnl_neigh_alloc (neigh_env mal) s = Some (if mal 112 then (Some (nnext s), s\<lparr>nobjs := (nobjs s)(nnext s \<mapsto> new_neigh),
     nlinks := nl_init_list_head (Obj (nnext s)) (nlinks s), nnext := nnext s + 1\<rparr>) else (None, s))"
  by (simp add: rtnl_neigh_alloc_def nl_object_alloc_def neigh_obj_ops_def new_neigh_def Let_def)

text \<open>
  C17. Reading a neighbour from a message is safe and gives a sound entry.  For any message in a
  block of initialised bytes that has five more bytes after it, whatever its attributes are, and
  for any allocator, \<open>rtnl_neigh_parse\<close> returns: the reads of the addresses, of the sixteen bytes
  of cache information and of the probe counter stay inside the message, because the policy has
  refused shorter attributes.  Either the call fails with a documented error, the half-read
  object is gone and no other object has changed, or it gives a new object with one reference,
  in no cache, whose addresses are sound, so that the laws of the caches hold for it.  The
  invariant of the caches is kept.
\<close>

theorem rtnl_neigh_parse_safe:
  assumes inv: "nl_inv (neigh_env mal) neigh_good neigh_oid s A" and m: "msg_in m q n"
  shows "\<exists>err r s'. rtnl_neigh_parse (neigh_env mal) master m (int q) s = Some (err, r, s')
    \<and> nl_inv (neigh_env mal) neigh_good neigh_oid s' A
    \<and> (case r of None \<Rightarrow> err \<in> {- NLE_NOMEM, - NLE_INVAL, - NLE_RANGE, - NLE_MSG_TOOSHORT} \<and> nobjs s' = nobjs s
       | Some p \<Rightarrow> err = 0 \<and> (\<exists>ob. nobjs s' = (nobjs s)(p \<mapsto> ob) \<and> nobjs s p = None
           \<and> neigh_good ob \<and> ce_refcnt ob = 1 \<and> ce_cache ob = None))"
proof (cases "mal 112")
  case False
  then show ?thesis
    using inv by (simp add: rtnl_neigh_parse_def rtnl_neigh_alloc_eq rtnl_neigh_put_def nl_object_put_def)
next
  case True
  let ?p = "nnext s"
  define s1 where "s1 = s\<lparr>nobjs := (nobjs s)(?p \<mapsto> new_neigh), nlinks := nl_init_list_head (Obj ?p) (nlinks s), nnext := ?p + 1\<rparr>"
  have al: "rtnl_neigh_alloc (neigh_env mal) s = Some (Some ?p, s1)"
    using True by (simp add: rtnl_neigh_alloc_eq s1_def)
  obtain err ob where ob: "neigh_read mal master m (int q) new_neigh = Some (err, ob)" "neigh_fresh ob"
      "err \<in> {0, - NLE_NOMEM, - NLE_INVAL, - NLE_RANGE, - NLE_MSG_TOOSHORT}"
    using neigh_read_safe [OF m new_neigh_fresh] by blast
  let ?s2 = "set_obj ?p ob s1"
  have n: "nobjs s1 ?p = Some new_neigh" "nobjs ?s2 ?p = Some ob" "nobjs s ?p = None" "nobjs ?s2 = (nobjs s)(?p \<mapsto> ob)"
    using inv by (simp_all add: s1_def set_obj_def nl_inv_def)
  have i2: "nl_inv (neigh_env mal) neigh_good neigh_oid ?s2 A"
    using al ob(2) by (intro nk.object_alloc_ok [OF inv]) (auto simp: rtnl_neigh_alloc_def neigh_fresh_def)
  have f: "neigh_good ob" "ce_refcnt ob = 1" "ce_cache ob = None" "held ?s2 ob = 0"
    using ob(2) by (simp_all add: neigh_fresh_def held_def)
  have put: "rtnl_neigh_put (neigh_env mal) (Some ?p) ?s2 = Some (release_obj ?p ?s2)"
      "nl_inv (neigh_env mal) neigh_good neigh_oid (release_obj ?p ?s2) A"
    using nk.object_put_ok [OF i2 n(2)] f by (simp_all add: rtnl_neigh_put_def)
  have "nobjs (release_obj ?p ?s2) = nobjs s"
    using n(3,4) by (simp add: release_obj_def fun_upd_idem)
  then show ?thesis
    using al n ob(1,3) put i2 f by (cases "err = 0") (auto simp: rtnl_neigh_parse_def)
qed

definition sample_msg :: "byte list" where
  "sample_msg = le_bytes 4 32 @ le_bytes 2 28 @ replicate 10 0 @ ndmsg_bytes 2 3 2 0 @ [4, 0, 1, 0]"

theorem rtnl_neigh_parse_safe_witness:
  "\<exists>err r s'. rtnl_neigh_parse (neigh_env (\<lambda>_. True)) (\<lambda>_. None) (map Some (sample_msg @ replicate 8 0)) (int 0) nl_start = Some (err, r, s')
    \<and> nl_inv (neigh_env (\<lambda>_. True)) neigh_good neigh_oid s' (\<lambda>_. [])
    \<and> (case r of None \<Rightarrow> err \<in> {- NLE_NOMEM, - NLE_INVAL, - NLE_RANGE, - NLE_MSG_TOOSHORT} \<and> nobjs s' = nobjs nl_start
       | Some p \<Rightarrow> err = 0 \<and> (\<exists>ob. nobjs s' = (nobjs nl_start)(p \<mapsto> ob) \<and> nobjs (nl_start :: rtnl_neigh nlstate) p = None
           \<and> neigh_good ob \<and> ce_refcnt ob = 1 \<and> ce_cache ob = None))"
proof -
  have "bytes_at (map Some (sample_msg @ replicate 8 0)) 0 (le_bytes 4 (unat (32 :: 32 word)))"
    by (simp add: bytes_at_def sample_msg_def)
  from u32.load_bytes [OF this] have "msg_in (map Some (sample_msg @ replicate 8 0)) 0 32"
    by (auto simp: msg_in_def initialised_def hdr_len_def sample_msg_def)
  from rtnl_neigh_parse_safe [OF nl_inv_start this, of "\<lambda>_. True" "\<lambda>_. None" "\<lambda>_. []"] show ?thesis .
qed

text \<open>
  An entry that the wire carries in full: it has the attributes that identify it, and a
  destination of its own family with the prefix length of a full address.
\<close>

definition neigh_sendable :: "neigh \<Rightarrow> bool" where
  "neigh_sendable t \<longleftrightarrow> neigh_tmpl t \<and> ce_mask t AND neigh_id_attrs_get t = neigh_id_attrs_get t
     \<and> a_family (the (n_dst (ce_data t))) = uint (n_family (ce_data t)) \<and> uint (n_family (ce_data t)) < 256
     \<and> a_prefixlen (the (n_dst (ce_data t))) = 8 * uint (a_len (the (n_dst (ce_data t))))"

lemma neigh_reread_identity:
  assumes "neigh_sendable t"
  shows "neigh_good (neigh_reread t)" "same_id neigh_oid (neigh_reread t) t"
proof -
  let ?d = "ce_data t"
  have t: "neigh_tmpl t" and id: "ce_mask t AND neigh_id_attrs_get t = neigh_id_attrs_get t"
    and fam: "a_family (the (n_dst ?d)) = uint (n_family ?d)" "uint (n_family ?d) < 256"
    and pre: "a_prefixlen (the (n_dst ?d)) = 8 * uint (a_len (the (n_dst ?d)))"
    using assms by (auto simp: neigh_sendable_def)
  obtain a where a: "n_dst ?d = Some a" "addr_wf a" "length (addr_bytes a) \<le> 1024" "length (addr_bytes a) = unat (a_len a)"
    using neigh_good_addr(2) [of t] t length_addr_bytes by (auto simp: neigh_tmpl_def)
  have br: "n_family ?d \<noteq> 7"
    using t by (simp add: neigh_tmpl_def)
  have w: "addr_wf (attr_addr (uint (n_family ?d)) (addr_bytes a))"
    using a(3) fam(2) by (intro attr_addr_wf) auto
  have "unat (a_len (attr_addr (uint (n_family ?d)) (addr_bytes a))) = unat (a_len a)"
    using a(3,4) by (simp add: attr_addr_def unat_word_small)
  then have "addr_id (attr_addr (uint (n_family ?d)) (addr_bytes a)) = addr_id a"
    using a fam pre by (simp add: addr_id_def word_unat_eq_iff [of _ 0])
  then show "same_id neigh_oid (neigh_reread t) t"
    using a br id by (simp add: same_id_def neigh_oid_def neigh_id_attrs_get_def neigh_reread_def Let_def new_neigh_def bit.conj_disj_distrib2)
  have "addr_wf (nl_addr_set_family c (nl_addr_guess_family c))"
    if "c = attr_addr AF_UNSPEC (addr_bytes (the (n_lladdr ?d)))" "ce_mask t AND NEIGH_ATTR_LLADDR \<noteq> 0" for c
  proof -
    have "addr_wf c" "0 \<le> nl_addr_guess_family c" "nl_addr_guess_family c \<le> INT_MAX"
      using that t attr_addr_wf [of "addr_bytes (the (n_lladdr ?d))" AF_UNSPEC] by (simp_all add: neigh_tmpl_def nl_addr_guess_family_def)
    then show ?thesis by (simp add: addr_wf_def nl_addr_set_family_def)
  qed
  then show "neigh_good (neigh_reread t)"
    using a w by (simp add: neigh_good_def neigh_reread_def Let_def new_neigh_def neigh_zero_def addr_opt_wf_def)
qed

text \<open>The state after the allocation of an entry \<open>ob\<close>.\<close>

definition with_neigh :: "neigh \<Rightarrow> rtnl_neigh nlstate \<Rightarrow> rtnl_neigh nlstate" where
  "with_neigh ob s = s\<lparr>nobjs := (nobjs s)(nnext s \<mapsto> ob), nlinks := nl_init_list_head (Obj (nnext s)) (nlinks s), nnext := nnext s + 1\<rparr>"

lemma neigh_sent_and_read:
  assumes "neigh_sendable t" "4096 \<le> unat default_msg_size" "unat default_msg_size \<le> 2 ^ 30"
  shows "\<exists>msg. rtnl_neigh_build_add_request (\<lambda>_. True) default_msg_size t flags = Some (0, Some msg)
    \<and> rtnl_neigh_parse (neigh_env (\<lambda>_. True)) master (nm_nlh msg) 0 s = Some (0, Some (nnext s), with_neigh (neigh_reread t) s)"
proof -
  have t: "neigh_tmpl t" "a_family (the (n_dst (ce_data t))) = uint (n_family (ce_data t))" "uint (n_family (ce_data t)) < 256"
    using assms(1) by (auto simp: neigh_sendable_def)
  obtain msg where msg: "rtnl_neigh_build_add_request (\<lambda>_. True) default_msg_size t flags = Some (0, Some msg)"
    "msg_holds msg (header_bytes (word_of_int RTM_NEWNEIGH) (word_of_int flags) 0 0) (neigh_head t @ attrs_bytes (neigh_attr_list t))"
    using build_neigh_msg_holds [OF t(1) assms(2,3), of RTM_NEWNEIGH flags] by (auto simp: rtnl_neigh_build_add_request_def)
  then show ?thesis
    using neigh_read_built [OF t(1) msg(2) t(2,3), of master]
    by (simp add: rtnl_neigh_parse_def rtnl_neigh_alloc_eq set_obj_def with_neigh_def Let_def)
qed

definition sample_neigh :: neigh where
  "sample_neigh = new_neigh\<lparr>ce_mask := 0x6E, ce_data := neigh_zero\<lparr>n_family := 2, n_ifindex := 3, n_state := 2,
     n_lladdr := Some (attr_addr AF_LLC [2, 0, 0, 1, 2, 3]), n_dst := Some (attr_addr AF_INET [10, 0, 0, 1])\<rparr>\<rparr>"

lemma sample_sendable: "neigh_sendable sample_neigh"
  by (simp add: neigh_sendable_def sample_neigh_def neigh_tmpl_def neigh_good_def addr_opt_wf_def attr_addr_wf new_neigh_def
      neigh_id_attrs_get_def) (simp add: attr_addr_def)

text \<open>
  C18. A neighbour entry survives the wire.  For a template that is no bridge entry, has the
  attributes that identify it, a destination of its own family with a full prefix and addresses
  of at most 1024 bytes, \<open>rtnl_neigh_build_add_request\<close> builds a message, and \<open>rtnl_neigh_parse\<close>
  reads from it a new object with the family, device, state, flags, destination and link layer
  address of the template (a template without state is sent as permanent).
  \<open>nl_object_identical\<close> takes the object and the template for the same.  The prefix length
  is not part of the message: the hypothesis on it is needed.
\<close>

theorem rtnl_neigh_roundtrip:
  assumes "neigh_sendable t" "4096 \<le> unat default_msg_size" "unat default_msg_size \<le> 2 ^ 30"
  shows "\<exists>msg s'. rtnl_neigh_build_add_request (\<lambda>_. True) default_msg_size t flags = Some (0, Some msg)
    \<and> rtnl_neigh_parse (neigh_env (\<lambda>_. True)) master (nm_nlh msg) 0 s = Some (0, Some (nnext s), s')
    \<and> nobjs s' (nnext s) = Some (neigh_reread t)
    \<and> nl_object_identical (neigh_env (\<lambda>_. True)) (neigh_reread t) t = Some True"
proof -
  have "neigh_good t"
    using assms(1) by (simp add: neigh_sendable_def neigh_tmpl_def)
  then have "nl_object_identical (neigh_env (\<lambda>_. True)) (neigh_reread t) t = Some True"
    using neigh_identical_oid neigh_reread_identity [OF assms(1)] by simp
  then show ?thesis
    using neigh_sent_and_read [OF assms, of flags master s] by (auto simp: with_neigh_def)
qed

theorem rtnl_neigh_roundtrip_witness:
  "\<exists>msg s'. rtnl_neigh_build_add_request (\<lambda>_. True) 4096 sample_neigh 0x400 = Some (0, Some msg)
    \<and> rtnl_neigh_parse (neigh_env (\<lambda>_. True)) (\<lambda>_. None) (nm_nlh msg) 0 nl_start = Some (0, Some (nnext (nl_start :: rtnl_neigh nlstate)), s')
    \<and> nobjs s' (nnext (nl_start :: rtnl_neigh nlstate)) = Some (neigh_reread sample_neigh)
    \<and> nl_object_identical (neigh_env (\<lambda>_. True)) (neigh_reread sample_neigh) sample_neigh = Some True"
  by (rule rtnl_neigh_roundtrip [OF sample_sendable]) simp_all

end
