(* ===== verification/Nl_Cache_Claims.thy ===== *)
theory Nl_Cache_Claims
  imports Nl_Neigh_Msg
begin

text \<open>
  What the caches of libnl promise, for every kind of objects that obeys the laws of
  \<open>object_kinds\<close>; the examples are caches of neighbour entries.  The ghost function \<open>A\<close> of the
  invariant gives the objects of every cache in their order.
\<close>

section \<open>An example\<close>

definition neigh_kind :: "rtnl_neigh nlenv" where
  "neigh_kind = neigh_env (\<lambda>_. True)"

text \<open>A cache at address 0, and an entry at address 1 that is in no cache.\<close>

definition sample_cache :: nl_cache where
  "sample_cache = \<lparr>c_nitems = 0, c_iarg1 = 0, c_iarg2 = 0, c_refcnt = 1, c_flags = 0,
     hashtable = Some \<lparr>ht_size = 1024, ht_nodes = replicate 1024 []\<rparr>, c_ops = 0\<rparr>"

definition sample_start :: "rtnl_neigh nlstate" where
  "sample_start = \<lparr>nobjs = \<lambda>_. None, ncaches = [0 \<mapsto> sample_cache],
     nlinks = \<lparr>lnext = [Items 0 \<mapsto> Items 0], lprev = [Items 0 \<mapsto> Items 0]\<rparr>, nnext = 1, nlog = []\<rparr>"

definition sample_state :: "rtnl_neigh nlstate" where
  "sample_state = sample_start\<lparr>nobjs := [1 \<mapsto> sample_neigh], nlinks := nl_init_list_head (Obj 1) (nlinks sample_start), nnext := 2\<rparr>"

interpretation sk: object_kinds neigh_kind neigh_good neigh_oid
  unfolding neigh_kind_def by (rule nk.object_kinds_axioms)

lemma neigh_kind_laws: "object_kinds neigh_kind neigh_good neigh_oid"
  by (rule sk.object_kinds_axioms)

lemma neigh_kind_simps [simp]:
  "e_ops neigh_kind t = neigh_obj_ops (\<lambda>_. True)" "e_cops neigh_kind t = rtnl_neigh_ops" "e_mal neigh_kind n"
  by (simp_all add: neigh_kind_def)

lemma sample_alloc: "nl_cache_alloc neigh_kind 0 nl_start = (Some 0, sample_start)"
  by (simp add: nl_cache_alloc_def sample_start_def sample_cache_def nl_start_def neigh_obj_ops_def rtnl_neigh_ops_def
      nl_hash_table_alloc_def nl_init_list_head_def Let_def)

lemma sample_state_eq:
  "\<exists>s1. nl_object_alloc neigh_kind 0 sample_start = Some (Some 1, s1) \<and> set_obj 1 sample_neigh s1 = sample_state"
  by (simp add: nl_object_alloc_def neigh_obj_ops_def sample_start_def sample_state_def set_obj_def Let_def)

lemma sample_good: "neigh_good sample_neigh" "ce_refcnt sample_neigh = 1" "ce_cache sample_neigh = None" "ce_ops sample_neigh = 0"
  by (simp_all add: sample_neigh_def neigh_good_def new_neigh_def addr_opt_wf_def attr_addr_wf)

lemma sample_inv: "nl_inv neigh_kind neigh_good neigh_oid sample_state (\<lambda>_. [])"
proof -
  have "nl_inv neigh_kind neigh_good neigh_oid sample_start ((\<lambda>_. [])(0 := []))"
    by (rule sk.cache_alloc_ok [OF nl_inv_start sample_alloc]) (simp add: rtnl_neigh_ops_def)
  moreover have "((\<lambda>_. [])(0 := [])) = (\<lambda>_ :: nat. [] :: nat list)"
    by auto
  ultimately show ?thesis
    using sk.object_alloc_ok [OF _ _ sample_good(2,3)] sample_state_eq by metis
qed

lemma sample_oid: "neigh_oid sample_neigh = Some (2, 3, 2, [10, 0, 0, 1], 32)"
  by (simp add: neigh_oid_def sample_neigh_def neigh_id_attrs_get_def addr_id_def Let_def) (simp add: attr_addr_def)

lemma sample_parts:
  "ncaches sample_state 0 = Some sample_cache" "nobjs sample_state 1 = Some sample_neigh" "nlog sample_state = []"
  by (simp_all add: sample_state_def sample_start_def)

lemma sample_arrives: "arrives neigh_kind neigh_good neigh_oid sample_state [] 0 sample_cache 1 sample_neigh"
  by (simp add: arrives_def may_add_def sample_parts sample_good sample_oid sample_cache_def rtnl_neigh_ops_def neigh_obj_ops_def)
    (simp add: sample_state_def nl_init_list_head_def nl_list_empty_def)

section \<open>Adding and removing\<close>

text \<open>
  C12. Adding an object to a cache.  For a kind that obeys the laws, a sound state and an
  object of the kind of the cache that is in no list, \<open>nl_cache_add\<close> refuses exactly when the cache
  has a hash table and holds an identical object (\<open>-NLE_EXIST\<close>) or there is no memory for the
  node (\<open>-NLE_NOMEM\<close>), and then the state, the reference counts included, is as before.  Otherwise
  the object becomes the last one of the cache, the counter of the cache goes up by one, the
  object gets one reference for the list and one for the hash table, nothing else changes, and
  list, counter, table and references agree again.
\<close>

theorem nl_cache_add_correct:
  assumes "object_kinds E good oid" "nl_inv E good oid s A" "may_add E good s c ca p ob" "oid ob \<noteq> None"
    and "nl_list_empty (nlinks s) (Obj p) = Some True" "ce_refcnt ob + 1 < INT_MAX"
  shows "if hashtable ca \<noteq> None \<and> find_id oid s (A c) ob \<noteq> None then nl_cache_add E c p s = Some (- NLE_EXIST, s)
    else if hashtable ca \<noteq> None \<and> \<not> e_mal E 24 then nl_cache_add E c p s = Some (- NLE_NOMEM, s)
    else \<exists>s'. nl_cache_add E c p s = Some (0, s')
      \<and> nobjs s' = (nobjs s)(p \<mapsto> ob\<lparr>ce_cache := Some c, ce_refcnt := ce_refcnt ob + refs_held ca\<rparr>)
      \<and> (\<exists>ht. ncaches s' = (ncaches s)(c \<mapsto> ca\<lparr>hashtable := ht, c_nitems := c_nitems ca + 1\<rparr>))
      \<and> nlog s' = nlog s \<and> cache_entries s' c = Some (A c @ [p]) \<and> nl_inv E good oid s' (A(c := A c @ [p]))"
proof -
  note ok = object_kinds.nl_cache_add_ok [OF assms]
  show ?thesis
  proof (cases "add_error E oid s ca (A c) ob = 0")
    case False
    then show ?thesis
      using ok(1) by (auto simp: add_error_def split: if_splits)
  next
    case True
    then obtain s' where s': "nl_cache_add E c p s = Some (0, s')" "added s c ca p (ob\<lparr>ce_refcnt := ce_refcnt ob + 1\<rparr>) s'"
        "nl_inv E good oid s' (A(c := A c @ [p]))"
      using ok(2) by blast
    then obtain ht where ht: "ncaches s' = (ncaches s)(c \<mapsto> ca\<lparr>hashtable := ht, c_nitems := c_nitems ca + 1\<rparr>)"
      by (auto simp: added_def)
    then have "cache_entries s' c = Some (A c @ [p])"
      using cache_wf_entries [OF nl_inv_cache [OF s'(3)]] by simp
    then show ?thesis
      using True s' ht by (auto simp: add_error_def added_def member_def split: if_splits)
  qed
qed

theorem nl_cache_add_correct_witness:
  "\<exists>s'. nl_cache_add neigh_kind 0 1 sample_state = Some (0, s')
    \<and> nobjs s' = [1 \<mapsto> sample_neigh\<lparr>ce_cache := Some 0, ce_refcnt := 3\<rparr>] \<and> cache_entries s' 0 = Some [1]"
  using nl_cache_add_correct [OF neigh_kind_laws sample_inv, of 0 sample_cache 1 sample_neigh] sample_arrives
  by (simp add: arrives_def find_id_def sample_cache_def sample_good refs_held_def) (auto simp: sample_state_def)

text \<open>
  C13. Removing an object from its cache.  In a sound state, \<open>nl_cache_remove\<close> takes the object
  out of the list and of the hash table, lowers the counter and gives the references of the cache
  back: an object that nobody else references is freed, any other one stays, with the
  references of its other owners.  No other object changes, and the state is sound again.
\<close>

theorem nl_cache_remove_correct:
  assumes "object_kinds E good oid" "nl_inv E good oid s A" "ncaches s c = Some ca" "p \<in> set (A c)" "nobjs s p = Some ob"
  shows "\<exists>s'. nl_cache_remove E p s = Some s'
    \<and> nobjs s' = (nobjs s)(p := if ce_refcnt ob = refs_held ca then None
                     else Some (ob\<lparr>ce_cache := None, ce_refcnt := ce_refcnt ob - refs_held ca\<rparr>))
    \<and> (\<exists>ht. ncaches s' = (ncaches s)(c \<mapsto> ca\<lparr>hashtable := ht, c_nitems := c_nitems ca - 1\<rparr>))
    \<and> nlog s' = nlog s \<and> cache_entries s' c = Some (remove1 p (A c)) \<and> nl_inv E good oid s' (A(c := remove1 p (A c)))"
proof -
  obtain s' where s': "nl_cache_remove E p s = Some s'" "removed s c ca p ob s'" "nl_inv E good oid s' (A(c := remove1 p (A c)))"
    by (rule object_kinds.cache_remove_ok [OF assms])
  then obtain ht where ht: "ncaches s' = (ncaches s)(c \<mapsto> ca\<lparr>hashtable := ht, c_nitems := c_nitems ca - 1\<rparr>)"
    by (auto simp: removed_def)
  then have "cache_entries s' c = Some (remove1 p (A c))"
    using cache_wf_entries [OF nl_inv_cache [OF s'(3)]] by simp
  then show ?thesis
    using s' ht by (auto simp: removed_def outside_def)
qed

text \<open>The example after the addition.\<close>

lemma sample_added:
  obtains s ca where "nl_cache_add neigh_kind 0 1 sample_state = Some (0, s)" "nl_inv neigh_kind neigh_good neigh_oid s ((\<lambda>_. [])(0 := [1]))"
    "ncaches s 0 = Some ca" "hashtable ca \<noteq> None" "nobjs s = [1 \<mapsto> sample_neigh\<lparr>ce_cache := Some 0, ce_refcnt := 3\<rparr>]"
proof -
  have a: "may_add neigh_kind neigh_good sample_state 0 sample_cache 1 sample_neigh" "neigh_oid sample_neigh \<noteq> None"
      "nl_list_empty (nlinks sample_state) (Obj 1) = Some True" "ce_refcnt sample_neigh + 1 < INT_MAX"
    using sample_arrives by (simp_all add: arrives_def)
  have "add_error neigh_kind neigh_oid sample_state sample_cache [] sample_neigh = 0"
    by (simp add: add_error_def find_id_def)
  then obtain s where s: "nl_cache_add neigh_kind 0 1 sample_state = Some (0, s)"
      "added sample_state 0 sample_cache 1 (sample_neigh\<lparr>ce_refcnt := 2\<rparr>) s" "nl_inv neigh_kind neigh_good neigh_oid s ((\<lambda>_. [])(0 := [1]))"
    using sk.nl_cache_add_ok(2) [OF sample_inv a] sample_good by auto
  then obtain ht where "ncaches s 0 = Some (sample_cache\<lparr>hashtable := ht, c_nitems := 1\<rparr>)" "ht \<noteq> None"
    by (auto simp: added_def sample_cache_def)
  moreover have "nobjs s = [1 \<mapsto> sample_neigh\<lparr>ce_cache := Some 0, ce_refcnt := 3\<rparr>]"
    using s(2) by (simp add: added_def member_def refs_held_def sample_cache_def sample_state_def)
  ultimately show thesis
    using that s(1,3) by simp
qed

theorem nl_cache_remove_correct_witness:
  "\<exists>s s'. nl_cache_add neigh_kind 0 1 sample_state = Some (0, s) \<and> nl_cache_remove neigh_kind 1 s = Some s'
    \<and> nobjs s' = [1 \<mapsto> sample_neigh] \<and> cache_entries s' 0 = Some []"
proof -
  obtain s ca where s: "nl_cache_add neigh_kind 0 1 sample_state = Some (0, s)" "nl_inv neigh_kind neigh_good neigh_oid s ((\<lambda>_. [])(0 := [1]))"
    "ncaches s 0 = Some ca" "hashtable ca \<noteq> None" "nobjs s = [1 \<mapsto> sample_neigh\<lparr>ce_cache := Some 0, ce_refcnt := 3\<rparr>]"
    by (rule sample_added)
  show ?thesis
    using nl_cache_remove_correct [OF neigh_kind_laws s(2,3), of 1] s sample_good
    by (auto simp: refs_held_def sample_neigh_def new_neigh_def)
qed

section \<open>Searching\<close>

text \<open>
  C15. The hash table is an optimisation only.  In a sound cache with a hash table,
  \<open>nl_cache_search\<close>, which looks into the one chain of the key, returns the object that the scan of
  the list of a cache without table returns, the first one that is identical to the
  needle, with the same reference taken; both give NULL when there is none.
\<close>

theorem nl_cache_search_equiv:
  assumes "object_kinds E good oid" "nl_inv E good oid s A" "ncaches s c = Some ca" "hashtable ca = Some ht"
    and "nobjs s p = Some ob" "good ob"
  shows "nl_cache_search E c p s = do {
    ps \<leftarrow> cache_entries s c;
    r \<leftarrow> first_passing (identical_to E s p) ps;
    found r s
  }"
proof -
  note w = nl_inv_cache [OF assms(2,3)]
  have "first_passing (identical_to E s p) (A c) = Some (find_id oid s (A c) ob)"
    by (rule object_kinds.first_passing_find [OF assms(1) cache_wf_good [OF w] assms(5,6)])
  then show ?thesis
    using object_kinds.cache_search_eq [OF assms(1) w assms(3,5,6)] cache_wf_entries [OF w] by simp
qed

theorem nl_cache_search_equiv_witness:
  "nl_cache_search neigh_kind 0 1 sample_state = do {
    ps \<leftarrow> cache_entries sample_state 0;
    r \<leftarrow> first_passing (identical_to neigh_kind sample_state 1) ps;
    found r sample_state
  }"
  by (rule nl_cache_search_equiv [OF neigh_kind_laws sample_inv sample_parts(1) _ sample_parts(2) sample_good(1)])
    (simp add: sample_cache_def)

section \<open>Received objects\<close>



text \<open>An entry that the parser has read goes into the cache, and the parser gives its reference back.\<close>

lemma neigh_delivered:
  assumes inv: "nl_inv neigh_kind neigh_good neigh_oid s A" and a: "arrives neigh_kind neigh_good neigh_oid s (A c) c ca p r"
    and h: "hashtable ca \<noteq> None" and k: "neigh_oid r = Some k" and r: "ce_refcnt r = 1" "ce_msgtype r = RTM_NEWNEIGH"
  obtains s2 s3 ps ob where "nl_cache_include neigh_kind c p cb s = Some (0, s2)" "rtnl_neigh_put neigh_kind (Some p) s2 = Some s3"
    "nl_inv neigh_kind neigh_good neigh_oid s3 (A(c := ps))" "cache_entries s3 c = Some ps"
    "cache_map neigh_oid (nobjs s3) ps = (cache_map neigh_oid (nobjs s) (A c))(k \<mapsto> p)"
    "nobjs s3 p = Some ob" "ce_cache ob = Some c" "ce_refcnt ob = 2"
proof -
  let ?b = "member c ca (r\<lparr>ce_refcnt := ce_refcnt r + 1\<rparr>)"
  have m: "ncaches s c = Some ca" "nobjs s p = Some r" "ce_ops r = 0"
    using a by (auto simp: arrives_def may_add_def rtnl_neigh_ops_def)
  obtain s2 ps where s2: "cache_include neigh_kind c p NL_ACT_NEW cb s = Some (0, s2)"
      "nl_inv neigh_kind neigh_good neigh_oid s2 (A(c := ps))" "ncaches s2 c \<noteq> None"
      "cache_map neigh_oid (nobjs s2) ps = (cache_map neigh_oid (nobjs s) (A c))(k \<mapsto> p)" "nobjs s2 p = Some ?b"
    by (rule sk.include_new_map [OF inv a h k])
  have inc: "nl_cache_include neigh_kind c p cb s = Some (0, s2)"
    using s2(1) m r(2) by (simp add: nl_cache_include_def rtnl_neigh_ops_def)
  have b: "ce_refcnt ?b = 3" "ce_cache ?b = Some c" "neigh_oid (?b\<lparr>ce_refcnt := 2\<rparr>) = neigh_oid ?b"
    using h r by (simp_all add: member_def refs_held_def neigh_oid_def neigh_id_attrs_get_def)
  have "held s2 ?b < ce_refcnt ?b"
    unfolding b(1) by (simp add: held_def refs_held_def split: option.split)
  note put = sk.object_put_ok [OF s2(2) s2(5) this]
  define s3 where "s3 = set_obj p (?b\<lparr>ce_refcnt := 2\<rparr>) s2"
  have s3: "rtnl_neigh_put neigh_kind (Some p) s2 = Some s3" "nl_inv neigh_kind neigh_good neigh_oid s3 (A(c := ps))"
    using put b(1) by (simp_all add: rtnl_neigh_put_def s3_def)
  have "neigh_oid (the (nobjs s3 q)) = neigh_oid (the (nobjs s2 q))" for q
    using b(3) s2(5) by (simp add: s3_def set_obj_def)
  then have "cache_map neigh_oid (nobjs s3) ps = (cache_map neigh_oid (nobjs s) (A c))(k \<mapsto> p)"
    using s2(4) by (simp add: cache_map_def fun_eq_iff)
  moreover obtain ca3 where "ncaches s3 c = Some ca3"
    using s2(3) by (auto simp: s3_def set_obj_def)
  then have "cache_entries s3 c = Some ps"
    using cache_wf_entries [OF nl_inv_cache [OF s3(2)]] by simp
  moreover have "nobjs s3 p = Some (?b\<lparr>ce_refcnt := 2\<rparr>)" "ce_cache (?b\<lparr>ce_refcnt := 2\<rparr>) = Some c"
    using b(2) by (simp_all add: s3_def set_obj_def)
  ultimately show thesis
    using that inc s3 by simp
qed

lemma neigh_arrives:
  assumes inv: "nl_inv neigh_kind neigh_good neigh_oid s A" and r: "neigh_good r" "neigh_oid r \<noteq> None" "ce_refcnt r = 1" "ce_cache r = None"
    and c: "ncaches s c = Some ca" "c_nitems ca < INT_MAX" "\<forall>q \<in> set (A c). ce_refcnt (the (nobjs s q)) < INT_MAX"
  shows "nl_inv neigh_kind neigh_good neigh_oid (with_neigh r s) A"
    "arrives neigh_kind neigh_good neigh_oid (with_neigh r s) (A c) c ca (nnext s) r"
    "cache_map neigh_oid (nobjs (with_neigh r s)) (A c) = cache_map neigh_oid (nobjs s) (A c)"
proof -
  let ?p = "nnext s" and ?s1 = "with_neigh r s"
  have s1: "nobjs ?s1 = (nobjs s)(?p \<mapsto> r)" "ncaches ?s1 = ncaches s" "nlinks ?s1 = nl_init_list_head (Obj ?p) (nlinks s)"
    by (simp_all add: with_neigh_def)
  have "nl_object_alloc neigh_kind 0 s = Some (Some ?p, with_neigh new_neigh s)"
    using rtnl_neigh_alloc_eq [of "\<lambda>_. True" s] by (simp add: rtnl_neigh_alloc_def neigh_kind_def with_neigh_def)
  moreover have "set_obj ?p r (with_neigh new_neigh s) = ?s1"
    by (cases s) (simp add: with_neigh_def set_obj_def)
  ultimately show "nl_inv neigh_kind neigh_good neigh_oid ?s1 A"
    using sk.object_alloc_ok [OF inv _ r(3,4)] by metis
  have "nobjs s ?p = None" using inv by (simp add: nl_inv_def)
  then have fresh: "?p \<notin> set (A c)" using cache_wf_good [OF nl_inv_cache [OF inv c(1)]] by auto
  show "arrives neigh_kind neigh_good neigh_oid ?s1 (A c) c ca ?p r"
    using c r fresh neigh_good_def
    by (auto simp: arrives_def may_add_def s1 rtnl_neigh_ops_def neigh_obj_ops_def nl_init_list_head_def nl_list_empty_def)
  have "find (\<lambda>q. neigh_oid (the (nobjs ?s1 q)) = Some j) qs = find (\<lambda>q. neigh_oid (the (nobjs s q)) = Some j) qs" if "?p \<notin> set qs" for j qs
    using that by (induction qs) (auto simp: s1)
  then show "cache_map neigh_oid (nobjs ?s1) (A c) = cache_map neigh_oid (nobjs s) (A c)"
    using fresh by (simp add: cache_map_def fun_eq_iff)
qed



section \<open>Any sequence of calls\<close>


text \<open>The example is reached.\<close>

lemma sample_reached: "client_reach neigh_kind neigh_good neigh_oid sample_state"
proof -
  have "client_reach neigh_kind neigh_good neigh_oid sample_start"
    by (rule client_reach.step [OF client_reach.start client_step.new_cache [OF sample_alloc]]) (simp add: rtnl_neigh_ops_def)
  moreover obtain s1 where s1: "nl_object_alloc neigh_kind 0 sample_start = Some (Some 1, s1)" "set_obj 1 sample_neigh s1 = sample_state"
    using sample_state_eq by blast
  ultimately show ?thesis
    using client_reach.step client_step.new_object [OF s1(1) sample_good(2,3)] by (metis s1(2))
qed

lemma sample_added_reached:
  obtains s ca where "client_reach neigh_kind neigh_good neigh_oid s" "nl_inv neigh_kind neigh_good neigh_oid s ((\<lambda>_. [])(0 := [1]))"
    "ncaches s 0 = Some ca" "nobjs s = [1 \<mapsto> sample_neigh\<lparr>ce_cache := Some 0, ce_refcnt := 3\<rparr>]" "hashtable ca \<noteq> None"
proof -
  obtain s ca where s: "nl_cache_add neigh_kind 0 1 sample_state = Some (0, s)" "nl_inv neigh_kind neigh_good neigh_oid s ((\<lambda>_. [])(0 := [1]))"
    "ncaches s 0 = Some ca" "hashtable ca \<noteq> None" "nobjs s = [1 \<mapsto> sample_neigh\<lparr>ce_cache := Some 0, ce_refcnt := 3\<rparr>]"
    by (rule sample_added)
  have "client_step neigh_kind neigh_good neigh_oid sample_state s"
    using sample_arrives s(1) by (intro client_step.add [OF sample_parts(1) _ sample_parts(2)]) (auto simp: arrives_def may_add_def)
  then show thesis
    using that [OF client_reach.step [OF sample_reached] s(2,3,5,4)] by simp
qed






end
