(* ===== verification/Net_Iptables.thy ===== *)
theory Net_Iptables
  imports C_Strings
begin

text \<open>
  The address translation rules of \<^verbatim>\<open>network/code/iptable.c\<close>: the text of an \<^verbatim>\<open>iptables\<close> command
  is written with \<open>sprintf\<close> into a block of 128 characters and handed to \<open>system\<close>.  The
  shell is an argument, a function on a state of its own; the world adds the commands that were
  run and the number of blocks the process has allocated and not freed.
\<close>

section \<open>Operations\<close>

abbreviation (input) DEFAULT_CMD_SIZE :: nat where "DEFAULT_CMD_SIZE \<equiv> 128"
abbreviation (input) PROTO_TCP :: int where "PROTO_TCP \<equiv> 0"
abbreviation (input) PROTO_UDP :: int where "PROTO_UDP \<equiv> 1"

text \<open>The members \<open>cmd\<close> and \<open>cmd_len\<close> of a rule; an address is its four bytes.\<close>

record dnat_rule =
  dr_proto :: int
  dr_dport :: int
  dr_addr :: "byte list"
  dr_cport :: int
  dr_cmd :: "char cells option"
  dr_cmd_len :: int

record snat_rule =
  sr_interface :: "string option"
  sr_prefix :: int
  sr_addr :: "byte list"
  sr_cmd :: "char cells option"
  sr_cmd_len :: int

record 'k shell_world =
  sw_k :: 'k
  sw_live :: nat
  sw_run :: "string list"

text \<open>The library's \<open>inet_ntoa\<close> and \<open>sprintf\<close>, and the call of the shell.\<close>

definition inet_ntoa :: "byte list \<Rightarrow> string" where
  "inet_ntoa a = c_dec (uint (a ! 0)) @ ''.'' @ c_dec (uint (a ! 1)) @ ''.'' @ c_dec (uint (a ! 2)) @ ''.'' @ c_dec (uint (a ! 3))"

definition c_sprintf :: "char cells \<Rightarrow> string \<Rightarrow> char cells option" where
  "c_sprintf buf s = c_write buf 0 (s @ [NUL])"

definition zero_cmd :: "char cells" where
  "zero_cmd = replicate DEFAULT_CMD_SIZE (Some NUL)"

definition run_system :: "(string \<Rightarrow> 'k \<Rightarrow> int \<times> 'k) \<Rightarrow> string \<Rightarrow> 'k shell_world \<Rightarrow> int \<times> 'k shell_world" where
  "run_system sh cmd w =
     (let (ret, k) = sh cmd (sw_k w) in (ret, w\<lparr>sw_k := k, sw_run := sw_run w @ [cmd]\<rparr>))"

definition dnat_make_cmd :: "malloc_fn \<Rightarrow> dnat_rule \<Rightarrow> char cells option option" where
  "dnat_make_cmd mal rule =
     (let cip = inet_ntoa (dr_addr rule)
      in if \<not> mal (int DEFAULT_CMD_SIZE) then Some None
      else if dr_proto rule = PROTO_TCP then
        map_option Some (c_sprintf zero_cmd
          ('' PREROUTING -p tcp --dport '' @ c_itoa (dr_dport rule) @ '' -j DNAT --to-destination '' @ cip
             @ '':'' @ c_itoa (dr_cport rule)))
      else if dr_proto rule = PROTO_UDP then
        map_option Some (c_sprintf zero_cmd
          ('' PREROUTING -p udp --dport '' @ c_itoa (dr_dport rule) @ ''  -j DNAT --to-destination '' @ cip
             @ '':'' @ c_itoa (dr_cport rule)))
      else Some (Some zero_cmd))"

definition snat_make_cmd :: "malloc_fn \<Rightarrow> snat_rule \<Rightarrow> char cells option option" where
  "snat_make_cmd mal rule =
     (case sr_interface rule of None \<Rightarrow> Some None
      | Some interface \<Rightarrow>
          if sr_prefix rule < 0 \<or> sr_prefix rule > 32 then Some None
          else if \<not> mal (int DEFAULT_CMD_SIZE) then Some None
          else map_option Some (c_sprintf zero_cmd
            ('' POSTROUTING -s '' @ inet_ntoa (sr_addr rule) @ ''/'' @ c_itoa (sr_prefix rule) @ '' -o '' @ interface
               @ '' -j MASQUERADE'')))"

definition dnat_rule_set ::
    "malloc_fn \<Rightarrow> (string \<Rightarrow> 'k \<Rightarrow> int \<times> 'k) \<Rightarrow> dnat_rule option \<Rightarrow> 'k shell_world
       \<Rightarrow> (int \<times> dnat_rule option \<times> 'k shell_world) option" where
  "dnat_rule_set mal sh rule w =
     (case rule of None \<Rightarrow> Some (-1, None, w)
      | Some r \<Rightarrow> do {
          data \<leftarrow> dnat_make_cmd mal r;
          case data of None \<Rightarrow> Some (-1, Some r, w)
          | Some data \<Rightarrow> do {
              body \<leftarrow> c_str data;
              cmd \<leftarrow> c_sprintf zero_cmd (''iptables -t nat -A '' @ body);
              line \<leftarrow> c_str cmd;
              let (ret, w) = run_system sh line (w\<lparr>sw_live := sw_live w + 1\<rparr>);
              if ret > 0 then Some (0, Some (r\<lparr>dr_cmd := Some data, dr_cmd_len := int (length body)\<rparr>), w)
              else Some (-1, Some r, w)
            }
        })"

definition snat_rule_set ::
    "malloc_fn \<Rightarrow> (string \<Rightarrow> 'k \<Rightarrow> int \<times> 'k) \<Rightarrow> snat_rule option \<Rightarrow> 'k shell_world
       \<Rightarrow> (int \<times> snat_rule option \<times> 'k shell_world) option" where
  "snat_rule_set mal sh rule w =
     (case rule of None \<Rightarrow> Some (-1, None, w)
      | Some r \<Rightarrow> do {
          data \<leftarrow> snat_make_cmd mal r;
          case data of None \<Rightarrow> Some (-1, Some r, w)
          | Some data \<Rightarrow> do {
              body \<leftarrow> c_str data;
              cmd \<leftarrow> c_sprintf zero_cmd (''iptables -t nat -A '' @ body);
              line \<leftarrow> c_str cmd;
              let (ret, w) = run_system sh line (w\<lparr>sw_live := sw_live w + 1\<rparr>);
              if ret > 0 then Some (0, Some (r\<lparr>sr_cmd := Some data, sr_cmd_len := int (length body)\<rparr>), w)
              else Some (-1, Some r, w)
            }
        })"

text \<open>The argument is a C string, the list of its characters before the NUL.\<close>

definition nat_rule_del ::
    "(string \<Rightarrow> 'k \<Rightarrow> int \<times> 'k) \<Rightarrow> string option \<Rightarrow> 'k shell_world \<Rightarrow> (int \<times> 'k shell_world) option" where
  "nat_rule_del sh cmd_data w =
     (case cmd_data of None \<Rightarrow> Some (-1, w)
      | Some data \<Rightarrow> do {
          cmd \<leftarrow> c_sprintf zero_cmd (''iptables -t nat -D '' @ data);
          line \<leftarrow> c_str cmd;
          Some (run_system sh line w)
        })"

section \<open>The commands fit their blocks\<close>

lemma inet_ntoa_length: "length (inet_ntoa a) \<le> 15"
proof -
  have "length (c_dec (uint (b :: byte))) \<le> 3" for b
  proof -
    have "uint b < 2 ^ LENGTH(8)" by (rule unsigned_less)
    then show ?thesis using c_dec_length [of "uint b" 2] by simp
  qed
  from this [of "a ! 0"] this [of "a ! 1"] this [of "a ! 2"] this [of "a ! 3"]
  show ?thesis by (simp add: inet_ntoa_def)
qed

lemma c_itoa_length: "c_int_ok n \<Longrightarrow> length (c_itoa n) \<le> 11"
  using c_dec_length [of n 9] c_dec_length [of "- n" 9] by (auto simp: c_int_ok_def c_itoa_def)

lemma c_dec_no_NUL: "0 \<le> n \<Longrightarrow> NUL \<notin> set (c_dec n)"
proof -
  have "\<not> c_isdigit NUL" by (simp add: c_isdigit_def)
  then show "0 \<le> n \<Longrightarrow> NUL \<notin> set (c_dec n)" using c_dec_digits [of n] by blast
qed

lemma number_text_no_NUL: "NUL \<notin> set (c_itoa n)" "NUL \<notin> set (inet_ntoa a)"
  by (auto simp: c_itoa_def inet_ntoa_def c_dec_no_NUL)

lemma c_sprintf_str:
  assumes "NUL \<notin> set s" "length s < 128"
  shows "\<exists>b. c_sprintf zero_cmd s = Some b \<and> c_str b = Some s"
  using c_write_str [of "[]" zero_cmd s] assms by (auto simp: c_sprintf_def zero_cmd_def)

lemma c_sprintf_overflow: "128 \<le> length s \<Longrightarrow> c_sprintf zero_cmd s = None"
  by (simp add: c_sprintf_def zero_cmd_def c_write_def)

definition dnat_text :: "dnat_rule \<Rightarrow> string" where
  "dnat_text r = '' PREROUTING -p '' @ (if dr_proto r = PROTO_TCP then ''tcp'' else ''udp'') @ '' --dport ''
     @ c_itoa (dr_dport r) @ (if dr_proto r = PROTO_TCP then '' '' else ''  '') @ ''-j DNAT --to-destination ''
     @ inet_ntoa (dr_addr r) @ '':'' @ c_itoa (dr_cport r)"

lemma dnat_text_props:
  assumes "c_int_ok (dr_dport r)" "c_int_ok (dr_cport r)"
  shows "NUL \<notin> set (dnat_text r)" "length (dnat_text r) \<le> 92"
  using c_itoa_length [OF assms(1)] c_itoa_length [OF assms(2)] inet_ntoa_length [of "dr_addr r"] number_text_no_NUL
  by (simp_all add: dnat_text_def)

lemma dnat_make_cmd_text:
  assumes "c_int_ok (dr_dport r)" "c_int_ok (dr_cport r)" "dr_proto r \<in> {PROTO_TCP, PROTO_UDP}"
  shows "\<exists>b. dnat_make_cmd (\<lambda>_. True) r = Some (Some b) \<and> c_str b = Some (dnat_text r)"
  using c_sprintf_str [of "dnat_text r"] dnat_text_props [OF assms(1,2)] assms(3)
  by (auto simp: dnat_make_cmd_def dnat_text_def)

text \<open>
  C37. The command of a destination rule.  For every protocol of the two, every address and all
  port numbers an \<open>int\<close> can hold, both texts fit their blocks of 128 characters, and exactly the
  \<^verbatim>\<open>iptables\<close> command that adds the rule is run.  But the test of the result is inverted: when
  the command succeeds (status 0) the function reports failure, keeps no command for the later
  deletion and leaves its block unreachable; a failing command is reported as success.
\<close>

theorem dnat_rule_set_runs:
  assumes "c_int_ok (dr_dport r)" "c_int_ok (dr_cport r)" "dr_proto r \<in> {PROTO_TCP, PROTO_UDP}"
    and "sh (''iptables -t nat -A '' @ dnat_text r) (sw_k w) = (ret, k)"
  shows "\<exists>b. c_str b = Some (dnat_text r) \<and> dnat_rule_set (\<lambda>_. True) sh (Some r) w = Some
     (if ret > 0 then 0 else -1,
      Some (if ret > 0 then r\<lparr>dr_cmd := Some b, dr_cmd_len := int (length (dnat_text r))\<rparr> else r),
      w\<lparr>sw_k := k, sw_live := sw_live w + 1, sw_run := sw_run w @ [''iptables -t nat -A '' @ dnat_text r]\<rparr>)"
proof -
  let ?line = "''iptables -t nat -A '' @ dnat_text r"
  obtain b where b: "dnat_make_cmd (\<lambda>_. True) r = Some (Some b)" "c_str b = Some (dnat_text r)"
    using dnat_make_cmd_text [OF assms(1-3)] by blast
  have "NUL \<notin> set ?line" "length ?line < 128" using dnat_text_props [OF assms(1,2)] by simp_all
  from c_sprintf_str [OF this] obtain c where c: "c_sprintf zero_cmd ?line = Some c" "c_str c = Some ?line" by blast
  have "run_system sh ?line (w\<lparr>sw_live := sw_live w + 1\<rparr>)
      = (ret, w\<lparr>sw_k := k, sw_live := sw_live w + 1, sw_run := sw_run w @ [?line]\<rparr>)"
    using assms(4) by (simp add: run_system_def)
  then show ?thesis
    using b c by (intro exI [of _ b]) (simp add: dnat_rule_set_def del: append_Cons)
qed

definition sample_rule :: dnat_rule where
  "sample_rule = \<lparr>dr_proto = PROTO_TCP, dr_dport = 7777, dr_addr = [172, 16, 0, 2], dr_cport = 9999,
     dr_cmd = None, dr_cmd_len = 0\<rparr>"

definition sample_shell :: "unit shell_world" where
  "sample_shell = \<lparr>sw_k = (), sw_live = 0, sw_run = []\<rparr>"

theorem dnat_rule_set_runs_witness:
  "\<exists>b. c_str b = Some (dnat_text sample_rule) \<and> dnat_rule_set (\<lambda>_. True) (\<lambda>_ k. (0, k)) (Some sample_rule) sample_shell = Some
     (if (0 :: int) > 0 then 0 else -1,
      Some (if (0 :: int) > 0 then sample_rule\<lparr>dr_cmd := Some b, dr_cmd_len := int (length (dnat_text sample_rule))\<rparr> else sample_rule),
      sample_shell\<lparr>sw_k := (), sw_live := sw_live sample_shell + 1,
        sw_run := sw_run sample_shell @ [''iptables -t nat -A '' @ dnat_text sample_rule]\<rparr>)"
  by (rule dnat_rule_set_runs) (simp_all add: sample_rule_def c_int_ok_def)

text \<open>A source rule fits when the name of its interface has at most 56 characters.\<close>

definition snat_text :: "snat_rule \<Rightarrow> string \<Rightarrow> string" where
  "snat_text r i = '' POSTROUTING -s '' @ inet_ntoa (sr_addr r) @ ''/'' @ c_itoa (sr_prefix r) @ '' -o '' @ i @ '' -j MASQUERADE''"

lemma snat_make_cmd_text:
  assumes "sr_interface r = Some i" "NUL \<notin> set i" "length i \<le> 56" "0 \<le> sr_prefix r" "sr_prefix r \<le> 32"
  shows "\<exists>b. snat_make_cmd (\<lambda>_. True) r = Some (Some b) \<and> c_str b = Some (snat_text r i)"
    "length (''iptables -t nat -A '' @ snat_text r i) < 128"
proof -
  have "length (c_itoa (sr_prefix r)) \<le> 2"
    using c_dec_length [of "sr_prefix r" 1] assms(4,5) by (simp add: c_itoa_def)
  then have "length (snat_text r i) \<le> 52 + length i" "NUL \<notin> set (snat_text r i)"
    using inet_ntoa_length [of "sr_addr r"] number_text_no_NUL assms(2) by (simp_all add: snat_text_def)
  then show "\<exists>b. snat_make_cmd (\<lambda>_. True) r = Some (Some b) \<and> c_str b = Some (snat_text r i)"
    "length (''iptables -t nat -A '' @ snat_text r i) < 128"
    using c_sprintf_str [of "snat_text r i"] assms by (auto simp: snat_make_cmd_def snat_text_def)
qed

text \<open>A longer name overflows the block.\<close>

lemma snat_make_cmd_overflow:
  assumes "sr_interface r = Some i" "128 \<le> length i" "0 \<le> sr_prefix r" "sr_prefix r \<le> 32"
  shows "snat_make_cmd (\<lambda>_. True) r = None"
  using assms c_sprintf_overflow [of "snat_text r i"] by (simp add: snat_make_cmd_def snat_text_def)

lemma nat_rule_del_overflow: "109 \<le> length data \<Longrightarrow> nat_rule_del sh (Some data) w = None"
  using c_sprintf_overflow [of "''iptables -t nat -D '' @ data"] by (simp add: nat_rule_del_def)

end
