(* ===== verification/Spec2Isabelle.thy ===== *)
theory Spec2Isabelle
  imports Json_Roundtrip Nl_Cache_Claims Net_Iptables
begin

text \<open>
  A verification library for the C programs of this repository: the JSON library
  \<^verbatim>\<open>src/json-c-0.11\<close>, the netlink client of \<^verbatim>\<open>src/network/code\<close> and the messages,
  attributes, objects and caches of the netlink library bundled in
  \<^verbatim>\<open>src/network/mylibnl/libnl-3.2.25\<close>.

  \<^bold>\<open>The parts and how they interact.\<close>  In json-c a JSON value is a reference-counted object on
  the heap.  An object holds its members in a hash table that remembers the order of insertion
  (\<^verbatim>\<open>linkhash.c\<close>), an array holds its elements in a growable vector (\<^verbatim>\<open>arraylist.c\<close>), and text is
  collected in a print buffer (\<^verbatim>\<open>printbuf.c\<close>).  \<^verbatim>\<open>json_object.c\<close> builds, counts, reads and prints
  values on top of the three; \<^verbatim>\<open>json_tokener.c\<close> is a state machine that reads text and calls the
  constructors.  On the network side a netlink message is a block of bytes: a header, a family
  header, and a sequence of aligned attributes that may nest.  libnl (\<^verbatim>\<open>lib/msg.c\<close>, \<^verbatim>\<open>lib/attr.c\<close>)
  writes, walks, validates and parses such messages; \<^verbatim>\<open>network/code/nl.c\<close> is an independent,
  smaller writer with a socket, and \<^verbatim>\<open>network/code/network.c\<close> builds the requests that create
  interfaces, bring them up, move and delete them, add addresses, bridges and routes; the
  translation rules of \<^verbatim>\<open>network/code/iptable.c\<close> are commands run in a shell.  libnl's abstract
  addresses (\<^verbatim>\<open>lib/addr.c\<close>) and data (\<^verbatim>\<open>lib/data.c\<close>) are payloads of attributes that can be printed,
  parsed and compared.  Above them libnl has objects (\<^verbatim>\<open>lib/object.c\<close>), reference-counted structs of
  a kind that supplies functions to compare, copy and hash them, and caches (\<^verbatim>\<open>lib/cache.c\<close>), lists
  of objects of one kind (\<^verbatim>\<open>include/netlink/list.h\<close>) with a hash table (\<^verbatim>\<open>lib/hashtable.c\<close>).  The
  neighbour entries of \<^verbatim>\<open>lib/route/neigh.c\<close> are such a kind: a message of the kernel becomes an
  entry, which a cache adds, replaces or deletes.

  \<^bold>\<open>Conventions.\<close>  A C function is a HOL function that takes and returns the state it changes.
  Its result is an \<open>option\<close>: \<open>None\<close> stands for a call that has no defined result (a signed
  overflow, an access outside of a block or to an uninitialised or freed cell, a failed
  assertion, an abort, a loop that does not end), so a theorem that a call gives \<open>Some\<close> also
  says that none of these happens.  Error returns are values.  Allocation is an argument
  (\<open>malloc_fn\<close>), and so are the C library functions that json-c
  cannot rely on (\<open>cenv\<close>), the kernel of the netlink client (\<open>kern\<close>), the shell of the address
  translation rules, and \<open>inet_pton\<close> and \<open>inet_ntop\<close>.  Machine words are kept at
  their width wherever the code wraps; an \<open>int\<close> that must not overflow is checked.

  \<^bold>\<open>The theories.\<close>
  \<^item> \<open>C_Prelude\<close>, \<open>C_Numbers\<close>: the vocabulary, blocks of cells, loops over lists; the number
    formatting and scanning of the C library.
  \<^item> \<open>Printbuf\<close>: \<^verbatim>\<open>printbuf.c\<close>.  Invariant \<open>pb_inv\<close>, abstraction \<open>pb_text\<close>; every operation
    appends to, overwrites or clears the text without leaving the block.  Locale \<open>text_sink\<close>,
    interpreted for the function and for the macro.
  \<^item> \<open>Arraylist\<close>: \<^verbatim>\<open>arraylist.c\<close>, over \<open>al_list\<close>; locale \<open>pointer_vector\<close>.
  \<^item> \<open>Linkhash\<close>, \<open>Linkhash_Props\<close>: \<^verbatim>\<open>linkhash.c\<close>.  The representation invariant relates the
    probe sequences, the double links and the count; \<open>lh_items\<close> abstracts to a list of pairs,
    which insertion, lookup, deletion, resizing and freeing refine.  Locale \<open>ordered_dict\<close>.
  \<^item> \<open>Json_Int64\<close>: \<open>json_parse_int64\<close> of \<^verbatim>\<open>json_util.c\<close>, with a conforming scanner and with one
    that wraps around.
  \<^item> \<open>Json_Object\<close>, \<open>Json_Serializer\<close>, \<open>Json_Access\<close>: \<^verbatim>\<open>json_object.c\<close>, \<^verbatim>\<open>json_object_iterator.c\<close>
    (constructors and counting; printing; accessors, conversions and the iterator).
  \<^item> \<open>Json_Print\<close>, \<open>Json_Ownership\<close>: the serialiser against the reference printer \<open>jprint\<close>; the
    release of owned trees.
  \<^item> \<open>Json_Tokener\<close>, \<open>Json_Parse\<close>: \<^verbatim>\<open>json_tokener.c\<close>, one definition per state of the switch, and
    the loop; \<open>Json_Steps\<close>, \<open>Json_Leaves\<close>, \<open>Json_Strings\<close>, \<open>Json_Roundtrip\<close>: what the loop
    does on printed literals, numbers, strings, arrays and objects.
  \<^item> \<open>Net_Bytes\<close>, \<open>Attr_Encoding\<close>: integers on the wire (locale \<open>wire_int\<close>, four widths),
    alignment; the attribute encoding and the locale \<open>attr_builder\<close>, the interface of the two
    writers, in which the bytes of a tree of attributes are derived once.
  \<^item> \<open>Nl_Msg\<close>, \<open>Nl_Attr\<close>: \<^verbatim>\<open>lib/msg.c\<close>, \<^verbatim>\<open>lib/attr.c\<close> of libnl; \<open>Nl_Attr_Props\<close>: construction,
    nesting and parsing of what was built; \<open>Nl_Attr_Safety\<close>: parsing of arbitrary bytes.
  \<^item> \<open>C_Strings\<close>: \<open>memcmp\<close>, \<open>snprintf\<close>, \<open>strncat\<close>, \<open>strtol\<close> and the \<open>sscanf\<close> of hardware addresses;
    \<open>Nl_Addr\<close>, \<open>Nl_Addr_Props\<close>: \<^verbatim>\<open>lib/addr.c\<close> and \<^verbatim>\<open>lib/data.c\<close>, the comparison of prefixes as a
    comparison of bits, the round trip through text, and where the functions fail.
  \<^item> \<open>Nl_Hash\<close>: \<^verbatim>\<open>lib/hash.c\<close>; the mixing is reversible, and the bodies for the three alignments
    compute one function of the bytes (locale \<open>key_reader\<close>).
  \<^item> \<open>Net_Client\<close>, \<open>Net_Client_Props\<close>: \<^verbatim>\<open>network/code/nl.c\<close>; \<open>Net_Ops\<close>, \<open>Net_Ops_Props\<close>:
    \<^verbatim>\<open>network/code/network.c\<close>, the bytes its operations send, their resources, and when they
    return; \<open>Net_Iptables\<close>: \<^verbatim>\<open>network/code/iptable.c\<close>.
  \<^item> \<open>Nl_List\<close>: \<^verbatim>\<open>list.h\<close>, circular lists of nodes inside structs; insertion, removal and loops in
    terms of the list of nodes (\<open>nl_list\<close>).
  \<^item> \<open>Nl_Object\<close>, \<open>Nl_Cache\<close>: \<^verbatim>\<open>lib/object.c\<close>, \<^verbatim>\<open>lib/hashtable.c\<close> and \<^verbatim>\<open>lib/cache.c\<close> over a state with all
    objects, caches and links; a kind of objects is a record of functions.
    \<open>Nl_Cache_Props\<close>: the locale \<open>object_kinds\<close>, the laws that a kind must obey, and the invariant
    \<open>nl_inv\<close> that relates links, tables, counters and references; \<open>Nl_Cache_Ops\<close>: what every
    operation does to it, caches as maps from identities to objects, and the steps of a client.
  \<^item> \<open>Nl_Neigh\<close>: the kind of the neighbour entries, which interprets \<open>object_kinds\<close>; \<open>Nl_Neigh_Msg\<close>:
    their messages and attributes, reading of arbitrary messages and of built ones;
    \<open>Nl_Cache_Claims\<close>: the properties of caches, with neighbour entries as the example.
  \<^item> \<open>Net_Interop\<close>: what the client sends is what libnl's parser finds in it.

  \<^bold>\<open>Bounds and fuel.\<close>  \<open>json_object_put\<close> nests at most as deep as there are addresses, because
  an object whose count reached zero is not deleted again; that number is its depth bound.
  \<open>to_json_string_d\<close> has the number of addresses as its depth too, so a cyclic value has no
  result.  \<open>lh_insert_d\<close> nests insertion and resizing 31 times; each nested resize doubles an
  \<open>int\<close>, and for a well-formed table one level is reached at most.  \<open>nl_object_free_d\<close> nests twice:
  freeing an object that says it is in a cache removes it from there, which returns a reference and
  frees once more, and that call finds the object in no cache (\<open>nl_object_free_d_enough\<close>).  The parser loop and the
  repeated \<open>recvmsg\<close> are partial functions; that they return is proved (by the round trip,
  and for receiving as a condition on the kernel).  The other loops are structural or have a termination proof.

  \<^bold>\<open>Not modelled.\<close>  The file functions of \<^verbatim>\<open>json_util.c\<close>, \<^verbatim>\<open>debug.c\<close> and the number formats of other
  locales are input and output.  Of libnl the sockets and callbacks, the functions of
  \<^verbatim>\<open>lib/cache.c\<close> that receive from a socket, the cache manager, the
  routing modules other than the neighbour entries, the netfilter modules and the command line tools are left out, as are the
  dump functions, which only print, and the name service calls of \<^verbatim>\<open>lib/addr.c\<close>.  The addresses of
  a neighbour entry are values: which entries share an address is not followed.
  \<open>nlmsg_data\<close> of \<^verbatim>\<open>network/code/nl.c\<close> computes a pointer from the address of the struct instead
  of its buffer and has no caller.  The programs that list
  interfaces, the servers and the small process and file programs only make system calls.
\<close>

section \<open>Properties that span components\<close>

text \<open>The buffers that objects of the heap already have are well-formed and not too large.\<close>

definition buffers_ok :: "nat \<Rightarrow> jstate \<Rightarrow> bool" where
  "buffers_ok L s \<longleftrightarrow> (\<forall>a j. jheap s a = Some j \<longrightarrow> jo_pb_ok L j)"



text \<open>
  C1. Round trip: the text that \<open>json_object_to_json_string_ext\<close> makes of an object is parsed by
  \<open>json_tokener_parse_verbose\<close>, without an error, to a new tree that stands for the same value,
  for every combination of the format flags.  The value must nest at most 31 levels above the
  outermost one, its integers must fit 64 bits, its doubles must be finite and read back by the
  scanner, and the names of a member must be distinct and free of NUL.
\<close>

theorem print_parse_roundtrip:
  assumes e: "env_mal e = (\<lambda>_. True)" "env_scan e = scan_d64"
    and p: "jdenotes (jheap s) p v" "jfits v" "js_ok s" "buffers_ok (length (jprint flags 0 v)) s"
    and v: "readable e flags v" "nests v 31" and L: "8 * int (length (jprint flags 0 v)) + 128 \<le> INT_MAX"
  shows "\<exists>b s1 q A s2. json_object_to_json_string_ext e p flags s = Some (Some b, s1)
     \<and> c_str b = Some (jprint flags 0 v)
     \<and> json_tokener_parse_verbose e (jprint flags 0 v) s = Some (q, Some json_tokener_success, s2)
     \<and> jdenotes (jheap s2) q v \<and> owned (jheap s2) q A \<and> (\<forall>a < jnext s. jheap s2 a = jheap s a)"
proof -
  let ?n = "length (jprint flags 0 v)"
  have b: "heap_bounded s" "4 * int ?n + 64 \<le> INT_MAX" "5 < ?n + 6" "8 * int (?n + 6) + 64 \<le> INT_MAX"
    "4 * int (?n + 6) + 64 \<le> INT_MAX" "int ?n + 1 \<le> INT_MAX" using p(3) L by (simp_all add: js_ok_def)
  from printed_parses [OF e b(3,4) v(1), of 0] have "parses e (?n + 6) v (jprint flags 0 v)" by simp
  from parse_verbose_text [OF e(1) this v(2) p(3) b(5,6)] obtain q A s2 where
    q: "json_tokener_parse_verbose e (jprint flags 0 v) s = Some (q, Some json_tokener_success, s2)" "grows s s2"
      "built (jnext s) s2 q v A" by blast
  have "\<exists>b s'. json_object_to_json_string_ext e p flags s = Some (Some b, s') \<and> c_str b = Some (jprint flags 0 v)"
    by (rule to_json_string_ext_text [OF e(1) p(1,2) b(1,2)]) (use p(4) in \<open>simp add: buffers_ok_def\<close>)
  with q(1) q(2,3) [unfolded grows_def built_def holds_def]
  show ?thesis by blast
qed

theorem print_parse_roundtrip_witness:
  "\<exists>q s2. json_tokener_parse_verbose std_env ''true'' (jset 0 sample_bool (jstate_init\<lparr>jnext := 1\<rparr>))
       = Some (q, Some json_tokener_success, s2) \<and> jdenotes (jheap s2) q (JBool True)"
proof -
  let ?s = "jset 0 sample_bool (jstate_init\<lparr>jnext := 1\<rparr>)"
  have "jdenotes (jheap ?s) (Some 0) (JBool (1 \<noteq> (0::int)))" by (rule denotes_bool [of _ 0 sample_bool]) simp_all
  moreover have "js_ok ?s" "buffers_ok (length (jprint 0 0 (JBool True))) ?s"
    by (simp_all add: js_ok_def heap_bounded_def buffers_ok_def jstate_init_def jo_pb_ok_def scan_state_init_def)
  ultimately show ?thesis
    using print_parse_roundtrip [of std_env ?s "Some 0" "JBool True" 0] by (fastforce simp: std_env_def)
qed

text \<open>
  C2. No leak: parsing a printed text and dropping the result leaves the objects of the heap
  exactly as they were before the parse.
\<close>

theorem parse_put_restores:
  assumes e: "env_mal e = (\<lambda>_. True)" "env_scan e = scan_d64" and s: "js_ok s"
    and v: "readable e flags v" "nests v 31" and L: "8 * int (length (jprint flags 0 v)) + 128 \<le> INT_MAX"
  shows "\<exists>q s2 r s3. json_tokener_parse e (jprint flags 0 v) s = Some (q, s2)
     \<and> json_object_put q s2 = Some (r, s3) \<and> jheap s3 = jheap s \<and> jlog s3 = jlog s"
proof -
  let ?n = "length (jprint flags 0 v)"
  have b: "5 < ?n + 6" "8 * int (?n + 6) + 64 \<le> INT_MAX"
    "4 * int (?n + 6) + 64 \<le> INT_MAX" "int ?n + 1 \<le> INT_MAX" using L by simp_all
  from printed_parses [OF e b(1,2) v(1), of 0] have "parses e (?n + 6) v (jprint flags 0 v)" by simp
  from parse_verbose_text [OF e(1) this v(2) s b(3,4)] obtain q A s2 where
    q: "json_tokener_parse_verbose e (jprint flags 0 v) s = Some (q, Some json_tokener_success, s2)" "grows s s2" "js_ok s2"
      "built (jnext s) s2 q v A" by blast
  from q(3,4) have own: "owned (jheap s2) q A" "heap_bounded s2" "set A = {jnext s..<jnext s2}" "heap_bounded s"
    using s by (auto simp: built_def holds_def js_ok_def)
  from json_object_put_owned [OF own(1,2)] obtain r where r: "json_object_put q s2 = Some (r, remove (set A) s2)" by blast
  have "jheap (remove (set A) s2) a = jheap s a" for a
  proof (cases "a < jnext s")
    case True
    then show ?thesis using own(3) q(2) by (simp add: grows_def)
  next
    case False
    then have "jheap s a = None" using own(4) by (auto simp: heap_bounded_def)
    moreover have "jheap s2 a = None" if "\<not> a < jnext s2" using own(2) that by (auto simp: heap_bounded_def)
    ultimately show ?thesis using False own(3) by auto
  qed
  then have "jheap (remove (set A) s2) = jheap s" by (rule ext)
  moreover have "jlog (remove (set A) s2) = jlog s" using q(2) by (simp add: remove_def grows_def)
  ultimately show ?thesis using q(1) r by (auto simp: json_tokener_parse_def)
qed

theorem parse_put_restores_witness:
  "\<exists>q s2 r s3. json_tokener_parse std_env ''[1,null,[]]'' jstate_init = Some (q, s2)
     \<and> json_object_put q s2 = Some (r, s3) \<and> jheap s3 = (\<lambda>_. None)"
proof -
  have "js_ok jstate_init" by (simp add: js_ok_def heap_bounded_def jstate_init_def scan_state_init_def)
  moreover have "jprint 0 0 (JArray [JInt 1, JNull, JArray []]) = ''[1,null,[]]''" by code_simp
  ultimately have "\<exists>q s2 r s3. json_tokener_parse std_env ''[1,null,[]]'' jstate_init = Some (q, s2)
     \<and> json_object_put q s2 = Some (r, s3) \<and> jheap s3 = jheap jstate_init \<and> jlog s3 = jlog jstate_init"
    using parse_put_restores [of std_env jstate_init 0 "JArray [JInt 1, JNull, JArray []]"] by (simp add: std_env_def)
  then show ?thesis by (auto simp: jstate_init_def)
qed

text \<open>
  C4. The client and libnl agree on the request for a pair of virtual interfaces.  What
  \<open>network_veth_create\<close> of \<^verbatim>\<open>network/code\<close> sends is a message in which the parser of libnl finds
  the first name, the kind \<open>veth\<close> and, through the nests of the link information, its data and
  the peer, the second name: every parse succeeds and every comparison with \<open>nla_strcmp\<close> is 0.
\<close>

theorem veth_create_read_by_libnl:
  assumes "netlink_open kn NETLINK_ROUTE w = (0, h, w1)"
    and "length name1 \<noteq> 1" "length name1 < IFNAMSIZ" "length name2 \<noteq> 1" "length name2 < IFNAMSIZ"
    and "\<And>k. answers kn (nh_fd h) 8208 k"
  shows "\<exists>err w' bs. network_veth_create kn (\<lambda>_. True) name1 name2 w = Some (err, w')
    \<and> w_sent w' = w_sent w @ [bs] \<and> reads_veth (map Some bs) name1 name2 = Some True"
  using network_veth_create_sends [OF assms] veth_request_read [OF assms(3,5)] by blast

theorem veth_create_read_by_libnl_witness:
  "\<exists>err w' bs. network_veth_create sample_kern (\<lambda>_. True) [101, 95, 105] [118, 95, 105] sample_world = Some (err, w')
    \<and> w_sent w' = w_sent sample_world @ [bs] \<and> reads_veth (map Some bs) [101, 95, 105] [118, 95, 105] = Some True"
  by (rule veth_create_read_by_libnl [OF sample_open]) (simp_all add: sample_answers)

end
